(* ===== verification/Prelude.thy ===== *)
theory Prelude
  imports Main "HOL-Library.Word" "HOL-Library.Multiset"
begin

text \<open>
  Shared vocabulary of the development: the outcomes of a C computation
  (\<open>c_error + 'a\<close> with the sequencing operator \<open>rbind\<close>), C arrays whose
  cells may be uninitialised (\<open>'a arr\<close>) with the allocation and copy
  operations of the C library that the sources use, the conversion of an
  integer to a 32-bit \<open>int\<close>, and the generic lemmas on these types.
  Allocation is taken to succeed: no source file of the server tests the result
  of \<open>malloc\<close> except for message buffers.
\<close>

unbundle bit_operations_syntax

section \<open>Outcomes of a C computation\<close>

text \<open>
  \<open>Inl\<close> carries the reason why the computation does not go on: a failed
  \<open>assert\<close>, undefined behaviour, a call of \<open>exit\<close>, a loop that does not end or a
  system call whose result is not available.
\<close>

datatype c_error =
    Assert_failed
  | Null_deref
  | Out_of_bounds
  | Uninit_read
  | Overlap
  | Int_overflow
  | Div_by_zero
  | Use_after_free
  | Diverges
  | Abort string
  | Exit_with int string
  | Bad_shift
  | Blocked

type_synonym 'a result = "c_error + 'a"

definition rbind :: "'a result \<Rightarrow> ('a \<Rightarrow> 'b result) \<Rightarrow> 'b result" where
  "rbind m f = (case m of Inl e \<Rightarrow> Inl e | Inr x \<Rightarrow> f x)"

definition rassert :: "bool \<Rightarrow> unit result" where
  "rassert b = (if b then Inr () else Inl Assert_failed)"

section \<open>Arrays\<close>

type_synonym 'a arr = "'a option list"

definition arr_malloc :: "nat \<Rightarrow> 'a arr" where
  "arr_malloc n = replicate n None"

definition arr_realloc :: "'a arr \<Rightarrow> nat \<Rightarrow> 'a arr" where
  "arr_realloc a n = take n a @ replicate (n - length a) None"

definition arr_read :: "'a arr \<Rightarrow> nat \<Rightarrow> 'a result" where
  "arr_read a i =
     (if i < length a
      then (case a ! i of None \<Rightarrow> Inl Uninit_read | Some x \<Rightarrow> Inr x)
      else Inl Out_of_bounds)"

definition arr_write :: "'a arr \<Rightarrow> nat \<Rightarrow> 'a \<Rightarrow> 'a arr result" where
  "arr_write a i x = (if i < length a then Inr (a[i := Some x]) else Inl Out_of_bounds)"

definition regions_overlap :: "nat \<Rightarrow> nat \<Rightarrow> nat \<Rightarrow> bool" where
  "regions_overlap dst src n \<longleftrightarrow> src < dst + n \<and> dst < src + n"

text \<open>
  \<open>memcpy\<close> between two regions of one array. The C standard leaves a copy
  between overlapping regions undefined.
\<close>

definition arr_memcpy :: "'a arr \<Rightarrow> nat \<Rightarrow> nat \<Rightarrow> nat \<Rightarrow> 'a arr result" where
  "arr_memcpy a dst src n =
     (if length a < dst + n \<or> length a < src + n then Inl Out_of_bounds
      else if regions_overlap dst src n then Inl Overlap
      else Inr (take dst a @ take n (drop src a) @ drop (dst + n) a))"

text \<open>Storing a run of cells, as \<open>read\<close> does into the buffer it is given.\<close>

definition arr_store :: "'a arr \<Rightarrow> nat \<Rightarrow> 'a list \<Rightarrow> 'a arr result" where
  "arr_store a off xs =
     (if off + length xs \<le> length a
      then Inr (take off a @ map Some xs @ drop (off + length xs) a)
      else Inl Out_of_bounds)"

section \<open>Integers\<close>

definition c_int :: "int \<Rightarrow> int" where
  "c_int x = signed_take_bit 31 x"

definition INT_MAX :: int where
  "INT_MAX = 2 ^ 31 - 1"

definition umod :: "'a::len word \<Rightarrow> 'a word \<Rightarrow> 'a word result" where
  "umod a b = (if b = 0 then Inl Div_by_zero else Inr (a mod b))"

section \<open>Lemmas\<close>

named_theorems array_simps "what the array operations do on in-range arguments"

lemma rbind_Inl [simp]: "rbind (Inl e) f = Inl e"
  by (simp add: rbind_def)

lemma rbind_Inr [simp]: "rbind (Inr x) f = f x"
  by (simp add: rbind_def)

lemma rbind_eq_Inr: "rbind m f = Inr y \<longleftrightarrow> (\<exists>x. m = Inr x \<and> f x = Inr y)"
  by (cases m) auto

lemma rbind_eq_Inl: "rbind m f = Inl e \<longleftrightarrow> m = Inl e \<or> (\<exists>x. m = Inr x \<and> f x = Inl e)"
  by (cases m) auto

lemma rbind_assoc: "rbind (rbind m f) g = rbind m (\<lambda>x. rbind (f x) g)"
  by (cases m) auto

lemma rbind_cong [fundef_cong]:
  "m = m' \<Longrightarrow> (\<And>x. m' = Inr x \<Longrightarrow> f x = f' x) \<Longrightarrow> rbind m f = rbind m' f'"
  by (cases m') auto

lemma rassert_True [simp]: "rassert True = Inr ()"
  by (simp add: rassert_def)

lemma rassert_False [simp]: "rassert False = Inl Assert_failed"
  by (simp add: rassert_def)

lemma rassert_eq_Inr [simp]: "rassert b = Inr u \<longleftrightarrow> b"
  by (simp add: rassert_def)

lemma length_arr_malloc [simp]: "length (arr_malloc n) = n"
  by (simp add: arr_malloc_def)

lemma length_arr_realloc [simp]: "length (arr_realloc a n) = n"
  by (auto simp: arr_realloc_def)

lemma nth_arr_realloc [array_simps]: "i < length a \<Longrightarrow> i < n \<Longrightarrow> arr_realloc a n ! i = a ! i"
  by (auto simp: arr_realloc_def nth_append)

lemma arr_read_ok [array_simps]: "i < length a \<Longrightarrow> a ! i \<noteq> None \<Longrightarrow> arr_read a i = Inr (the (a ! i))"
  by (auto simp: arr_read_def)

lemma arr_write_ok [array_simps]: "i < length a \<Longrightarrow> arr_write a i x = Inr (a[i := Some x])"
  by (simp add: arr_write_def)

lemma arr_memcpy_ok [array_simps]:
  "dst + n \<le> length a \<Longrightarrow> src + n \<le> length a \<Longrightarrow> \<not> regions_overlap dst src n \<Longrightarrow>
   arr_memcpy a dst src n = Inr (take dst a @ take n (drop src a) @ drop (dst + n) a)"
  by (simp add: arr_memcpy_def)

lemma nth_memcpy:
  assumes "dst + n \<le> length a" "src + n \<le> length a" "i < length a"
  shows "(take dst a @ take n (drop src a) @ drop (dst + n) a) ! i =
    (if dst \<le> i \<and> i < dst + n then a ! (src + (i - dst)) else a ! i)"
proof -
  have [simp]: "min (length a - src) n = n" "min (length a) dst = dst"
    using assms by auto
  show ?thesis using assms by (auto simp: nth_append)
qed

lemma c_int_id [simp]: "- (2 ^ 31) \<le> x \<Longrightarrow> x < 2 ^ 31 \<Longrightarrow> c_int x = x"
  by (simp add: c_int_def signed_take_bit_int_eq_self)

lemma c_int_range: "- (2 ^ 31) \<le> c_int x \<and> c_int x < 2 ^ 31"
  unfolding c_int_def
  using signed_take_bit_int_greater_eq_minus_exp [of 31 x] signed_take_bit_int_less_exp [of 31 x]
  by blast

lemma unat_less_64: "unat (x :: 64 word) < 2 ^ 64"
  using unsigned_less [of x, where 'a = nat] by simp

lemma unat_less_32: "unat (x :: 32 word) < 2 ^ 32"
  using unsigned_less [of x, where 'a = nat] by simp

lemma umod_ok [simp]: "b \<noteq> 0 \<Longrightarrow> umod a b = Inr (a mod b)"
  by (simp add: umod_def)

end
