(* ===== verification/Cstring.thy ===== *)
theory Cstring
  imports Prelude
begin

text \<open>
  The functions of the C library on strings and numbers that the server uses. A C string
  is given by its characters before the terminator, so it holds no NUL; \<open>cstr\<close>
  reads one off a block of memory. \<open>atoi\<close> is undefined on a number outside
  the range of \<open>int\<close>, which is an error here; \<open>strtol\<close> saturates.
\<close>

section \<open>Model\<close>

definition NUL :: char where
  "NUL = CHR 0x00"

definition cstr :: "string \<Rightarrow> string" where
  "cstr s = takeWhile (\<lambda>c. c \<noteq> NUL) s"

text \<open>\<open>strcmp (s, t) == 0\<close> and \<open>strncmp (s, t, n) == 0\<close>.\<close>

definition strcmp0 :: "string \<Rightarrow> string \<Rightarrow> bool" where
  "strcmp0 s t \<longleftrightarrow> s = t"

definition strncmp0 :: "string \<Rightarrow> string \<Rightarrow> nat \<Rightarrow> bool" where
  "strncmp0 s t n \<longleftrightarrow> take n (s @ [NUL]) = take n (t @ [NUL])"

definition isspace :: "char \<Rightarrow> bool" where
  "isspace c \<longleftrightarrow> c = CHR '' '' \<or> (9 \<le> (of_char c :: nat) \<and> (of_char c :: nat) \<le> 13)"

definition isdigit :: "char \<Rightarrow> bool" where
  "isdigit c \<longleftrightarrow> 48 \<le> (of_char c :: nat) \<and> (of_char c :: nat) \<le> 57"

fun digits_value :: "nat \<Rightarrow> string \<Rightarrow> nat" where
  "digits_value acc [] = acc"
| "digits_value acc (c # cs) =
     (if isdigit c then digits_value (10 * acc + (of_char c - 48)) cs else acc)"

definition number_value :: "string \<Rightarrow> int" where
  "number_value s =
     (case dropWhile isspace s of
        [] \<Rightarrow> 0
      | c # cs \<Rightarrow>
          if c = CHR ''-'' then - int (digits_value 0 cs)
          else if c = CHR ''+'' then int (digits_value 0 cs)
          else int (digits_value 0 (c # cs)))"

definition atoi :: "string \<Rightarrow> int result" where
  "atoi s =
     (let v = number_value s
      in if - (2 ^ 31) \<le> v \<and> v < 2 ^ 31 then Inr v else Inl Int_overflow)"

definition strtol :: "string \<Rightarrow> int" where
  "strtol s = max (- (2 ^ 63)) (min (2 ^ 63 - 1) (number_value s))"

text \<open>The conversions \<open>%d\<close> and \<open>%u\<close> of \<open>printf\<close>.\<close>

definition digit :: "nat \<Rightarrow> char" where
  "digit d = char_of (48 + d)"

fun fmt_u :: "nat \<Rightarrow> string" where
  "fmt_u n = (if n < 10 then [digit n] else fmt_u (n div 10) @ [digit (n mod 10)])"

definition fmt_d :: "int \<Rightarrow> string" where
  "fmt_d i = (if i < 0 then CHR ''-'' # fmt_u (nat (- i)) else fmt_u (nat i))"

section \<open>Lemmas\<close>

declare fmt_u.simps [simp del]

lemma NUL_notin_cstr [simp]: "NUL \<notin> set (cstr s)"
  by (auto simp: cstr_def dest: set_takeWhileD)

lemma length_cstr: "length (cstr s) \<le> length s"
  by (simp add: cstr_def length_takeWhile_le)

lemma cstr_id [simp]: "NUL \<notin> set s \<Longrightarrow> cstr s = s"
  by (induction s) (auto simp: cstr_def)

lemma take_NUL_eq:
  assumes "NUL \<notin> set s" "NUL \<notin> set t" "length s < n"
  shows "take n (s @ [NUL]) = take n (t @ [NUL]) \<longleftrightarrow> s = t"
  using assms
proof (induction s arbitrary: t n)
  case Nil
  then show ?case by (cases t; cases n) auto
next
  case (Cons c s)
  then obtain m where n: "n = Suc m" by (cases n) auto
  with Cons show ?case by (cases t) auto
qed

lemma strncmp0_full:
  "NUL \<notin> set s \<Longrightarrow> NUL \<notin> set t \<Longrightarrow> length s < n \<Longrightarrow> strncmp0 s t n \<longleftrightarrow> s = t"
  unfolding strncmp0_def by (rule take_NUL_eq)

lemma of_char_digit: "d < 10 \<Longrightarrow> (of_char (digit d) :: nat) = 48 + d"
  by (simp add: digit_def)

lemma isdigit_digit [simp]: "d < 10 \<Longrightarrow> isdigit (digit d)"
  by (simp add: isdigit_def of_char_digit)

lemma digits_value_append:
  "list_all isdigit s \<Longrightarrow> digits_value acc (s @ t) = digits_value (digits_value acc s) t"
  by (induction s arbitrary: acc) auto

lemma fmt_u_digits: "list_all isdigit (fmt_u n)"
proof (induction n rule: fmt_u.induct)
  case (1 n)
  then show ?case by (cases "n < 10") (simp_all add: fmt_u.simps [of n])
qed

lemma digits_value_fmt_u: "digits_value 0 (fmt_u n) = n"
proof (induction n rule: fmt_u.induct)
  case (1 n)
  show ?case
  proof (cases "n < 10")
    case True
    then show ?thesis by (simp add: fmt_u.simps [of n] of_char_digit)
  next
    case False
    with 1 show ?thesis
      by (simp add: fmt_u.simps [of n] digits_value_append fmt_u_digits of_char_digit)
  qed
qed

lemma fmt_u_nonempty: "fmt_u n \<noteq> []"
  by (simp add: fmt_u.simps [of n])

lemma length_fmt_u: "n < 10 ^ k \<Longrightarrow> 0 < k \<Longrightarrow> length (fmt_u n) \<le> k"
proof (induction n arbitrary: k rule: fmt_u.induct)
  case (1 n)
  show ?case
  proof (cases "n < 10")
    case True
    with 1 show ?thesis by (simp add: fmt_u.simps [of n])
  next
    case False
    with "1.prems" obtain j where j: "k = Suc j" "0 < j"
      by (cases k; cases "k - 1") auto
    with "1.prems" have "n div 10 < 10 ^ j" by (simp add: less_mult_imp_div_less mult.commute)
    from "1.IH" [OF False this j(2)] False j show ?thesis by (simp add: fmt_u.simps [of n])
  qed
qed

lemma isdigit_not: "isdigit c \<Longrightarrow> \<not> isspace c \<and> c \<noteq> CHR ''-'' \<and> c \<noteq> CHR ''+'' \<and> c \<noteq> CHR '';'' \<and> c \<noteq> NUL"
  by (auto simp: isdigit_def isspace_def NUL_def)

lemma number_value_fmt_d: "number_value (fmt_d i) = i"
proof -
  obtain c cs where u: "fmt_u (nat \<bar>i\<bar>) = c # cs" and d: "isdigit c"
    using fmt_u_nonempty [of "nat \<bar>i\<bar>"] fmt_u_digits [of "nat \<bar>i\<bar>"]
    by (cases "fmt_u (nat \<bar>i\<bar>)") auto
  have v: "digits_value 0 (c # cs) = nat \<bar>i\<bar>" using digits_value_fmt_u [of "nat \<bar>i\<bar>"] u by simp
  show ?thesis
  proof (cases "i < 0")
    case True
    then have "fmt_d i = CHR ''-'' # c # cs" using u by (simp add: fmt_d_def)
    moreover have "\<not> isspace CHR ''-''" by (simp add: isspace_def)
    ultimately show ?thesis using v True by (simp add: number_value_def del: digits_value.simps)
  next
    case False
    then have "fmt_d i = c # cs" using u by (simp add: fmt_d_def)
    then show ?thesis using v False isdigit_not [OF d]
      by (simp add: number_value_def del: digits_value.simps)
  qed
qed

text \<open>Reading back a printed \<open>int\<close>.\<close>

lemma atoi_fmt_d: "- (2 ^ 31) \<le> i \<Longrightarrow> i < 2 ^ 31 \<Longrightarrow> atoi (fmt_d i) = Inr i"
  by (simp add: atoi_def number_value_fmt_d)

lemma fmt_u_plain: "CHR '';'' \<notin> set (fmt_u n) \<and> NUL \<notin> set (fmt_u n)"
  using fmt_u_digits [of n] isdigit_not by (auto simp: list_all_iff)

lemma fmt_d_plain: "CHR '';'' \<notin> set (fmt_d i) \<and> NUL \<notin> set (fmt_d i)"
  using fmt_u_plain [unfolded NUL_def] by (auto simp: fmt_d_def NUL_def)

end
