(* ===== verification/Ringqueue.thy ===== *)
theory Ringqueue
  imports Prelude
begin

text \<open>
  The growing ring buffer of \<open>src/src/server/queue.c\<close> and \<open>queue.h\<close>.
  The index fields are C \<open>unsigned int\<close>s, kept at their 32 bits, so that
  the wrap-around of \<open>pointer + len\<close> and of the doubled capacity is in the
  model. \<open>queue_list\<close> is the abstract queue (next element first);
  \<open>fifo\<close> is the interface of a queue, with what its clients need.
\<close>

section \<open>Model\<close>

record 'a t_queue =
  q_data :: "'a arr"
  q_pointer :: "32 word"
  q_len :: "32 word"
  q_capacity :: "32 word"

definition init_queue :: "32 word \<Rightarrow> 'a t_queue result" where
  "init_queue capacity =
     rbind (rassert (capacity > 0))
       (\<lambda>_. Inr \<lparr>q_data = arr_malloc (unat capacity), q_pointer = 0, q_len = 0,
                 q_capacity = capacity\<rparr>)"

definition queue_pop :: "'a t_queue \<Rightarrow> ('a \<times> 'a t_queue) result" where
  "queue_pop q =
     rbind (rassert (q_len q > 0))
       (\<lambda>_. rbind (arr_read (q_data q) (unat (q_pointer q)))
       (\<lambda>tmp. rbind (umod (q_pointer q + 1) (q_capacity q))
       (\<lambda>p. Inr (tmp, q\<lparr>q_len := q_len q - 1, q_pointer := p\<rparr>))))"

definition simple_push :: "'a t_queue \<Rightarrow> 'a \<Rightarrow> 'a t_queue result" where
  "simple_push q elt =
     rbind (umod (q_pointer q + q_len q) (q_capacity q))
       (\<lambda>i. rbind (arr_write (q_data q) (unat i) elt)
       (\<lambda>d. Inr (q\<lparr>q_data := d, q_len := q_len q + 1\<rparr>)))"

definition resize_queue :: "'a t_queue \<Rightarrow> 'a t_queue result" where
  "resize_queue q =
     (let old_cap = q_capacity q; old_p = q_pointer q;
          new_cap = 2 * old_cap; new_p = new_cap - old_cap + old_p
      in rbind (arr_memcpy (arr_realloc (q_data q) (unat new_cap))
                  (unat new_p) (unat old_p) (unat (old_cap - old_p)))
           (\<lambda>d. Inr (q\<lparr>q_data := d, q_capacity := new_cap, q_pointer := new_p\<rparr>)))"

definition queue_push :: "'a t_queue \<Rightarrow> 'a \<Rightarrow> 'a t_queue result" where
  "queue_push q elt =
     rbind (if q_len q = q_capacity q then resize_queue q else Inr q)
       (\<lambda>q. simple_push q elt)"

definition queue_is_empty :: "'a t_queue \<Rightarrow> bool" where
  "queue_is_empty q \<longleftrightarrow> q_len q = 0"

definition queue_length :: "'a t_queue \<Rightarrow> 32 word" where
  "queue_length q = q_len q"

definition free_queue :: "'a t_queue \<Rightarrow> unit result" where
  "free_queue q = rassert (queue_is_empty q)"

section \<open>Invariant and abstraction\<close>

definition queue_cell :: "'a t_queue \<Rightarrow> nat \<Rightarrow> nat" where
  "queue_cell q i = (unat (q_pointer q) + i) mod unat (q_capacity q)"

definition queue_inv :: "'a t_queue \<Rightarrow> bool" where
  "queue_inv q \<longleftrightarrow>
     0 < unat (q_capacity q) \<and> unat (q_capacity q) \<le> 2 ^ 31 \<and>
     unat (q_len q) \<le> unat (q_capacity q) \<and> unat (q_pointer q) < unat (q_capacity q) \<and>
     length (q_data q) = unat (q_capacity q) \<and>
     (\<forall>i < unat (q_len q). q_data q ! queue_cell q i \<noteq> None)"

definition queue_list :: "'a t_queue \<Rightarrow> 'a list" where
  "queue_list q = map (\<lambda>i. the (q_data q ! queue_cell q i)) [0..<unat (q_len q)]"

definition queue_room :: "'a t_queue \<Rightarrow> bool" where
  "queue_room q \<longleftrightarrow> q_len q < q_capacity q \<or> unat (q_capacity q) \<le> 2 ^ 30"

section \<open>Lemmas\<close>

lemma length_queue_list [simp]: "length (queue_list q) = unat (q_len q)"
  by (simp add: queue_list_def)

lemma nth_queue_list: "i < unat (q_len q) \<Longrightarrow> queue_list q ! i = the (q_data q ! queue_cell q i)"
  by (simp add: queue_list_def)

lemma queue_cell_less: "queue_inv q \<Longrightarrow> queue_cell q i < unat (q_capacity q)"
  by (simp add: queue_inv_def queue_cell_def)

lemma queue_inv_cells:
  "queue_inv q \<Longrightarrow> i < unat (q_len q) \<Longrightarrow>
   queue_cell q i < length (q_data q) \<and> q_data q ! queue_cell q i \<noteq> None"
  using queue_cell_less [of q i] by (simp add: queue_inv_def)

lemma queue_is_empty_iff: "queue_is_empty q \<longleftrightarrow> queue_list q = []"
  by (simp add: queue_is_empty_def queue_list_def unat_eq_zero)

lemma queue_length_eq: "unat (queue_length q) = length (queue_list q)"
  by (simp add: queue_length_def)

lemma init_queue_spec:
  assumes "0 < unat c" "unat c \<le> 2 ^ 31"
  obtains q where "init_queue c = Inr q" "queue_inv q" "queue_list q = []" "q_capacity q = c"
proof -
  have "c > 0" using assms(1) by (simp only: unat_gt_0 word_neq_0_conv)
  with assms that show ?thesis
    by (simp add: init_queue_def queue_inv_def queue_list_def)
qed

text \<open>The index sum of two in-range fields does not wrap while the capacity is at most \<open>2 ^ 31\<close>.\<close>

lemma unat_index_sum:
  fixes a b c :: "32 word"
  assumes "unat a < unat c" "unat b \<le> unat c" "unat c \<le> 2 ^ 31"
  shows "unat ((a + b) mod c) = (unat a + unat b) mod unat c"
proof -
  have "unat a + unat b < 2 ^ 32" using assms by simp
  then have "unat (a + b) = unat a + unat b" by (simp add: unat_word_ariths)
  then show ?thesis by (simp add: unat_mod)
qed

lemma queue_pop_shorter: "queue_pop q = Inr (x, q') \<Longrightarrow> unat (q_len q') < unat (q_len q)"
  by (auto simp: queue_pop_def rbind_eq_Inr unat_minus_one unat_gt_0)

lemma queue_pop_spec:
  assumes "queue_inv q" "queue_list q \<noteq> []"
  obtains q' where "queue_pop q = Inr (hd (queue_list q), q')" "queue_inv q'"
    "queue_list q' = tl (queue_list q)" "q_capacity q' = q_capacity q"
proof -
  define q' where "q' = q\<lparr>q_len := q_len q - 1, q_pointer := (q_pointer q + 1) mod q_capacity q\<rparr>"
  have len: "0 < unat (q_len q)" using assms(2) by (simp add: queue_list_def)
  have cap: "0 < unat (q_capacity q)" "unat (q_capacity q) \<le> 2 ^ 31"
      "unat (q_pointer q) < unat (q_capacity q)" and llen: "unat (q_len q) \<le> unat (q_capacity q)"
    using assms(1) by (auto simp: queue_inv_def)
  have len': "unat (q_len q') = unat (q_len q) - 1"
    using len by (simp add: q'_def unat_gt_0 unat_minus_one)
  have ptr': "unat (q_pointer q') = (unat (q_pointer q) + 1) mod unat (q_capacity q)"
    using unat_index_sum [of "q_pointer q" "q_capacity q" 1] cap by (simp add: q'_def)
  have cell: "queue_cell q' i = queue_cell q (Suc i)" for i
    unfolding queue_cell_def ptr' by (simp add: q'_def mod_simps)
  have cell0: "queue_cell q 0 = unat (q_pointer q)"
    using cap by (simp add: queue_cell_def)
  have hd: "hd (queue_list q) = the (q_data q ! unat (q_pointer q))"
    using assms(2) len by (simp add: hd_conv_nth nth_queue_list cell0)
  have "queue_pop q = Inr (hd (queue_list q), q')"
    using queue_inv_cells [OF assms(1) len] len cap(1)
    by (auto simp: queue_pop_def cell0 hd q'_def array_simps unat_gt_0 word_neq_0_conv)
  moreover have "queue_inv q'"
    using assms(1) queue_inv_cells [OF assms(1)] len cap
    unfolding queue_inv_def cell len' ptr' by (auto simp: q'_def)
  moreover have "queue_list q' = tl (queue_list q)"
  proof (rule nth_equalityI)
    have [simp]: "q_data q' = q_data q" by (simp add: q'_def)
    fix i assume "i < length (queue_list q')"
    then show "queue_list q' ! i = tl (queue_list q) ! i"
      by (simp add: len' nth_queue_list nth_tl cell)
  qed (simp add: len')
  moreover have "q_capacity q' = q_capacity q" by (simp add: q'_def)
  ultimately show ?thesis using that by blast
qed

lemma simple_push_spec:
  assumes "queue_inv q" "q_len q < q_capacity q"
  obtains q' where "simple_push q x = Inr q'" "queue_inv q'"
    "queue_list q' = queue_list q @ [x]" "q_capacity q' = q_capacity q"
proof -
  define i where "i = queue_cell q (unat (q_len q))"
  define q' where "q' = q\<lparr>q_data := (q_data q)[i := Some x], q_len := q_len q + 1\<rparr>"
  have cap: "0 < unat (q_capacity q)" "unat (q_capacity q) \<le> 2 ^ 31"
      "unat (q_pointer q) < unat (q_capacity q)" "unat (q_len q) < unat (q_capacity q)"
      and ld: "length (q_data q) = unat (q_capacity q)"
    using assms by (auto simp: queue_inv_def word_less_nat_alt)
  have i: "unat ((q_pointer q + q_len q) mod q_capacity q) = i"
    using unat_index_sum [of "q_pointer q" "q_capacity q" "q_len q"] cap
    by (simp add: i_def queue_cell_def)
  have il: "i < length (q_data q)"
    using queue_cell_less [OF assms(1)] by (simp add: i_def ld)
  have len': "unat (q_len q') = Suc (unat (q_len q))"
    using cap by (simp add: q'_def unat_word_ariths)
  have cell: "queue_cell q' j = queue_cell q j" for j
    by (simp add: queue_cell_def q'_def)
  have other: "queue_cell q j \<noteq> i" if "j < unat (q_len q)" for j
  proof
    assume "queue_cell q j = i"
    then have "(unat (q_pointer q) + j) mod unat (q_capacity q) =
        (unat (q_pointer q) + unat (q_len q)) mod unat (q_capacity q)"
      by (simp add: queue_cell_def i_def)
    then have "j mod unat (q_capacity q) = unat (q_len q) mod unat (q_capacity q)"
      by (simp add: nat_mod_eq_iff)
    then show False using that cap by simp
  qed
  have "q_capacity q \<noteq> 0" using cap(1) by auto
  then have "simple_push q x = Inr q'"
    using il by (simp add: simple_push_def i array_simps q'_def)
  moreover have "queue_inv q'"
    using assms(1) queue_inv_cells [OF assms(1)] il other cap
    unfolding queue_inv_def cell len' by (auto simp: q'_def nth_list_update less_Suc_eq i_def [symmetric])
  moreover have "queue_list q' = queue_list q @ [x]"
  proof (rule nth_equalityI)
    have [simp]: "q_data q' = (q_data q)[i := Some x]" by (simp add: q'_def)
    fix j assume "j < length (queue_list q')"
    then have "j < Suc (unat (q_len q))" using len' by simp
    then show "queue_list q' ! j = (queue_list q @ [x]) ! j"
      using other [of j] il by (cases "j = unat (q_len q)")
        (auto simp: nth_queue_list nth_append len' cell i_def [symmetric])
  qed (simp add: len')
  moreover have "q_capacity q' = q_capacity q" by (simp add: q'_def)
  ultimately show ?thesis using that by blast
qed

text \<open>
  A full queue of capacity at most \<open>2 ^ 30\<close> doubles: the elements from
  \<open>pointer\<close> on move to the end of the new array, the wrapped ones stay.
\<close>

lemma resize_queue_spec:
  assumes "queue_inv q" "q_len q = q_capacity q" "unat (q_capacity q) \<le> 2 ^ 30"
  obtains q' where "resize_queue q = Inr q'" "queue_inv q'"
    "queue_list q' = queue_list q" "unat (q_capacity q') = 2 * unat (q_capacity q)" "q_len q' = q_len q"
proof -
  define c p where "c = unat (q_capacity q)" and "p = unat (q_pointer q)"
  have cp: "p < c" "c \<le> 2 ^ 30" and ld: "length (q_data q) = c" and len: "unat (q_len q) = c"
    using assms by (auto simp: queue_inv_def c_def p_def)
  define a where "a = arr_realloc (q_data q) (2 * c)"
  define d where "d = take (c + p) a @ take (c - p) (drop p a) @ drop (c + p + (c - p)) a"
  define q' where "q' = q\<lparr>q_data := d, q_capacity := 2 * q_capacity q,
    q_pointer := q_capacity q + q_pointer q\<rparr>"
  have cap': "unat (2 * q_capacity q) = 2 * c"
    using cp by (simp add: unat_word_ariths c_def)
  have ptr': "unat (q_capacity q + q_pointer q) = c + p"
    using cp by (simp add: unat_word_ariths c_def p_def)
  have diff: "unat (q_capacity q - q_pointer q) = c - p"
    using cp by (simp add: unat_sub_if' c_def p_def)
  have la: "length a = 2 * c" by (simp add: a_def)
  have "arr_memcpy a (c + p) p (c - p) = Inr d"
    using cp la by (simp add: arr_memcpy_ok regions_overlap_def d_def)
  then have "resize_queue q = Inr q'"
    by (simp add: resize_queue_def Let_def cap' ptr' diff a_def [symmetric] p_def [symmetric] q'_def)
  moreover have ld': "length d = 2 * c"
    using cp la by (simp add: d_def)
  have dn: "d ! i = (if c + p \<le> i then q_data q ! (i - c) else if i < c then q_data q ! i else None)"
    if "i < 2 * c" for i
  proof -
    have "d ! i = (if c + p \<le> i \<and> i < c + p + (c - p) then a ! (p + (i - (c + p))) else a ! i)"
      unfolding d_def using cp la that by (intro nth_memcpy) auto
    then show ?thesis using cp that ld by (auto simp: a_def arr_realloc_def nth_append)
  qed
  have cell: "d ! queue_cell q' i = q_data q ! queue_cell q i" if "i < c" for i
  proof (cases "p + i < c")
    case True
    then have "queue_cell q' i = c + p + i" "queue_cell q i = p + i"
      using cp by (auto simp: queue_cell_def q'_def ptr' cap' c_def [symmetric] p_def [symmetric])
    then show ?thesis using True cp by (simp add: dn)
  next
    case False
    then have "queue_cell q i = p + i - c"
      using cp that by (simp add: queue_cell_def c_def [symmetric] p_def [symmetric] le_mod_geq)
    moreover have "queue_cell q' i = p + i - c"
      using False cp that by (simp add: queue_cell_def q'_def ptr' cap' le_mod_geq)
    moreover have "p + i - c < c" "\<not> c + p \<le> p + i - c" using False cp that by auto
    ultimately show ?thesis by (simp add: dn)
  qed
  have "queue_inv q'"
    using assms(1) cp cell len ld'
    by (auto simp: queue_inv_def q'_def ptr' cap' c_def [symmetric])
  moreover have "queue_list q' = queue_list q"
    using cell len by (simp add: queue_list_def q'_def)
  moreover have "unat (q_capacity q') = 2 * unat (q_capacity q)" "q_len q' = q_len q"
    by (simp_all add: q'_def cap' c_def)
  ultimately show ?thesis using that by blast
qed

lemma queue_push_spec:
  assumes "queue_inv q" "queue_room q"
  obtains q' where "queue_push q x = Inr q'" "queue_inv q'" "queue_list q' = queue_list q @ [x]"
    "unat (q_capacity q') = (if q_len q = q_capacity q then 2 * unat (q_capacity q) else unat (q_capacity q))"
proof (cases "q_len q = q_capacity q")
  case True
  with assms(2) have "unat (q_capacity q) \<le> 2 ^ 30" by (auto simp: queue_room_def)
  from resize_queue_spec [OF assms(1) True this] obtain q1 where q1: "resize_queue q = Inr q1"
    "queue_inv q1" "queue_list q1 = queue_list q" "unat (q_capacity q1) = 2 * unat (q_capacity q)"
    "q_len q1 = q_len q" .
  then have "q_len q1 < q_capacity q1"
    using True assms(1) by (auto simp: queue_inv_def word_less_nat_alt)
  from simple_push_spec [OF q1(2) this, of x] obtain q2 where q2: "simple_push q1 x = Inr q2"
    "queue_inv q2" "queue_list q2 = queue_list q1 @ [x]" "q_capacity q2 = q_capacity q1" .
  moreover have "queue_push q x = Inr q2" using True q1(1) q2(1) by (simp add: queue_push_def)
  ultimately show ?thesis using True q1 that by simp
next
  case False
  with assms(1) have "q_len q < q_capacity q"
    by (auto simp: queue_inv_def word_le_nat_alt [symmetric])
  from simple_push_spec [OF assms(1) this, of x] obtain q2 where q2: "simple_push q x = Inr q2"
    "queue_inv q2" "queue_list q2 = queue_list q @ [x]" "q_capacity q2 = q_capacity q" .
  moreover have "queue_push q x = Inr q2" using False q2(1) by (simp add: queue_push_def)
  ultimately show ?thesis using False that by simp
qed

section \<open>The interface of a queue\<close>

locale fifo =
  fixes inv :: "'q \<Rightarrow> bool"
    and elems :: "'q \<Rightarrow> 'a list"
    and cap :: "'q \<Rightarrow> nat"
    and push :: "'q \<Rightarrow> 'a \<Rightarrow> 'q result"
    and pop :: "'q \<Rightarrow> ('a \<times> 'q) result"
    and is_empty :: "'q \<Rightarrow> bool"
  assumes push_law: "inv q \<Longrightarrow> length (elems q) < cap q \<or> cap q \<le> 2 ^ 30 \<Longrightarrow>
      \<exists>q'. push q x = Inr q' \<and> inv q' \<and> elems q' = elems q @ [x] \<and>
           cap q' = (if length (elems q) = cap q then 2 * cap q else cap q)"
    and pop_law: "inv q \<Longrightarrow> elems q \<noteq> [] \<Longrightarrow>
      \<exists>q'. pop q = Inr (hd (elems q), q') \<and> inv q' \<and> elems q' = tl (elems q) \<and> cap q' = cap q"
    and empty_law: "inv q \<Longrightarrow> is_empty q \<longleftrightarrow> elems q = []"
    and len_law: "inv q \<Longrightarrow> length (elems q) \<le> cap q"
begin

text \<open>A push into a queue that is not full keeps the capacity: no allocation.\<close>

lemma push_within_capacity:
  assumes "inv q" "length (elems q) < cap q"
  obtains q' where "push q x = Inr q'" "inv q'" "elems q' = elems q @ [x]" "cap q' = cap q"
  using push_law [OF assms(1), of x] assms(2) by auto

text \<open>What is pushed into an empty queue is what is popped next.\<close>

lemma push_pop:
  assumes "inv q" "length (elems q) < cap q \<or> cap q \<le> 2 ^ 30" "elems q = []"
  obtains q' q'' where "push q x = Inr q'" "pop q' = Inr (x, q'')" "elems q'' = []"
proof -
  from push_law [OF assms(1,2), of x] assms(3) obtain q' where q': "push q x = Inr q'" "inv q'"
    "elems q' = [x]" by auto
  then have "\<exists>q''. pop q' = Inr (x, q'') \<and> elems q'' = []"
    using pop_law [OF q'(2)] by auto
  with q' that show ?thesis by blast
qed

end

interpretation rq: fifo queue_inv queue_list "\<lambda>q. unat (q_capacity q)" queue_push queue_pop queue_is_empty
proof
  fix q :: "'a t_queue" and x
  assume inv: "queue_inv q"
  show "queue_is_empty q = (queue_list q = [])" by (rule queue_is_empty_iff)
  show "length (queue_list q) \<le> unat (q_capacity q)" using inv by (simp add: queue_inv_def)
  show "\<exists>q'. queue_pop q = Inr (hd (queue_list q), q') \<and> queue_inv q' \<and>
      queue_list q' = tl (queue_list q) \<and> unat (q_capacity q') = unat (q_capacity q)"
    if "queue_list q \<noteq> []"
    using queue_pop_spec [OF inv that] by metis
  have len: "length (queue_list q) = unat (q_capacity q) \<longleftrightarrow> q_len q = q_capacity q"
    by (simp add: word_unat_eq_iff)
  show "\<exists>q'. queue_push q x = Inr q' \<and> queue_inv q' \<and> queue_list q' = queue_list q @ [x] \<and>
      unat (q_capacity q') = (if length (queue_list q) = unat (q_capacity q)
        then 2 * unat (q_capacity q) else unat (q_capacity q))"
    if "length (queue_list q) < unat (q_capacity q) \<or> unat (q_capacity q) \<le> 2 ^ 30"
  proof -
    have "queue_room q" using that by (auto simp: queue_room_def word_less_nat_alt)
    from queue_push_spec [OF inv this, of x] show ?thesis unfolding len by metis
  qed
qed

end
