(* ===== verification/Request.thy ===== *)
theory Request
  imports Cstring Ringqueue
begin

text \<open>
  Requests of clients, \<open>src/src/server/request.c\<close> and \<open>request.h\<close>: the parser
  of a request line and the global queue of requests. A line is given by its bytes,
  whose number is the argument \<open>len\<close>. The parser is proved equal to a
  specification on the fields between semicolons.
\<close>

section \<open>Model\<close>

datatype request_type = REQ_RUN | REQ_INTERRUPT

text \<open>
  The fields a \<open>REQ_INTERRUPT\<close> request leaves uninitialised are grouped in
  \<open>run_fields\<close>; \<open>None\<close> is the uninitialised state.
\<close>

record run_fields =
  timeout :: int
  memlimit :: "32 word"
  usestdin :: bool
  cmd :: string
  numargs :: int
  args :: "string list"

record request =
  req_key :: int
  req_type :: request_type
  req_id :: string
  req_run :: "run_fields option"

function count_semicolons_from :: "string \<Rightarrow> nat \<Rightarrow> nat \<Rightarrow> nat" where
  "count_semicolons_from buf i cnt =
     (if i < length buf
      then count_semicolons_from buf (Suc i) (if buf ! i = CHR '';'' then Suc cnt else cnt)
      else cnt)"
  by pat_completeness auto
termination
  by (relation "measure (\<lambda>(buf, i, cnt). length buf - i)") auto

definition count_semicolons :: "string \<Rightarrow> nat" where
  "count_semicolons buf = count_semicolons_from buf 0 0"

function find_semicolon :: "string \<Rightarrow> nat \<Rightarrow> nat" where
  "find_semicolon buf i =
     (if i < length buf then (if buf ! i = CHR '';'' then i else find_semicolon buf (Suc i)) else i)"
  by pat_completeness auto
termination
  by (relation "measure (\<lambda>(buf, i). length buf - i)") auto

text \<open>The result is the returned position and the C string stored at \<open>*result\<close>.\<close>

definition copy_up_to_semicolon :: "string \<Rightarrow> nat \<Rightarrow> nat \<times> string" where
  "copy_up_to_semicolon buf begin =
     (let i = find_semicolon buf begin
      in (if i = length buf then 0 else i + 1, cstr (take (i - begin) (drop begin buf))))"

fun parse_args :: "string \<Rightarrow> nat \<Rightarrow> nat \<Rightarrow> string list" where
  "parse_args buf pos 0 = []"
| "parse_args buf pos (Suc n) =
     (case copy_up_to_semicolon buf pos of (pos, a) \<Rightarrow> a # parse_args buf pos n)"

text \<open>
  \<open>parse_request\<close> may also set the global \<open>parallel\<close>: it takes its value
  and returns the new one with the request (\<open>None\<close> for \<open>NULL\<close>).
\<close>

definition parse_request :: "string \<Rightarrow> int \<Rightarrow> int \<Rightarrow> (int \<times> request option) result" where
  "parse_request str_req key parallel =
     (let semic = count_semicolons str_req in
      if semic = 0 then Inr (parallel, None)
      else if semic = 1 then
        (case copy_up_to_semicolon str_req 0 of (pos, tmp) \<Rightarrow>
           if strncmp0 tmp ''parallel'' pos then
             (case copy_up_to_semicolon str_req pos of (pos, tmp) \<Rightarrow>
                rbind (atoi tmp)
                  (\<lambda>parallel_arg. Inr (if parallel_arg \<ge> 1 then parallel_arg else parallel, None)))
           else if strncmp0 tmp ''interrupt'' pos then
             (case copy_up_to_semicolon str_req pos of (pos, i) \<Rightarrow>
                Inr (parallel, Some \<lparr>req_key = key, req_type = REQ_INTERRUPT, req_id = i, req_run = None\<rparr>))
           else Inr (parallel, None))
      else
        (let numargs = int semic - 4 in
         if numargs < 0 then Inr (parallel, None)
         else (case copy_up_to_semicolon str_req 0 of (pos, tmp) \<Rightarrow>
           if \<not> strncmp0 tmp ''run'' pos \<and> \<not> strncmp0 tmp ''runstdin'' pos then Inr (parallel, None)
           else let runstdin = (\<not> strncmp0 tmp ''run'' pos) in
             (case copy_up_to_semicolon str_req pos of (pos, i) \<Rightarrow>
              case copy_up_to_semicolon str_req pos of (pos, tmp) \<Rightarrow>
                rbind (atoi tmp) (\<lambda>t.
              case copy_up_to_semicolon str_req pos of (pos, tmp) \<Rightarrow>
                rbind (atoi tmp) (\<lambda>m.
              case copy_up_to_semicolon str_req pos of (pos, c) \<Rightarrow>
                Inr (parallel, Some \<lparr>req_key = key, req_type = REQ_RUN, req_id = i,
                  req_run = Some \<lparr>timeout = t, memlimit = word_of_int m, usestdin = runstdin,
                                  cmd = c, numargs = numargs,
                                  args = parse_args str_req pos (nat numargs)\<rparr>\<rparr>)))))))"

text \<open>The debug output of a request; a request without run fields reads none of them.\<close>

fun print_args :: "string list \<Rightarrow> string" where
  "print_args [] = []"
| "print_args (a # as) = CHR '' '' # a @ print_args as"

definition print_request :: "request option \<Rightarrow> string result" where
  "print_request r =
     (case r of
        None \<Rightarrow> Inr ''<null request>''
      | Some r \<Rightarrow>
          (case req_type r of
             REQ_RUN \<Rightarrow>
               (case req_run r of
                  None \<Rightarrow> Inl Uninit_read
                | Some f \<Rightarrow> Inr (''req_type=REQ_RUN, timeout='' @ fmt_d (timeout f) @
                    '', memlimit='' @ fmt_u (unat (memlimit f)) @ '', cmd='' @ cmd f @
                    print_args (args f)))
           | REQ_INTERRUPT \<Rightarrow> Inr (''req_type=REQ_INTERRUPT, id='' @ req_id r)))"

definition init_request_queue :: "request t_queue result" where
  "init_request_queue = init_queue 100"

text \<open>
  The two loops of \<open>remove_from_queue\<close>. Each iteration pops one element, so the
  length of the queue popped from bounds them.
\<close>

function filter_queue :: "string \<Rightarrow> request t_queue \<Rightarrow> request t_queue \<Rightarrow>
    (request t_queue \<times> request t_queue) result" where
  "filter_queue i queue tmp =
     (if \<not> queue_is_empty queue
      then rbind (queue_pop queue) (\<lambda>(r, queue).
             rbind (if \<not> strcmp0 (req_id r) i then queue_push tmp r else Inr tmp)
               (\<lambda>tmp. filter_queue i queue tmp))
      else Inr (queue, tmp))"
  by pat_completeness auto
termination
proof (relation "measure (\<lambda>(i, queue, tmp). unat (q_len queue))")
  fix i :: string and queue tmp x r q' tmp'
  assume "\<not> queue_is_empty queue" "queue_pop queue = Inr x" "(r, q') = x"
  then show "((i, q', tmp'), (i, queue, tmp)) \<in> measure (\<lambda>(i, queue, tmp). unat (q_len queue))"
    by (auto dest: queue_pop_shorter)
qed simp

function refill_queue :: "request t_queue \<Rightarrow> request t_queue \<Rightarrow>
    (request t_queue \<times> request t_queue) result" where
  "refill_queue queue tmp =
     (if \<not> queue_is_empty tmp
      then rbind (queue_pop tmp) (\<lambda>(r, tmp).
             rbind (queue_push queue r) (\<lambda>queue. refill_queue queue tmp))
      else Inr (queue, tmp))"
  by pat_completeness auto
termination
proof (relation "measure (\<lambda>(queue, tmp). unat (q_len tmp))")
  fix queue tmp x r t' queue'
  assume "\<not> queue_is_empty tmp" "queue_pop tmp = Inr x" "(r, t') = x"
  then show "((queue', t'), (queue, tmp)) \<in> measure (\<lambda>(queue, tmp). unat (q_len tmp))"
    by (auto dest: queue_pop_shorter)
qed simp

definition remove_from_queue :: "request t_queue \<Rightarrow> string \<Rightarrow> request t_queue result" where
  "remove_from_queue queue i =
     rbind (init_queue (q_capacity queue)) (\<lambda>tmp.
     rbind (filter_queue i queue tmp) (\<lambda>(queue, tmp).
     rbind (refill_queue queue tmp) (\<lambda>(queue, tmp).
     rbind (free_queue tmp) (\<lambda>_. Inr queue))))"

section \<open>Specification: fields between semicolons\<close>

fun split_semi :: "string \<Rightarrow> string list" where
  "split_semi [] = [[]]"
| "split_semi (c # cs) =
     (if c = CHR '';'' then [] # split_semi cs
      else (case split_semi cs of [] \<Rightarrow> [[c]] | f # fs \<Rightarrow> (c # f) # fs))"

fun join_semi :: "string list \<Rightarrow> string" where
  "join_semi [] = []"
| "join_semi [f] = f"
| "join_semi (f # g # fs) = f @ CHR '';'' # join_semi (g # fs)"

definition request_of_fields :: "int \<Rightarrow> int \<Rightarrow> string list \<Rightarrow> (int \<times> request option) result" where
  "request_of_fields key parallel fs =
     (case fs of
        [a, b] \<Rightarrow>
          if a = ''parallel'' then
            rbind (atoi b) (\<lambda>n. Inr (if n \<ge> 1 then n else parallel, None))
          else if a = ''interrupt'' then
            Inr (parallel, Some \<lparr>req_key = key, req_type = REQ_INTERRUPT, req_id = b, req_run = None\<rparr>)
          else Inr (parallel, None)
      | a # i # t # m # c # as \<Rightarrow>
          if a = ''run'' \<or> a = ''runstdin'' then
            rbind (atoi t) (\<lambda>t. rbind (atoi m) (\<lambda>m.
              Inr (parallel, Some \<lparr>req_key = key, req_type = REQ_RUN, req_id = i,
                req_run = Some \<lparr>timeout = t, memlimit = word_of_int m, usestdin = (a = ''runstdin''),
                                cmd = c, numargs = int (length as), args = as\<rparr>\<rparr>)))
          else Inr (parallel, None)
      | _ \<Rightarrow> Inr (parallel, None))"

text \<open>The rest of the line from a position is the given fields.\<close>

definition at_fields :: "string \<Rightarrow> nat \<Rightarrow> string list \<Rightarrow> bool" where
  "at_fields buf pos fs \<longleftrightarrow>
     pos \<le> length buf \<and> drop pos buf = join_semi fs \<and> fs \<noteq> [] \<and> (\<forall>f \<in> set fs. CHR '';'' \<notin> set f)"

section \<open>Lemmas\<close>

declare count_semicolons_from.simps [simp del] find_semicolon.simps [simp del]
  filter_queue.simps [simp del] refill_queue.simps [simp del]

lemma split_semi_nonempty [simp]: "split_semi s \<noteq> []"
  by (induction s) (auto split: list.splits)

lemma join_split_semi: "join_semi (split_semi s) = s"
proof (induction s)
  case (Cons c cs)
  then show ?case by (cases "split_semi cs" rule: join_semi.cases) (auto split: list.splits)
qed simp

lemma split_semi_plain: "\<forall>f \<in> set (split_semi s). CHR '';'' \<notin> set f"
  by (induction s) (auto split: list.splits)

lemma split_semi_single: "CHR '';'' \<notin> set f \<Longrightarrow> split_semi f = [f]"
  by (induction f) auto

lemma split_semi_append: "CHR '';'' \<notin> set f \<Longrightarrow> split_semi (f @ CHR '';'' # s) = f # split_semi s"
  by (induction f) auto

lemma split_join_semi: "fs \<noteq> [] \<Longrightarrow> \<forall>f \<in> set fs. CHR '';'' \<notin> set f \<Longrightarrow> split_semi (join_semi fs) = fs"
  by (induction fs rule: join_semi.induct) (auto simp: split_semi_single split_semi_append)

lemma count_semicolons_from_eq:
  "i \<le> length buf \<Longrightarrow>
   count_semicolons_from buf i cnt = cnt + length (filter (\<lambda>c. c = CHR '';'') (drop i buf))"
proof (induction buf i cnt rule: count_semicolons_from.induct)
  case (1 buf i cnt)
  show ?case
  proof (cases "i < length buf")
    case True
    then have "drop i buf = buf ! i # drop (Suc i) buf" by (simp add: Cons_nth_drop_Suc)
    with 1 True show ?thesis by (simp add: count_semicolons_from.simps [of buf i cnt])
  next
    case False
    then show ?thesis by (simp add: count_semicolons_from.simps [of buf i cnt])
  qed
qed

lemma count_semicolons_eq: "Suc (count_semicolons s) = length (split_semi s)"
proof -
  have "Suc (length (filter (\<lambda>c. c = CHR '';'') s)) = length (split_semi s)"
    by (induction s) (auto split: list.splits)
  then show ?thesis by (simp add: count_semicolons_def count_semicolons_from_eq)
qed

lemma find_semicolon_eq:
  "i \<le> length buf \<Longrightarrow>
   find_semicolon buf i = i + length (takeWhile (\<lambda>c. c \<noteq> CHR '';'') (drop i buf))"
proof (induction buf i rule: find_semicolon.induct)
  case (1 buf i)
  show ?case
  proof (cases "i < length buf")
    case True
    then have "drop i buf = buf ! i # drop (Suc i) buf" by (simp add: Cons_nth_drop_Suc)
    with 1 True show ?thesis by (simp add: find_semicolon.simps [of buf i])
  next
    case False
    then show ?thesis by (simp add: find_semicolon.simps [of buf i])
  qed
qed

lemma takeWhile_plain: "x \<notin> set f \<Longrightarrow> takeWhile (\<lambda>c. c \<noteq> x) (f @ x # s) = f"
  by (induction f) auto

lemma takeWhile_plain_all: "x \<notin> set f \<Longrightarrow> takeWhile (\<lambda>c. c \<noteq> x) f = f"
  by (induction f) auto

lemma copy_last_field: "at_fields buf pos [f] \<Longrightarrow> copy_up_to_semicolon buf pos = (0, cstr f)"
proof -
  assume a: "at_fields buf pos [f]"
  then have d: "drop pos buf = f" "pos \<le> length buf" and f: "CHR '';'' \<notin> set f"
    by (auto simp: at_fields_def)
  have "find_semicolon buf pos = pos + length f"
    using d f by (simp add: find_semicolon_eq takeWhile_plain_all)
  moreover have "pos + length f = length buf" using d by auto
  ultimately show ?thesis using d by (simp add: copy_up_to_semicolon_def)
qed

lemma copy_field:
  assumes "at_fields buf pos (f # g # fs)"
  shows "copy_up_to_semicolon buf pos = (pos + length f + 1, cstr f)"
    and "at_fields buf (pos + length f + 1) (g # fs)"
proof -
  from assms have d: "drop pos buf = f @ CHR '';'' # join_semi (g # fs)" "pos \<le> length buf"
      and f: "CHR '';'' \<notin> set f" and fs: "\<forall>f \<in> set (g # fs). CHR '';'' \<notin> set f"
    by (auto simp: at_fields_def)
  have i: "find_semicolon buf pos = pos + length f"
    using d f by (simp add: find_semicolon_eq takeWhile_plain)
  have len: "length buf = pos + length f + 1 + length (join_semi (g # fs))"
    using arg_cong [OF d(1), of length] d(2) by simp
  then show "copy_up_to_semicolon buf pos = (pos + length f + 1, cstr f)"
    using i d(1) by (simp add: copy_up_to_semicolon_def)
  have "drop (pos + length f + 1) buf = drop (length f + 1) (drop pos buf)"
    by (simp add: add.commute add.left_commute)
  also have "\<dots> = join_semi (g # fs)" using d(1) by simp
  finally show "at_fields buf (pos + length f + 1) (g # fs)"
    using len fs by (simp add: at_fields_def)
qed

lemma parse_args_eq: "at_fields buf pos fs \<Longrightarrow> parse_args buf pos (length fs) = map cstr fs"
proof (induction fs arbitrary: pos)
  case Nil
  then show ?case by (simp add: at_fields_def)
next
  case (Cons f fs)
  show ?case
  proof (cases fs)
    case Nil
    with Cons.prems show ?thesis by (simp add: copy_last_field)
  next
    case (Cons g gs)
    with Cons.prems copy_field [of buf pos f g gs] Cons.IH show ?thesis by simp
  qed
qed

lemma at_fields_start: "at_fields s 0 (split_semi s)"
  by (simp add: at_fields_def join_split_semi split_semi_plain)

lemma strncmp0_field:
  "NUL \<notin> set lit \<Longrightarrow> strncmp0 (cstr f) lit (Suc (length f)) \<longleftrightarrow> cstr f = lit"
  by (rule strncmp0_full) (simp_all add: length_cstr less_Suc_eq_le)

lemma strncmp0_words:
  "strncmp0 (cstr f) ''run'' (Suc (length f)) \<longleftrightarrow> cstr f = ''run''"
  "strncmp0 (cstr f) ''runstdin'' (Suc (length f)) \<longleftrightarrow> cstr f = ''runstdin''"
  "strncmp0 (cstr f) ''parallel'' (Suc (length f)) \<longleftrightarrow> cstr f = ''parallel''"
  "strncmp0 (cstr f) ''interrupt'' (Suc (length f)) \<longleftrightarrow> cstr f = ''interrupt''"
  by (rule strncmp0_field; simp add: NUL_def)+

lemma parse_two_fields:
  assumes "split_semi s = [a, b]"
  shows "parse_request s key par = request_of_fields key par (map cstr [a, b])"
proof -
  have c: "count_semicolons s = 1" using count_semicolons_eq [of s] assms by simp
  have "at_fields s 0 [a, b]" using at_fields_start [of s] assms by simp
  from copy_field [OF this] have 1: "copy_up_to_semicolon s 0 = (Suc (length a), cstr a)"
    and 2: "copy_up_to_semicolon s (Suc (length a)) = (0, cstr b)"
    by (simp_all add: copy_last_field)
  show ?thesis
    by (simp add: parse_request_def request_of_fields_def c 1 2 strncmp0_words)
qed

lemma parse_run_fields:
  assumes "split_semi s = a # i # t # m # c # as"
  shows "parse_request s key par = request_of_fields key par (map cstr (a # i # t # m # c # as))"
proof -
  have cnt: "count_semicolons s = length as + 4" using count_semicolons_eq [of s] assms by simp
  have f0: "at_fields s 0 (a # i # t # m # c # as)" using at_fields_start [of s] assms by simp
  define p1 where "p1 = Suc (length a)"
  define p2 where "p2 = Suc (p1 + length i)"
  define p3 where "p3 = Suc (p2 + length t)"
  define p4 where "p4 = Suc (p3 + length m)"
  note f1 = copy_field [OF f0, simplified, folded p1_def]
  note f2 = copy_field [OF f1(2), simplified, folded p2_def]
  note f3 = copy_field [OF f2(2), simplified, folded p3_def]
  note f4 = copy_field [OF f3(2), simplified, folded p4_def]
  obtain p5 where c: "copy_up_to_semicolon s p4 = (p5, cstr c)"
    and as: "parse_args s p5 (length as) = map cstr as"
  proof (cases as)
    case Nil
    with f4 copy_last_field that show ?thesis by simp
  next
    case (Cons g gs)
    with f4(2) have "at_fields s p4 (c # g # gs)" by simp
    note c = copy_field [OF this]
    show ?thesis by (rule that [OF c(1)]) (use parse_args_eq [OF c(2)] Cons in simp)
  qed
  show ?thesis
    using strncmp0_words [of a, folded p1_def]
    by (cases "cstr a = ''run''"; cases "cstr a = ''runstdin''")
      (simp_all add: parse_request_def request_of_fields_def Let_def cnt f1(1) f2(1) f3(1) f4(1) c as)
qed

lemma parse_request_fields:
  "parse_request s key par = request_of_fields key par (map cstr (split_semi s))"
proof -
  note c = count_semicolons_eq [of s]
  consider a where "split_semi s = [a]" | a b where "split_semi s = [a, b]"
    | a b d where "split_semi s = [a, b, d]" | a b d e where "split_semi s = [a, b, d, e]"
    | a i t m d as where "split_semi s = a # i # t # m # d # as"
    by (metis neq_Nil_conv split_semi_nonempty)
  then show ?thesis
    by cases (use c in \<open>simp_all add: parse_two_fields parse_run_fields\<close>,
      simp_all add: parse_request_def request_of_fields_def)
qed

section \<open>The request queue\<close>

lemma filter_queue_spec:
  assumes "queue_inv q" "queue_inv tmp"
    "length (queue_list tmp) + length (queue_list q) \<le> unat (q_capacity tmp)"
  shows "\<exists>q' tmp'. filter_queue i q tmp = Inr (q', tmp') \<and> queue_inv q' \<and> queue_list q' = [] \<and>
     q_capacity q' = q_capacity q \<and> queue_inv tmp' \<and>
     queue_list tmp' = queue_list tmp @ filter (\<lambda>r. req_id r \<noteq> i) (queue_list q) \<and>
     q_capacity tmp' = q_capacity tmp"
  using assms
proof (induction "queue_list q" arbitrary: q tmp)
  case Nil
  then show ?case by (simp add: filter_queue.simps [of i q] queue_is_empty_iff)
next
  case (Cons r rs)
  have ne: "queue_list q \<noteq> []" using Cons.hyps(2) by auto
  then have nqe: "\<not> queue_is_empty q" by (simp add: queue_is_empty_iff)
  from queue_pop_spec [OF Cons.prems(1) ne] obtain q1 where q1: "queue_pop q = Inr (r, q1)"
    "queue_inv q1" "queue_list q1 = rs" "q_capacity q1 = q_capacity q"
    using Cons.hyps(2) by (metis list.sel(1,3))
  have len: "length (queue_list tmp) + Suc (length rs) \<le> unat (q_capacity tmp)"
    using Cons.prems(3) unfolding Cons.hyps(2) [symmetric] by simp
  obtain t1 where t1: "(if \<not> strcmp0 (req_id r) i then queue_push tmp r else Inr tmp) = Inr t1"
    "queue_inv t1" "queue_list t1 = queue_list tmp @ filter (\<lambda>r. req_id r \<noteq> i) [r]"
    "q_capacity t1 = q_capacity tmp"
  proof (cases "req_id r = i")
    case True
    with Cons.prems(2) that show ?thesis by (simp add: strcmp0_def)
  next
    case False
    have "length (queue_list tmp) < unat (q_capacity tmp)" using len by simp
    from rq.push_within_capacity [OF Cons.prems(2) this, of r] obtain t1 where
      "queue_push tmp r = Inr t1" "queue_inv t1" "queue_list t1 = queue_list tmp @ [r]"
      "unat (q_capacity t1) = unat (q_capacity tmp)" .
    with False show ?thesis by (intro that [of t1]) (simp_all add: strcmp0_def word_unat_eq_iff)
  qed
  have "length (queue_list t1) + length (queue_list q1) \<le> unat (q_capacity t1)"
    using len t1(3,4) q1(3) by (simp del: length_queue_list)
  from Cons.hyps(1) [OF q1(3) [symmetric] q1(2) t1(2) this] show ?case
    using nqe t1 q1 unfolding Cons.hyps(2) [symmetric]
    by (auto simp: filter_queue.simps [of i q])
qed

lemma refill_queue_spec:
  assumes "queue_inv q" "queue_inv tmp"
    "length (queue_list q) + length (queue_list tmp) \<le> unat (q_capacity q)"
  shows "\<exists>q' tmp'. refill_queue q tmp = Inr (q', tmp') \<and> queue_inv q' \<and> queue_inv tmp' \<and>
     queue_list tmp' = [] \<and> queue_list q' = queue_list q @ queue_list tmp \<and> q_capacity q' = q_capacity q"
  using assms
proof (induction "queue_list tmp" arbitrary: q tmp)
  case Nil
  then show ?case by (simp add: refill_queue.simps [of q] queue_is_empty_iff)
next
  case (Cons r rs)
  have ne: "queue_list tmp \<noteq> []" using Cons.hyps(2) by auto
  then have nqe: "\<not> queue_is_empty tmp" by (simp add: queue_is_empty_iff)
  from queue_pop_spec [OF Cons.prems(2) ne] obtain t1 where t1: "queue_pop tmp = Inr (r, t1)"
    "queue_inv t1" "queue_list t1 = rs"
    using Cons.hyps(2) by (metis list.sel(1,3))
  have len: "length (queue_list q) + Suc (length rs) \<le> unat (q_capacity q)"
    using Cons.prems(3) unfolding Cons.hyps(2) [symmetric] by simp
  then have "length (queue_list q) < unat (q_capacity q)" by simp
  from rq.push_within_capacity [OF Cons.prems(1) this, of r] obtain q1 where
    q1: "queue_push q r = Inr q1" "queue_inv q1" "queue_list q1 = queue_list q @ [r]"
    "unat (q_capacity q1) = unat (q_capacity q)" .
  have "length (queue_list q1) + length (queue_list t1) \<le> unat (q_capacity q1)"
    using len q1(3,4) t1(3) by (simp del: length_queue_list)
  from Cons.hyps(1) [OF t1(3) [symmetric] q1(2) t1(2) this] show ?case
    using nqe q1 t1 unfolding Cons.hyps(2) [symmetric]
    by (auto simp: refill_queue.simps [of q] word_unat_eq_iff)
qed

lemma remove_from_queue_filter:
  assumes "queue_inv q"
  obtains q' where "remove_from_queue q i = Inr q'" "queue_inv q'"
    "queue_list q' = filter (\<lambda>r. req_id r \<noteq> i) (queue_list q)" "q_capacity q' = q_capacity q"
proof -
  have cap: "0 < unat (q_capacity q)" "unat (q_capacity q) \<le> 2 ^ 31"
      "length (queue_list q) \<le> unat (q_capacity q)"
    using assms by (auto simp: queue_inv_def)
  from init_queue_spec [OF cap(1,2)] obtain t where t: "init_queue (q_capacity q) = Inr (t :: request t_queue)"
    "queue_inv t" "queue_list t = []" "q_capacity t = q_capacity q" .
  have "length (queue_list t) + length (queue_list q) \<le> unat (q_capacity t)"
    using t(3,4) cap(3) by (simp del: length_queue_list)
  from filter_queue_spec [OF assms t(2) this, of i] t(3,4) obtain q1 t1 where 1:
    "filter_queue i q t = Inr (q1, t1)" "queue_inv q1" "queue_list q1 = []" "q_capacity q1 = q_capacity q"
    "queue_inv t1" "queue_list t1 = filter (\<lambda>r. req_id r \<noteq> i) (queue_list q)" by auto
  have "length (queue_list q1) + length (queue_list t1) \<le> unat (q_capacity q1)"
    using 1 le_trans [OF length_filter_le cap(3)] by (simp del: length_queue_list)
  from refill_queue_spec [OF 1(2,5) this] 1 obtain q2 t2 where 2:
    "refill_queue q1 t1 = Inr (q2, t2)" "queue_inv q2" "queue_list t2 = []" "queue_inv t2"
    "queue_list q2 = filter (\<lambda>r. req_id r \<noteq> i) (queue_list q)" "q_capacity q2 = q_capacity q" by auto
  have "queue_is_empty t2" using 2(3) by (simp add: queue_is_empty_iff)
  with t 1 2 that show ?thesis by (simp add: remove_from_queue_def free_queue_def)
qed

end
