(* ===== verification/Readbuf.thy ===== *)
theory Readbuf
  imports Prelude
begin

text \<open>
  The read buffer of \<open>src/src/server/readbuf.c\<close> and \<open>readbuf.h\<close>.
  Sizes are \<open>size_t\<close> values of 64 bits. \<open>readbuf_bytes\<close> is the
  unconsumed input. \<open>have_taken\<close> moves the rest of the buffer to its front
  with \<open>memcpy\<close>, which is defined only when the rest is no longer than the
  part taken: both outcomes are in the model.
\<close>

section \<open>Model\<close>

record t_readbuf =
  r_data :: "char arr"
  r_len :: "64 word"
  r_capacity :: "64 word"

definition init_readbuf :: "64 word \<Rightarrow> t_readbuf result" where
  "init_readbuf capacity =
     rbind (rassert (capacity > 0))
       (\<lambda>_. Inr \<lparr>r_data = arr_malloc (unat capacity), r_len = 0, r_capacity = capacity\<rparr>)"

definition resize_readbuf :: "t_readbuf \<Rightarrow> 64 word \<Rightarrow> t_readbuf" where
  "resize_readbuf b newcapacity =
     b\<lparr>r_data := arr_realloc (r_data b) (unat newcapacity), r_capacity := newcapacity\<rparr>"

text \<open>The pointer returned is given by its offset in \<open>data\<close>.\<close>

definition prepare_read :: "t_readbuf \<Rightarrow> 64 word \<Rightarrow> t_readbuf \<times> nat" where
  "prepare_read b sz =
     (let b = (if r_len b + sz > r_capacity b
               then resize_readbuf b ((r_capacity b + sz) * 2) else b)
      in (b, unat (r_len b)))"

definition have_read :: "t_readbuf \<Rightarrow> 64 word \<Rightarrow> t_readbuf result" where
  "have_read b sz =
     rbind (rassert (r_capacity b \<ge> r_len b + sz))
       (\<lambda>_. Inr (b\<lparr>r_len := r_len b + sz\<rparr>))"

definition have_taken :: "t_readbuf \<Rightarrow> 64 word \<Rightarrow> t_readbuf result" where
  "have_taken b sz =
     rbind (rassert (sz \<le> r_len b))
       (\<lambda>_. rbind (arr_memcpy (r_data b) 0 (unat sz) (unat (r_len b - sz)))
       (\<lambda>d. Inr (b\<lparr>r_data := d, r_len := r_len b - sz\<rparr>)))"

definition clear_readbuf :: "t_readbuf \<Rightarrow> t_readbuf" where
  "clear_readbuf b = b\<lparr>r_len := 0\<rparr>"

section \<open>Invariant and abstraction\<close>

definition readbuf_inv :: "t_readbuf \<Rightarrow> bool" where
  "readbuf_inv b \<longleftrightarrow>
     0 < unat (r_capacity b) \<and> unat (r_len b) \<le> unat (r_capacity b) \<and>
     length (r_data b) = unat (r_capacity b) \<and>
     (\<forall>i < unat (r_len b). r_data b ! i \<noteq> None)"

definition readbuf_bytes :: "t_readbuf \<Rightarrow> string" where
  "readbuf_bytes b = map the (take (unat (r_len b)) (r_data b))"

section \<open>Lemmas\<close>

lemma arr_store_ok [array_simps]:
  "off + length xs \<le> length a \<Longrightarrow>
   arr_store a off xs = Inr (take off a @ map Some xs @ drop (off + length xs) a)"
  by (simp add: arr_store_def)

lemma length_readbuf_bytes: "readbuf_inv b \<Longrightarrow> length (readbuf_bytes b) = unat (r_len b)"
  by (simp add: readbuf_bytes_def readbuf_inv_def)

lemma nth_readbuf_bytes:
  "readbuf_inv b \<Longrightarrow> i < unat (r_len b) \<Longrightarrow> r_data b ! i = Some (readbuf_bytes b ! i)"
  by (auto simp: readbuf_bytes_def readbuf_inv_def)

lemma readbuf_init_spec:
  assumes "0 < c"
  obtains b where "init_readbuf c = Inr b" "readbuf_inv b" "readbuf_bytes b = []" "r_capacity b = c"
  using assms that by (simp add: init_readbuf_def readbuf_inv_def readbuf_bytes_def unat_gt_0 word_neq_0_conv)

lemma prepare_read_spec:
  assumes "readbuf_inv b" "2 * (unat (r_capacity b) + unat sz) < 2 ^ 64"
  obtains b' where "prepare_read b sz = (b', unat (r_len b))" "readbuf_inv b'"
    "readbuf_bytes b' = readbuf_bytes b" "unat (r_len b') + unat sz \<le> unat (r_capacity b')"
    "r_len b' = r_len b"
    "unat (r_capacity b') \<le> max (unat (r_capacity b)) (2 * (unat (r_capacity b) + unat sz))"
proof -
  have sum: "unat (r_len b + sz) = unat (r_len b) + unat sz"
    using assms by (simp add: readbuf_inv_def unat_word_ariths)
  show ?thesis
  proof (cases "r_len b + sz > r_capacity b")
    case True
    define nc where "nc = (r_capacity b + sz) * 2"
    have cap: "unat nc = 2 * (unat (r_capacity b) + unat sz)"
      using assms(2) by (simp add: nc_def unat_word_ariths)
    define b' where "b' = resize_readbuf b nc"
    have "prepare_read b sz = (b', unat (r_len b))"
      using True by (simp add: prepare_read_def b'_def nc_def resize_readbuf_def Let_def)
    moreover have "readbuf_inv b'"
      using assms(1) by (auto simp: readbuf_inv_def b'_def resize_readbuf_def cap array_simps)
    moreover have "readbuf_bytes b' = readbuf_bytes b"
      using assms(1) by (simp add: readbuf_bytes_def b'_def resize_readbuf_def cap arr_realloc_def
          readbuf_inv_def min_def)
    ultimately show ?thesis
      using that assms(1) by (simp add: b'_def resize_readbuf_def cap readbuf_inv_def)
  next
    case False
    then have "unat (r_len b) + unat sz \<le> unat (r_capacity b)"
      by (simp only: sum [symmetric] not_less word_le_nat_alt)
    moreover have "prepare_read b sz = (b, unat (r_len b))"
      using False by (simp add: prepare_read_def)
    ultimately show ?thesis using that [of b] assms(1) by simp
  qed
qed

text \<open>The cycle prepare, read, register appends the bytes that were read.\<close>

lemma have_read_spec:
  assumes "readbuf_inv b" "unat (r_len b) + length xs \<le> unat (r_capacity b)"
  obtains a b' where "arr_store (r_data b) (unat (r_len b)) xs = Inr a"
    "have_read (b\<lparr>r_data := a\<rparr>) (of_nat (length xs)) = Inr b'" "readbuf_inv b'"
    "readbuf_bytes b' = readbuf_bytes b @ xs" "r_capacity b' = r_capacity b"
proof -
  define a where "a = take (unat (r_len b)) (r_data b) @ map Some xs @ drop (unat (r_len b) + length xs) (r_data b)"
  have la: "length a = unat (r_capacity b)" and ld: "length (r_data b) = unat (r_capacity b)"
    using assms by (auto simp: a_def readbuf_inv_def)
  have xs: "length xs < 2 ^ 64" "unat (r_len b) + length xs < 2 ^ 64"
    using assms(2) unat_less_64 [of "r_capacity b"] by auto
  then have sum: "unat (r_len b + of_nat (length xs)) = unat (r_len b) + length xs"
    by (simp add: unat_word_ariths unat_of_nat)
  define b' where "b' = b\<lparr>r_data := a, r_len := r_len b + of_nat (length xs)\<rparr>"
  have "have_read (b\<lparr>r_data := a\<rparr>) (of_nat (length xs)) = Inr b'"
    using assms(2) by (simp add: have_read_def b'_def word_le_nat_alt sum)
  moreover have "arr_store (r_data b) (unat (r_len b)) xs = Inr a"
    using assms(2) ld by (simp add: array_simps a_def)
  moreover have "readbuf_inv b'"
    using assms ld la by (auto simp: readbuf_inv_def b'_def sum a_def nth_append)
  moreover have "readbuf_bytes b' = readbuf_bytes b @ xs"
    using assms(2) ld by (simp add: readbuf_bytes_def b'_def sum a_def)
  ultimately show ?thesis using that by (simp add: b'_def)
qed

lemma have_taken_spec:
  assumes "readbuf_inv b" "unat sz \<le> unat (r_len b)" "unat (r_len b) - unat sz \<le> unat sz"
  obtains b' where "have_taken b sz = Inr b'" "readbuf_inv b'"
    "readbuf_bytes b' = drop (unat sz) (readbuf_bytes b)" "r_capacity b' = r_capacity b"
proof -
  define n where "n = unat (r_len b) - unat sz"
  have diff: "unat (r_len b - sz) = n"
    using assms(2) by (simp add: unat_sub_if' n_def)
  have ld: "length (r_data b) = unat (r_capacity b)" "unat (r_len b) \<le> unat (r_capacity b)"
    using assms(1) by (auto simp: readbuf_inv_def)
  define d where "d = take n (drop (unat sz) (r_data b)) @ drop n (r_data b)"
  have cpy: "arr_memcpy (r_data b) 0 (unat sz) n = Inr d"
    using assms ld by (simp add: arr_memcpy_def regions_overlap_def n_def d_def)
  define b' where "b' = b\<lparr>r_data := d, r_len := r_len b - sz\<rparr>"
  have "have_taken b sz = Inr b'"
    using assms(2) by (simp add: have_taken_def word_le_nat_alt diff cpy b'_def)
  moreover have "readbuf_inv b'"
    using assms ld by (auto simp: readbuf_inv_def b'_def diff d_def nth_append n_def)
  moreover have "readbuf_bytes b' = drop (unat sz) (readbuf_bytes b)"
    using assms ld by (simp add: readbuf_bytes_def b'_def diff d_def n_def drop_map drop_take)
  ultimately show ?thesis using that by (simp add: b'_def)
qed

lemma have_taken_overlap:
  assumes "readbuf_inv b" "unat sz \<le> unat (r_len b)" "unat sz < unat (r_len b) - unat sz"
  shows "have_taken b sz = Inl Overlap"
proof -
  have diff: "unat (r_len b - sz) = unat (r_len b) - unat sz"
    using assms(2) by (simp add: unat_sub_if')
  show ?thesis
    using assms by (auto simp: have_taken_def word_le_nat_alt diff arr_memcpy_def
        regions_overlap_def readbuf_inv_def)
qed

end
