(* ===== verification/Writebuf.thy ===== *)
theory Writebuf
  imports Ringqueue
begin

text \<open>
  The write buffer of \<open>src/src/server/writebuf.c\<close> and \<open>writebuf.h\<close>: the
  message being written with the position reached in it, and the queue of the messages
  after it. A message is a C string, given by its characters before the terminator;
  \<open>None\<close> as \<open>data\<close> is \<open>NULL\<close>. The abstraction
  \<open>writebuf_stream\<close> is the sequence of bytes still to be written; the locale
  \<open>outstream\<close> is the contract of such a buffer and gives the behaviour of a
  whole run of pushes and partial writes.
\<close>

section \<open>Model\<close>

record t_writebuf =
  w_data :: "string option"
  w_len :: int
  w_pointer :: int
  w_is_writing :: bool
  w_queue :: "string t_queue"

definition init_writebuf :: "int \<Rightarrow> t_writebuf result" where
  "init_writebuf capacity =
     rbind (init_queue (word_of_int capacity))
       (\<lambda>q. Inr \<lparr>w_data = None, w_len = 0, w_pointer = 0, w_is_writing = False, w_queue = q\<rparr>)"

definition can_write :: "t_writebuf \<Rightarrow> bool" where
  "can_write b \<longleftrightarrow> \<not> w_is_writing b"

definition has_write_data :: "t_writebuf \<Rightarrow> bool" where
  "has_write_data b \<longleftrightarrow> w_data b \<noteq> None"

text \<open>The result is the updated buffer, the returned pointer as the text from there on, and \<open>*size\<close>.\<close>

definition prepare_write :: "t_writebuf \<Rightarrow> (t_writebuf \<times> string \<times> int) result" where
  "prepare_write b =
     rbind (rassert (can_write b))
       (\<lambda>_. rbind (rassert (has_write_data b))
       (\<lambda>_. Inr (b\<lparr>w_is_writing := True\<rparr>,
                 drop (nat (w_pointer b)) (the (w_data b)), w_len b - w_pointer b)))"

definition have_written :: "t_writebuf \<Rightarrow> int \<Rightarrow> t_writebuf result" where
  "have_written b sz =
     rbind (rassert (w_is_writing b))
       (\<lambda>_. rbind (if w_pointer b + sz > INT_MAX then Inl Int_overflow else Inr ())
       (\<lambda>_. rbind (rassert (w_pointer b + sz \<le> w_len b))
       (\<lambda>_. let b = b\<lparr>w_is_writing := False\<rparr> in
         if w_pointer b + sz < w_len b
         then Inr (b\<lparr>w_pointer := w_pointer b + sz\<rparr>)
         else let b = b\<lparr>w_pointer := 0\<rparr> in
           if \<not> queue_is_empty (w_queue b)
           then rbind (queue_pop (w_queue b))
                  (\<lambda>(d, q). Inr (b\<lparr>w_data := Some d, w_queue := q, w_len := c_int (int (length d))\<rparr>))
           else Inr (b\<lparr>w_data := None, w_len := 0\<rparr>))))"

definition push_write_data :: "t_writebuf \<Rightarrow> string \<Rightarrow> t_writebuf result" where
  "push_write_data b data =
     (if has_write_data b
      then rbind (queue_push (w_queue b) data) (\<lambda>q. Inr (b\<lparr>w_queue := q\<rparr>))
      else Inr (b\<lparr>w_data := Some data, w_pointer := 0, w_len := c_int (int (length data))\<rparr>))"

text \<open>The loop of \<open>free_writebuf\<close>: pop until empty, then the queue may be freed.\<close>

function free_writequeue :: "string t_queue \<Rightarrow> unit result" where
  "free_writequeue q =
     (if \<not> queue_is_empty q
      then rbind (queue_pop q) (\<lambda>(d, q'). free_writequeue q')
      else free_queue q)"
  by pat_completeness auto
termination
proof (relation "measure (\<lambda>q. unat (q_len q))")
  fix q :: "string t_queue" and x d q'
  assume "\<not> queue_is_empty q" "queue_pop q = Inr x" "(d, q') = x"
  then show "(q', q) \<in> measure (\<lambda>q. unat (q_len q))"
    by (auto dest: queue_pop_shorter)
qed simp

definition free_writebuf :: "t_writebuf \<Rightarrow> unit result" where
  "free_writebuf b = free_writequeue (w_queue b)"

section \<open>Invariant and abstraction\<close>

definition writebuf_inv :: "t_writebuf \<Rightarrow> bool" where
  "writebuf_inv b \<longleftrightarrow>
     queue_inv (w_queue b) \<and> (\<forall>s \<in> set (queue_list (w_queue b)). int (length s) \<le> INT_MAX) \<and>
     (case w_data b of
        None \<Rightarrow> queue_list (w_queue b) = [] \<and> w_len b = 0 \<and> w_pointer b = 0 \<and> \<not> w_is_writing b
      | Some s \<Rightarrow> int (length s) \<le> INT_MAX \<and> w_len b = int (length s) \<and>
                  0 \<le> w_pointer b \<and> w_pointer b \<le> w_len b)"

definition writebuf_stream :: "t_writebuf \<Rightarrow> string" where
  "writebuf_stream b =
     (case w_data b of None \<Rightarrow> [] | Some s \<Rightarrow> drop (nat (w_pointer b)) s) @
     concat (queue_list (w_queue b))"

definition writebuf_room :: "t_writebuf \<Rightarrow> bool" where
  "writebuf_room b \<longleftrightarrow> queue_room (w_queue b)"

section \<open>Lemmas\<close>

declare free_writequeue.simps [simp del]

lemma c_int_length [simp]: "int (length s) \<le> INT_MAX \<Longrightarrow> c_int (int (length s)) = int (length s)"
  by (simp add: INT_MAX_def)

lemma init_writebuf_spec:
  assumes "0 < c" "c \<le> INT_MAX"
  obtains b where "init_writebuf c = Inr b" "writebuf_inv b" "writebuf_stream b = []" "can_write b"
proof -
  have "unat (word_of_int c :: 32 word) = nat c"
    using assms by (simp add: INT_MAX_def unsigned_of_int take_bit_int_eq_self flip: nat_take_bit_eq)
  with assms have "0 < unat (word_of_int c :: 32 word)" "unat (word_of_int c :: 32 word) \<le> 2 ^ 31"
    by (auto simp: INT_MAX_def)
  from init_queue_spec [OF this] obtain q where
    "init_queue (word_of_int c) = Inr (q :: string t_queue)" "queue_inv q" "queue_list q = []" by metis
  with that show ?thesis
    by (simp add: init_writebuf_def writebuf_inv_def writebuf_stream_def can_write_def)
qed

lemma push_write_data_spec:
  assumes "writebuf_inv b" "writebuf_room b" "int (length s) \<le> INT_MAX"
  obtains b' where "push_write_data b s = Inr b'" "writebuf_inv b'" "has_write_data b'"
    "writebuf_stream b' = writebuf_stream b @ s" "w_is_writing b' = w_is_writing b"
    "length (queue_list (w_queue b')) \<le> Suc (length (queue_list (w_queue b)))"
proof (cases "w_data b")
  case None
  with assms that show ?thesis
    by (auto simp: push_write_data_def has_write_data_def writebuf_inv_def writebuf_stream_def
        simp del: length_queue_list)
next
  case (Some t)
  have "queue_inv (w_queue b)" "queue_room (w_queue b)"
    using assms by (auto simp: writebuf_inv_def writebuf_room_def)
  from queue_push_spec [OF this, of s] obtain q where q: "queue_push (w_queue b) s = Inr q"
    "queue_inv q" "queue_list q = queue_list (w_queue b) @ [s]" by metis
  define b' where "b' = b\<lparr>w_queue := q\<rparr>"
  have "push_write_data b s = Inr b'"
    using Some q by (simp add: push_write_data_def has_write_data_def b'_def)
  moreover have "writebuf_inv b'" "has_write_data b'" "writebuf_stream b' = writebuf_stream b @ s"
    using assms(1,3) Some q by (auto simp: writebuf_inv_def writebuf_stream_def has_write_data_def b'_def)
  moreover have "length (queue_list (w_queue b')) = Suc (length (queue_list (w_queue b)))"
    unfolding b'_def by (simp add: q(3) del: length_queue_list)
  ultimately show ?thesis using that by (simp add: b'_def)
qed

lemma prepare_write_spec:
  assumes "writebuf_inv b" "can_write b" "has_write_data b"
  obtains b' buf n where "prepare_write b = Inr (b', buf, n)" "writebuf_inv b'" "w_is_writing b'"
    "writebuf_stream b' = writebuf_stream b" "n = int (length buf)"
    "buf = take (nat n) (writebuf_stream b)" "n = w_len b' - w_pointer b'" "w_queue b' = w_queue b"
proof -
  from assms(3) obtain s where s: "w_data b = Some s" by (auto simp: has_write_data_def)
  define n where "n = w_len b - w_pointer b"
  have n: "0 \<le> n" "nat n = length s - nat (w_pointer b)"
    using assms(1) s by (auto simp: writebuf_inv_def n_def)
  have pw: "prepare_write b = Inr (b\<lparr>w_is_writing := True\<rparr>, drop (nat (w_pointer b)) s, n)"
    using assms s by (simp add: prepare_write_def n_def)
  have inv: "writebuf_inv (b\<lparr>w_is_writing := True\<rparr>)"
    using assms(1) s by (simp add: writebuf_inv_def)
  show ?thesis
    by (rule that [OF pw inv]) (use assms(1) s n in \<open>simp_all add: writebuf_stream_def n_def\<close>)
qed

lemma have_written_spec:
  assumes "writebuf_inv b" "w_is_writing b" "0 \<le> sz" "sz \<le> w_len b - w_pointer b"
  obtains b' where "have_written b sz = Inr b'" "writebuf_inv b'" "can_write b'"
    "writebuf_stream b' = drop (nat sz) (writebuf_stream b)"
    "length (queue_list (w_queue b')) \<le> length (queue_list (w_queue b))"
proof -
  from assms(1,2) obtain s where s: "w_data b = Some s"
    by (cases "w_data b") (auto simp: writebuf_inv_def)
  have inv: "queue_inv (w_queue b)" "w_len b = int (length s)" "0 \<le> w_pointer b" "w_pointer b \<le> w_len b"
      "int (length s) \<le> INT_MAX"
    using assms(1) s by (auto simp: writebuf_inv_def)
  have pre: "w_pointer b + sz \<le> w_len b" "\<not> w_pointer b + sz > INT_MAX"
    using assms(4) inv by auto
  consider (part) "w_pointer b + sz < w_len b"
    | (more) d ds where "w_pointer b + sz = w_len b" "queue_list (w_queue b) = d # ds"
    | (last) "w_pointer b + sz = w_len b" "queue_list (w_queue b) = []"
    using pre(1) by (cases "queue_list (w_queue b)") (auto simp: order_le_less)
  then show ?thesis
  proof cases
    case part
    define b' where "b' = b\<lparr>w_is_writing := False, w_pointer := w_pointer b + sz\<rparr>"
    have "have_written b sz = Inr b'"
      using part pre assms(2) by (simp add: have_written_def b'_def)
    moreover have "writebuf_inv b'" "can_write b'"
      using assms(1,3) part s inv by (auto simp: writebuf_inv_def b'_def can_write_def)
    moreover have "writebuf_stream b' = drop (nat sz) (writebuf_stream b)"
      using s part inv assms(3) by (simp add: writebuf_stream_def b'_def nat_add_distrib add.commute)
    ultimately show ?thesis using that [of b'] by (simp add: b'_def)
  next
    case (more d ds)
    from queue_pop_spec [OF inv(1)] more(2) obtain q where q: "queue_pop (w_queue b) = Inr (d, q)"
      "queue_inv q" "queue_list q = ds" by auto
    define b' where "b' = b\<lparr>w_is_writing := False, w_pointer := 0, w_data := Some d, w_queue := q,
      w_len := c_int (int (length d))\<rparr>"
    have d: "int (length d) \<le> INT_MAX" "\<forall>s \<in> set ds. int (length s) \<le> INT_MAX"
      using assms(1) more(2) by (auto simp: writebuf_inv_def)
    have "have_written b sz = Inr b'"
      using more pre assms(2) q by (simp add: have_written_def b'_def queue_is_empty_iff)
    moreover have "writebuf_inv b'" "can_write b'"
      using d q by (auto simp: writebuf_inv_def b'_def can_write_def)
    moreover have "writebuf_stream b' = drop (nat sz) (writebuf_stream b)"
    proof -
      have "nat sz = length s - nat (w_pointer b)"
        using more(1) inv by simp
      then show ?thesis using s more(2) q by (simp add: writebuf_stream_def b'_def)
    qed
    moreover have "length (queue_list (w_queue b')) \<le> length (queue_list (w_queue b))"
      unfolding more(2) b'_def by (simp add: q(3) del: length_queue_list)
    ultimately show ?thesis using that by blast
  next
    case last
    define b' where "b' = b\<lparr>w_is_writing := False, w_pointer := 0, w_data := None, w_len := 0\<rparr>"
    have "have_written b sz = Inr b'"
      using last pre assms(2) by (simp add: have_written_def b'_def queue_is_empty_iff)
    moreover have "writebuf_inv b'" "can_write b'"
      using assms(1) last by (auto simp: writebuf_inv_def b'_def can_write_def)
    moreover have "writebuf_stream b' = drop (nat sz) (writebuf_stream b)"
    proof -
      have "nat sz = length s - nat (w_pointer b)" using last(1) inv by simp
      then show ?thesis using s last by (simp add: writebuf_stream_def b'_def)
    qed
    ultimately show ?thesis using that [of b'] by (simp add: b'_def)
  qed
qed

lemma free_writequeue_ok: "queue_inv q \<Longrightarrow> free_writequeue q = Inr ()"
proof (induction q rule: free_writequeue.induct)
  case (1 q)
  show ?case
  proof (cases "queue_is_empty q")
    case True
    then show ?thesis by (simp add: free_writequeue.simps [of q] free_queue_def)
  next
    case False
    with "1.prems" obtain q' where q': "queue_pop q = Inr (hd (queue_list q), q')" "queue_inv q'"
      using queue_pop_spec [OF "1.prems"] by (auto simp: queue_is_empty_iff)
    from "1.IH" [OF False q'(1) refl q'(2)] q'(1) False show ?thesis
      by (simp add: free_writequeue.simps [of q])
  qed
qed

lemma free_writebuf_ok: "writebuf_inv b \<Longrightarrow> free_writebuf b = Inr ()"
  by (simp add: free_writebuf_def writebuf_inv_def free_writequeue_ok)

section \<open>The contract of an output stream\<close>

text \<open>
  A run is a sequence of pushes and of writes, each write transferring at most the
  given number of bytes, as \<open>write\<close> on a non-blocking socket may.
\<close>

datatype wop = WPush string | WWrite nat

fun pushed :: "wop list \<Rightarrow> string" where
  "pushed [] = []"
| "pushed (WPush s # ops) = s @ pushed ops"
| "pushed (WWrite k # ops) = pushed ops"

fun push_count :: "wop list \<Rightarrow> nat" where
  "push_count [] = 0"
| "push_count (WPush s # ops) = Suc (push_count ops)"
| "push_count (WWrite k # ops) = push_count ops"

fun pushes_fit :: "wop list \<Rightarrow> bool" where
  "pushes_fit [] \<longleftrightarrow> True"
| "pushes_fit (WPush s # ops) \<longleftrightarrow> int (length s) \<le> INT_MAX \<and> pushes_fit ops"
| "pushes_fit (WWrite k # ops) \<longleftrightarrow> pushes_fit ops"

fun stream_run :: "('b \<Rightarrow> string \<Rightarrow> 'b result) \<Rightarrow> ('b \<Rightarrow> bool) \<Rightarrow>
    ('b \<Rightarrow> ('b \<times> string \<times> int) result) \<Rightarrow> ('b \<Rightarrow> int \<Rightarrow> 'b result) \<Rightarrow>
    'b \<Rightarrow> string \<Rightarrow> wop list \<Rightarrow> ('b \<times> string) result" where
  "stream_run push has prep written b out [] = Inr (b, out)"
| "stream_run push has prep written b out (WPush s # ops) =
     rbind (push b s) (\<lambda>b. stream_run push has prep written b out ops)"
| "stream_run push has prep written b out (WWrite k # ops) =
     (if has b
      then rbind (prep b) (\<lambda>(b, buf, n).
             rbind (written b (min (int k) n))
               (\<lambda>b. stream_run push has prep written b (out @ take (nat (min (int k) n)) buf) ops))
      else stream_run push has prep written b out ops)"

locale outstream =
  fixes inv :: "'b \<Rightarrow> bool"
    and stream :: "'b \<Rightarrow> string"
    and backlog :: "'b \<Rightarrow> nat"
    and idle :: "'b \<Rightarrow> bool"
    and has :: "'b \<Rightarrow> bool"
    and push :: "'b \<Rightarrow> string \<Rightarrow> 'b result"
    and prep :: "'b \<Rightarrow> ('b \<times> string \<times> int) result"
    and written :: "'b \<Rightarrow> int \<Rightarrow> 'b result"
  assumes push_law: "inv b \<Longrightarrow> backlog b \<le> 2 ^ 30 \<Longrightarrow> int (length s) \<le> INT_MAX \<Longrightarrow>
      \<exists>b'. push b s = Inr b' \<and> inv b' \<and> stream b' = stream b @ s \<and> idle b' = idle b \<and>
           backlog b' \<le> Suc (backlog b)"
    and write_law: "inv b \<Longrightarrow> idle b \<Longrightarrow> has b \<Longrightarrow>
      \<exists>b' buf n. prep b = Inr (b', buf, n) \<and> n = int (length buf) \<and>
        buf = take (nat n) (stream b) \<and>
        (\<forall>k. 0 \<le> k \<longrightarrow> k \<le> n \<longrightarrow> (\<exists>b''. written b' k = Inr b'' \<and> inv b'' \<and> idle b'' \<and>
           stream b'' = drop (nat k) (stream b) \<and> backlog b'' \<le> backlog b))"
begin

lemma write_step:
  assumes "inv b" "idle b" "has b"
  obtains b' buf n b'' where "prep b = Inr (b', buf, n)" "written b' (min (int k) n) = Inr b''"
    "inv b''" "idle b''" "backlog b'' \<le> backlog b"
    "take (nat (min (int k) n)) buf @ stream b'' = stream b"
proof -
  from write_law [OF assms] obtain b' buf n where
    p: "prep b = Inr (b', buf, n)" "n = int (length buf)" "buf = take (nat n) (stream b)"
    and w: "\<forall>k. 0 \<le> k \<longrightarrow> k \<le> n \<longrightarrow> (\<exists>b''. written b' k = Inr b'' \<and> inv b'' \<and> idle b'' \<and>
           stream b'' = drop (nat k) (stream b) \<and> backlog b'' \<le> backlog b)" by blast
  define j where "j = min (int k) n"
  have j: "0 \<le> j" "j \<le> n" using p(2) by (auto simp: j_def)
  with w obtain b'' where b'': "written b' j = Inr b''" "inv b''" "idle b''"
    "stream b'' = drop (nat j) (stream b)" "backlog b'' \<le> backlog b" by blast
  have "take (nat j) buf = take (nat j) (stream b)"
    using j by (subst p(3)) (simp add: min_def)
  then have "take (nat j) buf @ stream b'' = stream b" by (simp add: b''(4))
  with p(1) b'' that show ?thesis by (simp add: j_def)
qed

lemma run_complete:
  assumes "inv b" "idle b" "backlog b + push_count ops \<le> 2 ^ 30" "pushes_fit ops"
  shows "\<exists>b' out'. stream_run push has prep written b out ops = Inr (b', out') \<and> inv b' \<and> idle b' \<and>
    out' @ stream b' = out @ stream b @ pushed ops"
  using assms
proof (induction ops arbitrary: b out)
  case Nil
  then show ?case by simp
next
  case (Cons op ops)
  show ?case
  proof (cases op)
    case (WPush s)
    with Cons.prems push_law [of b s] obtain b1 where b1: "push b s = Inr b1" "inv b1"
      "stream b1 = stream b @ s" "idle b1" "backlog b1 \<le> Suc (backlog b)" by auto
    then have "backlog b1 + push_count ops \<le> 2 ^ 30" "pushes_fit ops"
      using Cons.prems WPush by auto
    from Cons.IH [OF b1(2,4) this, of out] b1 WPush show ?thesis by auto
  next
    case (WWrite k)
    show ?thesis
    proof (cases "has b")
      case True
      from write_step [OF Cons.prems(1,2) True, of k] obtain b1 buf n b2 where
        b2: "prep b = Inr (b1, buf, n)" "written b1 (min (int k) n) = Inr b2" "inv b2" "idle b2"
          "backlog b2 \<le> backlog b" "take (nat (min (int k) n)) buf @ stream b2 = stream b" .
      have "backlog b2 + push_count ops \<le> 2 ^ 30" "pushes_fit ops"
        using Cons.prems WWrite b2(5) by auto
      from Cons.IH [OF b2(3,4) this, of "out @ take (nat (min (int k) n)) buf"]
      obtain b' out' where "stream_run push has prep written b2 (out @ take (nat (min (int k) n)) buf) ops
          = Inr (b', out')" "inv b'" "idle b'"
        "out' @ stream b' = (out @ take (nat (min (int k) n)) buf) @ stream b2 @ pushed ops" by blast
      then show ?thesis using True WWrite b2(1,2) b2(6) [symmetric] by auto
    next
      case False
      with Cons.IH [of b out] Cons.prems WWrite show ?thesis by auto
    qed
  qed
qed

end

lemma queue_room_small: "queue_inv q \<Longrightarrow> length (queue_list q) \<le> 2 ^ 30 \<Longrightarrow> queue_room q"
  by (auto simp: queue_room_def queue_inv_def word_less_nat_alt)

interpretation wb: outstream writebuf_inv writebuf_stream "\<lambda>b. length (queue_list (w_queue b))"
  can_write has_write_data push_write_data prepare_write have_written
proof
  fix b :: t_writebuf and s :: string
  assume inv: "writebuf_inv b" and small: "length (queue_list (w_queue b)) \<le> 2 ^ 30"
    and s: "int (length s) \<le> INT_MAX"
  have "writebuf_room b"
    using inv small by (auto simp: writebuf_room_def writebuf_inv_def intro: queue_room_small)
  from push_write_data_spec [OF inv this s] show "\<exists>b'. push_write_data b s = Inr b' \<and> writebuf_inv b' \<and>
      writebuf_stream b' = writebuf_stream b @ s \<and> can_write b' = can_write b \<and>
      length (queue_list (w_queue b')) \<le> Suc (length (queue_list (w_queue b)))"
    unfolding can_write_def by metis
next
  fix b
  assume pre: "writebuf_inv b" "can_write b" "has_write_data b"
  from prepare_write_spec [OF pre] obtain b' buf n where p: "prepare_write b = Inr (b', buf, n)"
    "writebuf_inv b'" "w_is_writing b'" "writebuf_stream b' = writebuf_stream b" "n = int (length buf)"
    "buf = take (nat n) (writebuf_stream b)" "n = w_len b' - w_pointer b'" "w_queue b' = w_queue b" .
  have "\<exists>b''. have_written b' k = Inr b'' \<and> writebuf_inv b'' \<and> can_write b'' \<and>
      writebuf_stream b'' = drop (nat k) (writebuf_stream b) \<and>
      length (queue_list (w_queue b'')) \<le> length (queue_list (w_queue b))" if "0 \<le> k" "k \<le> n" for k
  proof -
    from that(2) p(7) have "k \<le> w_len b' - w_pointer b'" by simp
    from have_written_spec [OF p(2,3) that(1) this] show ?thesis unfolding p(4,8) by metis
  qed
  with p(1,5,6) show "\<exists>b' buf n. prepare_write b = Inr (b', buf, n) \<and> n = int (length buf) \<and>
      buf = take (nat n) (writebuf_stream b) \<and>
      (\<forall>k. 0 \<le> k \<longrightarrow> k \<le> n \<longrightarrow> (\<exists>b''. have_written b' k = Inr b'' \<and> writebuf_inv b'' \<and> can_write b'' \<and>
        writebuf_stream b'' = drop (nat k) (writebuf_stream b) \<and>
        length (queue_list (w_queue b'')) \<le> length (queue_list (w_queue b))))"
    by blast
qed

end
