(* ===== verification/Arraylist.thy ===== *)
theory Arraylist
  imports Prelude
begin

text \<open>
  The list with keys of \<open>src/src/server/arraylist.c\<close> and \<open>arraylist.h\<close>:
  two parallel arrays grown by doubling, looked up by a linear scan. \<open>'a\<close>
  is the type of the stored pointers; \<open>None\<close> as a lookup result is
  \<open>NULL\<close>. The invariant \<open>list_inv\<close> and the abstraction
  \<open>list_pairs\<close> (the list of key and data pairs) describe the structure, the
  locale \<open>keyed_store\<close> is the interface the server relies on, interpreted
  on these operations.
\<close>

section \<open>Model\<close>

record 'a t_list =
  l_key :: "int arr"
  l_data :: "'a arr"
  l_len :: int
  l_capacity :: int

definition INVALID_INDEX :: int where
  "INVALID_INDEX = -1"

definition init_list :: "int \<Rightarrow> 'a t_list" where
  "init_list capacity =
     \<lparr>l_key = arr_malloc (nat capacity), l_data = arr_malloc (nat capacity),
      l_len = 0, l_capacity = capacity\<rparr>"

definition list_is_empty :: "'a t_list \<Rightarrow> bool" where
  "list_is_empty l \<longleftrightarrow> l_len l = 0"

function list_lookup_index_from :: "'a t_list \<Rightarrow> int \<Rightarrow> nat \<Rightarrow> int result" where
  "list_lookup_index_from l key i =
     (if int i < l_len l
      then rbind (arr_read (l_key l) i)
             (\<lambda>k. if k = key then Inr (int i) else list_lookup_index_from l key (Suc i))
      else Inr INVALID_INDEX)"
  by pat_completeness auto
termination
  by (relation "measure (\<lambda>(l, key, i). nat (l_len l) - i)") auto

definition list_lookup_index :: "'a t_list \<Rightarrow> int \<Rightarrow> int result" where
  "list_lookup_index l key = list_lookup_index_from l key 0"

definition list_lookup :: "'a t_list \<Rightarrow> int \<Rightarrow> 'a option result" where
  "list_lookup l key =
     rbind (list_lookup_index l key)
       (\<lambda>i. if i = INVALID_INDEX then Inr None
            else rbind (arr_read (l_data l) (nat i)) (\<lambda>d. Inr (Some d)))"

definition list_remove :: "'a t_list \<Rightarrow> int \<Rightarrow> 'a t_list result" where
  "list_remove l key =
     rbind (list_lookup_index l key)
       (\<lambda>i. if i \<noteq> INVALID_INDEX
            then rbind (rassert (\<not> list_is_empty l))
                   (\<lambda>_. let n = l_len l - 1 in
                     rbind (arr_read (l_key l) (nat n))
                       (\<lambda>k. rbind (arr_write (l_key l) (nat i) k)
                       (\<lambda>keys. rbind (arr_read (l_data l) (nat n))
                       (\<lambda>d. rbind (arr_write (l_data l) (nat i) d)
                       (\<lambda>datas. Inr (l\<lparr>l_len := n, l_key := keys, l_data := datas\<rparr>))))))
            else Inr l)"

definition free_list :: "'a t_list \<Rightarrow> unit result" where
  "free_list l = rassert (list_is_empty l)"

definition list_resize :: "'a t_list \<Rightarrow> 'a t_list result" where
  "list_resize l =
     (let newcap = l_capacity l * 2
      in if newcap > INT_MAX then Inl Int_overflow
         else Inr (l\<lparr>l_capacity := newcap,
                     l_key := arr_realloc (l_key l) (nat newcap),
                     l_data := arr_realloc (l_data l) (nat newcap)\<rparr>))"

definition list_append :: "'a t_list \<Rightarrow> int \<Rightarrow> 'a \<Rightarrow> 'a t_list result" where
  "list_append l key elt =
     rbind (if l_len l = l_capacity l then list_resize l else Inr l)
       (\<lambda>l. rbind (arr_write (l_key l) (nat (l_len l)) key)
       (\<lambda>keys. rbind (arr_write (l_data l) (nat (l_len l)) elt)
       (\<lambda>datas. Inr (l\<lparr>l_key := keys, l_data := datas, l_len := l_len l + 1\<rparr>))))"

definition list_length :: "'a t_list \<Rightarrow> int" where
  "list_length l = l_len l"

section \<open>Invariant and abstraction\<close>

definition list_inv :: "'a t_list \<Rightarrow> bool" where
  "list_inv l \<longleftrightarrow>
     0 \<le> l_len l \<and> l_len l \<le> l_capacity l \<and> 0 < l_capacity l \<and> l_capacity l \<le> INT_MAX \<and>
     length (l_key l) = nat (l_capacity l) \<and> length (l_data l) = nat (l_capacity l) \<and>
     (\<forall>i < nat (l_len l). l_key l ! i \<noteq> None \<and> l_data l ! i \<noteq> None)"

definition list_pairs :: "'a t_list \<Rightarrow> (int \<times> 'a) list" where
  "list_pairs l = map (\<lambda>i. (the (l_key l ! i), the (l_data l ! i))) [0..<nat (l_len l)]"

definition list_room :: "'a t_list \<Rightarrow> bool" where
  "list_room l \<longleftrightarrow> l_len l < l_capacity l \<or> 2 * l_len l \<le> INT_MAX"

text \<open>What removal does to the abstract list: the last pair takes the place of the removed one.\<close>

definition swap_remove :: "'b list \<Rightarrow> nat \<Rightarrow> 'b list" where
  "swap_remove xs i = butlast (xs[i := last xs])"

section \<open>Lemmas\<close>

declare list_lookup_index_from.simps [simp del]

lemma length_list_pairs [simp]: "length (list_pairs l) = nat (l_len l)"
  by (simp add: list_pairs_def)

lemma nth_list_pairs:
  "i < nat (l_len l) \<Longrightarrow> list_pairs l ! i = (the (l_key l ! i), the (l_data l ! i))"
  by (simp add: list_pairs_def)

lemma list_inv_cells:
  "list_inv l \<Longrightarrow> i < nat (l_len l) \<Longrightarrow>
   i < length (l_key l) \<and> i < length (l_data l) \<and> l_key l ! i \<noteq> None \<and> l_data l ! i \<noteq> None"
  by (auto simp: list_inv_def)

lemma list_pairs_init [simp]: "list_pairs (init_list c) = []"
  by (simp add: list_pairs_def init_list_def)

lemma list_inv_init: "0 < c \<Longrightarrow> c \<le> INT_MAX \<Longrightarrow> list_inv (init_list c)"
  by (simp add: list_inv_def init_list_def)

lemma list_is_empty_iff: "list_inv l \<Longrightarrow> list_is_empty l \<longleftrightarrow> list_pairs l = []"
  by (auto simp: list_is_empty_def list_pairs_def list_inv_def)

lemma list_length_eq: "list_inv l \<Longrightarrow> list_length l = int (length (list_pairs l))"
  by (simp add: list_length_def list_inv_def)

lemma list_lookup_index_from_absent:
  assumes "list_inv l" "\<forall>j. i \<le> j \<longrightarrow> j < nat (l_len l) \<longrightarrow> fst (list_pairs l ! j) \<noteq> key"
  shows "list_lookup_index_from l key i = Inr INVALID_INDEX"
  using assms
proof (induction l key i rule: list_lookup_index_from.induct)
  case (1 l key i)
  show ?case
  proof (cases "int i < l_len l")
    case True
    then have i: "i < nat (l_len l)" by simp
    from list_inv_cells [OF "1.prems"(1) i] have cells:
      "arr_read (l_key l) i = Inr (the (l_key l ! i))" by (simp add: array_simps)
    moreover have "the (l_key l ! i) \<noteq> key"
      using "1.prems"(2) i by (auto simp: nth_list_pairs)
    ultimately show ?thesis
      using True "1.IH" "1.prems" by (subst list_lookup_index_from.simps) simp
  next
    case False
    then show ?thesis by (subst list_lookup_index_from.simps) simp
  qed
qed

lemma list_lookup_index_from_found:
  assumes "list_inv l" "i \<le> k" "k < nat (l_len l)" "fst (list_pairs l ! k) = key"
    "\<forall>j. i \<le> j \<longrightarrow> j < k \<longrightarrow> fst (list_pairs l ! j) \<noteq> key"
  shows "list_lookup_index_from l key i = Inr (int k)"
  using assms
proof (induction l key i rule: list_lookup_index_from.induct)
  case (1 l key i)
  then have i: "i < nat (l_len l)" and i': "int i < l_len l" by simp_all
  from list_inv_cells [OF "1.prems"(1) i] have cells:
    "arr_read (l_key l) i = Inr (the (l_key l ! i))" by (simp add: array_simps)
  show ?case
  proof (cases "i = k")
    case True
    then show ?thesis using "1.prems" cells i i'
      by (subst list_lookup_index_from.simps) (simp add: nth_list_pairs)
  next
    case False
    then have "the (l_key l ! i) \<noteq> key"
      using "1.prems" i by (auto simp: nth_list_pairs)
    moreover have "Suc i \<le> k" using False "1.prems" by simp
    ultimately show ?thesis
      using "1.IH" "1.prems" cells i' by (subst list_lookup_index_from.simps) simp
  qed
qed

text \<open>The first pair with a key, as an index: what the scan computes.\<close>

lemma first_key_cases:
  obtains (absent) "\<forall>j < length xs. fst (xs ! j) \<noteq> key"
  | (found) k where "k < length xs" "fst (xs ! k) = key" "\<forall>j < k. fst (xs ! j) \<noteq> key"
proof (cases "\<exists>j < length xs. fst (xs ! j) = key")
  case True
  then obtain j where j: "j < length xs" "fst (xs ! j) = key" by blast
  define k where "k = (LEAST j. j < length xs \<and> fst (xs ! j) = key)"
  from j have "k < length xs \<and> fst (xs ! k) = key"
    unfolding k_def by (intro LeastI) simp
  moreover have "\<forall>j < k. fst (xs ! j) \<noteq> key"
  proof (intro allI impI notI)
    fix j assume j: "j < k" "fst (xs ! j) = key"
    then have "j < length xs" using calculation by simp
    then show False using j not_less_Least [of j "\<lambda>j. j < length xs \<and> fst (xs ! j) = key"]
      by (simp add: k_def)
  qed
  ultimately show ?thesis using found by blast
next
  case False
  then show ?thesis using absent by blast
qed

lemma list_lookup_index_absent:
  "list_inv l \<Longrightarrow> \<forall>j < length (list_pairs l). fst (list_pairs l ! j) \<noteq> key \<Longrightarrow>
   list_lookup_index l key = Inr INVALID_INDEX"
  unfolding list_lookup_index_def by (rule list_lookup_index_from_absent) auto

lemma list_lookup_index_found:
  "list_inv l \<Longrightarrow> k < length (list_pairs l) \<Longrightarrow> fst (list_pairs l ! k) = key \<Longrightarrow>
   \<forall>j < k. fst (list_pairs l ! j) \<noteq> key \<Longrightarrow> list_lookup_index l key = Inr (int k)"
  unfolding list_lookup_index_def by (rule list_lookup_index_from_found) auto

lemma map_of_first_key:
  assumes "k < length xs" "fst (xs ! k) = key" "\<forall>j < k. fst (xs ! j) \<noteq> key"
  shows "map_of xs key = Some (snd (xs ! k))"
  using assms
proof (induction xs arbitrary: k)
  case (Cons x xs)
  show ?case
  proof (cases k)
    case 0
    with Cons.prems show ?thesis by (cases x) auto
  next
    case (Suc k')
    with Cons.prems have "fst x \<noteq> key" by auto
    moreover have "map_of xs key = Some (snd (xs ! k'))"
      using Cons.prems Suc by (intro Cons.IH) auto
    ultimately show ?thesis using Suc by (cases x) auto
  qed
qed simp

lemma map_of_no_key: "\<forall>j < length xs. fst (xs ! j) \<noteq> key \<Longrightarrow> map_of xs key = None"
  by (auto simp: map_of_eq_None_iff in_set_conv_nth) (metis fst_conv)

lemma map_of_filter_key:
  "map_of (filter (\<lambda>p. fst p \<noteq> k) xs) k' = (if k' = k then None else map_of xs k')"
  by (induction xs) auto

text \<open>Lookup finds exactly the first pair with the key, and never fails on a well-formed list.\<close>

lemma list_lookup_spec: "list_inv l \<Longrightarrow> list_lookup l key = Inr (map_of (list_pairs l) key)"
proof (cases rule: first_key_cases [of "list_pairs l" key])
  case absent
  assume "list_inv l"
  with absent show ?thesis
    by (simp add: list_lookup_def list_lookup_index_absent map_of_no_key)
next
  case (found k)
  assume inv: "list_inv l"
  then have "list_lookup_index l key = Inr (int k)"
    by (rule list_lookup_index_found [OF _ found])
  moreover have "arr_read (l_data l) k = Inr (the (l_data l ! k))"
    using list_inv_cells [OF inv, of k] found(1) by (simp add: array_simps)
  moreover have "int k \<noteq> INVALID_INDEX" by (simp add: INVALID_INDEX_def)
  ultimately show ?thesis
    using map_of_first_key [OF found] found(1)
    by (simp add: list_lookup_def nth_list_pairs)
qed

lemma list_resize_spec:
  assumes "list_inv l" "2 * l_capacity l \<le> INT_MAX"
  obtains l' where "list_resize l = Inr l'" "list_inv l'" "list_pairs l' = list_pairs l"
    "l_len l' = l_len l" "l_len l' < l_capacity l'"
proof -
  define l' where "l' = l\<lparr>l_capacity := l_capacity l * 2,
    l_key := arr_realloc (l_key l) (nat (l_capacity l * 2)),
    l_data := arr_realloc (l_data l) (nat (l_capacity l * 2))\<rparr>"
  have "list_resize l = Inr l'"
    using assms(2) by (simp add: list_resize_def l'_def Let_def)
  moreover have "list_inv l'"
    using assms by (auto simp: list_inv_def l'_def array_simps)
  moreover have "list_pairs l' = list_pairs l"
    using assms(1) unfolding list_pairs_def l'_def
    by (intro map_cong) (auto simp: list_inv_def array_simps)
  moreover have "l_len l' = l_len l \<and> l_len l' < l_capacity l'"
    using assms(1) by (auto simp: l'_def list_inv_def)
  ultimately show ?thesis using that by blast
qed

lemma list_write_spec:
  fixes l :: "'a t_list" and key :: int and elt :: 'a
  assumes "list_inv l" "l_len l < l_capacity l"
  defines "l' \<equiv> l\<lparr>l_key := (l_key l)[nat (l_len l) := Some key],
                  l_data := (l_data l)[nat (l_len l) := Some elt], l_len := l_len l + 1\<rparr>"
  shows "list_inv l' \<and> list_pairs l' = list_pairs l @ [(key, elt)]"
proof
  have len: "nat (l_len l + 1) = Suc (nat (l_len l))"
    using assms(1) by (simp add: list_inv_def nat_add_distrib)
  show "list_inv l'"
    using assms(1,2) by (auto simp: list_inv_def l'_def nth_list_update len less_Suc_eq)
  have "nat (l_len l) < length (l_key l)" "nat (l_len l) < length (l_data l)"
    using assms(1,2) by (auto simp: list_inv_def)
  with len show "list_pairs l' = list_pairs l @ [(key, elt)]"
    by (auto simp: list_pairs_def l'_def nth_list_update)
qed

lemma list_append_spec:
  assumes "list_inv l" "list_room l"
  obtains l' where "list_append l key elt = Inr l'" "list_inv l'"
    "list_pairs l' = list_pairs l @ [(key, elt)]"
proof -
  obtain l1 where l1: "(if l_len l = l_capacity l then list_resize l else Inr l) = Inr l1"
    and inv: "list_inv l1" and pairs: "list_pairs l1 = list_pairs l" and free: "l_len l1 < l_capacity l1"
  proof (cases "l_len l = l_capacity l")
    case True
    with assms(2) have "2 * l_capacity l \<le> INT_MAX" by (simp add: list_room_def)
    from list_resize_spec [OF assms(1) this] True that show ?thesis by metis
  next
    case False
    with assms(1) that show ?thesis by (auto simp: list_inv_def)
  qed
  have "nat (l_len l1) < length (l_key l1)" "nat (l_len l1) < length (l_data l1)"
    using inv free by (auto simp: list_inv_def)
  then have "list_append l key elt = Inr (l1\<lparr>l_key := (l_key l1)[nat (l_len l1) := Some key],
      l_data := (l_data l1)[nat (l_len l1) := Some elt], l_len := l_len l1 + 1\<rparr>)"
    unfolding list_append_def l1 by (simp add: array_simps)
  with list_write_spec [OF inv free, where key = key and elt = elt] pairs that show ?thesis by simp
qed

lemma list_append_no_room: "list_inv l \<Longrightarrow> \<not> list_room l \<Longrightarrow> list_append l key elt = Inl Int_overflow"
  by (simp add: list_append_def list_resize_def list_room_def list_inv_def Let_def)

lemma list_remove_absent:
  "list_inv l \<Longrightarrow> \<forall>j < length (list_pairs l). fst (list_pairs l ! j) \<noteq> key \<Longrightarrow>
   list_remove l key = Inr l"
  by (simp add: list_remove_def list_lookup_index_absent)

lemma list_remove_found:
  assumes "list_inv l" "k < length (list_pairs l)" "fst (list_pairs l ! k) = key"
    "\<forall>j < k. fst (list_pairs l ! j) \<noteq> key"
  obtains l' where "list_remove l key = Inr l'" "list_inv l'"
    "list_pairs l' = swap_remove (list_pairs l) k"
proof -
  define n where "n = nat (l_len l - 1)"
  define l' where "l' = l\<lparr>l_len := l_len l - 1,
    l_key := (l_key l)[k := Some (the (l_key l ! n))],
    l_data := (l_data l)[k := Some (the (l_data l ! n))]\<rparr>"
  have idx: "list_lookup_index l key = Inr (int k)"
    using assms by (rule list_lookup_index_found)
  have k: "k < nat (l_len l)" and len: "nat (l_len l) = Suc n" "l_len l \<noteq> 0"
    using assms(2) by (auto simp: n_def)
  have n: "n < nat (l_len l)" and nl: "nat (l_len l - 1) = n"
    using len by (simp_all add: n_def)
  note cells = list_inv_cells [OF assms(1) k] list_inv_cells [OF assms(1) n]
  have "list_remove l key = Inr l'"
    using cells len(2) by (simp add: list_remove_def idx INVALID_INDEX_def list_is_empty_def
        Let_def array_simps l'_def nl)
  moreover have "list_inv l'"
  proof -
    have "0 \<le> l_len l - 1" "l_len l - 1 \<le> l_capacity l"
      using assms(1) len(2) by (auto simp: list_inv_def)
    moreover have "\<forall>i < n. l_key l ! i \<noteq> None \<and> l_data l ! i \<noteq> None"
      using list_inv_cells [OF assms(1)] len(1) by auto
    ultimately show ?thesis
      using assms(1) cells by (simp add: list_inv_def l'_def nth_list_update nl)
  qed
  moreover have "list_pairs l' = swap_remove (list_pairs l) k"
  proof (rule nth_equalityI)
    show "length (list_pairs l') = length (swap_remove (list_pairs l) k)"
      using len(1) by (simp add: l'_def swap_remove_def nl)
    fix i assume "i < length (list_pairs l')"
    then have i: "i < n" by (simp add: l'_def nl)
    have "list_pairs l \<noteq> []" using assms(2) by (auto simp del: length_list_pairs)
    then have "last (list_pairs l) = list_pairs l ! n"
      using len(1) by (simp add: last_conv_nth)
    then show "list_pairs l' ! i = swap_remove (list_pairs l) k ! i"
      using i len(1) k n cells unfolding swap_remove_def l'_def
      by (simp add: nth_butlast nth_list_update nth_list_pairs nl)
  qed
  ultimately show ?thesis using that by blast
qed

lemma mset_swap_remove:
  assumes "k < length xs"
  shows "mset (swap_remove xs k) = mset xs - {#xs ! k#}"
proof -
  let ?ys = "xs[k := last xs]"
  from assms have ne: "?ys \<noteq> []" and xs: "xs \<noteq> []" by auto
  have last: "last ?ys = last xs"
    using assms xs by (cases "k = length xs - 1") (auto simp: last_conv_nth nth_list_update)
  have "mset ?ys = mset (butlast ?ys @ [last ?ys])"
    by (simp only: append_butlast_last_id [OF ne])
  then have "add_mset (last xs) (mset (butlast ?ys)) = mset ?ys"
    by (simp add: last)
  also have "\<dots> = add_mset (last xs) (mset xs - {#xs ! k#})"
    using assms by (rule mset_update)
  finally show ?thesis by (simp add: swap_remove_def)
qed

lemma list_remove_spec:
  assumes "list_inv l"
  obtains l' where "list_remove l key = Inr l'" "list_inv l'"
    "mset (list_pairs l') = (case map_of (list_pairs l) key of None \<Rightarrow> mset (list_pairs l)
        | Some v \<Rightarrow> mset (list_pairs l) - {#(key, v)#})"
proof (cases rule: first_key_cases [of "list_pairs l" key])
  case absent
  with assms that show ?thesis by (simp add: list_remove_absent map_of_no_key)
next
  case (found k)
  from list_remove_found [OF assms found] obtain l' where l':
    "list_remove l key = Inr l'" "list_inv l'" "list_pairs l' = swap_remove (list_pairs l) k" .
  moreover have "list_pairs l ! k = (key, snd (list_pairs l ! k))"
    using found(2) by (simp add: prod_eq_iff)
  ultimately show ?thesis
    using that map_of_first_key [OF found] mset_swap_remove [OF found(1)] by simp
qed

section \<open>The interface of a keyed store\<close>

text \<open>
  What a client of the list relies on: lookup returns the first pair of a key, adding
  appends a pair while there is room, removal deletes that first pair. The client's
  facts are proved once from these laws: stores of distinct keys behave as finite maps.
\<close>

locale keyed_store =
  fixes inv :: "'l \<Rightarrow> bool"
    and pairs :: "'l \<Rightarrow> (int \<times> 'a) list"
    and room :: "'l \<Rightarrow> bool"
    and lookup :: "'l \<Rightarrow> int \<Rightarrow> 'a option result"
    and add :: "'l \<Rightarrow> int \<Rightarrow> 'a \<Rightarrow> 'l result"
    and remove :: "'l \<Rightarrow> int \<Rightarrow> 'l result"
  assumes lookup_law: "inv l \<Longrightarrow> lookup l k = Inr (map_of (pairs l) k)"
    and add_law: "inv l \<Longrightarrow> room l \<Longrightarrow>
      \<exists>l'. add l k x = Inr l' \<and> inv l' \<and> pairs l' = pairs l @ [(k, x)]"
    and remove_law: "inv l \<Longrightarrow>
      \<exists>l'. remove l k = Inr l' \<and> inv l' \<and>
        mset (pairs l') = (case map_of (pairs l) k of None \<Rightarrow> mset (pairs l)
                           | Some v \<Rightarrow> mset (pairs l) - {#(k, v)#})"
begin

lemma lookup_after_add:
  assumes "inv l" "room l" "k \<notin> fst ` set (pairs l)" "add l k x = Inr l'"
  shows "lookup l' k' = (if k' = k then Inr (Some x) else lookup l k')"
proof -
  from add_law [OF assms(1,2), of k x] assms(4)
  have l': "inv l'" "pairs l' = pairs l @ [(k, x)]" by auto
  have "map_of (pairs l) k = None"
    using assms(3) by (simp add: map_of_eq_None_iff)
  then show ?thesis
    using l' assms(1) by (auto simp: lookup_law map_add_def split: option.split)
qed

lemma distinct_after_add:
  assumes "inv l" "room l" "k \<notin> fst ` set (pairs l)" "distinct (map fst (pairs l))" "add l k x = Inr l'"
  shows "distinct (map fst (pairs l'))"
  using add_law [OF assms(1,2), of k x] assms by auto

lemma pairs_after_remove:
  assumes "inv l" "distinct (map fst (pairs l))" "remove l k = Inr l'"
  shows "mset (pairs l') = mset (filter (\<lambda>p. fst p \<noteq> k) (pairs l))"
proof -
  from remove_law [OF assms(1), of k] assms(3)
  have l': "mset (pairs l') = (case map_of (pairs l) k of None \<Rightarrow> mset (pairs l)
      | Some v \<Rightarrow> mset (pairs l) - {#(k, v)#})" by auto
  show ?thesis
  proof (cases "map_of (pairs l) k")
    case None
    then have "filter (\<lambda>p. fst p \<noteq> k) (pairs l) = pairs l"
      by (auto simp: map_of_eq_None_iff intro!: filter_True)
    with None l' show ?thesis by simp
  next
    case (Some v)
    then have mem: "(k, v) \<in> set (pairs l)" by (rule map_of_SomeD)
    then obtain as bs where split: "pairs l = as @ (k, v) # bs" by (auto dest: split_list)
    then have "k \<notin> fst ` set as" "k \<notin> fst ` set bs" using assms(2) by auto
    then have "filter (\<lambda>p. fst p \<noteq> k) as = as" "filter (\<lambda>p. fst p \<noteq> k) bs = bs"
      by (auto intro!: filter_True)
    with Some l' split show ?thesis by simp
  qed
qed

lemma distinct_after_remove:
  assumes "inv l" "distinct (map fst (pairs l))" "remove l k = Inr l'"
  shows "distinct (map fst (pairs l'))"
proof -
  have "mset (map fst (pairs l')) = mset (map fst (filter (\<lambda>p. fst p \<noteq> k) (pairs l)))"
    by (simp only: mset_map pairs_after_remove [OF assms])
  moreover have "distinct (map fst (filter (\<lambda>p. fst p \<noteq> k) (pairs l)))"
    using assms(2) by (rule distinct_map_filter)
  ultimately show ?thesis using mset_eq_imp_distinct_iff by blast
qed

lemma lookup_after_remove:
  assumes "inv l" "distinct (map fst (pairs l))" "remove l k = Inr l'"
  shows "lookup l' k' = (if k' = k then Inr None else lookup l k')"
proof -
  have l': "inv l'" using remove_law [OF assms(1), of k] assms(3) by auto
  have "set (pairs l') = set (filter (\<lambda>p. fst p \<noteq> k) (pairs l))"
    by (rule mset_eq_setD [OF pairs_after_remove [OF assms]])
  then have "map_of (pairs l') = map_of (filter (\<lambda>p. fst p \<noteq> k) (pairs l))"
    using assms by (subst map_of_inject_set) (auto intro: distinct_after_remove distinct_map_filter)
  then show ?thesis using l' assms(1) by (simp add: lookup_law map_of_filter_key)
qed

end

interpretation al: keyed_store list_inv list_pairs list_room list_lookup list_append list_remove
proof
  fix l :: "'a t_list" and k x
  assume inv: "list_inv l"
  then show "list_lookup l k = Inr (map_of (list_pairs l) k)" by (rule list_lookup_spec)
  show "\<exists>l'. list_append l k x = Inr l' \<and> list_inv l' \<and> list_pairs l' = list_pairs l @ [(k, x)]"
    if "list_room l"
    using list_append_spec [OF inv that] by metis
  show "\<exists>l'. list_remove l k = Inr l' \<and> list_inv l' \<and> mset (list_pairs l') =
      (case map_of (list_pairs l) k of None \<Rightarrow> mset (list_pairs l)
       | Some v \<Rightarrow> mset (list_pairs l) - {#(k, v)#})"
    using list_remove_spec [OF inv] by metis
qed

end
