(* ===== verification/Proc.thy ===== *)
theory Proc
  imports Arraylist Cstring
begin

text \<open>
  The list of running processes, \<open>src/src/server/proc.c\<close> and \<open>proc.h\<close> (the
  Unix branches of the conditional compilation). Killing is modelled by the list of the
  process identifiers that receive \<open>SIGKILL\<close>, in order.
\<close>

section \<open>Model\<close>

record t_proc =
  proc_id :: int
  client_key :: int
  task_id :: string
  outfile :: string

definition init_process_list :: "int \<Rightarrow> t_proc t_list" where
  "init_process_list parallel = init_list parallel"

definition os_kill :: "t_proc \<Rightarrow> int" where
  "os_kill p = proc_id p"

function kill_processes_from :: "t_proc t_list \<Rightarrow> string \<Rightarrow> nat \<Rightarrow> int list result" where
  "kill_processes_from processes i k =
     (if int k < l_len processes
      then rbind (arr_read (l_data processes) k) (\<lambda>p.
             rbind (kill_processes_from processes i (Suc k)) (\<lambda>killed.
               Inr (if strcmp0 (task_id p) i then os_kill p # killed else killed)))
      else Inr [])"
  by pat_completeness auto
termination
  by (relation "measure (\<lambda>(processes, i, k). nat (l_len processes) - k)") auto

definition kill_processes :: "t_proc t_list \<Rightarrow> string \<Rightarrow> int list result" where
  "kill_processes processes i = kill_processes_from processes i 0"

section \<open>Lemmas\<close>

declare kill_processes_from.simps [simp del]

lemma kill_processes_from_eq:
  assumes "list_inv l"
  shows "kill_processes_from l i k =
    Inr (map (proc_id \<circ> snd) (filter (\<lambda>(_, p). task_id p = i) (drop k (list_pairs l))))"
  using assms
proof (induction l i k rule: kill_processes_from.induct)
  case (1 l i k)
  show ?case
  proof (cases "int k < l_len l")
    case True
    then have k: "k < nat (l_len l)" by simp
    note c = list_inv_cells [OF 1(2) k]
    have "drop k (list_pairs l) = (the (l_key l ! k), the (l_data l ! k)) # drop (Suc k) (list_pairs l)"
      using k by (metis Cons_nth_drop_Suc length_list_pairs nth_list_pairs)
    with 1 True c show ?thesis
      by (simp add: kill_processes_from.simps [of l i k] array_simps strcmp0_def os_kill_def)
  next
    case False
    then show ?thesis by (simp add: kill_processes_from.simps [of l i k])
  qed
qed

lemma kill_processes_eq:
  "list_inv l \<Longrightarrow> kill_processes l i =
     Inr (map (proc_id \<circ> snd) (filter (\<lambda>(_, p). task_id p = i) (list_pairs l)))"
  by (simp add: kill_processes_def kill_processes_from_eq)

end
