(* ===== verification/Options.thy ===== *)
theory Options
  imports Cstring
begin

text \<open>
  Command-line options and logging of the server: \<open>src/src/server/options.c\<close> and
  \<open>logging.c\<close>. \<open>getopt_long\<close> is not part of the sources: the
  successive values it returns, each with \<open>optarg\<close>, are an argument of
  \<open>parse_options\<close>, as are the final \<open>optind\<close> and \<open>argc\<close>. The
  predicate \<open>einval\<close> says on which strings \<open>strtol\<close> sets
  \<open>errno\<close> to \<open>EINVAL\<close>, which the standard leaves to the platform when there
  is no number to convert.
\<close>

section \<open>Model\<close>

record options =
  parallel :: int
  socketname :: "string option"
  logging :: bool
  single_client :: bool

definition default_options :: options where
  "default_options = \<lparr>parallel = 1, socketname = None, logging = False, single_client = False\<rparr>"

definition parse_option :: "(string \<Rightarrow> bool) \<Rightarrow> char \<Rightarrow> string option \<Rightarrow> options \<Rightarrow> options result" where
  "parse_option einval c optarg opts =
     (if c = CHR ''i'' then Inr (opts\<lparr>single_client := True\<rparr>)
      else if c = CHR ''j'' then
        (case optarg of
           None \<Rightarrow> Inl Null_deref
         | Some arg \<Rightarrow>
             let p = c_int (strtol arg) in
             if einval arg then Inl (Exit_with 1 ''-j requires a number'')
             else if p \<le> 0 then Inl (Exit_with 1 ''-j requires a positive number'')
             else Inr (opts\<lparr>parallel := p\<rparr>))
      else if c = CHR ''l'' then Inr (opts\<lparr>logging := True\<rparr>)
      else if c = CHR ''s'' then Inr (opts\<lparr>socketname := optarg\<rparr>)
      else Inl (Exit_with 1 ''''))"

fun parse_option_loop :: "(string \<Rightarrow> bool) \<Rightarrow> (char \<times> string option) list \<Rightarrow> options \<Rightarrow> options result" where
  "parse_option_loop einval [] opts = Inr opts"
| "parse_option_loop einval ((c, optarg) # rest) opts =
     rbind (parse_option einval c optarg opts) (parse_option_loop einval rest)"

definition parse_options :: "(string \<Rightarrow> bool) \<Rightarrow> (char \<times> string option) list \<Rightarrow> int \<Rightarrow> int \<Rightarrow> options result" where
  "parse_options einval gets optind argc =
     rbind (parse_option_loop einval gets default_options) (\<lambda>opts.
       if optind < argc then Inl (Exit_with 1 ''extra arguments, stopping'')
       else if socketname opts = None
       then Inl (Exit_with 1 ''need to specify a socket name using --socket'')
       else Inr opts)"

text \<open>
  The log file is the text written to it, \<open>None\<close> for a null \<open>logfile\<close>. The
  message of \<open>log_msg\<close> is the formatted one.
\<close>

definition init_logging :: "bool \<Rightarrow> bool \<Rightarrow> string option \<Rightarrow> string option" where
  "init_logging enabled fopen_ok logfile =
     (if enabled then (if fopen_ok then Some '''' else None) else logfile)"

definition log_msg :: "bool \<Rightarrow> string option \<Rightarrow> string \<Rightarrow> string option result" where
  "log_msg enabled logfile msg =
     (if enabled
      then (case logfile of None \<Rightarrow> Inl Null_deref | Some t \<Rightarrow> Inr (Some (t @ msg @ [CHR 0x0A])))
      else Inr logfile)"

section \<open>Lemmas\<close>

lemma parse_option_parallel:
  "parse_option einval c a opts = Inr opts' \<Longrightarrow> 0 < parallel opts \<and> parallel opts \<le> INT_MAX \<Longrightarrow>
   0 < parallel opts' \<and> parallel opts' \<le> INT_MAX"
  using c_int_range [of "strtol (the a)"]
  by (auto simp: parse_option_def INT_MAX_def Let_def split: if_splits option.splits)

lemma parse_option_loop_parallel:
  "parse_option_loop einval gets opts = Inr opts' \<Longrightarrow> 0 < parallel opts \<and> parallel opts \<le> INT_MAX \<Longrightarrow>
   0 < parallel opts' \<and> parallel opts' \<le> INT_MAX"
proof (induction gets arbitrary: opts)
  case (Cons g gets)
  obtain c a where g: "g = (c, a)" by (cases g)
  with Cons.prems(1) obtain o1 where "parse_option einval c a opts = Inr o1"
    "parse_option_loop einval gets o1 = Inr opts'" by (auto simp: rbind_eq_Inr)
  with Cons.IH parse_option_parallel Cons.prems(2) show ?case by blast
qed simp

lemma parse_options_ok:
  assumes "parse_options einval gets optind argc = Inr opts"
  shows "0 < parallel opts \<and> parallel opts \<le> INT_MAX" "socketname opts \<noteq> None" "argc \<le> optind"
proof -
  from assms have l: "parse_option_loop einval gets default_options = Inr opts"
    and "socketname opts \<noteq> None" "argc \<le> optind"
    by (auto simp: parse_options_def rbind_eq_Inr split: if_splits)
  then show "socketname opts \<noteq> None" "argc \<le> optind" by auto
  have "0 < parallel default_options \<and> parallel default_options \<le> INT_MAX"
    by (simp add: default_options_def INT_MAX_def)
  with parse_option_loop_parallel l show "0 < parallel opts \<and> parallel opts \<le> INT_MAX" by blast
qed

text \<open>
  Every option sequence without an \<open>exit\<close> is read as the last value of each
  option: the loop is a left-to-right overwrite.
\<close>

lemma parse_option_loop_append:
  "parse_option_loop einval (xs @ ys) opts =
   rbind (parse_option_loop einval xs opts) (parse_option_loop einval ys)"
proof (induction xs arbitrary: opts)
  case (Cons x xs)
  then show ?case by (cases x) (auto simp: rbind_assoc intro!: rbind_cong)
qed simp

end
