(* ===== verification/Limb.thy ===== *)
theory Limb
  imports Prelude
begin

text \<open>
  Single limbs of mini-gmp: the macros of
  \<open>src/examples/multiprecision/mini-gmp/mini-gmp.c\<close> on \<open>mp_limb_t\<close>, which
  is a 64-bit word here. The lemmas give the exact value of each macro as a natural number
  or integer, with \<open>B\<close> the base \<open>2 ^ 64\<close>. The two loops of
  \<open>gmp_clz\<close> do not end on zero; they are partial functions, defined on every
  other limb.
\<close>

type_synonym limb = "64 word"

definition B :: nat where
  "B = 2 ^ 64"

section \<open>Model\<close>

definition GMP_LIMB_BITS :: nat where
  "GMP_LIMB_BITS = 64"

definition GMP_LIMB_MAX :: limb where
  "GMP_LIMB_MAX = NOT 0"

definition GMP_LIMB_HIGHBIT :: limb where
  "GMP_LIMB_HIGHBIT = push_bit (GMP_LIMB_BITS - 1) 1"

definition GMP_HLIMB_BIT :: limb where
  "GMP_HLIMB_BIT = push_bit (GMP_LIMB_BITS div 2) 1"

definition GMP_LLIMB_MASK :: limb where
  "GMP_LLIMB_MASK = GMP_HLIMB_BIT - 1"

definition GMP_ABS :: "int \<Rightarrow> int" where
  "GMP_ABS x = (if x \<ge> 0 then x else - x)"

definition GMP_CMP :: "'a::linorder \<Rightarrow> 'a \<Rightarrow> int" where
  "GMP_CMP a b = of_bool (a > b) - of_bool (a < b)"

partial_function (option) clz_bytes :: "limb \<Rightarrow> nat \<Rightarrow> (limb \<times> nat) option" where
  "clz_bytes x c =
     (if x AND push_bit (GMP_LIMB_BITS - 8) 0xff = 0 then clz_bytes (push_bit 8 x) (c + 8)
      else Some (x, c))"

partial_function (option) clz_bits :: "limb \<Rightarrow> nat \<Rightarrow> nat option" where
  "clz_bits x c =
     (if x AND GMP_LIMB_HIGHBIT = 0 then clz_bits (push_bit 1 x) (c + 1) else Some c)"

definition gmp_clz :: "limb \<Rightarrow> nat option" where
  "gmp_clz x = Option.bind (clz_bytes x 0) (\<lambda>(x, c). clz_bits x c)"

definition gmp_ctz :: "limb \<Rightarrow> nat option" where
  "gmp_ctz x = map_option (\<lambda>c. GMP_LIMB_BITS - 1 - c) (gmp_clz (x AND - x))"

definition gmp_add_ssaaaa :: "limb \<Rightarrow> limb \<Rightarrow> limb \<Rightarrow> limb \<Rightarrow> limb \<times> limb" where
  "gmp_add_ssaaaa ah al bh bl =
     (let x = al + bl in (ah + bh + of_bool (x < al), x))"

definition gmp_sub_ddmmss :: "limb \<Rightarrow> limb \<Rightarrow> limb \<Rightarrow> limb \<Rightarrow> limb \<times> limb" where
  "gmp_sub_ddmmss ah al bh bl =
     (let x = al - bl in (ah - bh - of_bool (al < bl), x))"

definition gmp_umul_ppmm :: "limb \<Rightarrow> limb \<Rightarrow> limb \<times> limb" where
  "gmp_umul_ppmm u v =
     (let ul = (ucast (u AND GMP_LLIMB_MASK) :: 32 word);
          uh = (ucast (drop_bit (GMP_LIMB_BITS div 2) u) :: 32 word);
          vl = (ucast (v AND GMP_LLIMB_MASK) :: 32 word);
          vh = (ucast (drop_bit (GMP_LIMB_BITS div 2) v) :: 32 word);
          x0 = ucast ul * ucast vl;
          x1 = ucast ul * ucast vh;
          x2 = ucast uh * ucast vl;
          x3 = ucast uh * ucast vh;
          x1 = x1 + drop_bit (GMP_LIMB_BITS div 2) x0;
          x1 = x1 + x2;
          x3 = (if x1 < x2 then x3 + GMP_HLIMB_BIT else x3)
      in (x3 + drop_bit (GMP_LIMB_BITS div 2) x1,
          push_bit (GMP_LIMB_BITS div 2) x1 + (x0 AND GMP_LLIMB_MASK)))"

definition gmp_udiv_qrnnd_preinv :: "limb \<Rightarrow> limb \<Rightarrow> limb \<Rightarrow> limb \<Rightarrow> limb \<times> limb" where
  "gmp_udiv_qrnnd_preinv nh nl d di =
     (let (qh, ql) = gmp_umul_ppmm nh di;
          (qh, ql) = gmp_add_ssaaaa qh ql (nh + 1) nl;
          r = nl - qh * d;
          mask = - of_bool (r > ql);
          qh = qh + mask;
          r = r + (mask AND d)
      in if r \<ge> d then (qh + 1, r - d) else (qh, r))"

definition gmp_udiv_qr_3by2 :: "limb \<Rightarrow> limb \<Rightarrow> limb \<Rightarrow> limb \<Rightarrow> limb \<Rightarrow> limb \<Rightarrow> limb \<times> limb \<times> limb" where
  "gmp_udiv_qr_3by2 n2 n1 n0 d1 d0 dinv =
     (let (q, q0) = gmp_umul_ppmm n2 dinv;
          (q, q0) = gmp_add_ssaaaa q q0 n2 n1;
          r1 = n1 - d1 * q;
          (r1, r0) = gmp_sub_ddmmss r1 n0 d1 d0;
          (t1, t0) = gmp_umul_ppmm d0 q;
          (r1, r0) = gmp_sub_ddmmss r1 r0 t1 t0;
          q = q + 1;
          mask = - of_bool (r1 \<ge> q0);
          q = q + mask;
          (r1, r0) = gmp_add_ssaaaa r1 r0 (mask AND d1) (mask AND d0)
      in if r1 \<ge> d1 \<and> (r1 > d1 \<or> r0 \<ge> d0)
         then (case gmp_sub_ddmmss r1 r0 d1 d0 of (r1, r0) \<Rightarrow> (q + 1, r1, r0))
         else (q, r1, r0))"

section \<open>Lemmas\<close>

declare of_nat_unat [simp del]

lemma B_pos [simp]: "0 < B"
  by (simp add: B_def)

lemma B_neq_0 [simp]: "B \<noteq> 0"
  by (simp add: B_def)

lemma unat_less_B: "unat (x :: limb) < B"
  using unat_less_64 [of x] by (simp add: B_def)

lemma unat_of_bool [simp]: "unat (of_bool b :: 'a::len word) = of_bool b"
  by simp

lemma unat_add_limb: "unat (a + b :: limb) = (unat a + unat b) mod B"
  by (simp add: unat_word_ariths B_def)

lemma unat_mult_limb: "unat (a * b :: limb) = (unat a * unat b) mod B"
  by (simp add: unat_word_ariths B_def)

lemma unat_add_limb_eq: "unat (a :: limb) + unat b < B \<Longrightarrow> unat (a + b) = unat a + unat b"
  by (simp add: unat_add_limb)

lemma mod_B_cases: "x < 2 * B \<Longrightarrow> x mod B = (if x < B then x else x - B)"
  by (auto simp: mod_if)

lemma mod_B_add: "x < B \<Longrightarrow> y < B \<Longrightarrow> (x + y) mod B = (if x + y < B then x + y else x + y - B)"
  by (auto simp: mod_if)

lemma limb_add:
  "unat (a + b :: limb) + B * of_bool (a + b < b) = unat a + unat b"
  "unat (a + b :: limb) + B * of_bool (a + b < a) = unat a + unat b"
  using unat_less_B [of a] unat_less_B [of b]
  by (auto simp: unat_add_limb word_less_nat_alt mod_B_add not_less)

lemma limb_sub: "int (unat (a - b :: limb)) = int (unat a) - int (unat b) + int B * of_bool (a < b)"
proof (cases "a < b")
  case True
  have "unat (a - b) = (B + unat a - unat b) mod B"
    using True by (simp add: unat_sub_if_size word_less_nat_alt word_size B_def)
  moreover have "B + unat a - unat b < B" using True unat_less_B [of b] by (simp add: word_less_nat_alt)
  ultimately have "unat (a - b) = B + unat a - unat b" by simp
  then show ?thesis using True unat_less_B [of b] by (simp add: word_less_nat_alt)
next
  case False
  then show ?thesis by (simp add: unat_sub word_less_nat_alt not_less word_le_nat_alt)
qed

lemma add_ssaaaa_value:
  assumes "gmp_add_ssaaaa ah al bh bl = (sh, sl)"
  shows "(unat sh * B + unat sl) mod (B * B) = (unat ah * B + unat al + unat bh * B + unat bl) mod (B * B)"
proof -
  from assms have s: "sl = al + bl" "sh = ah + bh + of_bool (sl < al)"
    by (auto simp: gmp_add_ssaaaa_def Let_def)
  have l: "unat sl + B * of_bool (sl < al) = unat al + unat bl" using limb_add(2) [of al bl] s by simp
  have "unat sh mod B = (unat ah + unat bh + of_bool (sl < al)) mod B"
    by (simp add: s(2) unat_add_limb mod_add_left_eq)
  then have "(unat sh * B) mod (B * B) = ((unat ah + unat bh + of_bool (sl < al)) * B) mod (B * B)"
    by (simp add: mult_mod_left [symmetric])
  then have "(unat sh * B + unat sl) mod (B * B) =
      ((unat ah + unat bh + of_bool (sl < al)) * B + unat sl) mod (B * B)"
    by (metis mod_add_left_eq)
  also have "(unat ah + unat bh + of_bool (sl < al)) * B + unat sl = unat ah * B + unat al + unat bh * B + unat bl"
    using l by (simp add: algebra_simps)
  finally show ?thesis .
qed

text \<open>The product of two limbs from the four products of their halves.\<close>

lemma umul_halves_value:
  fixes a b c d s k h :: nat
  assumes "h * h = B" "a * d + a * c div h + b * c = s + k * B"
  shows "(b * d + k * h + s div h) * B + ((s mod h) * h + a * c mod h) = (b * h + a) * (d * h + c)"
proof -
  have split: "(x div h) * (h * h) + (x mod h) * h = x * h" for x
    by (metis add_mult_distrib div_mult_mod_eq mult.assoc)
  have "(b * d + k * h + s div h) * B + ((s mod h) * h + a * c mod h) =
      b * d * B + k * B * h + ((s div h) * (h * h) + (s mod h) * h) + a * c mod h"
    unfolding assms(1) [symmetric] by (simp only: algebra_simps)
  also have "\<dots> = b * d * B + (s + k * B) * h + a * c mod h"
    unfolding split by (simp only: algebra_simps)
  also have "\<dots> = b * d * B + (a * d + b * c) * h + ((a * c div h) * h + a * c mod h)"
    unfolding assms(2) [symmetric] by (simp only: algebra_simps)
  also have "\<dots> = (b * h + a) * (d * h + c)"
    unfolding assms(1) [symmetric] div_mult_mod_eq by (simp only: algebra_simps)
  finally show ?thesis .
qed

lemma half_prod_less:
  fixes a b e h :: nat
  assumes "a < h" "b < h" "e < h"
  shows "a * b + e < h * h"
proof -
  have "a * b + e < a * b + h" using assms by simp
  also have "\<dots> \<le> a * h + h" using assms by simp
  also have "\<dots> = Suc a * h" by simp
  also have "\<dots> \<le> h * h" using assms by (intro mult_right_mono) auto
  finally show ?thesis .
qed

lemma two_digits_less:
  fixes a e h :: nat
  assumes "a < h" "e < h"
  shows "a * h + e < h * h"
proof -
  have "a * h + e < Suc a * h" using assms by simp
  also have "\<dots> \<le> h * h" using assms by (intro mult_right_mono) auto
  finally show ?thesis .
qed

lemma unat_HLIMB_BIT: "unat GMP_HLIMB_BIT = 2 ^ 32"
  by (simp add: GMP_HLIMB_BIT_def GMP_LIMB_BITS_def push_bit_eq_mult)

lemma LLIMB_MASK_eq: "GMP_LLIMB_MASK = mask 32"
  by (simp add: GMP_LLIMB_MASK_def GMP_HLIMB_BIT_def GMP_LIMB_BITS_def mask_eq_exp_minus_1 push_bit_eq_mult)

lemma unat_and_LLIMB_MASK: "unat (u AND GMP_LLIMB_MASK :: limb) = unat u mod 2 ^ 32"
  by (simp only: LLIMB_MASK_eq take_bit_eq_mask [symmetric] unsigned_take_bit_eq) (simp add: take_bit_eq_mod)

lemma unat_drop_32: "unat (drop_bit 32 u :: limb) = unat u div 2 ^ 32"
  by (simp only: unat_drop_bit_eq) (simp add: drop_bit_eq_div)

lemma unat_push_32: "unat (push_bit 32 u :: limb) = (unat u mod 2 ^ 32) * 2 ^ 32"
proof -
  have "unat (push_bit 32 u) = (unat u * 2 ^ 32) mod 2 ^ 64"
    by (simp only: unsigned_push_bit_eq) (simp add: take_bit_eq_mod push_bit_eq_mult)
  also have "(2::nat) ^ 64 = 2 ^ 32 * 2 ^ 32" by simp
  finally show ?thesis by (simp only: mult_mod_left)
qed

lemma unat_low_half: "unat (ucast (u AND GMP_LLIMB_MASK) :: 32 word) = unat (u :: limb) mod 2 ^ 32"
  by (simp add: unsigned_ucast_eq unat_and_LLIMB_MASK take_bit_eq_mod)

lemma unat_high_half: "unat (ucast (drop_bit 32 u) :: 32 word) = unat (u :: limb) div 2 ^ 32"
proof -
  have "unat u div 2 ^ 32 < 2 ^ 32"
    by (rule less_mult_imp_div_less) (use unat_less_64 [of u] in simp)
  then show ?thesis by (simp add: unsigned_ucast_eq unat_drop_32 take_bit_eq_mod)
qed

lemma unat_ucast_half: "unat (ucast (x :: 32 word) :: limb) = unat x"
  using unat_less_32 [of x] by (simp add: unsigned_ucast_eq take_bit_eq_mod)

lemma gmp_umul_ppmm_value:
  assumes "gmp_umul_ppmm u v = (w1, w0)"
  shows "unat w1 * B + unat w0 = unat u * unat v"
proof -
  define h :: nat where "h = 2 ^ 32"
  define ul where "ul = (ucast (u AND GMP_LLIMB_MASK) :: 32 word)"
  define uh where "uh = (ucast (drop_bit 32 u) :: 32 word)"
  define vl where "vl = (ucast (v AND GMP_LLIMB_MASK) :: 32 word)"
  define vh where "vh = (ucast (drop_bit 32 v) :: 32 word)"
  have hB: "h * h = B" by (simp add: h_def B_def)
  have h0: "0 < h" by (simp add: h_def)
  have u: "unat u = unat uh * h + unat ul" and v: "unat v = unat vh * h + unat vl"
    by (simp_all add: ul_def uh_def vl_def vh_def unat_low_half unat_high_half h_def)
  have lt: "unat ul < h" "unat uh < h" "unat vl < h" "unat vh < h"
    unfolding h_def by (rule unat_less_32)+
  define x0 x1 x2 x3 where "x0 = (ucast ul * ucast vl :: limb)" and "x1 = (ucast ul * ucast vh :: limb)"
    and "x2 = (ucast uh * ucast vl :: limb)" and "x3 = (ucast uh * ucast vh :: limb)"
  have prod: "unat (ucast a * ucast b :: limb) = unat a * unat b" if "unat a < h" "unat b < h" for a b :: "32 word"
    using half_prod_less [OF that h0] hB by (simp add: unat_mult_limb unat_ucast_half)
  have x: "unat x0 = unat ul * unat vl" "unat x1 = unat ul * unat vh"
      "unat x2 = unat uh * unat vl" "unat x3 = unat uh * unat vh"
    using lt by (simp_all add: x0_def x1_def x2_def x3_def prod)
  define y where "y = x1 + drop_bit 32 x0"
  have "unat x0 div h < h"
    by (rule less_mult_imp_div_less) (use unat_less_B [of x0] hB in simp)
  then have "unat x1 + unat x0 div h < B"
    using half_prod_less [OF lt(1,4), of "unat x0 div h"] hB x(2) by simp
  then have y: "unat y = unat x1 + unat x0 div h"
    by (simp add: y_def unat_add_limb_eq unat_drop_32 h_def)
  define z where "z = y + x2"
  define k :: nat where "k = of_bool (z < x2)"
  have z: "unat y + unat x2 = unat z + k * B"
    using limb_add(1) [of y x2] unfolding z_def [symmetric] k_def by (simp only: mult.commute)
  have bits: "(64::nat) div 2 = 32" by simp
  have w: "w1 = (if z < x2 then x3 + GMP_HLIMB_BIT else x3) + drop_bit 32 z"
      "w0 = push_bit 32 z + (x0 AND GMP_LLIMB_MASK)"
    using assms unfolding gmp_umul_ppmm_def GMP_LIMB_BITS_def Let_def bits
      ul_def [symmetric] uh_def [symmetric] vl_def [symmetric] vh_def [symmetric]
      x0_def [symmetric] x1_def [symmetric] x2_def [symmetric] x3_def [symmetric]
      y_def [symmetric] z_def [symmetric]
    by simp_all
  define t1 where "t1 = unat x3 + k * h + unat z div h"
  define t0 where "t0 = (unat z mod h) * h + unat x0 mod h"
  have t: "t1 * B + t0 = unat u * unat v"
    using umul_halves_value [OF hB, of "unat ul" "unat vh" "unat vl" "unat uh" "unat z" k] y z x u v
    by (simp add: t1_def t0_def)
  have t0: "t0 < B" using two_digits_less [of "unat z mod h" h "unat x0 mod h"] h0 hB by (simp add: t0_def)
  have "unat u * unat v < B * B"
    by (rule mult_strict_mono) (simp_all add: unat_less_B)
  then have "t1 * B < B * B" using t by linarith
  then have t1: "t1 < B" by simp
  have "unat w0 = t0"
    using t0 by (simp add: w(2) t0_def unat_add_limb unat_push_32 unat_and_LLIMB_MASK h_def)
  moreover have "unat w1 = t1"
  proof (cases "z < x2")
    case True
    then have k: "k = 1" by (simp add: k_def)
    have "unat (x3 + GMP_HLIMB_BIT) = unat x3 + h"
      using t1 k by (simp add: unat_add_limb t1_def unat_HLIMB_BIT h_def)
    then show ?thesis using True t1 k by (simp add: w(1) unat_add_limb t1_def unat_drop_32 h_def)
  next
    case False
    then show ?thesis using t1 by (simp add: w(1) unat_add_limb t1_def k_def unat_drop_32 h_def)
  qed
  ultimately show ?thesis using t by simp
qed

section \<open>Leading zeros\<close>

lemma and_high_eq_0:
  fixes x :: limb
  assumes "k < 64"
  shows "x AND NOT (mask k) = 0 \<longleftrightarrow> unat x < 2 ^ k"
proof -
  have "x AND NOT (mask k) = 0 \<longleftrightarrow> take_bit k x = x"
    by (auto simp: bit_eq_iff bit_simps dest: bit_imp_le_length)
  also have "\<dots> \<longleftrightarrow> take_bit k (unat x) = unat x"
    by (simp only: word_unat_eq_iff unsigned_take_bit_eq)
  also have "\<dots> \<longleftrightarrow> unat x < 2 ^ k"
    by (simp add: take_bit_nat_eq_self_iff)
  finally show ?thesis .
qed

lemma clz_conditions:
  fixes x :: limb
  shows "x AND push_bit (GMP_LIMB_BITS - 8) 0xff = 0 \<longleftrightarrow> unat x < 2 ^ 56"
    and "x AND GMP_LIMB_HIGHBIT = 0 \<longleftrightarrow> unat x < 2 ^ 63"
proof -
  have "push_bit (GMP_LIMB_BITS - 8) 0xff = NOT (mask 56 :: limb)"
    by (simp add: GMP_LIMB_BITS_def mask_eq_exp_minus_1 push_bit_eq_mult not_eq_complement)
  then show "x AND push_bit (GMP_LIMB_BITS - 8) 0xff = 0 \<longleftrightarrow> unat x < 2 ^ 56"
    using and_high_eq_0 [of 56 x] by simp
  have "GMP_LIMB_HIGHBIT = NOT (mask 63 :: limb)"
    by (simp add: GMP_LIMB_HIGHBIT_def GMP_LIMB_BITS_def mask_eq_exp_minus_1 push_bit_eq_mult not_eq_complement)
  then show "x AND GMP_LIMB_HIGHBIT = 0 \<longleftrightarrow> unat x < 2 ^ 63"
    using and_high_eq_0 [of 63 x] by simp
qed

lemma unat_push_bit_small:
  fixes x :: limb
  assumes "unat x * 2 ^ k < 2 ^ 64"
  shows "unat (push_bit k x) = unat x * 2 ^ k"
proof -
  have "unat (push_bit k x) = (unat x * 2 ^ k) mod 2 ^ 64"
    by (simp only: unsigned_push_bit_eq) (simp add: take_bit_eq_mod push_bit_eq_mult)
  then show ?thesis using assms by simp
qed

lemma clz_bytes_spec:
  "x \<noteq> 0 \<Longrightarrow> \<exists>y k. clz_bytes x c = Some (y, c + k) \<and> unat y = unat x * 2 ^ k \<and> 2 ^ 56 \<le> unat y"
proof (induction "2 ^ 64 - unat x" arbitrary: x c rule: less_induct)
  case less
  show ?case
  proof (cases "unat x < 2 ^ 56")
    case True
    have y: "unat (push_bit 8 x) = unat x * 2 ^ 8" using True by (intro unat_push_bit_small) simp
    have x: "0 < unat x" using less.prems by (simp add: unat_gt_0)
    then have "2 ^ 64 - unat (push_bit 8 x) < 2 ^ 64 - unat x" "push_bit 8 x \<noteq> 0"
      using y True by (auto simp: word_unat_eq_iff)
    from less.hyps [OF this, of "c + 8"] obtain z k where
      "clz_bytes (push_bit 8 x) (c + 8) = Some (z, c + 8 + k)" "unat z = unat x * 2 ^ (8 + k)" "2 ^ 56 \<le> unat z"
      using y by (auto simp: power_add mult_ac)
    then show ?thesis
      using True by (intro exI [of _ z] exI [of _ "8 + k"]) (simp add: clz_bytes.simps [of x] clz_conditions add.assoc)
  next
    case False
    then show ?thesis by (intro exI [of _ x] exI [of _ 0]) (simp add: clz_bytes.simps [of x] clz_conditions)
  qed
qed

lemma clz_bits_spec:
  "x \<noteq> 0 \<Longrightarrow> \<exists>k. clz_bits x c = Some (c + k) \<and> 2 ^ 63 \<le> unat x * 2 ^ k \<and> unat x * 2 ^ k < 2 ^ 64"
proof (induction "2 ^ 64 - unat x" arbitrary: x c rule: less_induct)
  case less
  show ?case
  proof (cases "unat x < 2 ^ 63")
    case True
    have y: "unat (push_bit 1 x) = unat x * 2 ^ 1" using True by (intro unat_push_bit_small) simp
    have x: "0 < unat x" using less.prems by (simp add: unat_gt_0)
    then have "2 ^ 64 - unat (push_bit 1 x) < 2 ^ 64 - unat x" "push_bit 1 x \<noteq> 0"
      using y True by (auto simp: word_unat_eq_iff)
    from less.hyps [OF this, of "c + 1"] obtain k where
      "clz_bits (push_bit 1 x) (c + 1) = Some (c + 1 + k)" "2 ^ 63 \<le> unat x * 2 ^ Suc k" "unat x * 2 ^ Suc k < 2 ^ 64"
      using y by (auto simp: mult_ac)
    then show ?thesis
      using True by (intro exI [of _ "Suc k"]) (simp add: clz_bits.simps [of x] clz_conditions)
  next
    case False
    then show ?thesis
      using unat_less_64 [of x] by (intro exI [of _ 0]) (simp add: clz_bits.simps [of x] clz_conditions)
  qed
qed

lemma gmp_clz_spec:
  assumes "x \<noteq> 0"
  obtains c where "gmp_clz x = Some c" "2 ^ 63 \<le> unat x * 2 ^ c" "unat x * 2 ^ c < 2 ^ 64" "c < 64"
proof -
  from clz_bytes_spec [OF assms, of 0] obtain y k where
    y: "clz_bytes x 0 = Some (y, k)" "unat y = unat x * 2 ^ k" "2 ^ 56 \<le> unat y" by auto
  then have "y \<noteq> 0" by auto
  from clz_bits_spec [OF this, of k] obtain j where
    j: "clz_bits y k = Some (k + j)" "2 ^ 63 \<le> unat x * 2 ^ (k + j)" "unat x * 2 ^ (k + j) < 2 ^ 64"
    using y(2) by (auto simp: power_add mult.assoc)
  have "1 * 2 ^ (k + j) \<le> unat x * 2 ^ (k + j)"
    using assms by (intro mult_right_mono) (simp_all add: unat_gt_0 Suc_le_eq)
  with j(3) have "(2::nat) ^ (k + j) < 2 ^ 64" by linarith
  then have "k + j < 64" using power_less_imp_less_exp [of 2 "k + j" 64] by simp
  then show ?thesis using that [of "k + j"] y(1) j by (simp add: gmp_clz_def)
qed

end
