(* ===== verification/Mpn.thy ===== *)
theory Mpn
  imports Limb
begin

text \<open>
  The natural-number layer of mini-gmp, \<open>mpn_*\<close>, of
  \<open>src/examples/multiprecision/mini-gmp/mini-gmp.c\<close>. The memory is a map from
  addresses of limbs to limbs and pointers are addresses, so operands may overlap as they
  may in C; \<open>mpn_val m p n\<close> is the number stored in the \<open>n\<close> limbs at
  \<open>p\<close>, least significant first. A loop with an index is a recursion on the number
  of limbs left whose pointers advance. The locale \<open>carry_loop\<close> is the common
  contract of the loops that run from the least significant limb and pass a carry: its
  theorem gives the value computed and what is left unchanged, also for operands that
  overlap with a lower destination.
\<close>

type_synonym mem = "nat \<Rightarrow> limb"

section \<open>Model\<close>

fun mpn_copyi :: "mem \<Rightarrow> nat \<Rightarrow> nat \<Rightarrow> nat \<Rightarrow> mem" where
  "mpn_copyi m d s 0 = m"
| "mpn_copyi m d s (Suc n) = mpn_copyi (m(d := m s)) (Suc d) (Suc s) n"

fun mpn_copyd :: "mem \<Rightarrow> nat \<Rightarrow> nat \<Rightarrow> nat \<Rightarrow> mem" where
  "mpn_copyd m d s 0 = m"
| "mpn_copyd m d s (Suc n) = mpn_copyd (m(d + n := m (s + n))) d s n"

fun mpn_cmp :: "mem \<Rightarrow> nat \<Rightarrow> nat \<Rightarrow> nat \<Rightarrow> int" where
  "mpn_cmp m ap bp 0 = 0"
| "mpn_cmp m ap bp (Suc n) =
     (if m (ap + n) \<noteq> m (bp + n) then (if m (ap + n) > m (bp + n) then 1 else -1)
      else mpn_cmp m ap bp n)"

definition mpn_cmp4 :: "mem \<Rightarrow> nat \<Rightarrow> nat \<Rightarrow> nat \<Rightarrow> nat \<Rightarrow> int" where
  "mpn_cmp4 m ap an bp bn =
     (if an \<noteq> bn then (if an < bn then -1 else 1) else mpn_cmp m ap bp an)"

fun mpn_normalized_size :: "mem \<Rightarrow> nat \<Rightarrow> nat \<Rightarrow> nat" where
  "mpn_normalized_size m xp 0 = 0"
| "mpn_normalized_size m xp (Suc n) =
     (if m (xp + n) = 0 then mpn_normalized_size m xp n else Suc n)"

definition mpn_zero_p :: "mem \<Rightarrow> nat \<Rightarrow> nat \<Rightarrow> bool" where
  "mpn_zero_p m rp n \<longleftrightarrow> mpn_normalized_size m rp n = 0"

fun mpn_zero :: "mem \<Rightarrow> nat \<Rightarrow> nat \<Rightarrow> mem" where
  "mpn_zero m rp 0 = m"
| "mpn_zero m rp (Suc n) = mpn_zero (m(rp + n := 0)) rp n"

fun mpn_add_1_loop :: "mem \<Rightarrow> nat \<Rightarrow> nat \<Rightarrow> nat \<Rightarrow> limb \<Rightarrow> mem \<times> limb" where
  "mpn_add_1_loop m rp ap 0 b = (m, b)"
| "mpn_add_1_loop m rp ap (Suc n) b =
     (let r = m ap + b; b = of_bool (r < b)
      in mpn_add_1_loop (m(rp := r)) (Suc rp) (Suc ap) n b)"

definition mpn_add_1 :: "mem \<Rightarrow> nat \<Rightarrow> nat \<Rightarrow> nat \<Rightarrow> limb \<Rightarrow> (mem \<times> limb) result" where
  "mpn_add_1 m rp ap n b = rbind (rassert (n > 0)) (\<lambda>_. Inr (mpn_add_1_loop m rp ap n b))"

fun mpn_add_n_loop :: "mem \<Rightarrow> nat \<Rightarrow> nat \<Rightarrow> nat \<Rightarrow> nat \<Rightarrow> limb \<Rightarrow> mem \<times> limb" where
  "mpn_add_n_loop m rp ap bp 0 cy = (m, cy)"
| "mpn_add_n_loop m rp ap bp (Suc n) cy =
     (let a = m ap; b = m bp;
          r = a + cy;
          cy = of_bool (r < cy);
          r = r + b;
          cy = cy + of_bool (r < b)
      in mpn_add_n_loop (m(rp := r)) (Suc rp) (Suc ap) (Suc bp) n cy)"

definition mpn_add_n :: "mem \<Rightarrow> nat \<Rightarrow> nat \<Rightarrow> nat \<Rightarrow> nat \<Rightarrow> mem \<times> limb" where
  "mpn_add_n m rp ap bp n = mpn_add_n_loop m rp ap bp n 0"

definition mpn_add :: "mem \<Rightarrow> nat \<Rightarrow> nat \<Rightarrow> nat \<Rightarrow> nat \<Rightarrow> nat \<Rightarrow> (mem \<times> limb) result" where
  "mpn_add m rp ap an bp bn =
     rbind (rassert (an \<ge> bn)) (\<lambda>_.
       case mpn_add_n m rp ap bp bn of (m, cy) \<Rightarrow>
         if an > bn then mpn_add_1 m (rp + bn) (ap + bn) (an - bn) cy else Inr (m, cy))"

fun mpn_sub_1_loop :: "mem \<Rightarrow> nat \<Rightarrow> nat \<Rightarrow> nat \<Rightarrow> limb \<Rightarrow> mem \<times> limb" where
  "mpn_sub_1_loop m rp ap 0 b = (m, b)"
| "mpn_sub_1_loop m rp ap (Suc n) b =
     (let a = m ap; cy = of_bool (a < b)
      in mpn_sub_1_loop (m(rp := a - b)) (Suc rp) (Suc ap) n cy)"

definition mpn_sub_1 :: "mem \<Rightarrow> nat \<Rightarrow> nat \<Rightarrow> nat \<Rightarrow> limb \<Rightarrow> (mem \<times> limb) result" where
  "mpn_sub_1 m rp ap n b = rbind (rassert (n > 0)) (\<lambda>_. Inr (mpn_sub_1_loop m rp ap n b))"

fun mpn_sub_n_loop :: "mem \<Rightarrow> nat \<Rightarrow> nat \<Rightarrow> nat \<Rightarrow> nat \<Rightarrow> limb \<Rightarrow> mem \<times> limb" where
  "mpn_sub_n_loop m rp ap bp 0 cy = (m, cy)"
| "mpn_sub_n_loop m rp ap bp (Suc n) cy =
     (let a = m ap; b = m bp;
          b = b + cy;
          cy = of_bool (b < cy);
          cy = cy + of_bool (a < b)
      in mpn_sub_n_loop (m(rp := a - b)) (Suc rp) (Suc ap) (Suc bp) n cy)"

definition mpn_sub_n :: "mem \<Rightarrow> nat \<Rightarrow> nat \<Rightarrow> nat \<Rightarrow> nat \<Rightarrow> mem \<times> limb" where
  "mpn_sub_n m rp ap bp n = mpn_sub_n_loop m rp ap bp n 0"

definition mpn_sub :: "mem \<Rightarrow> nat \<Rightarrow> nat \<Rightarrow> nat \<Rightarrow> nat \<Rightarrow> nat \<Rightarrow> (mem \<times> limb) result" where
  "mpn_sub m rp ap an bp bn =
     rbind (rassert (an \<ge> bn)) (\<lambda>_.
       case mpn_sub_n m rp ap bp bn of (m, cy) \<Rightarrow>
         if an > bn then mpn_sub_1 m (rp + bn) (ap + bn) (an - bn) cy else Inr (m, cy))"

fun mpn_mul_1_loop :: "mem \<Rightarrow> nat \<Rightarrow> nat \<Rightarrow> nat \<Rightarrow> limb \<Rightarrow> limb \<Rightarrow> mem \<times> limb" where
  "mpn_mul_1_loop m rp up 0 vl cl = (m, cl)"
| "mpn_mul_1_loop m rp up (Suc n) vl cl =
     (let (hpl, lpl) = gmp_umul_ppmm (m up) vl;
          lpl = lpl + cl;
          cl = of_bool (lpl < cl) + hpl
      in mpn_mul_1_loop (m(rp := lpl)) (Suc rp) (Suc up) n vl cl)"

definition mpn_mul_1 :: "mem \<Rightarrow> nat \<Rightarrow> nat \<Rightarrow> nat \<Rightarrow> limb \<Rightarrow> (mem \<times> limb) result" where
  "mpn_mul_1 m rp up n vl = rbind (rassert (n \<ge> 1)) (\<lambda>_. Inr (mpn_mul_1_loop m rp up n vl 0))"

fun mpn_addmul_1_loop :: "mem \<Rightarrow> nat \<Rightarrow> nat \<Rightarrow> nat \<Rightarrow> limb \<Rightarrow> limb \<Rightarrow> mem \<times> limb" where
  "mpn_addmul_1_loop m rp up 0 vl cl = (m, cl)"
| "mpn_addmul_1_loop m rp up (Suc n) vl cl =
     (let (hpl, lpl) = gmp_umul_ppmm (m up) vl;
          lpl = lpl + cl;
          cl = of_bool (lpl < cl) + hpl;
          rl = m rp;
          lpl = rl + lpl;
          cl = cl + of_bool (lpl < rl)
      in mpn_addmul_1_loop (m(rp := lpl)) (Suc rp) (Suc up) n vl cl)"

definition mpn_addmul_1 :: "mem \<Rightarrow> nat \<Rightarrow> nat \<Rightarrow> nat \<Rightarrow> limb \<Rightarrow> (mem \<times> limb) result" where
  "mpn_addmul_1 m rp up n vl = rbind (rassert (n \<ge> 1)) (\<lambda>_. Inr (mpn_addmul_1_loop m rp up n vl 0))"

fun mpn_submul_1_loop :: "mem \<Rightarrow> nat \<Rightarrow> nat \<Rightarrow> nat \<Rightarrow> limb \<Rightarrow> limb \<Rightarrow> mem \<times> limb" where
  "mpn_submul_1_loop m rp up 0 vl cl = (m, cl)"
| "mpn_submul_1_loop m rp up (Suc n) vl cl =
     (let (hpl, lpl) = gmp_umul_ppmm (m up) vl;
          lpl = lpl + cl;
          cl = of_bool (lpl < cl) + hpl;
          rl = m rp;
          lpl = rl - lpl;
          cl = cl + of_bool (lpl > rl)
      in mpn_submul_1_loop (m(rp := lpl)) (Suc rp) (Suc up) n vl cl)"

definition mpn_submul_1 :: "mem \<Rightarrow> nat \<Rightarrow> nat \<Rightarrow> nat \<Rightarrow> limb \<Rightarrow> (mem \<times> limb) result" where
  "mpn_submul_1 m rp up n vl = rbind (rassert (n \<ge> 1)) (\<lambda>_. Inr (mpn_submul_1_loop m rp up n vl 0))"

text \<open>The loop of \<open>mpn_mul\<close> for the limbs of \<open>v\<close> after the first.\<close>

fun mpn_mul_loop :: "mem \<Rightarrow> nat \<Rightarrow> nat \<Rightarrow> nat \<Rightarrow> nat \<Rightarrow> nat \<Rightarrow> (mem \<times> limb) result" where
  "mpn_mul_loop m rp up un vp 0 = Inr (m, m (rp + un))"
| "mpn_mul_loop m rp up un vp (Suc vn) =
     (let rp = Suc rp; vp = Suc vp in
      rbind (mpn_addmul_1 m rp up un (m vp)) (\<lambda>(m, cl).
        mpn_mul_loop (m(rp + un := cl)) rp up un vp vn))"

definition mpn_mul :: "mem \<Rightarrow> nat \<Rightarrow> nat \<Rightarrow> nat \<Rightarrow> nat \<Rightarrow> nat \<Rightarrow> (mem \<times> limb) result" where
  "mpn_mul m rp up un vp vn =
     rbind (rassert (un \<ge> vn)) (\<lambda>_.
     rbind (rassert (vn \<ge> 1)) (\<lambda>_.
     rbind (mpn_mul_1 m rp up un (m vp)) (\<lambda>(m, cl).
       mpn_mul_loop (m(rp + un := cl)) rp up un vp (vn - 1))))"

definition mpn_mul_n :: "mem \<Rightarrow> nat \<Rightarrow> nat \<Rightarrow> nat \<Rightarrow> nat \<Rightarrow> mem result" where
  "mpn_mul_n m rp ap bp n = rbind (mpn_mul m rp ap n bp n) (\<lambda>(m, _). Inr m)"

definition mpn_sqr :: "mem \<Rightarrow> nat \<Rightarrow> nat \<Rightarrow> nat \<Rightarrow> mem result" where
  "mpn_sqr m rp ap n = rbind (mpn_mul m rp ap n ap n) (\<lambda>(m, _). Inr m)"

text \<open>The loops of the shifts; the pointers are those before the decrement or increment of the source.\<close>

fun mpn_lshift_loop :: "mem \<Rightarrow> nat \<Rightarrow> nat \<Rightarrow> nat \<Rightarrow> nat \<Rightarrow> limb \<Rightarrow> mem" where
  "mpn_lshift_loop m rp up 0 cnt high_limb = m(rp - 1 := high_limb)"
| "mpn_lshift_loop m rp up (Suc n) cnt high_limb =
     (let up = up - 1; low_limb = m up; rp = rp - 1;
          m = m(rp := high_limb OR drop_bit (GMP_LIMB_BITS - cnt) low_limb)
      in mpn_lshift_loop m rp up n cnt (push_bit cnt low_limb))"

definition mpn_lshift :: "mem \<Rightarrow> nat \<Rightarrow> nat \<Rightarrow> nat \<Rightarrow> nat \<Rightarrow> (mem \<times> limb) result" where
  "mpn_lshift m rp up n cnt =
     rbind (rassert (n \<ge> 1 \<and> cnt \<ge> 1 \<and> cnt < GMP_LIMB_BITS)) (\<lambda>_.
       let up = up + n; rp = rp + n; up = up - 1; low_limb = m up;
           retval = drop_bit (GMP_LIMB_BITS - cnt) low_limb
       in Inr (mpn_lshift_loop m rp up (n - 1) cnt (push_bit cnt low_limb), retval))"

fun mpn_rshift_loop :: "mem \<Rightarrow> nat \<Rightarrow> nat \<Rightarrow> nat \<Rightarrow> nat \<Rightarrow> limb \<Rightarrow> mem" where
  "mpn_rshift_loop m rp up 0 cnt low_limb = m(rp := low_limb)"
| "mpn_rshift_loop m rp up (Suc n) cnt low_limb =
     (let high_limb = m up;
          m = m(rp := low_limb OR push_bit (GMP_LIMB_BITS - cnt) high_limb)
      in mpn_rshift_loop m (Suc rp) (Suc up) n cnt (drop_bit cnt high_limb))"

definition mpn_rshift :: "mem \<Rightarrow> nat \<Rightarrow> nat \<Rightarrow> nat \<Rightarrow> nat \<Rightarrow> (mem \<times> limb) result" where
  "mpn_rshift m rp up n cnt =
     rbind (rassert (n \<ge> 1 \<and> cnt \<ge> 1 \<and> cnt < GMP_LIMB_BITS)) (\<lambda>_.
       let high_limb = m up; retval = push_bit (GMP_LIMB_BITS - cnt) high_limb
       in Inr (mpn_rshift_loop m rp (Suc up) (n - 1) cnt (drop_bit cnt high_limb), retval))"

fun mpn_com :: "mem \<Rightarrow> nat \<Rightarrow> nat \<Rightarrow> nat \<Rightarrow> mem" where
  "mpn_com m rp up 0 = m"
| "mpn_com m rp up (Suc n) = mpn_com (m(rp := NOT (m up))) (Suc rp) (Suc up) n"

text \<open>
  \<open>mpn_neg\<close> reads its first limb before it looks at the length: without a limb it
  reads outside of its operand.
\<close>

fun mpn_neg :: "mem \<Rightarrow> nat \<Rightarrow> nat \<Rightarrow> nat \<Rightarrow> (mem \<times> limb) result" where
  "mpn_neg m rp up 0 = Inl Out_of_bounds"
| "mpn_neg m rp up (Suc n) =
     (if m up = 0
      then (let m = m(rp := 0) in if n = 0 then Inr (m, 0) else mpn_neg m (Suc rp) (Suc up) n)
      else Inr (mpn_com (m(rp := - m up)) (Suc rp) (Suc up) n, 1))"

text \<open>
  The scan for a bit has no upper bound when it starts with \<open>i = un\<close>, as
  \<open>mpn_scan1\<close> and \<open>mpn_scan0\<close> call it: it may not return.
\<close>

partial_function (option) common_scan_loop :: "mem \<Rightarrow> limb \<Rightarrow> nat \<Rightarrow> nat \<Rightarrow> nat \<Rightarrow> limb \<Rightarrow> 64 word option" where
  "common_scan_loop m limb i up un ux =
     (if limb = 0
      then (let i = Suc i in
            if i = un then Some (if ux = 0 then NOT 0 else of_nat un * of_nat GMP_LIMB_BITS)
            else common_scan_loop m (ux XOR m (up + i)) i up un ux)
      else map_option (\<lambda>cnt. of_nat i * of_nat GMP_LIMB_BITS + of_nat cnt) (gmp_ctz limb))"

definition mpn_common_scan :: "mem \<Rightarrow> limb \<Rightarrow> nat \<Rightarrow> nat \<Rightarrow> nat \<Rightarrow> limb \<Rightarrow> 64 word option result" where
  "mpn_common_scan m limb i up un ux =
     rbind (rassert (ux = 0 \<or> ux = GMP_LIMB_MAX)) (\<lambda>_.
     rbind (rassert (i \<le> un)) (\<lambda>_. Inr (common_scan_loop m limb i up un ux)))"

definition mpn_scan1 :: "mem \<Rightarrow> nat \<Rightarrow> 64 word \<Rightarrow> 64 word option result" where
  "mpn_scan1 m ptr b =
     (let i = unat b div GMP_LIMB_BITS
      in mpn_common_scan m (m (ptr + i) AND push_bit (unat b mod GMP_LIMB_BITS) GMP_LIMB_MAX) i ptr i 0)"

definition mpn_scan0 :: "mem \<Rightarrow> nat \<Rightarrow> 64 word \<Rightarrow> 64 word option result" where
  "mpn_scan0 m ptr b =
     (let i = unat b div GMP_LIMB_BITS
      in mpn_common_scan m (NOT (m (ptr + i)) AND push_bit (unat b mod GMP_LIMB_BITS) GMP_LIMB_MAX) i ptr i GMP_LIMB_MAX)"

section \<open>Values\<close>

fun mpn_val :: "mem \<Rightarrow> nat \<Rightarrow> nat \<Rightarrow> nat" where
  "mpn_val m p 0 = 0"
| "mpn_val m p (Suc n) = unat (m p) + B * mpn_val m (Suc p) n"

text \<open>
  Two regions that may overlap only so that a loop upwards (downwards) reads each limb of
  the source before it is overwritten.
\<close>

definition incr_ok :: "nat \<Rightarrow> nat \<Rightarrow> nat \<Rightarrow> bool" where
  "incr_ok rp ap n \<longleftrightarrow> rp \<le> ap \<or> ap + n \<le> rp"

definition decr_ok :: "nat \<Rightarrow> nat \<Rightarrow> nat \<Rightarrow> bool" where
  "decr_ok rp ap n \<longleftrightarrow> ap \<le> rp \<or> rp + n \<le> ap"

definition unchanged :: "mem \<Rightarrow> mem \<Rightarrow> nat \<Rightarrow> nat \<Rightarrow> bool" where
  "unchanged m m' p n \<longleftrightarrow> (\<forall>q. q < p \<or> p + n \<le> q \<longrightarrow> m' q = m q)"

lemma mpn_val_cong: "(\<And>q. p \<le> q \<Longrightarrow> q < p + n \<Longrightarrow> m q = m' q) \<Longrightarrow> mpn_val m p n = mpn_val m' p n"
  by (induction n arbitrary: p) auto

lemma mpn_val_upd [simp]: "q < p \<or> p + n \<le> q \<Longrightarrow> mpn_val (m(q := x)) p n = mpn_val m p n"
  by (rule mpn_val_cong) auto

lemma mpn_val_bound: "mpn_val m p n < B ^ n"
proof (induction n arbitrary: p)
  case (Suc n)
  have "unat (m p) + B * mpn_val m (Suc p) n < B + B * mpn_val m (Suc p) n"
    using unat_less_B [of "m p"] by simp
  also have "\<dots> = B * Suc (mpn_val m (Suc p) n)" by simp
  also have "\<dots> \<le> B * B ^ n" using Suc [of "Suc p"] by (intro mult_left_mono) auto
  finally show ?case by simp
qed simp

lemma mpn_val_append: "mpn_val m p (n + k) = mpn_val m p n + B ^ n * mpn_val m (p + n) k"
  by (induction n arbitrary: p) (simp_all add: algebra_simps)

lemma mpn_val_snoc: "mpn_val m p (Suc n) = mpn_val m p n + B ^ n * unat (m (p + n))"
  using mpn_val_append [of m p n 1] by simp

lemma unchangedD: "unchanged m m' p n \<Longrightarrow> q < p \<or> p + n \<le> q \<Longrightarrow> m' q = m q"
  by (auto simp: unchanged_def)

lemma unchanged_refl [simp]: "unchanged m m p n"
  by (simp add: unchanged_def)

lemma unchanged_val:
  "unchanged m m' p n \<Longrightarrow> q + k \<le> p \<or> p + n \<le> q \<Longrightarrow> mpn_val m' q k = mpn_val m q k"
  by (rule mpn_val_cong) (auto simp: unchanged_def)

lemma unchanged_step: "unchanged (m(p := x)) m' (Suc p) n \<Longrightarrow> unchanged m m' p (Suc n)"
  by (auto simp: unchanged_def)

section \<open>Loops with a carry\<close>

text \<open>
  \<open>step cy x y\<close> is the limb stored and the next carry for the current limbs \<open>x\<close> and
  \<open>y\<close>, where \<open>tied\<close> is what the loop requires of the destination and the
  second source; it computes \<open>\<alpha> x + \<beta> y\<close> with a carry of sign \<open>\<sigma>\<close>.
\<close>

locale carry_loop =
  fixes loop :: "mem \<Rightarrow> nat \<Rightarrow> nat \<Rightarrow> nat \<Rightarrow> nat \<Rightarrow> limb \<Rightarrow> mem \<times> limb"
    and step :: "limb \<Rightarrow> limb \<Rightarrow> limb \<Rightarrow> limb \<times> limb"
    and ok :: "limb \<Rightarrow> bool"
    and tied :: "nat \<Rightarrow> nat \<Rightarrow> bool"
    and \<alpha> \<beta> \<sigma> :: int
  assumes loop_stop: "loop m rp ap bp 0 cy = (m, cy)"
    and tied_next: "tied rp bp \<Longrightarrow> tied (Suc rp) (Suc bp)"
    and loop_next: "tied rp bp \<Longrightarrow> step cy (m ap) (m bp) = (r, cy') \<Longrightarrow>
      loop m rp ap bp (Suc n) cy = loop (m(rp := r)) (Suc rp) (Suc ap) (Suc bp) n cy'"
    and step_value: "ok cy \<Longrightarrow> step cy x y = (r, cy') \<Longrightarrow> ok cy' \<and>
      int (unat r) + \<sigma> * int B * int (unat cy') = \<alpha> * int (unat x) + \<beta> * int (unat y) + \<sigma> * int (unat cy)"
begin

theorem loop_value:
  assumes "loop m rp ap bp n cy = (m', cy')" "ok cy" "tied rp bp"
    "incr_ok rp ap n" "incr_ok rp bp n"
  shows "int (mpn_val m' rp n) + \<sigma> * int (B ^ n) * int (unat cy') =
      \<alpha> * int (mpn_val m ap n) + \<beta> * int (mpn_val m bp n) + \<sigma> * int (unat cy)
    \<and> ok cy' \<and> unchanged m m' rp n"
  using assms
proof (induction n arbitrary: m rp ap bp cy)
  case 0
  then show ?case by (simp add: loop_stop)
next
  case (Suc n)
  obtain r c where st: "step cy (m ap) (m bp) = (r, c)" by (cases "step cy (m ap) (m bp)")
  define m1 where "m1 = m(rp := r)"
  have l: "loop m1 (Suc rp) (Suc ap) (Suc bp) n c = (m', cy')"
    using Suc.prems(1) loop_next [OF Suc.prems(3) st] by (simp add: m1_def)
  have v: "mpn_val m1 (Suc ap) n = mpn_val m (Suc ap) n" "mpn_val m1 (Suc bp) n = mpn_val m (Suc bp) n"
    using Suc.prems(4,5) by (auto simp: m1_def incr_ok_def)
  note sv = step_value [OF Suc.prems(2) st]
  have ih: "int (mpn_val m' (Suc rp) n) + \<sigma> * int (B ^ n) * int (unat cy') =
      \<alpha> * int (mpn_val m (Suc ap) n) + \<beta> * int (mpn_val m (Suc bp) n) + \<sigma> * int (unat c)"
    and ok: "ok cy'" and un: "unchanged m1 m' (Suc rp) n"
    using Suc.IH [OF l] sv tied_next [OF Suc.prems(3)] Suc.prems(4,5) v by (auto simp: incr_ok_def)
  have r: "m' rp = r" using unchangedD [OF un, of rp] by (simp add: m1_def)
  have "int (mpn_val m' rp (Suc n)) + \<sigma> * int (B ^ Suc n) * int (unat cy') =
      int (unat r) + int B * (int (mpn_val m' (Suc rp) n) + \<sigma> * int (B ^ n) * int (unat cy'))"
    using r by (simp add: algebra_simps)
  also have "\<dots> = (int (unat r) + \<sigma> * int B * int (unat c)) +
      int B * (\<alpha> * int (mpn_val m (Suc ap) n) + \<beta> * int (mpn_val m (Suc bp) n))"
    unfolding ih by (simp add: algebra_simps)
  also have "\<dots> = \<alpha> * int (mpn_val m ap (Suc n)) + \<beta> * int (mpn_val m bp (Suc n)) + \<sigma> * int (unat cy)"
    using sv by (simp add: algebra_simps)
  finally show ?case using ok unchanged_step [OF un [unfolded m1_def]] by simp
qed

end

subsection \<open>The loop bodies\<close>

definition add_step :: "limb \<Rightarrow> limb \<Rightarrow> limb \<Rightarrow> limb \<times> limb" where
  "add_step cy a b =
     (let r = a + cy; cy = of_bool (r < cy); r = r + b in (r, cy + of_bool (r < b)))"

definition sub_step :: "limb \<Rightarrow> limb \<Rightarrow> limb \<Rightarrow> limb \<times> limb" where
  "sub_step cy a b =
     (let b = b + cy; cy = of_bool (b < cy) in (a - b, cy + of_bool (a < b)))"

definition mul_step :: "limb \<Rightarrow> limb \<Rightarrow> limb \<Rightarrow> limb \<Rightarrow> limb \<times> limb" where
  "mul_step vl cl u y =
     (let (hpl, lpl) = gmp_umul_ppmm u vl; lpl = lpl + cl in (lpl, of_bool (lpl < cl) + hpl))"

definition addmul_step :: "limb \<Rightarrow> limb \<Rightarrow> limb \<Rightarrow> limb \<Rightarrow> limb \<times> limb" where
  "addmul_step vl cl u rl =
     (let (lpl, cl) = mul_step vl cl u 0; lpl = rl + lpl in (lpl, cl + of_bool (lpl < rl)))"

definition submul_step :: "limb \<Rightarrow> limb \<Rightarrow> limb \<Rightarrow> limb \<Rightarrow> limb \<times> limb" where
  "submul_step vl cl u rl =
     (let (lpl, cl) = mul_step vl cl u 0; lpl = rl - lpl in (lpl, cl + of_bool (lpl > rl)))"

lemma unat_two_carries: "unat (of_bool p + of_bool q :: limb) = of_bool p + of_bool q"
  by (cases p; cases q) simp_all

lemma add_step_value:
  assumes "unat cy \<le> 1" "add_step cy a b = (r, cy')"
  shows "unat cy' \<le> 1" "unat r + B * unat cy' = unat a + unat b + unat cy"
proof -
  define s where "s = a + cy"
  have r: "r = s + b" and c: "cy' = of_bool (s < cy) + of_bool (s + b < b)"
    using assms(2) by (auto simp: add_step_def Let_def s_def)
  have 1: "unat s + B * of_bool (s < cy) = unat a + unat cy" unfolding s_def by (rule limb_add(1))
  have 2: "unat r + B * of_bool (s + b < b) = unat s + unat b" unfolding r by (rule limb_add(1))
  have c': "unat cy' = of_bool (s < cy) + of_bool (s + b < b)" unfolding c by (rule unat_two_carries)
  show v: "unat r + B * unat cy' = unat a + unat b + unat cy"
    using 1 2 c' by (simp add: algebra_simps)
  have "B * unat cy' < B * 2" using v assms(1) unat_less_B [of a] unat_less_B [of b] by linarith
  then show "unat cy' \<le> 1" by simp
qed

lemma sub_step_value:
  assumes "unat cy \<le> 1" "sub_step cy a b = (r, cy')"
  shows "unat cy' \<le> 1" "int (unat r) - int B * int (unat cy') = int (unat a) - int (unat b) - int (unat cy)"
proof -
  define s where "s = b + cy"
  have r: "r = a - s" and c: "cy' = of_bool (s < cy) + of_bool (a < s)"
    using assms(2) by (auto simp: sub_step_def Let_def s_def)
  have 1: "unat s + B * of_bool (s < cy) = unat b + unat cy" unfolding s_def by (rule limb_add(1))
  have 2: "int (unat r) = int (unat a) - int (unat s) + int B * of_bool (a < s)"
    unfolding r by (rule limb_sub)
  have c': "unat cy' = of_bool (s < cy) + of_bool (a < s)" unfolding c by (rule unat_two_carries)
  have "int (unat b) + int (unat cy) = int (unat s) + int B * of_bool (s < cy)"
    using 1 by (metis of_nat_add of_nat_mult of_nat_of_bool)
  with 2 c' show v: "int (unat r) - int B * int (unat cy') = int (unat a) - int (unat b) - int (unat cy)"
    by (simp add: algebra_simps)
  have "int B * int (unat cy') < int B * 2"
    using v assms(1) unat_less_B [of r] unat_less_B [of b] by linarith
  then have "B * unat cy' < B * 2" by (metis of_nat_less_iff of_nat_mult of_nat_numeral)
  then show "unat cy' \<le> 1" by simp
qed

lemma mul_step_value:
  assumes "mul_step vl cl u y = (r, cl')"
  shows "unat r + B * unat cl' = unat u * unat vl + unat cl"
proof -
  obtain h l where hl: "gmp_umul_ppmm u vl = (h, l)" by (cases "gmp_umul_ppmm u vl")
  then have r: "r = l + cl" and c: "cl' = of_bool (r < cl) + h"
    using assms by (auto simp: mul_step_def Let_def)
  have 1: "unat r + B * of_bool (r < cl) = unat l + unat cl" unfolding r by (rule limb_add(1))
  have 2: "unat h * B + unat l = unat u * unat vl" by (rule gmp_umul_ppmm_value [OF hl])
  have v: "unat r + B * (of_bool (r < cl) + unat h) = unat u * unat vl + unat cl"
    using 1 2 by (simp add: algebra_simps)
  have "unat u * unat vl + unat cl < B * B" by (intro half_prod_less unat_less_B)
  then have "B * (of_bool (r < cl) + unat h) < B * B" using v by linarith
  then have "of_bool (r < cl) + unat h < B" by simp
  then have "unat cl' = of_bool (r < cl) + unat h" by (simp add: c unat_add_limb)
  with v show ?thesis by simp
qed

lemma addmul_step_value:
  assumes "addmul_step vl cl u rl = (r, cl')"
  shows "unat r + B * unat cl' = unat u * unat vl + unat rl + unat cl"
proof -
  obtain l c where lc: "mul_step vl cl u 0 = (l, c)" by (cases "mul_step vl cl u 0")
  then have r: "r = rl + l" and c': "cl' = c + of_bool (r < rl)"
    using assms by (auto simp: addmul_step_def Let_def)
  have 1: "unat r + B * of_bool (r < rl) = unat rl + unat l" unfolding r by (rule limb_add(2))
  have v: "unat r + B * (unat c + of_bool (r < rl)) = unat u * unat vl + unat rl + unat cl"
    using 1 mul_step_value [OF lc] by (simp add: algebra_simps)
  have "unat u * unat vl + unat rl + unat cl < B * B"
  proof -
    have "unat u * unat vl \<le> (B - 1) * (B - 1)"
      using unat_less_B [of u] unat_less_B [of vl] by (intro mult_mono) auto
    moreover have "(B - 1) * (B - 1) + (B - 1) + (B - 1) < B * B" by (simp add: B_def)
    ultimately show ?thesis using unat_less_B [of rl] unat_less_B [of cl] by linarith
  qed
  then have "B * (unat c + of_bool (r < rl)) < B * B" using v by linarith
  then have "unat c + of_bool (r < rl) < B" by simp
  then have "unat cl' = unat c + of_bool (r < rl)" by (simp add: c' unat_add_limb)
  with v show ?thesis by simp
qed

lemma submul_step_value:
  assumes "submul_step vl cl u rl = (r, cl')"
  shows "int (unat r) - int B * int (unat cl') = int (unat rl) - int (unat u) * int (unat vl) - int (unat cl)"
proof -
  obtain l c where lc: "mul_step vl cl u 0 = (l, c)" by (cases "mul_step vl cl u 0")
  then have r: "r = rl - l" and c': "cl' = c + of_bool (r > rl)"
    using assms by (auto simp: submul_step_def Let_def)
  have 1: "int (unat r) = int (unat rl) - int (unat l) + int B * of_bool (rl < l)"
    unfolding r by (rule limb_sub)
  have b: "r > rl \<longleftrightarrow> rl < l"
    using 1 unat_less_B [of l] unat_less_B [of r] by (cases "rl < l") (auto simp: word_less_nat_alt)
  have m: "int (unat l) + int B * int (unat c) = int (unat u) * int (unat vl) + int (unat cl)"
    using mul_step_value [OF lc] by (metis of_nat_add of_nat_mult)
  have v: "int (unat r) - int B * (int (unat c) + of_bool (rl < l)) =
      int (unat rl) - int (unat u) * int (unat vl) - int (unat cl)"
    using 1 m by (simp add: algebra_simps)
  have "unat u * unat vl + unat cl \<le> (B - 1) * B"
  proof -
    have "unat u * unat vl \<le> (B - 1) * (B - 1)"
      using unat_less_B [of u] unat_less_B [of vl] by (intro mult_mono) auto
    then show ?thesis using unat_less_B [of cl] by (simp add: B_def)
  qed
  then have "int (unat u) * int (unat vl) + int (unat cl) \<le> int ((B - 1) * B)"
    by (metis of_nat_add of_nat_mult of_nat_le_iff)
  then have "int B * (int (unat c) + of_bool (rl < l)) < int ((B - 1) * B) + int B"
    using v unat_less_B [of r] by linarith
  also have "\<dots> = int B * int B" by (simp add: B_def)
  finally have "int (unat c) + of_bool (rl < l) < int B" by simp
  then have "unat c + of_bool (rl < l) < B" by (cases "rl < l") simp_all
  then have "unat cl' = unat c + of_bool (rl < l)" by (simp add: c' b unat_add_limb)
  with v show ?thesis by simp
qed

subsection \<open>The loops of the sources\<close>

lemma nat_value_int: "(a::nat) + B * c = x \<Longrightarrow> int a + 1 * int B * int c = int x"
  by (metis mult_1 of_nat_add of_nat_mult)

interpretation add_n: carry_loop mpn_add_n_loop add_step "\<lambda>cy. unat cy \<le> 1" "\<lambda>_ _. True" 1 1 1
proof
  show "unat cy' \<le> 1 \<and> int (unat r) + 1 * int B * int (unat cy') =
      1 * int (unat x) + 1 * int (unat y) + 1 * int (unat cy)"
    if "unat cy \<le> 1" "add_step cy x y = (r, cy')" for cy x y r cy'
    using add_step_value [OF that] nat_value_int [of "unat r" "unat cy'"] by simp
qed (auto simp: add_step_def Let_def)

interpretation sub_n: carry_loop mpn_sub_n_loop sub_step "\<lambda>cy. unat cy \<le> 1" "\<lambda>_ _. True" 1 "-1" "-1"
proof
  show "unat cy' \<le> 1 \<and> int (unat r) + - 1 * int B * int (unat cy') =
      1 * int (unat x) + - 1 * int (unat y) + - 1 * int (unat cy)"
    if "unat cy \<le> 1" "sub_step cy x y = (r, cy')" for cy x y r cy'
    using sub_step_value [OF that] by simp
qed (auto simp: sub_step_def Let_def)

interpretation add_1: carry_loop "\<lambda>m rp ap bp. mpn_add_1_loop m rp ap" "\<lambda>b x y. (x + b, of_bool (x + b < b))"
  "\<lambda>_. True" "\<lambda>_ _. True" 1 0 1
proof
  show "True \<and> int (unat r) + 1 * int B * int (unat cy') =
      1 * int (unat x) + 0 * int (unat y) + 1 * int (unat cy)"
    if "(x + cy, of_bool (x + cy < cy)) = (r, cy')" for cy x y r cy' :: limb
    using that limb_add(1) [of x cy] nat_value_int [of "unat r" "unat cy'"] by auto
qed (auto simp: Let_def)

interpretation sub_1: carry_loop "\<lambda>m rp ap bp. mpn_sub_1_loop m rp ap" "\<lambda>b x y. (x - b, of_bool (x < b))"
  "\<lambda>_. True" "\<lambda>_ _. True" 1 0 "-1"
proof
  show "True \<and> int (unat r) + - 1 * int B * int (unat cy') =
      1 * int (unat x) + 0 * int (unat y) + - 1 * int (unat cy)"
    if "(x - cy, of_bool (x < cy)) = (r, cy')" for cy x y r cy' :: limb
    using that limb_sub [of x cy] by auto
qed (auto simp: Let_def)

interpretation mul_1: carry_loop "\<lambda>m rp ap bp n. mpn_mul_1_loop m rp ap n vl" "mul_step vl"
  "\<lambda>_. True" "\<lambda>_ _. True" "int (unat vl)" 0 1 for vl
proof
  show "True \<and> int (unat r) + 1 * int B * int (unat cy') =
      int (unat vl) * int (unat x) + 0 * int (unat y) + 1 * int (unat cy)"
    if "mul_step vl cy x y = (r, cy')" for cy x y r cy'
    using mul_step_value [OF that] nat_value_int [of "unat r" "unat cy'"] by (simp add: mult.commute)
qed (auto simp: mul_step_def Let_def split: prod.splits)

interpretation addmul_1: carry_loop "\<lambda>m rp ap bp n. mpn_addmul_1_loop m rp ap n vl" "addmul_step vl"
  "\<lambda>_. True" "(=)" "int (unat vl)" 1 1 for vl
proof
  show "True \<and> int (unat r) + 1 * int B * int (unat cy') =
      int (unat vl) * int (unat x) + 1 * int (unat y) + 1 * int (unat cy)"
    if "addmul_step vl cy x y = (r, cy')" for cy x y r cy'
    using addmul_step_value [OF that] nat_value_int [of "unat r" "unat cy'"] by (simp add: mult.commute)
qed (auto simp: addmul_step_def mul_step_def Let_def split: prod.splits)

interpretation submul_1: carry_loop "\<lambda>m rp ap bp n. mpn_submul_1_loop m rp ap n vl" "submul_step vl"
  "\<lambda>_. True" "(=)" "- int (unat vl)" 1 "-1" for vl
proof
  show "True \<and> int (unat r) + - 1 * int B * int (unat cy') =
      - int (unat vl) * int (unat x) + 1 * int (unat y) + - 1 * int (unat cy)"
    if "submul_step vl cy x y = (r, cy')" for cy x y r cy'
    using submul_step_value [OF that] by (simp add: mult.commute)
qed (auto simp: submul_step_def mul_step_def Let_def split: prod.splits)

end
