(* ===== verification/Mpn_arith.thy ===== *)
theory Mpn_arith
  imports Mpn
begin

text \<open>
  What the functions of \<open>Mpn\<close> compute: the value of the result with the carry, and the
  part of memory left unchanged, under the overlap the loops allow. Addition, subtraction
  and the products by a limb are instances of the contract of loops with a carry;
  comparison, copies, shifts, complement and negation are proved on their own.
\<close>

section \<open>Addition and subtraction\<close>

lemma nat_eq_int: "int a = int b \<Longrightarrow> a = b"
  by simp

lemma mpn_add_n_value:
  assumes "mpn_add_n m rp ap bp n = (m', cy)" "incr_ok rp ap n" "incr_ok rp bp n"
  shows "mpn_val m' rp n + B ^ n * unat cy = mpn_val m ap n + mpn_val m bp n"
    and "unat cy \<le> 1" and "unchanged m m' rp n"
proof -
  from assms(1) have l: "mpn_add_n_loop m rp ap bp n 0 = (m', cy)" by (simp add: mpn_add_n_def)
  note v = add_n.loop_value [OF l _ _ assms(2,3)]
  then show "unat cy \<le> 1" "unchanged m m' rp n" by simp_all
  show "mpn_val m' rp n + B ^ n * unat cy = mpn_val m ap n + mpn_val m bp n"
    by (rule nat_eq_int) (use v in simp)
qed

lemma mpn_add_1_value:
  assumes "mpn_add_1 m rp ap n b = Inr (m', cy)" "incr_ok rp ap n"
  shows "mpn_val m' rp n + B ^ n * unat cy = mpn_val m ap n + unat b" and "unchanged m m' rp n"
proof -
  from assms(1) have l: "mpn_add_1_loop m rp ap n b = (m', cy)" by (simp add: mpn_add_1_def rbind_eq_Inr)
  note v = add_1.loop_value [OF l _ _ assms(2,2)]
  then show "unchanged m m' rp n" by simp
  show "mpn_val m' rp n + B ^ n * unat cy = mpn_val m ap n + unat b"
    by (rule nat_eq_int) (use v in simp)
qed

lemma mpn_add_1_ok: "n > 0 \<Longrightarrow> \<exists>m' cy. mpn_add_1 m rp ap n b = Inr (m', cy)"
  by (cases "mpn_add_1_loop m rp ap n b") (simp add: mpn_add_1_def)

lemma mpn_sub_n_value:
  assumes "mpn_sub_n m rp ap bp n = (m', cy)" "incr_ok rp ap n" "incr_ok rp bp n"
  shows "mpn_val m' rp n + mpn_val m bp n = mpn_val m ap n + B ^ n * unat cy"
    and "unat cy \<le> 1" and "unchanged m m' rp n"
proof -
  from assms(1) have l: "mpn_sub_n_loop m rp ap bp n 0 = (m', cy)" by (simp add: mpn_sub_n_def)
  note v = sub_n.loop_value [OF l _ _ assms(2,3)]
  then show "unat cy \<le> 1" "unchanged m m' rp n" by simp_all
  show "mpn_val m' rp n + mpn_val m bp n = mpn_val m ap n + B ^ n * unat cy"
    by (rule nat_eq_int) (use v in simp)
qed

lemma mpn_sub_1_value:
  assumes "mpn_sub_1 m rp ap n b = Inr (m', cy)" "incr_ok rp ap n"
  shows "mpn_val m' rp n + unat b = mpn_val m ap n + B ^ n * unat cy" and "unchanged m m' rp n"
proof -
  from assms(1) have l: "mpn_sub_1_loop m rp ap n b = (m', cy)" by (simp add: mpn_sub_1_def rbind_eq_Inr)
  note v = sub_1.loop_value [OF l _ _ assms(2,2)]
  then show "unchanged m m' rp n" by simp
  show "mpn_val m' rp n + unat b = mpn_val m ap n + B ^ n * unat cy"
    by (rule nat_eq_int) (use v in simp)
qed

lemma mpn_sub_1_ok: "n > 0 \<Longrightarrow> \<exists>m' cy. mpn_sub_1 m rp ap n b = Inr (m', cy)"
  by (cases "mpn_sub_1_loop m rp ap n b") (simp add: mpn_sub_1_def)

text \<open>
  Operands of different lengths. The high part of the first operand must still be there
  after the low part of the result is written.
\<close>

lemma incr_ok_mono: "incr_ok rp ap n \<Longrightarrow> k \<le> n \<Longrightarrow> incr_ok rp ap k"
  by (auto simp: incr_ok_def)

lemma incr_ok_shift: "incr_ok rp ap n \<Longrightarrow> k \<le> n \<Longrightarrow> incr_ok (rp + k) (ap + k) (n - k)"
  by (auto simp: incr_ok_def)

lemma unchanged_append:
  "unchanged m m1 p k \<Longrightarrow> unchanged m1 m2 (p + k) (n - k) \<Longrightarrow> k \<le> n \<Longrightarrow> unchanged m m2 p n"
  by (auto simp: unchanged_def)

lemma unchanged_high:
  "unchanged m m1 rp k \<Longrightarrow> incr_ok rp ap n \<Longrightarrow> k \<le> n \<Longrightarrow> mpn_val m1 (ap + k) (n - k) = mpn_val m (ap + k) (n - k)"
  by (erule unchanged_val) (auto simp: incr_ok_def)

lemma mpn_add_value:
  assumes "bn \<le> an" "incr_ok rp ap an" "incr_ok rp bp bn"
  obtains m' cy where "mpn_add m rp ap an bp bn = Inr (m', cy)"
    "mpn_val m' rp an + B ^ an * unat cy = mpn_val m ap an + mpn_val m bp bn"
    "unchanged m m' rp an"
proof -
  obtain m1 c1 where 1: "mpn_add_n m rp ap bp bn = (m1, c1)" by (cases "mpn_add_n m rp ap bp bn")
  note v1 = mpn_add_n_value [OF 1 incr_ok_mono [OF assms(2,1)] assms(3)]
  show ?thesis
  proof (cases "an = bn")
    case True
    with 1 v1 show ?thesis by (intro that [of m1 c1]) (simp_all add: mpn_add_def)
  next
    case False
    with assms(1) have lt: "bn < an" by simp
    then obtain m2 c2 where 2: "mpn_add_1 m1 (rp + bn) (ap + bn) (an - bn) c1 = Inr (m2, c2)"
      using mpn_add_1_ok [of "an - bn" m1 "rp + bn" "ap + bn" c1] by auto
    note v2 = mpn_add_1_value [OF 2 incr_ok_shift [OF assms(2,1)]]
    define M where "M = mpn_val m (ap + bn) (an - bn)"
    have hi: "mpn_val m2 (rp + bn) (an - bn) + B ^ (an - bn) * unat c2 = M + unat c1"
      using v2(1) unchanged_high [OF v1(3) assms(2,1)] by (simp add: M_def)
    have lo: "mpn_val m2 rp bn = mpn_val m1 rp bn" using unchanged_val [OF v2(2)] by simp
    have split: "mpn_val x p an = mpn_val x p bn + B ^ bn * mpn_val x (p + bn) (an - bn)" for x p
      using mpn_val_append [of x p bn "an - bn"] assms(1) by simp
    have pw: "B ^ an = B ^ bn * B ^ (an - bn)" using assms(1) by (simp flip: power_add)
    have "mpn_val m2 rp an + B ^ an * unat c2 =
        mpn_val m1 rp bn + B ^ bn * (mpn_val m2 (rp + bn) (an - bn) + B ^ (an - bn) * unat c2)"
      unfolding split [of m2] lo pw by (simp add: algebra_simps)
    also have "\<dots> = (mpn_val m1 rp bn + B ^ bn * unat c1) + B ^ bn * M"
      unfolding hi by (simp add: algebra_simps)
    also have "\<dots> = mpn_val m ap an + mpn_val m bp bn"
      unfolding v1(1) split [of m ap] M_def by (simp add: algebra_simps)
    finally show ?thesis
      using that [of m2 c2] 1 2 lt unchanged_append [OF v1(3) v2(2) assms(1)] by (simp add: mpn_add_def)
  qed
qed

lemma mpn_sub_value:
  assumes "bn \<le> an" "incr_ok rp ap an" "incr_ok rp bp bn"
  obtains m' cy where "mpn_sub m rp ap an bp bn = Inr (m', cy)"
    "mpn_val m' rp an + mpn_val m bp bn = mpn_val m ap an + B ^ an * unat cy"
    "unchanged m m' rp an"
proof -
  obtain m1 c1 where 1: "mpn_sub_n m rp ap bp bn = (m1, c1)" by (cases "mpn_sub_n m rp ap bp bn")
  note v1 = mpn_sub_n_value [OF 1 incr_ok_mono [OF assms(2,1)] assms(3)]
  show ?thesis
  proof (cases "an = bn")
    case True
    with 1 v1 show ?thesis by (intro that [of m1 c1]) (simp_all add: mpn_sub_def)
  next
    case False
    with assms(1) have lt: "bn < an" by simp
    then obtain m2 c2 where 2: "mpn_sub_1 m1 (rp + bn) (ap + bn) (an - bn) c1 = Inr (m2, c2)"
      using mpn_sub_1_ok [of "an - bn" m1 "rp + bn" "ap + bn" c1] by auto
    note v2 = mpn_sub_1_value [OF 2 incr_ok_shift [OF assms(2,1)]]
    define M where "M = mpn_val m (ap + bn) (an - bn)"
    have hi: "mpn_val m2 (rp + bn) (an - bn) + unat c1 = M + B ^ (an - bn) * unat c2"
      using v2(1) unchanged_high [OF v1(3) assms(2,1)] by (simp add: M_def)
    have lo: "mpn_val m2 rp bn = mpn_val m1 rp bn" using unchanged_val [OF v2(2)] by simp
    have split: "mpn_val x p an = mpn_val x p bn + B ^ bn * mpn_val x (p + bn) (an - bn)" for x p
      using mpn_val_append [of x p bn "an - bn"] assms(1) by simp
    have pw: "B ^ an = B ^ bn * B ^ (an - bn)" using assms(1) by (simp flip: power_add)
    have "mpn_val m2 rp an + mpn_val m bp bn + B ^ bn * unat c1 =
        (mpn_val m1 rp bn + mpn_val m bp bn) + B ^ bn * (mpn_val m2 (rp + bn) (an - bn) + unat c1)"
      unfolding split [of m2] lo by (simp add: algebra_simps)
    also have "\<dots> = mpn_val m ap an + B ^ an * unat c2 + B ^ bn * unat c1"
      unfolding hi v1(1) split [of m ap] M_def pw by (simp add: algebra_simps)
    finally show ?thesis
      using that [of m2 c2] 1 2 lt unchanged_append [OF v1(3) v2(2) assms(1)] by (simp add: mpn_sub_def)
  qed
qed

section \<open>Products\<close>

lemma mpn_mul_1_value:
  assumes "n \<ge> 1" "incr_ok rp up n"
  obtains m' cl where "mpn_mul_1 m rp up n vl = Inr (m', cl)"
    "mpn_val m' rp n + B ^ n * unat cl = mpn_val m up n * unat vl" "unchanged m m' rp n"
proof -
  obtain m' cl where l: "mpn_mul_1_loop m rp up n vl 0 = (m', cl)" by (cases "mpn_mul_1_loop m rp up n vl 0")
  note v = mul_1.loop_value [OF l _ _ assms(2,2)]
  have "mpn_val m' rp n + B ^ n * unat cl = mpn_val m up n * unat vl"
    by (rule nat_eq_int) (use v in \<open>simp add: mult.commute\<close>)
  with v l assms(1) show ?thesis by (intro that [of m' cl]) (simp_all add: mpn_mul_1_def)
qed

lemma incr_ok_refl [simp]: "incr_ok p p n"
  by (simp add: incr_ok_def)

lemma mpn_addmul_1_value:
  assumes "n \<ge> 1" "incr_ok rp up n"
  obtains m' cl where "mpn_addmul_1 m rp up n vl = Inr (m', cl)"
    "mpn_val m' rp n + B ^ n * unat cl = mpn_val m rp n + mpn_val m up n * unat vl" "unchanged m m' rp n"
proof -
  obtain m' cl where l: "mpn_addmul_1_loop m rp up n vl 0 = (m', cl)"
    by (cases "mpn_addmul_1_loop m rp up n vl 0")
  note v = addmul_1.loop_value [OF l _ refl assms(2) incr_ok_refl]
  have "mpn_val m' rp n + B ^ n * unat cl = mpn_val m rp n + mpn_val m up n * unat vl"
    by (rule nat_eq_int) (use v in \<open>simp add: mult.commute\<close>)
  with v l assms(1) show ?thesis by (intro that [of m' cl]) (simp_all add: mpn_addmul_1_def)
qed

lemma mpn_submul_1_value:
  assumes "n \<ge> 1" "incr_ok rp up n"
  obtains m' cl where "mpn_submul_1 m rp up n vl = Inr (m', cl)"
    "mpn_val m' rp n + mpn_val m up n * unat vl = mpn_val m rp n + B ^ n * unat cl" "unchanged m m' rp n"
proof -
  obtain m' cl where l: "mpn_submul_1_loop m rp up n vl 0 = (m', cl)"
    by (cases "mpn_submul_1_loop m rp up n vl 0")
  note v = submul_1.loop_value [OF l _ refl assms(2) incr_ok_refl]
  have "mpn_val m' rp n + mpn_val m up n * unat vl = mpn_val m rp n + B ^ n * unat cl"
    by (rule nat_eq_int) (use v in \<open>simp add: mult.commute\<close>)
  with v l assms(1) show ?thesis by (intro that [of m' cl]) (simp_all add: mpn_submul_1_def)
qed

definition disjoint :: "nat \<Rightarrow> nat \<Rightarrow> nat \<Rightarrow> nat \<Rightarrow> bool" where
  "disjoint p n q k \<longleftrightarrow> p + n \<le> q \<or> q + k \<le> p"

lemma unchanged_upd:
  "unchanged m m1 p n \<Longrightarrow> unchanged m (m1(p + n := x)) p (Suc n)"
  by (auto simp: unchanged_def)

lemma unchanged_trans: "unchanged m m1 p n \<Longrightarrow> unchanged m1 m2 p n \<Longrightarrow> unchanged m m2 p n"
  by (auto simp: unchanged_def)

lemma unchanged_mono: "unchanged m m1 q k \<Longrightarrow> p \<le> q \<Longrightarrow> q + k \<le> p + n \<Longrightarrow> unchanged m m1 p n"
  by (auto simp: unchanged_def)

lemma mpn_mul_loop_value:
  assumes "un \<ge> 1" "disjoint (Suc rp) (un + vn) up un" "disjoint (Suc rp) (un + vn) (Suc vp) vn"
  shows "\<exists>m' c. mpn_mul_loop m rp up un vp vn = Inr (m', c) \<and>
    mpn_val m' (Suc rp) (un + vn) = mpn_val m (Suc rp) un + mpn_val m up un * mpn_val m (Suc vp) vn \<and>
    unchanged m m' (Suc rp) (un + vn) \<and> c = m' (rp + un + vn)"
  using assms
proof (induction vn arbitrary: m rp vp)
  case 0
  then show ?case by simp
next
  case (Suc vn)
  have io: "incr_ok (Suc rp) up un" using Suc.prems(2) by (auto simp: incr_ok_def disjoint_def)
  from mpn_addmul_1_value [OF Suc.prems(1) io, of m "m (Suc vp)"] obtain m1 cl where
    1: "mpn_addmul_1 m (Suc rp) up un (m (Suc vp)) = Inr (m1, cl)"
    "mpn_val m1 (Suc rp) un + B ^ un * unat cl = mpn_val m (Suc rp) un + mpn_val m up un * unat (m (Suc vp))"
    "unchanged m m1 (Suc rp) un" .
  define m2 where "m2 = m1(Suc rp + un := cl)"
  have u2: "unchanged m m2 (Suc rp) (Suc un)" unfolding m2_def by (rule unchanged_upd [OF 1(3)])
  have v2: "mpn_val m2 (Suc rp) (Suc un) = mpn_val m (Suc rp) un + mpn_val m up un * unat (m (Suc vp))"
    unfolding 1(2) [symmetric] mpn_val_snoc by (simp add: m2_def)
  have up2: "mpn_val m2 up un = mpn_val m up un" and vp2: "mpn_val m2 (Suc (Suc vp)) vn = mpn_val m (Suc (Suc vp)) vn"
    using Suc.prems(2,3) by (auto intro!: unchanged_val [OF u2] simp: disjoint_def)
  have d: "disjoint (Suc (Suc rp)) (un + vn) up un" "disjoint (Suc (Suc rp)) (un + vn) (Suc (Suc vp)) vn"
    using Suc.prems(2,3) by (auto simp: disjoint_def)
  from Suc.IH [OF Suc.prems(1) d, of m2] obtain m' c where
    3: "mpn_mul_loop m2 (Suc rp) up un (Suc vp) vn = Inr (m', c)"
    "mpn_val m' (Suc (Suc rp)) (un + vn) =
       mpn_val m2 (Suc (Suc rp)) un + mpn_val m up un * mpn_val m (Suc (Suc vp)) vn"
    "unchanged m2 m' (Suc (Suc rp)) (un + vn)" "c = m' (Suc rp + un + vn)"
    unfolding up2 vp2 by auto
  have lo: "m' (Suc rp) = m2 (Suc rp)" using unchangedD [OF 3(3)] by simp
  have "mpn_val m' (Suc rp) (un + Suc vn) =
      mpn_val m2 (Suc rp) (Suc un) + mpn_val m up un * (B * mpn_val m (Suc (Suc vp)) vn)"
    using lo 3(2) by (simp add: algebra_simps)
  also have "\<dots> = mpn_val m (Suc rp) un + mpn_val m up un * mpn_val m (Suc vp) (Suc vn)"
    unfolding v2 by (simp add: algebra_simps)
  finally have "mpn_val m' (Suc rp) (un + Suc vn) =
      mpn_val m (Suc rp) un + mpn_val m up un * mpn_val m (Suc vp) (Suc vn)" .
  moreover have "unchanged m m' (Suc rp) (un + Suc vn)"
    by (rule unchanged_trans [OF unchanged_mono [OF u2] unchanged_mono [OF 3(3)]]) auto
  ultimately show ?case using 1(1) 3(1,4) by (simp add: m2_def)
qed

lemma mpn_mul_value:
  assumes "vn \<le> un" "vn \<ge> 1" "disjoint rp (un + vn) up un" "disjoint rp (un + vn) vp vn"
  obtains m' c where "mpn_mul m rp up un vp vn = Inr (m', c)"
    "mpn_val m' rp (un + vn) = mpn_val m up un * mpn_val m vp vn"
    "unchanged m m' rp (un + vn)" "c = m' (rp + un + vn - 1)"
proof -
  obtain k where k: "vn = Suc k" using assms(2) by (cases vn) auto
  have un: "un \<ge> 1" using assms by simp
  have io: "incr_ok rp up un" using assms(3) by (auto simp: incr_ok_def disjoint_def)
  from mpn_mul_1_value [OF un io, of m "m vp"] obtain m1 cl where
    1: "mpn_mul_1 m rp up un (m vp) = Inr (m1, cl)"
    "mpn_val m1 rp un + B ^ un * unat cl = mpn_val m up un * unat (m vp)" "unchanged m m1 rp un" .
  define m2 where "m2 = m1(rp + un := cl)"
  have u2: "unchanged m m2 rp (Suc un)" unfolding m2_def by (rule unchanged_upd [OF 1(3)])
  have v2: "mpn_val m2 rp (Suc un) = mpn_val m up un * unat (m vp)"
    unfolding 1(2) [symmetric] mpn_val_snoc by (simp add: m2_def)
  have up2: "mpn_val m2 up un = mpn_val m up un" and vp2: "mpn_val m2 (Suc vp) k = mpn_val m (Suc vp) k"
    using assms(3,4) k by (auto intro!: unchanged_val [OF u2] simp: disjoint_def)
  have d: "disjoint (Suc rp) (un + k) up un" "disjoint (Suc rp) (un + k) (Suc vp) k"
    using assms(3,4) k by (auto simp: disjoint_def)
  from mpn_mul_loop_value [OF un d, of m2] obtain m' c where
    3: "mpn_mul_loop m2 rp up un vp k = Inr (m', c)"
    "mpn_val m' (Suc rp) (un + k) = mpn_val m2 (Suc rp) un + mpn_val m up un * mpn_val m (Suc vp) k"
    "unchanged m2 m' (Suc rp) (un + k)" "c = m' (rp + un + k)"
    unfolding up2 vp2 by auto
  have lo: "m' rp = m2 rp" using unchangedD [OF 3(3)] by simp
  have "mpn_val m' rp (un + vn) = mpn_val m2 rp (Suc un) + mpn_val m up un * (B * mpn_val m (Suc vp) k)"
    using lo 3(2) k by (simp add: algebra_simps)
  also have "\<dots> = mpn_val m up un * mpn_val m vp vn"
    unfolding v2 k by (simp add: algebra_simps)
  finally show ?thesis
    using that [of m' c] 1(1) 3(1,4) k assms(1)
      unchanged_trans [OF unchanged_mono [OF u2] unchanged_mono [OF 3(3)], of rp "un + vn"]
    by (simp add: mpn_mul_def m2_def)
qed

end
