(* ===== verification/Mpn_bits.thy ===== *)
theory Mpn_bits
  imports Mpn_arith
begin

text \<open>
  Comparison, normalisation, copies, complement, negation and shifts of the \<open>mpn\<close>
  layer, as operations on the value of the limbs.
\<close>

section \<open>Comparison and size\<close>

lemma lex_less:
  fixes a b x y N :: nat
  assumes "a < N" "x < y"
  shows "a + N * x < b + N * y"
proof -
  have "a + N * x < N * Suc x" using assms(1) by simp
  also have "\<dots> \<le> N * y" using assms(2) by (intro mult_left_mono) auto
  finally show ?thesis by simp
qed

lemma mpn_cmp_value: "mpn_cmp m ap bp n = GMP_CMP (mpn_val m ap n) (mpn_val m bp n)"
proof (induction n)
  case 0
  show ?case by (simp add: GMP_CMP_def)
next
  case (Suc n)
  consider "m (ap + n) = m (bp + n)" | "unat (m (ap + n)) < unat (m (bp + n))"
    | "unat (m (bp + n)) < unat (m (ap + n))"
    by (metis nat_neq_iff word_unat_eq_iff)
  then show ?case
  proof cases
    case 1
    with Suc show ?thesis by (simp add: mpn_val_snoc GMP_CMP_def del: mpn_val.simps)
  next
    case 2
    from lex_less [OF mpn_val_bound 2, of m ap n "mpn_val m bp n"] 2 show ?thesis
      by (auto simp: mpn_val_snoc GMP_CMP_def word_less_nat_alt simp del: mpn_val.simps)
  next
    case 3
    from lex_less [OF mpn_val_bound 3, of m bp n "mpn_val m ap n"] 3 show ?thesis
      by (auto simp: mpn_val_snoc GMP_CMP_def word_less_nat_alt simp del: mpn_val.simps)
  qed
qed

lemma mpn_normalized_size_le: "mpn_normalized_size m p n \<le> n"
  by (induction n) auto

lemma mpn_normalized_size_val: "mpn_val m p (mpn_normalized_size m p n) = mpn_val m p n"
  by (induction n) (simp_all add: mpn_val_snoc del: mpn_val.simps(2))

lemma mpn_normalized_size_top:
  "mpn_normalized_size m p n > 0 \<Longrightarrow> m (p + mpn_normalized_size m p n - 1) \<noteq> 0"
  by (induction n) auto

lemma mpn_val_normal_ge:
  assumes "n > 0" "m (p + n - 1) \<noteq> 0"
  shows "B ^ (n - 1) \<le> mpn_val m p n"
proof -
  obtain k where k: "n = Suc k" using assms(1) by (cases n) auto
  have "unat (m (p + k)) \<noteq> 0" using assms(2) k by (simp add: word_unat_eq_iff)
  then have "B ^ k \<le> B ^ k * unat (m (p + k))" by simp
  then show ?thesis unfolding k mpn_val_snoc by (simp only: diff_Suc_1 trans_le_add2)
qed

lemma mpn_zero_p_iff: "mpn_zero_p m p n \<longleftrightarrow> mpn_val m p n = 0"
proof
  assume "mpn_zero_p m p n"
  then show "mpn_val m p n = 0" using mpn_normalized_size_val [of m p n] by (simp add: mpn_zero_p_def)
next
  assume v: "mpn_val m p n = 0"
  show "mpn_zero_p m p n"
  proof (rule ccontr)
    assume "\<not> mpn_zero_p m p n"
    then have k: "mpn_normalized_size m p n > 0" by (simp add: mpn_zero_p_def)
    from mpn_val_normal_ge [where m = m and p = p, OF k mpn_normalized_size_top [OF k]]
    show False using v mpn_normalized_size_val [of m p n] by simp
  qed
qed

lemma mpn_cmp4_value:
  assumes "an > 0 \<longrightarrow> m (ap + an - 1) \<noteq> 0" "bn > 0 \<longrightarrow> m (bp + bn - 1) \<noteq> 0"
  shows "mpn_cmp4 m ap an bp bn = GMP_CMP (mpn_val m ap an) (mpn_val m bp bn)"
proof -
  have less: "mpn_val m p k < mpn_val m q j"
    if "k < j" "m (q + j - 1) \<noteq> 0" for p q k j
  proof -
    have "mpn_val m p k < B ^ k" by (rule mpn_val_bound)
    also have "\<dots> \<le> B ^ (j - 1)" using that(1) by (intro power_increasing) (simp_all add: Suc_leI)
    also have "\<dots> \<le> mpn_val m q j" using that by (intro mpn_val_normal_ge) auto
    finally show ?thesis .
  qed
  show ?thesis
    using less [of an bn bp ap] less [of bn an ap bp] assms
    by (cases an bn rule: linorder_cases) (auto simp: mpn_cmp4_def mpn_cmp_value GMP_CMP_def)
qed

section \<open>Copies\<close>

lemma mpn_copyi_limbs:
  "incr_ok d s n \<Longrightarrow> (\<forall>i < n. mpn_copyi m d s n (d + i) = m (s + i)) \<and> unchanged m (mpn_copyi m d s n) d n"
proof (induction n arbitrary: m d s)
  case (Suc n)
  define m1 where "m1 = m(d := m s)"
  have ih: "\<forall>i < n. mpn_copyi m1 (Suc d) (Suc s) n (Suc d + i) = m1 (Suc s + i)"
    "unchanged m1 (mpn_copyi m1 (Suc d) (Suc s) n) (Suc d) n"
    using Suc.IH [of "Suc d" "Suc s" m1] Suc.prems by (auto simp: incr_ok_def)
  have "mpn_copyi m1 (Suc d) (Suc s) n (d + i) = m (s + i)" if "i < Suc n" for i
  proof (cases i)
    case 0
    then show ?thesis using unchangedD [OF ih(2), of d] by (simp add: m1_def)
  next
    case (Suc j)
    then show ?thesis using ih(1) that Suc.prems by (auto simp: m1_def incr_ok_def)
  qed
  then show ?case using unchanged_step [OF ih(2) [unfolded m1_def]] by (simp add: m1_def)
qed simp

lemma mpn_copyd_limbs:
  "decr_ok d s n \<Longrightarrow> (\<forall>i < n. mpn_copyd m d s n (d + i) = m (s + i)) \<and> unchanged m (mpn_copyd m d s n) d n"
proof (induction n arbitrary: m)
  case (Suc n)
  define m1 where "m1 = m(d + n := m (s + n))"
  have ih: "\<forall>i < n. mpn_copyd m1 d s n (d + i) = m1 (s + i)" "unchanged m1 (mpn_copyd m1 d s n) d n"
    using Suc.IH [of m1] Suc.prems by (auto simp: decr_ok_def)
  have "mpn_copyd m1 d s n (d + i) = m (s + i)" if "i < Suc n" for i
  proof (cases "i = n")
    case True
    then show ?thesis using unchangedD [OF ih(2), of "d + n"] by (simp add: m1_def)
  next
    case False
    then show ?thesis using ih(1) that Suc.prems by (auto simp: m1_def decr_ok_def)
  qed
  moreover have "unchanged m (mpn_copyd m1 d s n) d (Suc n)"
    using ih(2) by (auto simp: unchanged_def m1_def)
  ultimately show ?case by (simp add: m1_def)
qed simp

lemma mpn_val_limbs:
  "(\<forall>i < n. m' (d + i) = m (s + i)) \<Longrightarrow> mpn_val m' d n = mpn_val m s n"
proof (induction n arbitrary: d s)
  case (Suc n)
  have "\<forall>i < n. m' (Suc d + i) = m (Suc s + i)"
    using Suc.prems by (metis Suc_less_eq add_Suc_shift)
  from Suc.IH [OF this] Suc.prems show ?case by force
qed simp

lemma mpn_zero_value: "mpn_val (mpn_zero m p n) p n = 0 \<and> unchanged m (mpn_zero m p n) p n"
proof -
  have "(\<forall>i < n. mpn_zero m p n (p + i) = 0) \<and> unchanged m (mpn_zero m p n) p n"
  proof (induction n arbitrary: m)
    case (Suc n)
    then have ih: "\<forall>i < n. mpn_zero (m(p + n := 0)) p n (p + i) = 0"
      "unchanged (m(p + n := 0)) (mpn_zero (m(p + n := 0)) p n) p n" by blast+
    have "mpn_zero (m(p + n := 0)) p n (p + n) = 0" using unchangedD [OF ih(2), of "p + n"] by simp
    with ih show ?case by (auto simp: unchanged_def less_Suc_eq)
  qed simp
  moreover have "mpn_val (\<lambda>_. 0) p n = 0" by (induction n arbitrary: p) auto
  ultimately show ?thesis using mpn_val_limbs [of n "mpn_zero m p n" p "\<lambda>_. 0" p] by simp
qed

section \<open>Complement and negation\<close>

lemma unat_NOT_limb: "unat (NOT x :: limb) + unat x + 1 = B"
proof -
  have "NOT x = - 1 - x" by (simp add: not_eq_complement)
  moreover have "int (unat (- 1 - x)) = int (unat (- 1 :: limb)) - int (unat x) + int B * of_bool (- 1 < x)"
    by (rule limb_sub)
  moreover have "\<not> - 1 < x" "unat (- 1 :: limb) = B - 1" by (simp_all add: B_def unsigned_minus_1_eq_mask mask_eq_exp_minus_1)
  ultimately have "int (unat (NOT x)) = int (B - 1) - int (unat x)" by simp
  then show ?thesis using unat_less_B [of x] by simp
qed

lemma mpn_com_value:
  "incr_ok rp up n \<Longrightarrow> mpn_val (mpn_com m rp up n) rp n + mpn_val m up n + 1 = B ^ n \<and>
   unchanged m (mpn_com m rp up n) rp n"
proof (induction n arbitrary: m rp up)
  case (Suc n)
  define m1 where "m1 = m(rp := NOT (m up))"
  have ih: "mpn_val (mpn_com m1 (Suc rp) (Suc up) n) (Suc rp) n + mpn_val m1 (Suc up) n + 1 = B ^ n"
    "unchanged m1 (mpn_com m1 (Suc rp) (Suc up) n) (Suc rp) n"
    using Suc.IH [of "Suc rp" "Suc up" m1] Suc.prems by (auto simp: incr_ok_def)
  have "mpn_val m1 (Suc up) n = mpn_val m (Suc up) n"
    using Suc.prems by (auto simp: m1_def incr_ok_def)
  moreover have "mpn_com m1 (Suc rp) (Suc up) n rp = NOT (m up)"
    using unchangedD [OF ih(2), of rp] by (simp add: m1_def)
  moreover have "B * (mpn_val (mpn_com m1 (Suc rp) (Suc up) n) (Suc rp) n + mpn_val m1 (Suc up) n + 1) = B * B ^ n"
    using ih(1) by simp
  ultimately have "mpn_val (mpn_com m1 (Suc rp) (Suc up) n) rp (Suc n) + mpn_val m up (Suc n) + 1 = B ^ Suc n"
    using unat_NOT_limb [of "m up"] by (simp add: algebra_simps)
  then show ?case using unchanged_step [OF ih(2) [unfolded m1_def]] by (simp add: m1_def)
qed simp

lemma unat_uminus_limb: "x \<noteq> 0 \<Longrightarrow> unat (- x :: limb) + unat x = B"
  using limb_sub [of 0 x] unat_less_B [of x] by (simp add: word_less_nat_alt unat_gt_0)

lemma mpn_neg_value:
  "n \<ge> 1 \<Longrightarrow> incr_ok rp up n \<Longrightarrow>
   \<exists>m' c. mpn_neg m rp up n = Inr (m', c) \<and> unat c = of_bool (mpn_val m up n \<noteq> 0) \<and>
     mpn_val m' rp n + mpn_val m up n = B ^ n * unat c \<and> unchanged m m' rp n"
proof (induction n arbitrary: m rp up)
  case (Suc n)
  show ?case
  proof (cases "m up = 0")
    case zero: True
    define m1 where "m1 = m(rp := 0)"
    have v1: "mpn_val m1 (Suc up) n = mpn_val m (Suc up) n"
      using Suc.prems by (auto simp: m1_def incr_ok_def)
    show ?thesis
    proof (cases "n = 0")
      case True
      then show ?thesis using zero by (auto simp: unchanged_def)
    next
      case False
      have io: "incr_ok (Suc rp) (Suc up) n" using Suc.prems(2) by (auto simp: incr_ok_def)
      from Suc.IH [OF _ io, of m1] False v1 obtain m' c where ih:
        "mpn_neg m1 (Suc rp) (Suc up) n = Inr (m', c)" "unat c = of_bool (mpn_val m (Suc up) n \<noteq> 0)"
        "mpn_val m' (Suc rp) n + mpn_val m (Suc up) n = B ^ n * unat c" "unchanged m1 m' (Suc rp) n"
        by auto
      have lo: "m' rp = 0" using unchangedD [OF ih(4), of rp] by (simp add: m1_def)
      have "B * (mpn_val m' (Suc rp) n + mpn_val m (Suc up) n) = B * (B ^ n * unat c)"
        using ih(3) by simp
      then have "mpn_val m' rp (Suc n) + mpn_val m up (Suc n) = B ^ Suc n * unat c"
        using zero lo by (simp add: algebra_simps)
      moreover have "mpn_neg m rp up (Suc n) = Inr (m', c)" using ih(1) zero False by (simp add: m1_def)
      moreover have "unat c = of_bool (mpn_val m up (Suc n) \<noteq> 0)" using ih(2) zero by simp
      ultimately show ?thesis using unchanged_step [OF ih(4) [unfolded m1_def]] by blast
    qed
  next
    case False
    define m1 where "m1 = m(rp := - m up)"
    define m' where "m' = mpn_com m1 (Suc rp) (Suc up) n"
    have c: "mpn_val m' (Suc rp) n + mpn_val m1 (Suc up) n + 1 = B ^ n" "unchanged m1 m' (Suc rp) n"
      unfolding m'_def using mpn_com_value [of "Suc rp" "Suc up" n m1] Suc.prems(2) by (auto simp: incr_ok_def)
    have "mpn_val m1 (Suc up) n = mpn_val m (Suc up) n" using Suc.prems by (auto simp: m1_def incr_ok_def)
    moreover have "m' rp = - m up" using unchangedD [OF c(2), of rp] by (simp add: m1_def)
    moreover have "B * (mpn_val m' (Suc rp) n + mpn_val m1 (Suc up) n + 1) = B * B ^ n" using c(1) by simp
    ultimately have "mpn_val m' rp (Suc n) + mpn_val m up (Suc n) = B ^ Suc n * 1"
      using unat_uminus_limb [OF False] by (simp add: algebra_simps)
    moreover have "mpn_neg m rp up (Suc n) = Inr (m', 1)" using False by (simp add: m1_def m'_def)
    moreover have "mpn_val m up (Suc n) \<noteq> 0" using False by (simp add: word_unat_eq_iff)
    ultimately show ?thesis using unchanged_step [OF c(2) [unfolded m1_def]] by auto
  qed
qed simp

section \<open>Shifts\<close>

text \<open>A limb shifted left by \<open>c\<close> as its two halves, and the disjoint union of two limbs.\<close>

lemma unat_push_bit: "unat (push_bit c x :: limb) = (unat x * 2 ^ c) mod B"
  by (simp only: unsigned_push_bit_eq) (simp add: take_bit_eq_mod push_bit_eq_mult B_def)

lemma unat_drop_bit: "unat (drop_bit c x :: limb) = unat x div 2 ^ c"
  by (simp only: unat_drop_bit_eq) (simp add: drop_bit_eq_div)

lemma B_split: "c \<le> 64 \<Longrightarrow> B = 2 ^ (64 - c) * 2 ^ c"
  by (simp add: B_def flip: power_add)

lemma shift_split:
  assumes "c \<le> 64"
  shows "unat (push_bit c x :: limb) + B * unat (drop_bit (64 - c) x) = unat x * 2 ^ c"
proof -
  have "unat x * 2 ^ c mod B = (unat x mod 2 ^ (64 - c)) * 2 ^ c"
    by (simp only: B_split [OF assms] mult_mod_left)
  moreover have "B * (unat x div 2 ^ (64 - c)) = (unat x div 2 ^ (64 - c) * 2 ^ (64 - c)) * 2 ^ c"
    by (simp only: B_split [OF assms] mult_ac)
  ultimately have "unat (push_bit c x) + B * unat (drop_bit (64 - c) x) =
      (unat x mod 2 ^ (64 - c) + unat x div 2 ^ (64 - c) * 2 ^ (64 - c)) * 2 ^ c"
    by (simp only: unat_push_bit unat_drop_bit add_mult_distrib)
  then show ?thesis by (simp only: mod_div_mult_eq)
qed

lemma push_bit_or:
  fixes x y :: limb
  assumes "unat y < 2 ^ c" "c < 64"
  shows "unat (push_bit c x OR y) = unat (push_bit c x) + unat y"
proof -
  have y: "take_bit c y = y"
    using assms(1) by (simp only: word_unat_eq_iff unsigned_take_bit_eq) (simp add: take_bit_nat_eq_self)
  have "push_bit c x AND y = push_bit c x AND take_bit c y" by (simp only: y)
  also have "\<dots> = 0" by (auto simp: bit_eq_iff bit_simps)
  finally have a: "push_bit c x OR y = push_bit c x + y" by (rule disjunctive_add_eq_or [symmetric])
  have "unat (push_bit c x) = (unat x mod 2 ^ (64 - c)) * 2 ^ c"
    using assms(2) unfolding unat_push_bit by (simp only: B_split [of c] mult_mod_left less_imp_le)
  moreover have "unat x mod 2 ^ (64 - c) < 2 ^ (64 - c)" by simp
  ultimately have "unat (push_bit c x) + unat y < Suc (unat x mod 2 ^ (64 - c)) * 2 ^ c"
    using assms(1) by simp
  also have "\<dots> \<le> 2 ^ (64 - c) * 2 ^ c" by (intro mult_right_mono) (auto simp: Suc_le_eq)
  also have "\<dots> = B" using assms(2) by (simp add: B_split [of c])
  finally show ?thesis unfolding a by (rule unat_add_limb_eq)
qed

lemma drop_bit_less:
  assumes "c \<le> 64"
  shows "unat (drop_bit (64 - c) (x :: limb)) < 2 ^ c"
  unfolding unat_drop_bit
  by (rule less_mult_imp_div_less) (use unat_less_B [of x] B_split [OF assms] in \<open>simp add: mult.commute\<close>)

lemma mpn_lshift_loop_value:
  assumes "c \<ge> 1" "c < 64" "decr_ok r u (Suc n)" "high = push_bit c h"
  shows "mpn_val (mpn_lshift_loop m (r + Suc n) (u + n) n c high) r (Suc n) =
      mpn_val m u n * 2 ^ c + B ^ n * unat high
    \<and> unchanged m (mpn_lshift_loop m (r + Suc n) (u + n) n c high) r (Suc n)"
  using assms(3,4)
proof (induction n arbitrary: m high h)
  case 0
  then show ?case by (simp add: unchanged_def)
next
  case (Suc n)
  define low where "low = m (u + n)"
  define m1 where "m1 = m(r + Suc n := high OR drop_bit (64 - c) low)"
  define m' where "m' = mpn_lshift_loop m1 (r + Suc n) (u + n) n c (push_bit c low)"
  have l: "mpn_lshift_loop m (r + Suc (Suc n)) (u + Suc n) (Suc n) c high = m'"
    by (simp add: m'_def m1_def low_def Let_def GMP_LIMB_BITS_def)
  have "decr_ok r u (Suc n)" using Suc.prems(1) by (auto simp: decr_ok_def)
  from Suc.IH [OF this refl, of m1 low]
  have ih: "mpn_val m' r (Suc n) = mpn_val m1 u n * 2 ^ c + B ^ n * unat (push_bit c low)"
    "unchanged m1 m' r (Suc n)" by (simp_all only: m'_def)
  have v1: "mpn_val m1 u n = mpn_val m u n" using Suc.prems(1) by (auto simp: m1_def decr_ok_def)
  have "m' (r + Suc n) = high OR drop_bit (64 - c) low"
    using unchangedD [OF ih(2), of "r + Suc n"] by (simp add: m1_def)
  then have top: "unat (m' (r + Suc n)) = unat high + unat (drop_bit (64 - c) low)"
    using push_bit_or [OF drop_bit_less] assms(1,2) Suc.prems(2) by simp
  have "mpn_val m' r (Suc (Suc n)) =
      mpn_val m u n * 2 ^ c + B ^ n * (unat (push_bit c low) + B * unat (drop_bit (64 - c) low)) + B ^ Suc n * unat high"
    unfolding mpn_val_snoc [of m' r "Suc n"] ih(1) v1 top by (simp add: algebra_simps)
  also have "unat (push_bit c low) + B * unat (drop_bit (64 - c) low) = unat low * 2 ^ c"
    using assms(2) by (intro shift_split) simp
  also have "mpn_val m u n * 2 ^ c + B ^ n * (unat low * 2 ^ c) + B ^ Suc n * unat high =
      mpn_val m u (Suc n) * 2 ^ c + B ^ Suc n * unat high"
    unfolding mpn_val_snoc low_def by (simp add: algebra_simps)
  finally have "mpn_val m' r (Suc (Suc n)) = mpn_val m u (Suc n) * 2 ^ c + B ^ Suc n * unat high" .
  moreover have "unchanged m m' r (Suc (Suc n))" using ih(2) by (auto simp: unchanged_def m1_def)
  ultimately show ?case unfolding l by blast
qed

lemma mpn_lshift_value:
  assumes "n \<ge> 1" "c \<ge> 1" "c < 64" "decr_ok rp up n"
  obtains m' ret where "mpn_lshift m rp up n c = Inr (m', ret)"
    "mpn_val m' rp n + B ^ n * unat ret = mpn_val m up n * 2 ^ c" "unchanged m m' rp n"
proof -
  obtain k where k: "n = Suc k" using assms(1) by (cases n) auto
  define low where "low = m (up + k)"
  define m' where "m' = mpn_lshift_loop m (rp + Suc k) (up + k) k c (push_bit c low)"
  have l: "mpn_lshift m rp up n c = Inr (m', drop_bit (64 - c) low)"
    using assms by (simp add: mpn_lshift_def k m'_def low_def GMP_LIMB_BITS_def Let_def)
  have v: "mpn_val m' rp n = mpn_val m up k * 2 ^ c + B ^ k * unat (push_bit c low)" "unchanged m m' rp n"
    using mpn_lshift_loop_value [OF assms(2,3) _ refl, of rp up k m low] assms(4) k by (simp_all only: m'_def)
  have "mpn_val m' rp n + B ^ n * unat (drop_bit (64 - c) low) =
      mpn_val m up k * 2 ^ c + B ^ k * (unat (push_bit c low) + B * unat (drop_bit (64 - c) low))"
    unfolding v(1) by (simp add: k algebra_simps)
  also have "unat (push_bit c low) + B * unat (drop_bit (64 - c) low) = unat low * 2 ^ c"
    using assms(3) by (intro shift_split) simp
  also have "mpn_val m up k * 2 ^ c + B ^ k * (unat low * 2 ^ c) = mpn_val m up n * 2 ^ c"
    unfolding k mpn_val_snoc low_def by (simp add: algebra_simps)
  finally show ?thesis using that l v(2) by blast
qed

text \<open>
  For the shift to the right the loop carries the low part \<open>low\<close> of the previous limb,
  which is below \<open>2 ^ (64 - c)\<close>.
\<close>

lemma mpn_rshift_loop_value:
  assumes "c \<ge> 1" "c < 64" "incr_ok rp up n" "unat low < 2 ^ (64 - c)"
  shows "mpn_val (mpn_rshift_loop m rp up n c low) rp (Suc n) = unat low + mpn_val m up n * 2 ^ (64 - c)
    \<and> unchanged m (mpn_rshift_loop m rp up n c low) rp (Suc n)"
  using assms(3,4)
proof (induction n arbitrary: m rp up low)
  case 0
  then show ?case by (simp add: unchanged_def)
next
  case (Suc n)
  define high where "high = m up"
  define m1 where "m1 = m(rp := low OR push_bit (64 - c) high)"
  define m' where "m' = mpn_rshift_loop m1 (Suc rp) (Suc up) n c (drop_bit c high)"
  have l: "mpn_rshift_loop m rp up (Suc n) c low = m'"
    by (simp add: m'_def m1_def high_def Let_def GMP_LIMB_BITS_def)
  have "incr_ok (Suc rp) (Suc up) n" using Suc.prems(1) by (auto simp: incr_ok_def)
  from Suc.IH [OF this, of "drop_bit c high" m1] drop_bit_less [of "64 - c" high] assms(2)
  have ih: "mpn_val m' (Suc rp) (Suc n) = unat (drop_bit c high) + mpn_val m1 (Suc up) n * 2 ^ (64 - c)"
    "unchanged m1 m' (Suc rp) (Suc n)" by (simp_all add: m'_def)
  have v1: "mpn_val m1 (Suc up) n = mpn_val m (Suc up) n" using Suc.prems(1) by (auto simp: m1_def incr_ok_def)
  have "m' rp = push_bit (64 - c) high OR low"
    using unchangedD [OF ih(2), of rp] by (simp add: m1_def or.commute)
  then have lo: "unat (m' rp) = unat (push_bit (64 - c) high) + unat low"
    using push_bit_or [OF Suc.prems(2)] assms(1) by simp
  have "mpn_val m' rp (Suc (Suc n)) = unat low +
      (unat (push_bit (64 - c) high) + B * unat (drop_bit c high)) + B * (mpn_val m (Suc up) n * 2 ^ (64 - c))"
    using ih(1) lo v1 by (subst mpn_val.simps(2)) (simp only: algebra_simps)
  also have "unat (push_bit (64 - c) high) + B * unat (drop_bit c high) = unat high * 2 ^ (64 - c)"
    using shift_split [of "64 - c" high] assms(2) by simp
  also have "unat low + unat high * 2 ^ (64 - c) + B * (mpn_val m (Suc up) n * 2 ^ (64 - c)) =
      unat low + mpn_val m up (Suc n) * 2 ^ (64 - c)"
    by (simp add: high_def algebra_simps)
  finally have "mpn_val m' rp (Suc (Suc n)) = unat low + mpn_val m up (Suc n) * 2 ^ (64 - c)" .
  moreover have "unchanged m m' rp (Suc (Suc n))" using ih(2) unfolding m1_def by (rule unchanged_step)
  ultimately show ?case unfolding l by blast
qed

lemma mpn_rshift_value:
  assumes "n \<ge> 1" "c \<ge> 1" "c < 64" "incr_ok rp up n"
  obtains m' ret where "mpn_rshift m rp up n c = Inr (m', ret)"
    "unat ret + B * mpn_val m' rp n = mpn_val m up n * 2 ^ (64 - c)" "unchanged m m' rp n"
proof -
  obtain k where k: "n = Suc k" using assms(1) by (cases n) auto
  define high where "high = m up"
  define m' where "m' = mpn_rshift_loop m rp (Suc up) k c (drop_bit c high)"
  have l: "mpn_rshift m rp up n c = Inr (m', push_bit (64 - c) high)"
    using assms by (simp add: mpn_rshift_def k m'_def high_def GMP_LIMB_BITS_def Let_def)
  have io: "incr_ok rp (Suc up) k" using assms(4) k by (auto simp: incr_ok_def)
  have v: "mpn_val m' rp n = unat (drop_bit c high) + mpn_val m (Suc up) k * 2 ^ (64 - c)" "unchanged m m' rp n"
    using mpn_rshift_loop_value [OF assms(2,3) io, of "drop_bit c high" m] drop_bit_less [of "64 - c" high] assms(3) k
    by (simp_all add: m'_def del: mpn_val.simps)
  have "unat (push_bit (64 - c) high) + B * mpn_val m' rp n =
      (unat (push_bit (64 - c) high) + B * unat (drop_bit c high)) + B * (mpn_val m (Suc up) k * 2 ^ (64 - c))"
    unfolding v(1) by (simp add: algebra_simps)
  also have "unat (push_bit (64 - c) high) + B * unat (drop_bit c high) = unat high * 2 ^ (64 - c)"
    using shift_split [of "64 - c" high] assms(3) by simp
  also have "unat high * 2 ^ (64 - c) + B * (mpn_val m (Suc up) k * 2 ^ (64 - c)) = mpn_val m up n * 2 ^ (64 - c)"
    by (simp add: high_def k algebra_simps)
  finally show ?thesis using that l v(2) by blast
qed

end
