(* ===== verification/Mpn_props.thy ===== *)
theory Mpn_props
  imports Mpn_bits
begin

text \<open>
  Correctness of the \<open>mpn\<close> layer of mini-gmp as statements on numbers: each
  operation computes its mathematical result exactly, carry or borrow included, changes no
  limb outside its destination, and does so under the overlap of operands its loop allows.
\<close>

section \<open>Limbs\<close>

text \<open>The product of two limbs by halves is exact: high limb times the base plus low limb.\<close>

theorem gmp_umul_ppmm_exact:
  "unat (fst (gmp_umul_ppmm u v)) * B + unat (snd (gmp_umul_ppmm u v)) = unat u * unat v"
  using gmp_umul_ppmm_value [of u v "fst (gmp_umul_ppmm u v)" "snd (gmp_umul_ppmm u v)"] by simp

text \<open>C40. The loops that count leading zeros end on every limb but zero, with the shift that
  makes the high bit of the limb set.\<close>

theorem gmp_clz_normalizes:
  assumes "x \<noteq> 0"
  shows "\<exists>c. gmp_clz x = Some c \<and> c < 64 \<and> 2 ^ 63 \<le> unat x * 2 ^ c \<and> unat x * 2 ^ c < 2 ^ 64"
  using gmp_clz_spec [OF assms] by metis

theorem gmp_clz_normalizes_witness:
  "\<exists>c. gmp_clz 5 = Some c \<and> c < 64 \<and> 2 ^ 63 \<le> 5 * (2::nat) ^ c \<and> 5 * (2::nat) ^ c < 2 ^ 64"
  using gmp_clz_normalizes [of 5] by simp

section \<open>Sums and differences\<close>

text \<open>Addition of numbers of different lengths: the result and the carry are the exact sum,
  and only the destination changes, which may coincide with an operand.\<close>

theorem mpn_add_exact:
  assumes "bn \<le> an" "incr_ok rp ap an" "incr_ok rp bp bn"
  shows "\<exists>m' cy. mpn_add m rp ap an bp bn = Inr (m', cy) \<and>
    mpn_val m' rp an + B ^ an * unat cy = mpn_val m ap an + mpn_val m bp bn \<and> unchanged m m' rp an"
  using mpn_add_value [OF assms, of m] by metis

definition sample_mem :: mem where
  "sample_mem = (\<lambda>_. 0)(0 := 5, 1 := 1, 10 := - 1)"

lemma mpn_val_short: "mpn_val m p 1 = unat (m p)" "mpn_val m p 2 = unat (m p) + B * unat (m (Suc p))"
  by (simp_all add: numeral_2_eq_2)

lemma unat_limb_max: "unat (- 1 :: limb) = B - 1"
  by (simp add: B_def unsigned_minus_1_eq_mask mask_eq_exp_minus_1)

lemma sample_values:
  "mpn_val sample_mem 0 2 = B + 5" "mpn_val sample_mem 10 1 = B - 1" "mpn_val sample_mem 0 1 = 5"
  by (simp_all only: mpn_val_short) (simp_all add: sample_mem_def unat_limb_max)

theorem mpn_add_exact_witness:
  "\<exists>m' cy. mpn_add sample_mem 0 0 2 10 1 = Inr (m', cy) \<and>
    mpn_val m' 0 2 + B ^ 2 * unat cy = 2 * B + 4 \<and> unchanged sample_mem m' 0 2"
  using mpn_add_exact [of 1 2 0 0 10 sample_mem]
  by (auto simp: incr_ok_def sample_values B_def simp del: One_nat_def mpn_val.simps)

text \<open>Subtraction of a number of at most the same length: the result minus the borrow is the
  exact difference, and only the destination changes.\<close>

theorem mpn_sub_exact:
  assumes "bn \<le> an" "incr_ok rp ap an" "incr_ok rp bp bn"
  shows "\<exists>m' cy. mpn_sub m rp ap an bp bn = Inr (m', cy) \<and>
    mpn_val m' rp an + mpn_val m bp bn = mpn_val m ap an + B ^ an * unat cy \<and> unchanged m m' rp an"
  using mpn_sub_value [OF assms, of m] by metis

theorem mpn_sub_exact_witness:
  "\<exists>m' cy. mpn_sub sample_mem 0 0 2 10 1 = Inr (m', cy) \<and>
    mpn_val m' 0 2 + (B - 1) = B + 5 + B ^ 2 * unat cy \<and> unchanged sample_mem m' 0 2"
  using mpn_sub_exact [of 1 2 0 0 10 sample_mem]
  by (auto simp: incr_ok_def sample_values simp del: One_nat_def mpn_val.simps)

section \<open>Products\<close>

text \<open>Adding the product of a number by a limb in place is exact.\<close>

theorem mpn_addmul_1_exact:
  assumes "n \<ge> 1" "incr_ok rp up n"
  shows "\<exists>m' cl. mpn_addmul_1 m rp up n vl = Inr (m', cl) \<and>
    mpn_val m' rp n + B ^ n * unat cl = mpn_val m rp n + mpn_val m up n * unat vl \<and> unchanged m m' rp n"
  using mpn_addmul_1_value [OF assms, of m vl] by metis

theorem mpn_addmul_1_exact_witness:
  "\<exists>m' cl. mpn_addmul_1 sample_mem 0 10 1 (- 1) = Inr (m', cl) \<and>
    mpn_val m' 0 1 + B ^ 1 * unat cl = 5 + (B - 1) * (B - 1)"
  using mpn_addmul_1_exact [of 1 0 10 sample_mem "- 1"]
  by (auto simp: incr_ok_def sample_values unat_limb_max simp del: One_nat_def)

text \<open>Subtracting the product of a number by a limb in place is exact.\<close>

theorem mpn_submul_1_exact:
  assumes "n \<ge> 1" "incr_ok rp up n"
  shows "\<exists>m' cl. mpn_submul_1 m rp up n vl = Inr (m', cl) \<and>
    mpn_val m' rp n + mpn_val m up n * unat vl = mpn_val m rp n + B ^ n * unat cl \<and> unchanged m m' rp n"
  using mpn_submul_1_value [OF assms, of m vl] by metis

theorem mpn_submul_1_exact_witness:
  "\<exists>m' cl. mpn_submul_1 sample_mem 0 10 1 3 = Inr (m', cl) \<and>
    mpn_val m' 0 1 + (B - 1) * 3 = 5 + B ^ 1 * unat cl"
  using mpn_submul_1_exact [of 1 0 10 sample_mem 3]
  by (auto simp: incr_ok_def sample_values simp del: One_nat_def)

text \<open>C21. The schoolbook product of two numbers is their product, its high limb is returned, and
  only the destination, which must not overlap the operands, changes.\<close>

theorem mpn_mul_exact:
  assumes "vn \<le> un" "vn \<ge> 1" "disjoint rp (un + vn) up un" "disjoint rp (un + vn) vp vn"
  shows "\<exists>m'. mpn_mul m rp up un vp vn = Inr (m', m' (rp + un + vn - 1)) \<and>
    mpn_val m' rp (un + vn) = mpn_val m up un * mpn_val m vp vn \<and> unchanged m m' rp (un + vn)"
  using mpn_mul_value [OF assms, of m] by metis

theorem mpn_mul_exact_witness:
  "\<exists>m'. mpn_mul sample_mem 20 0 2 10 1 = Inr (m', m' 22) \<and> mpn_val m' 20 3 = (B + 5) * (B - 1)"
  using mpn_mul_exact [of 1 2 20 0 10 sample_mem] by (auto simp: disjoint_def sample_values simp del: One_nat_def mpn_val.simps)

section \<open>Shifts, comparison, negation\<close>

text \<open>The shift to the left by less than a limb multiplies by the power of two, the bits
  shifted out being returned; the destination may lie above the source.\<close>

theorem mpn_lshift_exact:
  assumes "n \<ge> 1" "c \<ge> 1" "c < 64" "decr_ok rp up n"
  shows "\<exists>m' ret. mpn_lshift m rp up n c = Inr (m', ret) \<and>
    mpn_val m' rp n + B ^ n * unat ret = mpn_val m up n * 2 ^ c \<and> unchanged m m' rp n"
  using mpn_lshift_value [OF assms, of m] by metis

theorem mpn_lshift_exact_witness:
  "\<exists>m' ret. mpn_lshift sample_mem 0 0 2 63 = Inr (m', ret) \<and>
    mpn_val m' 0 2 + B ^ 2 * unat ret = (B + 5) * 2 ^ 63"
  using mpn_lshift_exact [of 2 63 0 0 sample_mem] by (auto simp: decr_ok_def sample_values)

text \<open>The shift to the right by less than a limb divides by the power of two; the limb
  returned holds the bits shifted out, at its high end.\<close>

theorem mpn_rshift_exact:
  assumes "n \<ge> 1" "c \<ge> 1" "c < 64" "incr_ok rp up n"
  shows "\<exists>m' ret. mpn_rshift m rp up n c = Inr (m', ret) \<and>
    unat ret + B * mpn_val m' rp n = mpn_val m up n * 2 ^ (64 - c) \<and> unchanged m m' rp n"
  using mpn_rshift_value [OF assms, of m] by metis

theorem mpn_rshift_exact_witness:
  "\<exists>m' ret. mpn_rshift sample_mem 0 0 2 1 = Inr (m', ret) \<and>
    unat ret + B * mpn_val m' 0 2 = (B + 5) * 2 ^ 63"
  using mpn_rshift_exact [of 2 1 0 0 sample_mem] by (auto simp: incr_ok_def sample_values)

text \<open>Comparison of two numbers of one length by their limbs from the top is comparison of
  their values.\<close>

theorem mpn_cmp_exact:
  "mpn_cmp m ap bp n = GMP_CMP (mpn_val m ap n) (mpn_val m bp n)"
  by (rule mpn_cmp_value)

text \<open>Negation is the complement to the power of the base, and the value returned says whether
  the number was not zero.\<close>

theorem mpn_neg_exact:
  assumes "n \<ge> 1" "incr_ok rp up n"
  shows "\<exists>m' c. mpn_neg m rp up n = Inr (m', c) \<and> unat c = of_bool (mpn_val m up n \<noteq> 0) \<and>
    mpn_val m' rp n + mpn_val m up n = B ^ n * unat c \<and> unchanged m m' rp n"
  by (rule mpn_neg_value [OF assms])

theorem mpn_neg_exact_witness:
  "\<exists>m' c. mpn_neg sample_mem 0 0 2 = Inr (m', c) \<and> mpn_val m' 0 2 + (B + 5) = B ^ 2"
  using mpn_neg_exact [of 2 0 0 sample_mem] by (auto simp: sample_values)

end
