(* ===== verification/Server_state.thy ===== *)
theory Server_state
  imports Request Readbuf Writebuf Options Proc
begin

text \<open>
  The state of the Unix server, \<open>src/src/server/server-unix.c\<close>, and the way its
  code is sequenced. The global variables are the fields of the record \<open>server\<close>.
  Clients are heap objects: the list of clients holds addresses and \<open>s_heap\<close> maps an
  address to the structure, so that two pointers to one client and the use of a freed
  client are both visible. What the operating system returns is read from one input
  sequence per system call (\<open>os\<close>); what the server does to the outside is appended
  to \<open>s_out\<close>.
\<close>

section \<open>State\<close>

record t_client =
  c_fd :: int
  c_readbuf :: t_readbuf
  c_writebuf :: t_writebuf

record pollfd =
  pf_fd :: int
  pf_events :: "16 word"
  pf_revents :: "16 word"

definition POLLIN :: "16 word" where "POLLIN = 1"
definition POLLOUT :: "16 word" where "POLLOUT = 4"
definition POLLERR :: "16 word" where "POLLERR = 8"
definition POLLHUP :: "16 word" where "POLLHUP = 16"
definition POLLNVAL :: "16 word" where "POLLNVAL = 32"

text \<open>The memory of a child between \<open>fork\<close> and \<open>execvp\<close>: the locals of \<open>create_process\<close>.\<close>

record child_image =
  ch_cmd :: string
  ch_unix_argv :: "string option arr"
  ch_argv :: "string list"
  ch_count :: int
  ch_usestdin :: bool
  ch_outfile :: int
  ch_timelimit :: int
  ch_memlimit :: "32 word"

text \<open>What a child does before its program is replaced: limits with their soft and hard values.\<close>

datatype resource = RLIMIT_CPU | RLIMIT_AS | RLIMIT_CORE

datatype child_action =
    A_setrlimit resource "64 word" "64 word"
  | A_dup2 int int
  | A_execvp string "string list"
  | A_exit int

datatype effect =
    E_close int
  | E_unlink string
  | E_kill int
  | E_fork int child_image
  | E_child "child_action list"
  | E_write int string

datatype wait_status = Signaled int | Exit_status int | Other_status

datatype poll_result = Poll_eintr | Poll_error | Poll_events "16 word list"

datatype pipe_result = Pipe_eintr | Pipe_error | Pipe_read

text \<open>
  One sequence of results per system call. A failing \<open>read\<close> or \<open>write\<close> is
  \<open>None\<close>; \<open>wait3\<close> gives the process, its status and the seconds and
  microseconds of user time; \<open>mkstemp\<close> the descriptor and the six characters it
  puts in the template; \<open>open\<close> of an input file by a child is a function of its name.
\<close>

record os =
  os_accept :: "int list"
  os_read :: "string option list"
  os_write :: "nat option list"
  os_fork :: "int list"
  os_mkstemp :: "(int \<times> string) list"
  os_wait3 :: "(int \<times> wait_status \<times> int \<times> int) list"
  os_poll :: "poll_result list"
  os_pipe :: "pipe_result list"
  os_open :: "string \<Rightarrow> int"

record server =
  server_sock :: int
  poll_list :: "pollfd arr"
  poll_num :: nat
  poll_len :: nat
  clients :: "nat t_list"
  s_heap :: "nat \<Rightarrow> t_client option"
  s_next :: nat
  processes :: "t_proc t_list"
  queue :: "request t_queue"
  s_opts :: options
  logfile :: "string option"
  cpipe :: "int \<times> int"
  current_dir :: string
  s_os :: os
  s_out :: "effect list"

section \<open>Sequencing\<close>

text \<open>
  A run of server code ends normally, by \<open>exit\<close> with the final state, or in an
  error (\<open>Blocked\<close> when a system call has no result).
\<close>

datatype 'a run = Done 'a server | Exited int server | Failed c_error

type_synonym 'a sm = "server \<Rightarrow> 'a run"

definition sret :: "'a \<Rightarrow> 'a sm" where
  "sret x = (\<lambda>s. Done x s)"

definition sbind :: "'a sm \<Rightarrow> ('a \<Rightarrow> 'b sm) \<Rightarrow> 'b sm" where
  "sbind m f = (\<lambda>s. case m s of Done x s' \<Rightarrow> f x s' | Exited c s' \<Rightarrow> Exited c s' | Failed e \<Rightarrow> Failed e)"

definition slift :: "'a result \<Rightarrow> 'a sm" where
  "slift r = (\<lambda>s. case r of Inl e \<Rightarrow> Failed e | Inr x \<Rightarrow> Done x s)"

definition sget :: "(server \<Rightarrow> 'a) \<Rightarrow> 'a sm" where
  "sget f = (\<lambda>s. Done (f s) s)"

definition smod :: "(server \<Rightarrow> server) \<Rightarrow> unit sm" where
  "smod f = (\<lambda>s. Done () (f s))"

definition sexit :: "int \<Rightarrow> 'a sm" where
  "sexit c = (\<lambda>s. Exited c s)"

definition swhen :: "bool \<Rightarrow> unit sm \<Rightarrow> unit sm" where
  "swhen b m = (if b then m else sret ())"

text \<open>A \<open>for\<close> loop over indices whose bound its body does not change.\<close>

fun sfor :: "nat list \<Rightarrow> (nat \<Rightarrow> unit sm) \<Rightarrow> unit sm" where
  "sfor [] f = sret ()"
| "sfor (i # is) f = sbind (f i) (\<lambda>_. sfor is f)"

definition emit :: "effect \<Rightarrow> unit sm" where
  "emit e = smod (\<lambda>s. s\<lparr>s_out := s_out s @ [e]\<rparr>)"

text \<open>
  The next result of a system call, given how its sequence is read and updated, and what
  the documentation of the call promises of a result in a state: a result outside of it
  counts as none.
\<close>

definition syscall :: "(os \<Rightarrow> 'a list) \<Rightarrow> ('a list \<Rightarrow> os \<Rightarrow> os) \<Rightarrow> (server \<Rightarrow> 'a \<Rightarrow> bool) \<Rightarrow> 'a sm" where
  "syscall rd wr promised = (\<lambda>s. case rd (s_os s) of
     [] \<Rightarrow> Failed Blocked
   | x # xs \<Rightarrow> if promised s x then Done x (s\<lparr>s_os := wr xs (s_os s)\<rparr>) else Failed Blocked)"

definition poll_entries :: "server \<Rightarrow> pollfd list" where
  "poll_entries s = map the (take (poll_num s) (poll_list s))"

text \<open>\<open>accept\<close> returns a descriptor that is not open.\<close>

definition fd_in_use :: "server \<Rightarrow> int \<Rightarrow> bool" where
  "fd_in_use s fd \<longleftrightarrow> fd = server_sock s \<or> fd = fst (cpipe s) \<or> fd = snd (cpipe s) \<or>
     fd \<in> set (map fst (list_pairs (clients s))) \<or> fd \<in> set (map pf_fd (poll_entries s))"

definition sys_accept :: "int sm" where
  "sys_accept = syscall os_accept (\<lambda>xs os. os\<lparr>os_accept := xs\<rparr>)
     (\<lambda>s fd. fd = -1 \<or> (0 \<le> fd \<and> \<not> fd_in_use s fd))"

text \<open>\<open>read\<close> and \<open>write\<close> transfer at most the number of bytes asked for.\<close>

definition sys_read :: "nat \<Rightarrow> string option sm" where
  "sys_read n = syscall os_read (\<lambda>xs os. os\<lparr>os_read := xs\<rparr>)
     (\<lambda>s r. case r of None \<Rightarrow> True | Some b \<Rightarrow> length b \<le> n)"

definition sys_write :: "nat \<Rightarrow> nat option sm" where
  "sys_write n = syscall os_write (\<lambda>xs os. os\<lparr>os_write := xs\<rparr>)
     (\<lambda>s r. case r of None \<Rightarrow> True | Some k \<Rightarrow> k \<le> n)"

definition sys_fork :: "int sm" where
  "sys_fork = syscall os_fork (\<lambda>xs os. os\<lparr>os_fork := xs\<rparr>) (\<lambda>s pid. pid \<ge> -1)"

definition sys_mkstemp :: "(int \<times> string) sm" where
  "sys_mkstemp = syscall os_mkstemp (\<lambda>xs os. os\<lparr>os_mkstemp := xs\<rparr>) (\<lambda>s (fd, six). length six = 6)"

text \<open>Access to a client through its address.\<close>

definition get_client :: "nat \<Rightarrow> t_client sm" where
  "get_client p = (\<lambda>s. case s_heap s p of None \<Rightarrow> Failed Use_after_free | Some c \<Rightarrow> Done c s)"

definition put_client :: "nat \<Rightarrow> t_client \<Rightarrow> unit sm" where
  "put_client p c = smod (\<lambda>s. s\<lparr>s_heap := (s_heap s)(p \<mapsto> c)\<rparr>)"

section \<open>Lemmas\<close>

named_theorems run_simps "execution of the sequencing operators"

lemma sret_run [run_simps]: "sret x s = Done x s"
  by (simp add: sret_def)

lemma sbind_run [run_simps]:
  "sbind m f s = (case m s of Done x s' \<Rightarrow> f x s' | Exited c s' \<Rightarrow> Exited c s' | Failed e \<Rightarrow> Failed e)"
  by (simp add: sbind_def)

lemma slift_run [run_simps]: "slift (Inr x) s = Done x s" "slift (Inl e) s = Failed e"
  by (simp_all add: slift_def)

lemma sget_run [run_simps]: "sget f s = Done (f s) s"
  by (simp add: sget_def)

lemma smod_run [run_simps]: "smod f s = Done () (f s)"
  by (simp add: smod_def)

lemma sexit_run [run_simps]: "sexit c s = Exited c s"
  by (simp add: sexit_def)

lemma swhen_run [run_simps]: "swhen b m s = (if b then m s else Done () s)"
  by (simp add: swhen_def sret_def)

lemma emit_run [run_simps]: "emit e s = Done () (s\<lparr>s_out := s_out s @ [e]\<rparr>)"
  by (simp add: emit_def smod_def)

lemma sbind_eq_Done:
  "sbind m f s = Done y s'' \<longleftrightarrow> (\<exists>x s'. m s = Done x s' \<and> f x s' = Done y s'')"
  by (auto simp: sbind_def split: run.splits)

named_theorems done_simps "when a computation ends normally"

lemma basic_eq_Done [done_simps]:
  "sret x s = Done y s' \<longleftrightarrow> y = x \<and> s' = s"
  "slift r s = Done y s' \<longleftrightarrow> r = Inr y \<and> s' = s"
  "sget f s = Done y s' \<longleftrightarrow> y = f s \<and> s' = s"
  "smod g s = Done u s' \<longleftrightarrow> s' = g s"
  "sexit n s = Done y s' \<longleftrightarrow> False"
  "swhen b m s = Done u s' \<longleftrightarrow> (if b then m s = Done u s' else s' = s)"
  "emit e s = Done u s' \<longleftrightarrow> s' = s\<lparr>s_out := s_out s @ [e]\<rparr>"
  "put_client p c s = Done u s' \<longleftrightarrow> s' = s\<lparr>s_heap := (s_heap s)(p \<mapsto> c)\<rparr>"
  "get_client p s = Done c s' \<longleftrightarrow> s_heap s p = Some c \<and> s' = s"
  by (auto simp: sret_def slift_def sget_def smod_def sexit_def swhen_def emit_def put_client_def get_client_def
      split: sum.splits option.splits)

declare sbind_eq_Done [done_simps]

lemma sbind_cong [fundef_cong]:
  "m s = m' s' \<Longrightarrow> (\<And>x t. m' s' = Done x t \<Longrightarrow> f x t = f' x t) \<Longrightarrow> s = s' \<Longrightarrow>
   sbind m f s = sbind m' f' s'"
  by (simp add: sbind_def split: run.splits)

text \<open>A part of the state that a computation leaves as it is when it ends normally.\<close>

definition keeps :: "(server \<Rightarrow> 'b) \<Rightarrow> 'a sm \<Rightarrow> bool" where
  "keeps f m \<longleftrightarrow> (\<forall>s x s'. m s = Done x s' \<longrightarrow> f s' = f s)"

named_theorems keeps_intros "computations that leave a part of the state as it is"

lemma keepsD: "keeps f m \<Longrightarrow> m s = Done x s' \<Longrightarrow> f s' = f s"
  by (simp add: keeps_def)

lemma keeps_bind [keeps_intros]: "keeps f m \<Longrightarrow> (\<And>x. keeps f (g x)) \<Longrightarrow> keeps f (sbind m g)"
  by (auto simp: keeps_def sbind_def split: run.splits)

lemma keeps_basic [keeps_intros]:
  "keeps f (sret x)" "keeps f (slift r)" "keeps f (sget g)" "keeps f (sexit c)" "keeps f (get_client p)"
  by (auto simp: keeps_def sret_def slift_def sget_def sexit_def get_client_def
      split: sum.splits option.splits)

lemma keeps_smod [keeps_intros]: "(\<And>s. f (g s) = f s) \<Longrightarrow> keeps f (smod g)"
  by (simp add: keeps_def smod_def)

lemma keeps_swhen [keeps_intros]: "keeps f m \<Longrightarrow> keeps f (swhen b m)"
  by (auto simp: keeps_def swhen_def sret_def)

lemma keeps_sfor [keeps_intros]: "(\<And>i. keeps f (g i)) \<Longrightarrow> keeps f (sfor is g)"
  by (induction "is") (auto intro: keeps_intros)

lemma keeps_emit [keeps_intros]: "(\<And>s e. f (s\<lparr>s_out := e\<rparr>) = f s) \<Longrightarrow> keeps f (emit e)"
  by (simp add: emit_def keeps_smod)

lemma keeps_put_client [keeps_intros]: "(\<And>s h. f (s\<lparr>s_heap := h\<rparr>) = f s) \<Longrightarrow> keeps f (put_client p c)"
  by (simp add: put_client_def keeps_smod)

lemma keeps_syscall:
  "(\<And>s x xs. rd (s_os s) = x # xs \<Longrightarrow> f (s\<lparr>s_os := wr xs (s_os s)\<rparr>) = f s) \<Longrightarrow> keeps f (syscall rd wr promised)"
  by (auto simp: keeps_def syscall_def split: list.splits if_splits)

end
