(* ===== verification/Server_unix.thy ===== *)
theory Server_unix
  imports Server_state
begin

text \<open>
  The operations of the Unix server, \<open>src/src/server/server-unix.c\<close>, on the state of
  \<open>Server_state\<close>: the poll list, the clients, the creation of processes, the
  messages to clients, the handlers of the three kinds of events and one iteration of the
  main loop. The conversion \<open>%.2f\<close> of the user time of a process is the argument
  \<open>fmt_time\<close> of the functions that use it, on the seconds and microseconds.
\<close>

section \<open>Shutdown\<close>

definition server_log :: "string \<Rightarrow> unit sm" where
  "server_log msg =
     sbind (sget (\<lambda>s. log_msg (logging (s_opts s)) (logfile s) msg)) (\<lambda>r.
     sbind (slift r) (\<lambda>f. smod (\<lambda>s. s\<lparr>logfile := f\<rparr>)))"

definition logging_shutdown :: "string \<Rightarrow> 'a sm" where
  "logging_shutdown msg = sbind (server_log msg) (\<lambda>_. sexit 1)"

definition close_client_at :: "nat \<Rightarrow> unit sm" where
  "close_client_at i =
     sbind (sget (\<lambda>s. arr_read (l_data (clients s)) i)) (\<lambda>r.
     sbind (slift r) (\<lambda>p.
     sbind (get_client p) (\<lambda>c. emit (E_close (c_fd c)))))"

definition shutdown_with_msg :: "string \<Rightarrow> 'a sm" where
  "shutdown_with_msg msg =
     sbind (sget server_sock) (\<lambda>fd.
     sbind (swhen (fd \<noteq> -1) (emit (E_close fd))) (\<lambda>_.
     sbind (sget (\<lambda>s. list_length (clients s))) (\<lambda>n.
     sbind (sfor [0..<nat n] close_client_at) (\<lambda>_.
     logging_shutdown msg))))"

section \<open>The poll list\<close>

definition add_to_poll_list :: "int \<Rightarrow> 16 word \<Rightarrow> unit sm" where
  "add_to_poll_list sock events = (\<lambda>s.
     let full = (poll_num s = poll_len s);
         len = (if full then 2 * poll_len s else poll_len s);
         l = (if full then arr_realloc (poll_list s) len else poll_list s)
     in if int len > INT_MAX then Failed Int_overflow
        else (case arr_write l (poll_num s) \<lparr>pf_fd = sock, pf_events = events, pf_revents = 0\<rparr> of
                Inl e \<Rightarrow> Failed e
              | Inr l \<Rightarrow> Done () (s\<lparr>poll_list := l, poll_len := len, poll_num := Suc (poll_num s)\<rparr>)))"

function poll_lookup_from :: "pollfd arr \<Rightarrow> nat \<Rightarrow> int \<Rightarrow> nat \<Rightarrow> nat option result" where
  "poll_lookup_from l num fd i =
     (if i < num
      then rbind (arr_read l i) (\<lambda>e. if pf_fd e = fd then Inr (Some i) else poll_lookup_from l num fd (Suc i))
      else Inr None)"
  by pat_completeness auto
termination
  by (relation "measure (\<lambda>(l, num, fd, i). num - i)") auto

text \<open>The pointer returned is the index of the entry.\<close>

definition poll_list_lookup :: "int \<Rightarrow> nat option sm" where
  "poll_list_lookup fd = (\<lambda>s. slift (poll_lookup_from (poll_list s) (poll_num s) fd 0) s)"

function poll_clean_from :: "pollfd arr \<Rightarrow> nat \<Rightarrow> nat \<Rightarrow> (pollfd arr \<times> nat) result" where
  "poll_clean_from l num i =
     (if i < num
      then rbind (arr_read l i) (\<lambda>e.
             if pf_fd e = -1
             then rbind (arr_read l (num - 1)) (\<lambda>e'.
                  rbind (arr_write l i e') (\<lambda>l. poll_clean_from l (num - 1) i))
             else poll_clean_from l num (Suc i))
      else Inr (l, num))"
  by pat_completeness auto
termination
  by (relation "measure (\<lambda>(l, num, i). num - i)") auto

definition poll_list_clean :: "unit sm" where
  "poll_list_clean = (\<lambda>s.
     sbind (slift (poll_clean_from (poll_list s) (poll_num s) 0))
       (\<lambda>(l, num). smod (\<lambda>s. s\<lparr>poll_list := l, poll_num := num\<rparr>)) s)"

definition poll_list_remove :: "int \<Rightarrow> unit sm" where
  "poll_list_remove fd =
     sbind (poll_list_lookup fd) (\<lambda>i. case i of
       None \<Rightarrow> sret ()
     | Some i \<Rightarrow> (\<lambda>s.
         sbind (slift (rbind (arr_read (poll_list s) i) (\<lambda>e.
                         arr_write (poll_list s) i (e\<lparr>pf_fd := -1, pf_revents := 0\<rparr>))))
           (\<lambda>l. smod (\<lambda>s. s\<lparr>poll_list := l\<rparr>)) s))"

text \<open>An update of the events of one entry.\<close>

definition poll_update :: "nat \<Rightarrow> (16 word \<Rightarrow> 16 word) \<Rightarrow> unit sm" where
  "poll_update i f = (\<lambda>s.
     sbind (slift (rbind (arr_read (poll_list s) i) (\<lambda>e.
                     arr_write (poll_list s) i (e\<lparr>pf_events := f (pf_events e)\<rparr>))))
       (\<lambda>l. smod (\<lambda>s. s\<lparr>poll_list := l\<rparr>)) s)"

section \<open>Clients and processes\<close>

definition READ_ONCE :: nat where
  "READ_ONCE = 1024"

definition open_temp_file :: "string \<Rightarrow> (int \<times> string) sm" where
  "open_temp_file dir =
     sbind sys_mkstemp (\<lambda>(fd, six). sret (fd, dir @ ''/why3'' @ six))"

definition server_accept_client :: "unit sm" where
  "server_accept_client =
     sbind sys_accept (\<lambda>fd.
     sbind (swhen (fd = -1) (shutdown_with_msg ''error accepting a client'')) (\<lambda>_.
     sbind (sget (\<lambda>s. parallel (s_opts s))) (\<lambda>par.
     sbind (slift (init_readbuf (of_nat READ_ONCE))) (\<lambda>rb.
     sbind (slift (init_writebuf par)) (\<lambda>wb.
     sbind (sget s_next) (\<lambda>p.
     sbind (smod (\<lambda>s. s\<lparr>s_next := Suc p\<rparr>)) (\<lambda>_.
     sbind (put_client p \<lparr>c_fd = fd, c_readbuf = rb, c_writebuf = wb\<rparr>) (\<lambda>_.
     sbind (sget (\<lambda>s. list_append (clients s) fd p)) (\<lambda>r.
     sbind (slift r) (\<lambda>l.
     sbind (smod (\<lambda>s. s\<lparr>clients := l\<rparr>)) (\<lambda>_.
     add_to_poll_list fd POLLIN)))))))))))"

definition queue_write :: "nat \<Rightarrow> string \<Rightarrow> unit sm" where
  "queue_write p msgbuf =
     sbind (get_client p) (\<lambda>c.
     sbind (slift (push_write_data (c_writebuf c) msgbuf)) (\<lambda>wb.
     sbind (put_client p (c\<lparr>c_writebuf := wb\<rparr>)) (\<lambda>_.
     sbind (poll_list_lookup (c_fd c)) (\<lambda>i. case i of
       None \<Rightarrow> sret ()
     | Some i \<Rightarrow> poll_update i (\<lambda>e. e OR POLLOUT)))))"

text \<open>
  The argument vector of the new process: \<open>cmd\<close>, the first \<open>count\<close>
  arguments, and a null pointer.
\<close>

fun fill_argv :: "string option arr \<Rightarrow> string list \<Rightarrow> nat list \<Rightarrow> string option arr result" where
  "fill_argv a argv [] = Inr a"
| "fill_argv a argv (i # is) =
     rbind (if i < length argv then Inr (argv ! i) else Inl Out_of_bounds) (\<lambda>x.
     rbind (arr_write a (Suc i) (Some x)) (\<lambda>a. fill_argv a argv is))"

definition child_of :: "string \<Rightarrow> int \<Rightarrow> string list \<Rightarrow> bool \<Rightarrow> int \<Rightarrow> int \<Rightarrow> 32 word \<Rightarrow> child_image result" where
  "child_of command argc argv use_stdin out_fd timelimit mem_limit =
     (let count = (if use_stdin then argc - 1 else argc) in
      rbind (arr_write (arr_malloc (nat (count + 2))) 0 (Some command)) (\<lambda>a.
      rbind (arr_write a (nat (count + 1)) None) (\<lambda>a.
      rbind (fill_argv a argv [0..<nat count]) (\<lambda>a.
        Inr \<lparr>ch_cmd = command, ch_unix_argv = a, ch_argv = argv, ch_count = count, ch_usestdin = use_stdin,
             ch_outfile = out_fd, ch_timelimit = timelimit, ch_memlimit = mem_limit\<rparr>))))"

text \<open>The pointers of the vector before the null pointer.\<close>

fun argv_strings :: "string option arr \<Rightarrow> string list result" where
  "argv_strings [] = Inl Out_of_bounds"
| "argv_strings (None # a) = Inl Uninit_read"
| "argv_strings (Some None # a) = Inr []"
| "argv_strings (Some (Some x) # a) = rbind (argv_strings a) (\<lambda>xs. Inr (x # xs))"

definition child_limits :: "child_image \<Rightarrow> child_action list" where
  "child_limits c =
     (if ch_timelimit c > 0
      then [A_setrlimit RLIMIT_CPU (word_of_int (ch_timelimit c)) (word_of_int (ch_timelimit c))] else []) @
     (if ch_memlimit c > 0
      then [A_setrlimit RLIMIT_AS (ucast (ch_memlimit c) * 1024 * 1024) (ucast (ch_memlimit c) * 1024 * 1024)]
      else []) @
     (if ch_timelimit c > 0 \<or> ch_memlimit c > 0 then [A_setrlimit RLIMIT_CORE 0 0] else [])"

text \<open>
  The child's branch of \<open>create_process\<close>; \<open>open_file\<close> gives the
  descriptor of the input file, \<open>-1\<close> on error. The last action is reached only when
  \<open>execvp\<close> fails.
\<close>

definition child_process :: "(string \<Rightarrow> int) \<Rightarrow> child_image \<Rightarrow> child_action list result" where
  "child_process open_file c =
     rbind (if ch_usestdin c
            then (if 0 \<le> ch_count c \<and> ch_count c < int (length (ch_argv c))
                  then (let infile = open_file (ch_argv c ! nat (ch_count c)) in
                        Inr (if infile = -1 then Inl [A_exit 1] else Inr [A_dup2 infile 0]))
                  else Inl Out_of_bounds)
            else Inr (Inr [])) (\<lambda>stdin_acts.
       case stdin_acts of
         Inl acts \<Rightarrow> Inr (child_limits c @ acts)
       | Inr acts \<Rightarrow>
           rbind (argv_strings (ch_unix_argv c)) (\<lambda>argl.
             Inr (child_limits c @ acts @ [A_dup2 (ch_outfile c) 1, A_dup2 (ch_outfile c) 2,
                                           A_execvp (ch_cmd c) argl, A_exit 1])))"

text \<open>
  \<open>fork\<close> returns in both processes: a positive value in the server, zero in the
  child, whose run ends here.
\<close>

definition create_process :: "string \<Rightarrow> int \<Rightarrow> string list \<Rightarrow> bool \<Rightarrow> int \<Rightarrow> int \<Rightarrow> 32 word \<Rightarrow> int sm" where
  "create_process command argc argv use_stdin out_fd timelimit mem_limit =
     sbind (slift (child_of command argc argv use_stdin out_fd timelimit mem_limit)) (\<lambda>img.
     sbind sys_fork (\<lambda>pid.
     sbind (swhen (pid = -1) (shutdown_with_msg ''failed to fork'')) (\<lambda>_.
       if pid > 0 then sbind (emit (E_fork pid img)) (\<lambda>_. sret pid)
       else sbind (sget (\<lambda>s. child_process (os_open (s_os s)) img)) (\<lambda>r.
            sbind (slift r) (\<lambda>acts. sbind (emit (E_child acts)) (\<lambda>_. sexit 1))))))"

section \<open>Messages to clients\<close>

text \<open>
  \<open>snprintf (buf, len, \<dots>)\<close>: the number of characters of the full text, and the C
  string left in the buffer.
\<close>

definition snprintf :: "nat \<Rightarrow> string \<Rightarrow> nat \<times> string" where
  "snprintf len text = (length text, take (len - 1) text)"

definition send_started_msg_to_client :: "nat \<Rightarrow> string \<Rightarrow> unit sm" where
  "send_started_msg_to_client p i =
     (let len = length i + 4;
          (used, msgbuf) = snprintf len (''S;'' @ i @ [CHR 0x0A])
      in sbind (swhen (used \<noteq> len - 1) (shutdown_with_msg ''message for client too long'')) (\<lambda>_.
         queue_write p msgbuf))"

definition finished_msg :: "string \<Rightarrow> int \<Rightarrow> string \<Rightarrow> bool \<Rightarrow> string \<Rightarrow> string" where
  "finished_msg i exitcode cpu_time is_timeout out_file =
     ''F;'' @ i @ '';'' @ fmt_d exitcode @ '';'' @ cpu_time @ '';'' @
     (if is_timeout then ''1'' else ''0'') @ '';'' @ out_file @ [CHR 0x0A]"

definition send_msg_to_client :: "nat \<Rightarrow> string \<Rightarrow> int \<Rightarrow> string \<Rightarrow> bool \<Rightarrow> string \<Rightarrow> unit sm" where
  "send_msg_to_client p i exitcode cpu_time is_timeout out_file =
     (let len = length i + 3 + 23 + (length out_file + 1);
          (used, msgbuf) = snprintf len (finished_msg i exitcode cpu_time is_timeout out_file)
      in sbind (swhen (used \<ge> len) (shutdown_with_msg ''message for client too long'')) (\<lambda>_.
         queue_write p msgbuf))"

text \<open>The exit code and the timeout flag read from a status.\<close>

definition decode_status :: "wait_status \<Rightarrow> int \<times> bool" where
  "decode_status st =
     (case st of Signaled n \<Rightarrow> (n, True) | Exit_status n \<Rightarrow> (n, False) | Other_status \<Rightarrow> (1, False))"

section \<open>Event handlers\<close>

definition client_lookup :: "int \<Rightarrow> nat option sm" where
  "client_lookup key = (\<lambda>s. slift (list_lookup (clients s) key) s)"

text \<open>The body of the loop of \<open>handle_child_events\<close> for one terminated process.\<close>

definition handle_child :: "(int \<Rightarrow> int \<Rightarrow> string) \<Rightarrow> int \<Rightarrow> wait_status \<Rightarrow> int \<Rightarrow> int \<Rightarrow> unit sm" where
  "handle_child fmt_time pid status sec usec =
     (case decode_status status of (exit_code, is_timeout) \<Rightarrow>
        sbind (sget (\<lambda>s. list_lookup (processes s) pid)) (\<lambda>r.
        sbind (slift r) (\<lambda>child.
        sbind (sget (\<lambda>s. list_remove (processes s) pid)) (\<lambda>r.
        sbind (slift r) (\<lambda>l.
        sbind (smod (\<lambda>s. s\<lparr>processes := l\<rparr>)) (\<lambda>_.
        case child of
          None \<Rightarrow> slift (Inl Null_deref)
        | Some child \<Rightarrow>
            sbind (client_lookup (client_key child)) (\<lambda>client.
              case client of
                None \<Rightarrow> sret ()
              | Some p \<Rightarrow> send_msg_to_client p (task_id child) exit_code (fmt_time sec usec)
                            is_timeout (outfile child))))))))"

text \<open>\<open>wait3\<close> reports a child that has not been waited for.\<close>

definition running_child :: "server \<Rightarrow> int \<Rightarrow> bool" where
  "running_child s pid \<longleftrightarrow> pid \<in> set (map fst (list_pairs (processes s)))"

fun handle_child_loop :: "(int \<Rightarrow> int \<Rightarrow> string) \<Rightarrow> (int \<times> wait_status \<times> int \<times> int) list \<Rightarrow> unit sm" where
  "handle_child_loop fmt_time [] = slift (Inl Blocked)"
| "handle_child_loop fmt_time ((pid, status, sec, usec) # ws) =
     sbind (smod (\<lambda>s. s\<lparr>s_os := (s_os s)\<lparr>os_wait3 := ws\<rparr>\<rparr>)) (\<lambda>_.
       if pid \<le> 0 then sret ()
       else
     sbind (sget (\<lambda>s. running_child s pid)) (\<lambda>promised.
       if \<not> promised then slift (Inl Blocked)
       else sbind (handle_child fmt_time pid status sec usec) (\<lambda>_. handle_child_loop fmt_time ws)))"

definition handle_child_events :: "(int \<Rightarrow> int \<Rightarrow> string) \<Rightarrow> unit sm" where
  "handle_child_events fmt_time = sbind (sget (\<lambda>s. os_wait3 (s_os s))) (handle_child_loop fmt_time)"

definition run_request :: "request \<Rightarrow> unit sm" where
  "run_request r =
     sbind (client_lookup (req_key r)) (\<lambda>client.
       case client of
         None \<Rightarrow> sret ()
       | Some p \<Rightarrow>
           sbind (sget current_dir) (\<lambda>dir.
           sbind (open_temp_file dir) (\<lambda>(out_descr, out_file).
           sbind (slift (case req_run r of None \<Rightarrow> Inl Uninit_read | Some f \<Rightarrow> Inr f)) (\<lambda>f.
           sbind (create_process (cmd f) (numargs f) (args f) (usestdin f) out_descr (timeout f) (memlimit f)) (\<lambda>pid.
           sbind (emit (E_close out_descr)) (\<lambda>_.
           sbind (sget (\<lambda>s. list_append (processes s) pid
                     \<lparr>proc_id = pid, client_key = req_key r, task_id = req_id r, outfile = out_file\<rparr>)) (\<lambda>a.
           sbind (slift a) (\<lambda>l.
           sbind (smod (\<lambda>s. s\<lparr>processes := l\<rparr>)) (\<lambda>_.
           send_started_msg_to_client p (req_id r))))))))))"

text \<open>The dispatch of one request: a run request waits in the queue when all slots are taken.\<close>

definition handle_request :: "request \<Rightarrow> unit sm" where
  "handle_request r =
     (case req_type r of
        REQ_RUN \<Rightarrow>
          sbind (sget (\<lambda>s. list_length (processes s) < parallel (s_opts s))) (\<lambda>free.
            if free then run_request r
            else sbind (sget (\<lambda>s. queue_push (queue s) r)) (\<lambda>q.
                 sbind (slift q) (\<lambda>q. smod (\<lambda>s. s\<lparr>queue := q\<rparr>))))
      | REQ_INTERRUPT \<Rightarrow>
          sbind (server_log (''Why3 server: removing id '' @ [CHR 39] @ req_id r @ [CHR 39] @ '' from queue'')) (\<lambda>_.
          sbind (sget (\<lambda>s. remove_from_queue (queue s) (req_id r))) (\<lambda>q.
          sbind (slift q) (\<lambda>q.
          sbind (smod (\<lambda>s. s\<lparr>queue := q\<rparr>)) (\<lambda>_.
          sbind (sget (\<lambda>s. kill_processes (processes s) (req_id r))) (\<lambda>k.
          sbind (slift k) (\<lambda>pids.
          smod (\<lambda>s. s\<lparr>s_out := s_out s @ map E_kill pids\<rparr>))))))))"

text \<open>One line, with the log entry of the parser and its assignment of \<open>parallel\<close>.\<close>

definition handle_line :: "string \<Rightarrow> int \<Rightarrow> unit sm" where
  "handle_line line key =
     sbind (server_log (''received query '' @ cstr line)) (\<lambda>_.
     sbind (sget (\<lambda>s. parse_request line key (parallel (s_opts s)))) (\<lambda>r.
     sbind (slift r) (\<lambda>(par, req).
     sbind (smod (\<lambda>s. s\<lparr>s_opts := (s_opts s)\<lparr>parallel := par\<rparr>\<rparr>)) (\<lambda>_.
       case req of None \<Rightarrow> sret () | Some r \<Rightarrow> handle_request r))))"

function find_newline :: "char arr \<Rightarrow> nat \<Rightarrow> int \<Rightarrow> nat result" where
  "find_newline buf cur mx =
     (if int cur < mx
      then rbind (arr_read buf cur) (\<lambda>c. if c = CHR 0x0A then Inr cur else find_newline buf (Suc cur) mx)
      else Inr cur)"
  by pat_completeness auto
termination
  by (relation "measure (\<lambda>(buf, cur, mx). nat (mx - int cur))") auto

text \<open>The bytes of a line, as \<open>parse_request\<close> reads them.\<close>

fun arr_slice :: "'a arr \<Rightarrow> nat list \<Rightarrow> 'a list result" where
  "arr_slice a [] = Inr []"
| "arr_slice a (i # is) = rbind (arr_read a i) (\<lambda>x. rbind (arr_slice a is) (\<lambda>xs. Inr (x # xs)))"

declare find_newline.simps [simp del]

lemma find_newline_ge: "find_newline buf cur mx = Inr n \<Longrightarrow> cur \<le> n"
proof (induction buf cur mx rule: find_newline.induct)
  case (1 buf cur mx)
  from 1(2) show ?case
    by (auto simp: find_newline.simps [of buf cur mx] rbind_eq_Inr split: if_splits dest!: 1(1))
qed

function handle_lines :: "char arr \<Rightarrow> int \<Rightarrow> int \<Rightarrow> nat \<Rightarrow> nat \<Rightarrow> nat sm" where
  "handle_lines buf mx key cur old s =
     (if int cur < mx
      then (case find_newline buf cur mx of
              Inl e \<Rightarrow> Failed e
            | Inr cur' \<Rightarrow>
                if int cur' = mx then Done old s
                else (case arr_slice buf [old..<cur'] of
                        Inl e \<Rightarrow> Failed e
                      | Inr line \<Rightarrow>
                          sbind (handle_line line key)
                            (\<lambda>_. handle_lines buf mx key (Suc cur') (Suc cur')) s))
      else Done old s)"
  by pat_completeness auto
termination
proof (relation "measure (\<lambda>(buf, mx, key, cur, old, s). nat (mx - int cur))")
  fix buf mx key cur old s cur' line x t
  assume "int cur < mx" "find_newline buf cur mx = Inr cur'"
  with find_newline_ge [of buf cur mx cur']
  show "((buf, mx, key, Suc cur', Suc cur', t), buf, mx, key, cur, old, s)
    \<in> measure (\<lambda>(buf, mx, key, cur, old, s). nat (mx - int cur))" by auto
qed simp

definition handle_msg :: "nat \<Rightarrow> int \<Rightarrow> unit sm" where
  "handle_msg p key =
     sbind (get_client p) (\<lambda>c.
     sbind (handle_lines (r_data (c_readbuf c)) (c_int (uint (r_len (c_readbuf c)))) key 0 0) (\<lambda>old.
       swhen (old > 0)
         (sbind (get_client p) (\<lambda>c.
          sbind (slift (have_taken (c_readbuf c) (of_nat old))) (\<lambda>rb.
          put_client p (c\<lparr>c_readbuf := rb\<rparr>))))))"

definition shutdown_server :: "'a sm" where
  "shutdown_server =
     sbind (sget (\<lambda>s. socketname (s_opts s))) (\<lambda>name.
     sbind (case name of None \<Rightarrow> slift (Inl Null_deref) | Some n \<Rightarrow> emit (E_unlink n)) (\<lambda>_.
     shutdown_with_msg ''last client disconnected''))"

definition close_client :: "nat \<Rightarrow> unit sm" where
  "close_client p =
     sbind (get_client p) (\<lambda>c.
     sbind (sget (\<lambda>s. list_remove (clients s) (c_fd c))) (\<lambda>r.
     sbind (slift r) (\<lambda>l.
     sbind (smod (\<lambda>s. s\<lparr>clients := l\<rparr>)) (\<lambda>_.
     sbind (poll_list_remove (c_fd c)) (\<lambda>_.
     sbind (slift (free_writebuf (c_writebuf c))) (\<lambda>_.
     sbind (emit (E_close (c_fd c))) (\<lambda>_.
     sbind (smod (\<lambda>s. s\<lparr>s_heap := (s_heap s)(p := None)\<rparr>)) (\<lambda>_.
     sbind (sget (\<lambda>s. single_client (s_opts s) \<and> list_is_empty (clients s))) (\<lambda>b.
     swhen b shutdown_server)))))))))"

definition read_on_client :: "nat \<Rightarrow> unit sm" where
  "read_on_client p =
     sbind (get_client p) (\<lambda>c.
     (case prepare_read (c_readbuf c) (of_nat READ_ONCE) of (rb, off) \<Rightarrow>
     sbind (put_client p (c\<lparr>c_readbuf := rb\<rparr>)) (\<lambda>_.
     sbind (sys_read READ_ONCE) (\<lambda>res.
       case res of
         None \<Rightarrow> sret ()
       | Some bytes \<Rightarrow>
           (if bytes = [] then close_client p
            else sbind (slift (arr_store (r_data rb) off bytes)) (\<lambda>d.
                 sbind (slift (have_read (rb\<lparr>r_data := d\<rparr>) (of_nat (length bytes)))) (\<lambda>rb.
                 sbind (put_client p (c\<lparr>c_readbuf := rb\<rparr>)) (\<lambda>_.
                 handle_msg p (c_fd c)))))))))"

definition write_to_client :: "nat \<Rightarrow> nat \<Rightarrow> unit sm" where
  "write_to_client p entry =
     sbind (get_client p) (\<lambda>c.
     sbind (slift (prepare_write (c_writebuf c))) (\<lambda>(wb, buf, need_write).
     sbind (put_client p (c\<lparr>c_writebuf := wb\<rparr>)) (\<lambda>_.
     sbind (sys_write (nat need_write)) (\<lambda>res.
     sbind (case res of
              None \<Rightarrow> sret wb
            | Some n \<Rightarrow>
                sbind (emit (E_write (c_fd c) (take n buf))) (\<lambda>_.
                sbind (slift (have_written wb (int n))) (\<lambda>wb.
                sbind (put_client p (c\<lparr>c_writebuf := wb\<rparr>)) (\<lambda>_. sret wb)))) (\<lambda>wb.
     swhen (\<not> has_write_data wb) (poll_update entry (\<lambda>e. e AND NOT POLLOUT)))))))"

end
