(* ===== verification/Server_main.thy ===== *)
theory Server_main
  imports Server_unix
begin

text \<open>
  The loops of \<open>main\<close> in \<open>src/src/server/server-unix.c\<close>: the scheduling of
  queued requests, the wait for events, their dispatch and the initialisation. The first
  part shows which components of the state the handlers leave alone, which is what the
  termination of the loops rests on: running a request does not touch the queue, and only
  \<open>accept\<close> makes the poll list longer.
\<close>

section \<open>What handlers leave alone\<close>

definition ctl :: "server \<Rightarrow> nat \<times> int list" where
  "ctl s = (poll_num s, os_accept (s_os s))"

definition ctlq :: "server \<Rightarrow> request t_queue \<times> nat \<times> int list" where
  "ctlq s = (queue s, ctl s)"

lemma ctl_updates [simp]:
  "ctl (s\<lparr>s_heap := h\<rparr>) = ctl s" "ctl (s\<lparr>s_out := o'\<rparr>) = ctl s" "ctl (s\<lparr>logfile := f\<rparr>) = ctl s"
  "ctl (s\<lparr>poll_list := l\<rparr>) = ctl s" "ctl (s\<lparr>processes := ps\<rparr>) = ctl s" "ctl (s\<lparr>clients := cs\<rparr>) = ctl s"
  "ctl (s\<lparr>queue := q\<rparr>) = ctl s" "ctl (s\<lparr>s_opts := os'\<rparr>) = ctl s"
  "ctl (s\<lparr>s_os := (s_os s)\<lparr>os_read := r\<rparr>\<rparr>) = ctl s" "ctl (s\<lparr>s_os := (s_os s)\<lparr>os_write := w\<rparr>\<rparr>) = ctl s"
  "ctl (s\<lparr>s_os := (s_os s)\<lparr>os_fork := k\<rparr>\<rparr>) = ctl s" "ctl (s\<lparr>s_os := (s_os s)\<lparr>os_mkstemp := m\<rparr>\<rparr>) = ctl s"
  "ctl (s\<lparr>s_os := (s_os s)\<lparr>os_wait3 := w3\<rparr>\<rparr>) = ctl s"
  by (simp_all add: ctl_def)

lemma ctlq_updates [simp]:
  "ctlq (s\<lparr>s_heap := h\<rparr>) = ctlq s" "ctlq (s\<lparr>s_out := o'\<rparr>) = ctlq s" "ctlq (s\<lparr>logfile := f\<rparr>) = ctlq s"
  "ctlq (s\<lparr>poll_list := l\<rparr>) = ctlq s" "ctlq (s\<lparr>processes := ps\<rparr>) = ctlq s"
  "ctlq (s\<lparr>s_os := (s_os s)\<lparr>os_fork := k\<rparr>\<rparr>) = ctlq s" "ctlq (s\<lparr>s_os := (s_os s)\<lparr>os_mkstemp := m\<rparr>\<rparr>) = ctlq s"
  by (simp_all add: ctlq_def)

lemma keeps_ctl: "keeps ctlq m \<Longrightarrow> keeps ctl m"
  by (auto simp: keeps_def ctlq_def)

lemma keeps_case_option [keeps_intros]:
  "keeps f a \<Longrightarrow> (\<And>x. keeps f (b x)) \<Longrightarrow> keeps f (case x of None \<Rightarrow> a | Some x \<Rightarrow> b x)"
  by (cases x) auto

lemma keeps_case_prod [keeps_intros]: "(\<And>x y. keeps f (b x y)) \<Longrightarrow> keeps f (case z of (x, y) \<Rightarrow> b x y)"
  by (cases z) auto

lemma keeps_if [keeps_intros]: "keeps f a \<Longrightarrow> keeps f b \<Longrightarrow> keeps f (if c then a else b)"
  by auto

lemma keeps_case_request_type [keeps_intros]:
  "keeps f a \<Longrightarrow> keeps f b \<Longrightarrow> keeps f (case t of REQ_RUN \<Rightarrow> a | REQ_INTERRUPT \<Rightarrow> b)"
  by (cases t) auto

lemma keeps_of_state: "(\<And>s. keeps f (g s)) \<Longrightarrow> keeps f (\<lambda>s. g s s)"
  by (simp add: keeps_def)

lemma shutdown_not_Done [simp]: "shutdown_with_msg msg s \<noteq> Done x s'"
  by (auto simp: shutdown_with_msg_def logging_shutdown_def sexit_def sbind_eq_Done)

lemma keeps_shutdown_with_msg [keeps_intros]: "keeps f (shutdown_with_msg msg)"
  by (simp add: keeps_def)

lemma keeps_server_log [keeps_intros]:
  "(\<And>s l. f (s\<lparr>logfile := l\<rparr>) = f s) \<Longrightarrow> keeps f (server_log msg)"
  unfolding server_log_def by (intro keeps_intros)

lemma keeps_poll_lookup [keeps_intros]: "keeps f (poll_list_lookup fd)"
  unfolding poll_list_lookup_def by (rule keeps_of_state, intro keeps_intros)

lemma keeps_client_lookup [keeps_intros]: "keeps f (client_lookup key)"
  unfolding client_lookup_def by (rule keeps_of_state, intro keeps_intros)

lemma keeps_poll_update [keeps_intros]:
  "(\<And>s l. f (s\<lparr>poll_list := l\<rparr>) = f s) \<Longrightarrow> keeps f (poll_update i g)"
  unfolding poll_update_def by (rule keeps_of_state, intro keeps_intros)

lemma keeps_poll_list_remove [keeps_intros]:
  "(\<And>s l. f (s\<lparr>poll_list := l\<rparr>) = f s) \<Longrightarrow> keeps f (poll_list_remove fd)"
  unfolding poll_list_remove_def by (intro keeps_intros, rule keeps_of_state, intro keeps_intros)

lemma keeps_queue_write [keeps_intros]: "keeps ctlq (queue_write p msg)"
  unfolding queue_write_def by (intro keeps_intros; simp)

lemma keeps_sys [keeps_intros]:
  "keeps ctlq sys_fork" "keeps ctlq sys_mkstemp" "keeps ctl (sys_read n)" "keeps ctl (sys_write n)"
  unfolding sys_fork_def sys_mkstemp_def sys_read_def sys_write_def
  by (rule keeps_syscall; simp)+

lemma keeps_create_process [keeps_intros]: "keeps ctlq (create_process c n a u out t m)"
  unfolding create_process_def by (intro keeps_intros; simp)

lemma keeps_send [keeps_intros]:
  "keeps ctlq (send_started_msg_to_client p i)" "keeps ctlq (send_msg_to_client p i e c t out)"
  unfolding send_started_msg_to_client_def send_msg_to_client_def Let_def by (intro keeps_intros)+

lemma keeps_run_request [keeps_intros]: "keeps ctlq (run_request r)"
  unfolding run_request_def open_temp_file_def by (intro keeps_intros; simp)

lemma keeps_handle_child [keeps_intros]: "keeps ctl (handle_child ft pid st sec usec)"
  unfolding handle_child_def by (intro keeps_intros keeps_send [THEN keeps_ctl]; simp)

lemma keeps_handle_child_loop: "keeps ctl (handle_child_loop ft ws)"
proof (induction ws)
  case (Cons w ws)
  obtain pid st sec usec where w: "w = (pid, st, sec, usec)" by (cases w) auto
  show ?case unfolding w handle_child_loop.simps by (intro keeps_intros Cons.IH) simp
qed (simp add: keeps_intros)

lemma keeps_handle_child_events [keeps_intros]: "keeps ctl (handle_child_events ft)"
  unfolding handle_child_events_def by (intro keeps_intros keeps_handle_child_loop)

lemma keeps_handle_request [keeps_intros]: "keeps ctl (handle_request r)"
  unfolding handle_request_def
  by (intro keeps_intros keeps_run_request [THEN keeps_ctl]; simp)

lemma keeps_handle_line [keeps_intros]: "keeps ctl (handle_line line key)"
  unfolding handle_line_def by (intro keeps_intros; simp)

declare handle_lines.simps [simp del]

lemma handle_lines_ctl: "handle_lines buf mx key cur old s = Done x s' \<Longrightarrow> ctl s' = ctl s"
proof (induction buf mx key cur old s arbitrary: x s' rule: handle_lines.induct)
  case (1 buf mx key cur old s)
  show ?case
  proof (cases "int cur < mx")
    case True
    with 1(2) consider "s' = s"
      | cur' line u s1 where "find_newline buf cur mx = Inr cur'" "int cur' \<noteq> mx"
          "arr_slice buf [old..<cur'] = Inr line" "handle_line line key s = Done u s1"
          "handle_lines buf mx key (Suc cur') (Suc cur') s1 = Done x s'"
      by (auto simp: handle_lines.simps [of buf mx key cur old s] sbind_eq_Done split: sum.splits if_splits)
    then show ?thesis
    proof cases
      case 2
      with 1(1) [OF True 2(1-4)] keepsD [OF keeps_handle_line 2(4)] show ?thesis by simp
    qed simp
  qed (use 1(2) in \<open>simp add: handle_lines.simps [of buf mx key cur old s]\<close>)
qed

lemma keeps_handle_lines [keeps_intros]: "keeps ctl (handle_lines buf mx key cur old)"
  using handle_lines_ctl by (auto simp: keeps_def)

lemma keeps_handle_msg [keeps_intros]: "keeps ctl (handle_msg p key)"
  unfolding handle_msg_def by (intro keeps_intros; simp)

lemma keeps_shutdown_server [keeps_intros]: "(\<And>s l. f (s\<lparr>s_out := l\<rparr>) = f s) \<Longrightarrow> keeps f shutdown_server"
  unfolding shutdown_server_def by (intro keeps_intros)

lemma keeps_close_client [keeps_intros]: "keeps ctl (close_client p)"
  unfolding close_client_def by (intro keeps_intros; simp)

lemma keeps_read_on_client [keeps_intros]: "keeps ctl (read_on_client p)"
  unfolding read_on_client_def Let_def by (intro keeps_intros; simp)

lemma keeps_write_to_client [keeps_intros]: "keeps ctl (write_to_client p i)"
  unfolding write_to_client_def Let_def by (intro keeps_intros; simp)

section \<open>Scheduling\<close>

function schedule_new_jobs :: "unit sm" where
  "schedule_new_jobs s =
     (if list_length (processes s) < parallel (s_opts s) \<and> \<not> queue_is_empty (queue s)
      then (case queue_pop (queue s) of
              Inl e \<Rightarrow> Failed e
            | Inr (r, q) \<Rightarrow>
                (case run_request r (s\<lparr>queue := q\<rparr>) of
                   Done _ s' \<Rightarrow> schedule_new_jobs s'
                 | Exited c s' \<Rightarrow> Exited c s'
                 | Failed e \<Rightarrow> Failed e))
      else Done () s)"
  by pat_completeness auto
termination
proof (relation "measure (\<lambda>s. unat (q_len (queue s)))")
  fix s x r q u s'
  assume a: "list_length (processes s) < parallel (s_opts s) \<and> \<not> queue_is_empty (queue s)"
    "queue_pop (queue s) = Inr x" "(r, q) = x" "run_request r (s\<lparr>queue := q\<rparr>) = Done u s'"
  from keepsD [OF keeps_run_request a(4)] have "queue s' = q" by (simp add: ctlq_def)
  with a show "(s', s) \<in> measure (\<lambda>s. unat (q_len (queue s)))"
    by (auto dest: queue_pop_shorter)
qed simp

declare schedule_new_jobs.simps [simp del]

section \<open>The event loop\<close>

text \<open>
  The kernel fills \<open>revents\<close> of the first \<open>poll_num\<close> entries. Besides the
  requested events it reports only \<open>POLLERR\<close>, \<open>POLLHUP\<close> and
  \<open>POLLNVAL\<close>, and on the listening socket only incoming connections.
\<close>

definition poll_promise :: "int \<Rightarrow> pollfd \<Rightarrow> 16 word \<Rightarrow> bool" where
  "poll_promise sock e ev \<longleftrightarrow>
     ev AND NOT (pf_events e OR POLLERR OR POLLHUP OR POLLNVAL) = 0 \<and> (pf_fd e = sock \<longrightarrow> ev = 0 \<or> ev = POLLIN)"

definition set_revents :: "pollfd arr \<Rightarrow> nat \<Rightarrow> 16 word list \<Rightarrow> pollfd arr" where
  "set_revents l num evs =
     map2 (\<lambda>e ev. map_option (\<lambda>e. e\<lparr>pf_revents := ev\<rparr>) e) (take num l) evs @ drop num l"

fun wait_poll :: "poll_result list \<Rightarrow> unit sm" where
  "wait_poll [] = slift (Inl Blocked)"
| "wait_poll (r # rs) =
     sbind (smod (\<lambda>s. s\<lparr>s_os := (s_os s)\<lparr>os_poll := rs\<rparr>\<rparr>)) (\<lambda>_.
       case r of
         Poll_eintr \<Rightarrow> wait_poll rs
       | Poll_error \<Rightarrow> shutdown_with_msg ''call to poll failed''
       | Poll_events evs \<Rightarrow>
           sbind (sget (\<lambda>s. list_all2 (poll_promise (server_sock s)) (poll_entries s) evs)) (\<lambda>promised.
             if \<not> promised then slift (Inl Blocked)
             else smod (\<lambda>s. s\<lparr>poll_list := set_revents (poll_list s) (poll_num s) evs\<rparr>)))"

fun read_child_pipe :: "pipe_result list \<Rightarrow> unit sm" where
  "read_child_pipe [] = slift (Inl Blocked)"
| "read_child_pipe (r # rs) =
     sbind (smod (\<lambda>s. s\<lparr>s_os := (s_os s)\<lparr>os_pipe := rs\<rparr>\<rparr>)) (\<lambda>_.
       case r of
         Pipe_eintr \<Rightarrow> read_child_pipe rs
       | Pipe_error \<Rightarrow> shutdown_with_msg ''call to read shouldn't fail''
       | Pipe_read \<Rightarrow> sret ())"

text \<open>The body of the loop over the poll list for the entry \<open>i\<close>.\<close>

definition handle_entry :: "(int \<Rightarrow> int \<Rightarrow> string) \<Rightarrow> nat \<Rightarrow> unit sm" where
  "handle_entry fmt_time i =
     sbind (sget (\<lambda>s. arr_read (poll_list s) i)) (\<lambda>r.
     sbind (slift r) (\<lambda>cur.
       if pf_revents cur = 0 then sret ()
       else
     sbind (sget (\<lambda>s. (fst (cpipe s), server_sock s))) (\<lambda>(pipe0, sock).
       if pf_fd cur = pipe0 then
         sbind (sget (\<lambda>s. os_pipe (s_os s))) (\<lambda>t.
         sbind (read_child_pipe t) (\<lambda>_. handle_child_events fmt_time))
       else if pf_fd cur = sock then
         sbind (slift (rassert (pf_revents cur = POLLIN))) (\<lambda>_. server_accept_client)
       else
     sbind (client_lookup (pf_fd cur)) (\<lambda>client.
       case client of
         None \<Rightarrow> sret ()
       | Some p \<Rightarrow>
           if pf_revents cur AND POLLERR \<noteq> 0 then close_client p
           else if pf_revents cur AND POLLOUT \<noteq> 0 then write_to_client p i
           else if pf_revents cur AND POLLIN \<noteq> 0 then read_on_client p
           else sret ()))))"

lemma keeps_read_child_pipe [keeps_intros]: "keeps ctl (read_child_pipe t)"
proof (induction t)
  case (Cons r rs)
  have "keeps ctl (smod (\<lambda>s. s\<lparr>s_os := (s_os s)\<lparr>os_pipe := rs\<rparr>\<rparr>))"
    by (intro keeps_intros) (simp add: ctl_def)
  with Cons.IH show ?case by (cases r) (auto intro!: keeps_intros simp: ctl_def)
qed (simp add: keeps_intros)

lemma add_to_poll_list_ctl:
  "add_to_poll_list fd ev s = Done u s' \<Longrightarrow> ctl s' = (Suc (poll_num s), os_accept (s_os s))"
  by (auto simp: add_to_poll_list_def ctl_def Let_def split: if_splits sum.splits)

lemma server_accept_client_ctl:
  assumes "server_accept_client s = Done u s'"
  shows "poll_num s' = Suc (poll_num s)" "length (os_accept (s_os s)) = Suc (length (os_accept (s_os s')))"
proof -
  from assms obtain fd s1 s2 where s1: "sys_accept s = Done fd s1" and s2:
    "add_to_poll_list fd POLLIN s2 = Done u s'" "ctl s2 = ctl s1"
    unfolding server_accept_client_def
    by (clarsimp simp: done_simps split: if_splits) (erule meta_allE, erule meta_allE, fastforce simp: ctl_def)
  from s1 have "poll_num s1 = poll_num s" "length (os_accept (s_os s)) = Suc (length (os_accept (s_os s1)))"
    by (auto simp: sys_accept_def syscall_def split: list.splits if_splits)
  with s2(2) add_to_poll_list_ctl [OF s2(1)]
  show "poll_num s' = Suc (poll_num s)" "length (os_accept (s_os s)) = Suc (length (os_accept (s_os s')))"
    by (auto simp: ctl_def)
qed

text \<open>An entry leaves the control part alone, or accepts one client.\<close>

lemma handle_entry_ctl:
  assumes "handle_entry ft i s = Done u s'"
  shows "ctl s' = ctl s \<or>
    (poll_num s' = Suc (poll_num s) \<and> length (os_accept (s_os s)) = Suc (length (os_accept (s_os s'))))"
proof -
  have k: "keeps ctl (sbind (read_child_pipe t) (\<lambda>_. handle_child_events ft))" for t
    by (intro keeps_intros)
  have c: "keeps ctl (sbind (client_lookup (pf_fd cur)) (\<lambda>client.
       case client of
         None \<Rightarrow> sret ()
       | Some p \<Rightarrow>
           if pf_revents cur AND POLLERR \<noteq> 0 then close_client p
           else if pf_revents cur AND POLLOUT \<noteq> 0 then write_to_client p i
           else if pf_revents cur AND POLLIN \<noteq> 0 then read_on_client p
           else sret ()))" for cur
    by (intro keeps_intros)
  from assms show ?thesis unfolding handle_entry_def
    by (auto simp: sbind_eq_Done [of "sget _"] sbind_eq_Done [of "slift _"] basic_eq_Done
        split: if_splits dest: keepsD [OF k] keepsD [OF c] server_accept_client_ctl)
qed

text \<open>
  The loop over the poll list. Its bound is read again on every turn; it grows only by an
  \<open>accept\<close>, so the loop ends.
\<close>

function handle_entries :: "(int \<Rightarrow> int \<Rightarrow> string) \<Rightarrow> nat \<Rightarrow> unit sm" where
  "handle_entries fmt_time i s =
     (if i < poll_num s
      then (case handle_entry fmt_time i s of
              Done _ s' \<Rightarrow> handle_entries fmt_time (Suc i) s'
            | Exited c s' \<Rightarrow> Exited c s'
            | Failed e \<Rightarrow> Failed e)
      else Done () s)"
  by pat_completeness auto
termination
proof (relation "measure (\<lambda>(ft, i, s). (poll_num s - i) + length (os_accept (s_os s)))")
  fix ft i s u s'
  assume "i < poll_num s" "handle_entry ft i s = Done u s'"
  with handle_entry_ctl [of ft i s u s']
  show "((ft, Suc i, s'), ft, i, s) \<in> measure (\<lambda>(ft, i, s). (poll_num s - i) + length (os_accept (s_os s)))"
    by (auto simp: ctl_def)
qed simp

declare handle_entries.simps [simp del]

text \<open>One turn of the loop of \<open>main\<close>.\<close>

definition main_iteration :: "(int \<Rightarrow> int \<Rightarrow> string) \<Rightarrow> unit sm" where
  "main_iteration fmt_time =
     sbind schedule_new_jobs (\<lambda>_.
     sbind poll_list_clean (\<lambda>_.
     sbind (sget (\<lambda>s. os_poll (s_os s))) (\<lambda>t.
     sbind (wait_poll t) (\<lambda>_.
     handle_entries fmt_time 0))))"

inductive main_reaches :: "(int \<Rightarrow> int \<Rightarrow> string) \<Rightarrow> server \<Rightarrow> server \<Rightarrow> bool" for fmt_time where
  main_start: "main_reaches fmt_time s s"
| main_turn: "main_reaches fmt_time s s' \<Longrightarrow> main_iteration fmt_time s' = Done u s'' \<Longrightarrow>
    main_reaches fmt_time s s''"

section \<open>Initialisation\<close>

text \<open>
  The results of the system calls made once at the start. \<open>fcntl\<close> is called four
  times: flags read and set on each end of the pipe.
\<close>

record init_os =
  i_getcwd :: string
  i_open :: int
  i_chdir :: int
  i_fopen_ok :: bool
  i_socket :: int
  i_unlink :: int
  i_unlink_enoent :: bool
  i_bind :: int
  i_listen :: int
  i_fchdir :: int
  i_close :: int
  i_pipe :: "(int \<times> int) option"
  i_fcntl :: "int \<times> int \<times> int \<times> int"
  i_sigaction :: int

definition check_call :: "bool \<Rightarrow> string \<Rightarrow> unit sm" where
  "check_call failed msg = swhen failed (shutdown_with_msg msg)"

definition sigchld_handle :: "int \<Rightarrow> bool \<Rightarrow> unit sm" where
  "sigchld_handle res eagain_or_eintr =
     sbind (sget (\<lambda>s. snd (cpipe s))) (\<lambda>fd.
       if res = -1 then check_call (\<not> eagain_or_eintr) ''error writing to pipe''
       else emit (E_write fd ''x''))"

definition setup_child_pipe :: "init_os \<Rightarrow> unit sm" where
  "setup_child_pipe io =
     (case i_fcntl io of (get0, set0, get1, set1) \<Rightarrow>
      sbind (check_call (i_pipe io = None) ''error creating pipe'') (\<lambda>_.
      sbind (smod (\<lambda>s. s\<lparr>cpipe := the (i_pipe io)\<rparr>)) (\<lambda>_.
      sbind (check_call (get0 = -1) ''error getting flags on pipe'') (\<lambda>_.
      sbind (check_call (set0 = -1) ''error setting flags on pipe'') (\<lambda>_.
      sbind (check_call (get1 = -1) ''error getting flags on pipe'') (\<lambda>_.
      sbind (check_call (set1 = -1) ''error setting flags on pipe'') (\<lambda>_.
      sbind (check_call (i_sigaction io = -1) ''error installing signal handler'') (\<lambda>_.
      sbind (sget (\<lambda>s. fst (cpipe s))) (\<lambda>fd.
      add_to_poll_list fd POLLIN)))))))))"

text \<open>The size of \<open>sun_path\<close> on Linux.\<close>

definition unix_path_max :: nat where
  "unix_path_max = 110 - 2"

definition server_init_listening :: "(string \<Rightarrow> string) \<Rightarrow> init_os \<Rightarrow> string \<Rightarrow> int \<Rightarrow> unit sm" where
  "server_init_listening basename io name par =
     sbind (smod (\<lambda>s. s\<lparr>current_dir := i_getcwd io\<rparr>)) (\<lambda>_.
     sbind (check_call (i_open io = -1) ''error when opening current directory'') (\<lambda>_.
     sbind (check_call (i_chdir io = -1) ''error when switching to socket directory'') (\<lambda>_.
     sbind (smod (\<lambda>s. s\<lparr>logfile := init_logging (logging (s_opts s)) (i_fopen_ok io) (logfile s)\<rparr>)) (\<lambda>_.
     sbind (slift init_request_queue) (\<lambda>q.
     sbind (smod (\<lambda>s. s\<lparr>queue := q, clients := init_list par\<rparr>)) (\<lambda>_.
     sbind (slift (if 2 + par > INT_MAX then Inl Int_overflow else Inr ())) (\<lambda>_.
     sbind (smod (\<lambda>s. s\<lparr>poll_len := nat (2 + par), poll_list := arr_malloc (nat (2 + par)), poll_num := 0\<rparr>)) (\<lambda>_.
     sbind (check_call (length (basename name) + 1 > unix_path_max) ''basename of filename too long'') (\<lambda>_.
     sbind (smod (\<lambda>s. s\<lparr>server_sock := i_socket io\<rparr>)) (\<lambda>_.
     sbind (emit (E_unlink (basename name))) (\<lambda>_.
     sbind (check_call (i_unlink io = -1 \<and> \<not> i_unlink_enoent io) ''error deleting socket'') (\<lambda>_.
     sbind (check_call (i_bind io = -1) ''error binding socket'') (\<lambda>_.
     sbind (slift (if par * 2 > INT_MAX then Inl Int_overflow else Inr ())) (\<lambda>_.
     sbind (check_call (i_listen io = -1) ''error listening on socket'') (\<lambda>_.
     sbind (check_call (i_fchdir io = -1) ''error when switching back to current directory'') (\<lambda>_.
     sbind (emit (E_close (i_open io))) (\<lambda>_.
     sbind (check_call (i_close io = -1) ''error closing descriptor to current dir'') (\<lambda>_.
     sbind (add_to_poll_list (i_socket io) POLLIN) (\<lambda>_.
     sbind (smod (\<lambda>s. s\<lparr>processes := init_process_list (parallel (s_opts s))\<rparr>)) (\<lambda>_.
     setup_child_pipe io))))))))))))))))))))"

text \<open>The state at the start of the program; a null list is an empty one without capacity.\<close>

definition initial_server :: "options \<Rightarrow> os \<Rightarrow> server" where
  "initial_server opts inputs =
     \<lparr>server_sock = -1, poll_list = [], poll_num = 0, poll_len = 0, clients = init_list 0,
      s_heap = (\<lambda>_. None), s_next = 0, processes = init_list 0,
      queue = \<lparr>q_data = [], q_pointer = 0, q_len = 0, q_capacity = 0\<rparr>, s_opts = opts, logfile = None,
      cpipe = (0, 0), current_dir = [], s_os = inputs, s_out = []\<rparr>"

text \<open>\<open>main\<close> for a given number of turns of its endless loop.\<close>

fun main_loop :: "(int \<Rightarrow> int \<Rightarrow> string) \<Rightarrow> nat \<Rightarrow> unit sm" where
  "main_loop fmt_time 0 = sret ()"
| "main_loop fmt_time (Suc n) = sbind (main_iteration fmt_time) (\<lambda>_. main_loop fmt_time n)"

definition server_main :: "(string \<Rightarrow> bool) \<Rightarrow> (char \<times> string option) list \<Rightarrow> int \<Rightarrow> int \<Rightarrow>
    (string \<Rightarrow> string) \<Rightarrow> (int \<Rightarrow> int \<Rightarrow> string) \<Rightarrow> init_os \<Rightarrow> os \<Rightarrow> nat \<Rightarrow> unit run" where
  "server_main einval gets optind argc basename fmt_time io inputs n =
     (case parse_options einval gets optind argc of
        Inl e \<Rightarrow> Failed e
      | Inr opts \<Rightarrow>
          sbind (server_init_listening basename io (the (socketname opts)) (parallel opts))
            (\<lambda>_. main_loop fmt_time n) (initial_server opts inputs))"

end
