(* ===== verification/Server_inv.thy ===== *)
theory Server_inv
  imports Server_main
begin

text \<open>
  Safety of the server: an invariant of its state that every handler keeps, under which no
  handler fails an assertion, follows a null pointer, reads outside an array or an
  uninitialised cell, uses a freed client or divides by zero. The failures that remain
  possible are the ones in \<open>tolerated\<close>: a system call without a result, an integer
  out of range, and the overlapping copy of \<open>have_taken\<close>. The bound on the memory
  of the queues is a potential: every byte received pays for the request and the messages
  it may cause, so the potential never grows. That \<open>write_to_client\<close> is called only
  with data to write rests on the link between the poll list and the clients: an entry asks
  for \<open>POLLOUT\<close> only if its client has data.
\<close>

section \<open>Outcomes\<close>

definition tolerated :: "c_error set" where
  "tolerated = {Blocked, Overlap, Int_overflow}"

definition ends :: "('a \<Rightarrow> server \<Rightarrow> bool) \<Rightarrow> 'a run \<Rightarrow> bool" where
  "ends Q r \<longleftrightarrow> (case r of Done x s \<Rightarrow> Q x s | Exited c s \<Rightarrow> True | Failed e \<Rightarrow> e \<in> tolerated)"

lemma ends_simps [simp]:
  "ends Q (Done x s) \<longleftrightarrow> Q x s" "ends Q (Exited c s)" "ends Q (Failed e) \<longleftrightarrow> e \<in> tolerated"
  by (simp_all add: ends_def)

lemma tolerated_simps [simp]:
  "Blocked \<in> tolerated" "Overlap \<in> tolerated" "Int_overflow \<in> tolerated"
  by (simp_all add: tolerated_def)

lemma ends_mono: "ends Q r \<Longrightarrow> (\<And>x s. Q x s \<Longrightarrow> Q' x s) \<Longrightarrow> ends Q' r"
  by (cases r) auto

lemma ends_bind: "ends (\<lambda>x s'. ends Q (f x s')) (m s) \<Longrightarrow> ends Q (sbind m f s)"
  by (simp add: ends_def sbind_def split: run.splits)

lemma ends_case_run:
  "ends (\<lambda>x s'. ends Q (f x s')) r \<Longrightarrow>
   ends Q (case r of Done x s' \<Rightarrow> f x s' | Exited c s' \<Rightarrow> Exited c s' | Failed e \<Rightarrow> Failed e)"
  by (cases r) auto

lemma ends_get: "ends Q (f (g s) s) \<Longrightarrow> ends Q (sbind (sget g) f s)"
  by (simp add: sbind_def sget_def)

lemma ends_mod: "ends Q (f () (g s)) \<Longrightarrow> ends Q (sbind (smod g) f s)"
  by (simp add: sbind_def smod_def)

lemma ends_emit: "ends Q (f () (s\<lparr>s_out := s_out s @ [e]\<rparr>)) \<Longrightarrow> ends Q (sbind (emit e) f s)"
  by (simp add: sbind_def emit_run)

lemma ends_lift: "r = Inr x \<Longrightarrow> ends Q (f x s) \<Longrightarrow> ends Q (sbind (slift r) f s)"
  by (simp add: sbind_def slift_def)

lemma ends_lift_cases:
  "(\<And>x. r = Inr x \<Longrightarrow> ends Q (f x s)) \<Longrightarrow> (\<And>e. r = Inl e \<Longrightarrow> e \<in> tolerated) \<Longrightarrow> ends Q (sbind (slift r) f s)"
  by (cases r) (simp_all add: sbind_def slift_def)

lemma ends_client:
  "s_heap s p = Some c \<Longrightarrow> ends Q (f c s) \<Longrightarrow> ends Q (sbind (get_client p) f s)"
  by (simp add: sbind_def get_client_def)

lemma ends_put:
  "ends Q (f () (s\<lparr>s_heap := (s_heap s)(p \<mapsto> c)\<rparr>)) \<Longrightarrow> ends Q (sbind (put_client p c) f s)"
  by (simp add: sbind_def put_client_def smod_def)

lemma ends_when:
  "(b \<Longrightarrow> ends (\<lambda>x s'. ends Q (f x s')) (m s)) \<Longrightarrow> (\<not> b \<Longrightarrow> ends Q (f () s)) \<Longrightarrow> ends Q (sbind (swhen b m) f s)"
  by (rule ends_bind) (simp add: swhen_def sret_def)

lemma ends_syscall:
  "(\<And>x xs. rd (s_os s) = x # xs \<Longrightarrow> promised s x \<Longrightarrow> ends Q (f x (s\<lparr>s_os := wr xs (s_os s)\<rparr>))) \<Longrightarrow>
   ends Q (sbind (syscall rd wr promised) f s)"
  by (auto simp: sbind_def syscall_def split: list.splits)

section \<open>The invariant\<close>

definition client_ok :: "t_client \<Rightarrow> bool" where
  "client_ok c \<longleftrightarrow> readbuf_inv (c_readbuf c) \<and> unat (r_capacity (c_readbuf c)) \<le> 2 ^ 33 \<and>
     writebuf_inv (c_writebuf c) \<and> can_write (c_writebuf c)"

definition addrs :: "server \<Rightarrow> nat set" where
  "addrs s = snd ` set (list_pairs (clients s))"

definition clients_ok :: "server \<Rightarrow> bool" where
  "clients_ok s \<longleftrightarrow> list_inv (clients s) \<and> distinct (map fst (list_pairs (clients s))) \<and>
     distinct (map snd (list_pairs (clients s))) \<and>
     (\<forall>(k, p) \<in> set (list_pairs (clients s)). k \<noteq> -1 \<and> p < s_next s \<and>
        (\<exists>c. s_heap s p = Some c \<and> c_fd c = k \<and> client_ok c))"

abbreviation entry :: "server \<Rightarrow> nat \<Rightarrow> pollfd" where
  "entry s i \<equiv> the (poll_list s ! i)"

definition poll_ok :: "server \<Rightarrow> bool" where
  "poll_ok s \<longleftrightarrow> 0 < poll_len s \<and> poll_num s \<le> poll_len s \<and> length (poll_list s) = poll_len s \<and>
     (\<forall>i < poll_num s. poll_list s ! i \<noteq> None) \<and>
     (\<forall>i < poll_num s. \<forall>j < poll_num s. i \<noteq> j \<longrightarrow> pf_fd (entry s i) = pf_fd (entry s j) \<longrightarrow> pf_fd (entry s i) = -1)"

definition wants_write :: "pollfd \<Rightarrow> bool" where
  "wants_write e \<longleftrightarrow> pf_events e AND POLLOUT \<noteq> 0"

definition has_data :: "server \<Rightarrow> int \<Rightarrow> bool" where
  "has_data s fd \<longleftrightarrow> (\<forall>p. map_of (list_pairs (clients s)) fd = Some p \<longrightarrow>
     (\<exists>c. s_heap s p = Some c \<and> has_write_data (c_writebuf c)))"

definition link_ok :: "server \<Rightarrow> bool" where
  "link_ok s \<longleftrightarrow> (\<forall>i < poll_num s. wants_write (entry s i) \<longrightarrow> has_data s (pf_fd (entry s i)))"

definition small_id :: "string \<Rightarrow> bool" where
  "small_id i \<longleftrightarrow> length i \<le> 2 ^ 30"

definition runnable :: "request \<Rightarrow> bool" where
  "runnable r \<longleftrightarrow> small_id (req_id r) \<and> (\<exists>f. req_run r = Some f \<and> numargs f = int (length (args f)))"

definition queue_ok :: "server \<Rightarrow> bool" where
  "queue_ok s \<longleftrightarrow> queue_inv (queue s) \<and> (\<forall>r \<in> set (queue_list (queue s)). runnable r)"

definition procs_ok :: "server \<Rightarrow> bool" where
  "procs_ok s \<longleftrightarrow> list_inv (processes s) \<and>
     (\<forall>(k, p) \<in> set (list_pairs (processes s)). small_id (task_id p) \<and> length (outfile p) \<le> 2 ^ 29 + 11)"

text \<open>
  What the environment gives: a log file if logging is on, options as
  \<open>parse_options\<close> leaves them, no failing \<open>write\<close>, and the results of
  \<open>fork\<close> in the server, not in the child.
\<close>

definition env_ok :: "server \<Rightarrow> bool" where
  "env_ok s \<longleftrightarrow> (logging (s_opts s) \<longrightarrow> logfile s \<noteq> None) \<and> 1 \<le> parallel (s_opts s) \<and>
     parallel (s_opts s) \<le> INT_MAX \<and> socketname (s_opts s) \<noteq> None \<and> length (current_dir s) \<le> 2 ^ 29 \<and>
     None \<notin> set (os_write (s_os s)) \<and> 0 \<notin> set (os_fork (s_os s))"

text \<open>What a client and the whole state weigh: received bytes, queued messages.\<close>

definition client_bytes :: "t_client \<Rightarrow> nat" where
  "client_bytes c = length (readbuf_bytes (c_readbuf c))"

definition client_msgs :: "t_client \<Rightarrow> nat" where
  "client_msgs c = length (queue_list (w_queue (c_writebuf c)))"

definition client_weight :: "t_client \<Rightarrow> nat" where
  "client_weight c = 2 * client_bytes c + client_msgs c"

definition input_bytes :: "server \<Rightarrow> nat" where
  "input_bytes s = sum_list (map (\<lambda>r. case r of None \<Rightarrow> 0 | Some b \<Rightarrow> length b) (os_read (s_os s)))"

definition potential :: "server \<Rightarrow> nat" where
  "potential s = (\<Sum>p \<in> addrs s. client_weight (the (s_heap s p))) + 2 * input_bytes s +
     2 * length (queue_list (queue s)) + length (list_pairs (processes s))"

definition server_inv :: "server \<Rightarrow> bool" where
  "server_inv s \<longleftrightarrow> clients_ok s \<and> poll_ok s \<and> link_ok s \<and> queue_ok s \<and> procs_ok s \<and> env_ok s"

lemmas inv_defs = server_inv_def clients_ok_def poll_ok_def link_ok_def has_data_def queue_ok_def procs_ok_def env_ok_def
lemmas weight_defs = potential_def addrs_def input_bytes_def

section \<open>Parts of the state that do not matter\<close>

lemma inv_s_out [simp]:
  "server_inv (s\<lparr>s_out := x\<rparr>) = server_inv s" "potential (s\<lparr>s_out := x\<rparr>) = potential s"
  "addrs (s\<lparr>s_out := x\<rparr>) = addrs s" "clients_ok (s\<lparr>s_out := x\<rparr>) = clients_ok s" "env_ok (s\<lparr>s_out := x\<rparr>) = env_ok s"
  by (simp_all add: inv_defs weight_defs)

lemma inv_wait3 [simp]:
  "server_inv (s\<lparr>s_os := (s_os s)\<lparr>os_wait3 := x\<rparr>\<rparr>) = server_inv s"
  "potential (s\<lparr>s_os := (s_os s)\<lparr>os_wait3 := x\<rparr>\<rparr>) = potential s"
  by (simp_all add: inv_defs weight_defs)

lemma inv_accept [simp]:
  "server_inv (s\<lparr>s_os := (s_os s)\<lparr>os_accept := x\<rparr>\<rparr>) = server_inv s"
  "potential (s\<lparr>s_os := (s_os s)\<lparr>os_accept := x\<rparr>\<rparr>) = potential s"
  by (simp_all add: inv_defs weight_defs)

lemma inv_poll_tape [simp]:
  "server_inv (s\<lparr>s_os := (s_os s)\<lparr>os_poll := x\<rparr>\<rparr>) = server_inv s"
  "potential (s\<lparr>s_os := (s_os s)\<lparr>os_poll := x\<rparr>\<rparr>) = potential s"
  "server_inv (s\<lparr>s_os := (s_os s)\<lparr>os_pipe := y\<rparr>\<rparr>) = server_inv s"
  "potential (s\<lparr>s_os := (s_os s)\<lparr>os_pipe := y\<rparr>\<rparr>) = potential s"
  by (simp_all add: inv_defs weight_defs)

lemma potential_poll [simp]:
  "potential (s\<lparr>poll_list := l\<rparr>) = potential s" "potential (s\<lparr>logfile := f\<rparr>) = potential s"
  "potential (s\<lparr>s_opts := opts\<rparr>) = potential s"
  "addrs (s\<lparr>poll_list := l\<rparr>) = addrs s" "addrs (s\<lparr>logfile := f\<rparr>) = addrs s" "addrs (s\<lparr>s_opts := opts\<rparr>) = addrs s"
  "addrs (s\<lparr>s_heap := h\<rparr>) = addrs s" "addrs (s\<lparr>processes := ps\<rparr>) = addrs s" "addrs (s\<lparr>queue := q\<rparr>) = addrs s"
  "addrs (s\<lparr>s_os := t\<rparr>) = addrs s"
  by (simp_all add: weight_defs)

section \<open>Shutdown and log\<close>

lemma server_log_ends:
  assumes "env_ok s" "\<And>f. (logging (s_opts s) \<Longrightarrow> f \<noteq> None) \<Longrightarrow> Q () (s\<lparr>logfile := f\<rparr>)"
  shows "ends Q (server_log msg s)"
  using assms assms(2) [of "logfile s"]
  by (auto simp: server_log_def log_msg_def env_ok_def sbind_def sget_def slift_def smod_def
      split: option.splits)

lemma close_client_at_run:
  assumes "clients_ok s" "i < nat (l_len (clients s))"
  shows "\<exists>out. close_client_at i s = Done () (s\<lparr>s_out := out\<rparr>)"
proof -
  have inv: "list_inv (clients s)" using assms(1) by (simp add: clients_ok_def)
  note c = list_inv_cells [OF inv assms(2)]
  have "list_pairs (clients s) ! i \<in> set (list_pairs (clients s))" using assms(2) by simp
  with assms nth_list_pairs [of i "clients s"]
  obtain cl where "s_heap s (the (l_data (clients s) ! i)) = Some cl" by (auto simp: clients_ok_def)
  with c show ?thesis
    by (auto simp: close_client_at_def sbind_def sget_def slift_def get_client_def emit_run array_simps)
qed

lemma close_all_run:
  "clients_ok s \<Longrightarrow> \<forall>i \<in> set is. i < nat (l_len (clients s)) \<Longrightarrow>
   \<exists>out. sfor is close_client_at s = Done () (s\<lparr>s_out := out\<rparr>)"
proof (induction "is" arbitrary: s)
  case Nil
  then show ?case by (intro exI [of _ "s_out s"]) (simp add: sret_def)
next
  case (Cons i js)
  from close_client_at_run [of s i] Cons.prems obtain out where
    "close_client_at i s = Done () (s\<lparr>s_out := out\<rparr>)" by auto
  with Cons.IH [of "s\<lparr>s_out := out\<rparr>"] Cons.prems show ?case by (simp add: sbind_def)
qed

lemma shutdown_ends:
  assumes "clients_ok s" "env_ok s"
  shows "ends Q (shutdown_with_msg msg s)"
proof -
  have *: "ends Q (sbind (sget (\<lambda>s. list_length (clients s))) (\<lambda>n.
     sbind (sfor [0..<nat n] close_client_at) (\<lambda>_. logging_shutdown msg)) s)"
    if "clients_ok s" "env_ok s" for s
  proof (rule ends_get, rule ends_bind)
    from close_all_run [OF that(1), of "[0..<nat (list_length (clients s))]"] obtain out where
      "sfor [0..<nat (list_length (clients s))] close_client_at s = Done () (s\<lparr>s_out := out\<rparr>)"
      by (auto simp: list_length_def)
    moreover have "ends Q (logging_shutdown msg (s\<lparr>s_out := out\<rparr>))"
      unfolding logging_shutdown_def
      by (rule ends_bind, rule server_log_ends) (use that in \<open>simp_all add: sexit_def\<close>)
    ultimately show "ends (\<lambda>x s'. ends Q (logging_shutdown msg s'))
        (sfor [0..<nat (list_length (clients s))] close_client_at s)" by simp
  qed
  show ?thesis unfolding shutdown_with_msg_def
    by (rule ends_get, rule ends_when) (use * assms in \<open>simp_all add: emit_run\<close>)
qed

section \<open>The poll list\<close>

declare poll_lookup_from.simps [simp del] poll_clean_from.simps [simp del]

lemma poll_lookup_from_run:
  assumes "\<forall>i < num. l ! i \<noteq> None" "num \<le> length l"
  shows "\<exists>r. poll_lookup_from l num fd i = Inr r \<and> (\<forall>j. r = Some j \<longrightarrow> j < num \<and> pf_fd (the (l ! j)) = fd) \<and>
    (r = None \<longrightarrow> (\<forall>j. i \<le> j \<longrightarrow> j < num \<longrightarrow> pf_fd (the (l ! j)) \<noteq> fd))"
  using assms
proof (induction l num fd i rule: poll_lookup_from.induct)
  case (1 l num fd i)
  show ?case
  proof (cases "i < num")
    case True
    then have e: "arr_read l i = Inr (the (l ! i))" using 1(2,3) by (intro arr_read_ok) auto
    show ?thesis
    proof (cases "pf_fd (the (l ! i)) = fd")
      case True
      with e \<open>i < num\<close> show ?thesis by (auto simp: poll_lookup_from.simps [of l num fd i])
    next
      case False
      from 1(1) [OF True e False 1(2,3)] e True False show ?thesis
        by (auto simp: poll_lookup_from.simps [of l num fd i]) (metis Suc_leI le_neq_implies_less)
    qed
  qed (simp add: poll_lookup_from.simps [of l num fd i])
qed

lemma poll_list_lookup_run:
  assumes "poll_ok s"
  obtains r where "poll_list_lookup fd s = Done r s" "\<And>j. r = Some j \<Longrightarrow> j < poll_num s \<and> pf_fd (entry s j) = fd"
    "\<And>j. r = None \<Longrightarrow> j < poll_num s \<Longrightarrow> pf_fd (entry s j) \<noteq> fd"
  using poll_lookup_from_run [of "poll_num s" "poll_list s" fd 0] assms that
  by (auto simp: poll_list_lookup_def slift_def poll_ok_def)

lemma poll_write_run:
  assumes "poll_ok s" "i < poll_num s"
  shows "rbind (arr_read (poll_list s) i) (\<lambda>e. arr_write (poll_list s) i (g e)) =
    Inr ((poll_list s)[i := Some (g (entry s i))])"
proof -
  have "i < length (poll_list s)" "poll_list s ! i \<noteq> None" using assms by (auto simp: poll_ok_def)
  then show ?thesis by (simp add: array_simps arr_write_def)
qed

lemma poll_ok_update:
  assumes "poll_ok s" "i < poll_num s" "pf_fd e = pf_fd (entry s i) \<or> pf_fd e = -1"
  shows "poll_ok (s\<lparr>poll_list := (poll_list s)[i := Some e]\<rparr>)"
proof -
  have i: "i < length (poll_list s)" using assms(1,2) by (simp add: poll_ok_def)
  have n: "(poll_list s)[i := Some e] ! j = (if j = i then Some e else poll_list s ! j)" for j
    using i by (auto simp: nth_list_update)
  have "pf_fd (the ((poll_list s)[i := Some e] ! a)) = -1"
    if "a < poll_num s" "b < poll_num s" "a \<noteq> b"
      "pf_fd (the ((poll_list s)[i := Some e] ! a)) = pf_fd (the ((poll_list s)[i := Some e] ! b))" for a b
    using assms that unfolding n poll_ok_def by (cases "a = i"; cases "b = i") (simp_all, metis+)
  with assms(1) show ?thesis unfolding poll_ok_def by (simp add: n)
qed

text \<open>Poll lists that agree on descriptors and reported events, and ask for no fewer writes.\<close>

definition poll_calm :: "server \<Rightarrow> server \<Rightarrow> bool" where
  "poll_calm s s' \<longleftrightarrow> poll_num s' = poll_num s \<and> server_sock s' = server_sock s \<and>
     (\<forall>i < poll_num s. pf_fd (entry s' i) = pf_fd (entry s i) \<and> pf_revents (entry s' i) = pf_revents (entry s i) \<and>
        (wants_write (entry s i) \<longrightarrow> wants_write (entry s' i)))"

lemma inv_poll_events:
  assumes "server_inv s" "i < poll_num s" "pf_fd e = pf_fd (entry s i)"
    "wants_write e \<Longrightarrow> has_data s (pf_fd e)"
  shows "server_inv (s\<lparr>poll_list := (poll_list s)[i := Some e]\<rparr>)"
proof -
  let ?s = "s\<lparr>poll_list := (poll_list s)[i := Some e]\<rparr>"
  have i: "i < length (poll_list s)" using assms(1,2) by (auto simp: inv_defs)
  then have fd: "pf_fd (entry ?s j) = pf_fd (entry s j)" for j
    using assms(3) by (auto simp: nth_list_update)
  have "poll_ok ?s"
    by (rule poll_ok_update) (use assms(1-3) in \<open>simp_all add: server_inv_def\<close>)
  moreover have "link_ok ?s"
    using assms i fd unfolding server_inv_def link_ok_def has_data_def by (auto simp: nth_list_update)
  ultimately show ?thesis using assms(1) by (simp add: server_inv_def clients_ok_def queue_ok_def procs_ok_def env_ok_def)
qed

lemma poll_list_remove_run:
  assumes "poll_ok s" "fd \<noteq> -1"
  obtains l where "poll_list_remove fd s = Done () (s\<lparr>poll_list := l\<rparr>)" "poll_ok (s\<lparr>poll_list := l\<rparr>)"
    "\<And>i. i < poll_num s \<Longrightarrow> the (l ! i) =
       (if pf_fd (entry s i) = fd then (entry s i)\<lparr>pf_fd := -1, pf_revents := 0\<rparr> else entry s i)"
proof -
  from poll_list_lookup_run [OF assms(1), of fd] obtain r where
    r: "poll_list_lookup fd s = Done r s" "\<And>j. r = Some j \<Longrightarrow> j < poll_num s \<and> pf_fd (entry s j) = fd"
    "\<And>j. r = None \<Longrightarrow> j < poll_num s \<Longrightarrow> pf_fd (entry s j) \<noteq> fd" by metis
  show ?thesis
  proof (cases r)
    case None
    then show ?thesis using r that [of "poll_list s"] assms(1) by (simp add: poll_list_remove_def sbind_def sret_def)
  next
    case (Some j)
    define l where "l = (poll_list s)[j := Some ((entry s j)\<lparr>pf_fd := -1, pf_revents := 0\<rparr>)]"
    have j: "j < poll_num s" "pf_fd (entry s j) = fd" using r(2) Some by auto
    have len: "poll_num s \<le> length (poll_list s)" using assms(1) by (simp add: poll_ok_def)
    have e: "the (l ! i) = (if i = j then (entry s j)\<lparr>pf_fd := -1, pf_revents := 0\<rparr> else entry s i)"
      if "i < poll_num s" for i using that len by (simp add: l_def nth_list_update)
    have uniq: "pf_fd (entry s i) = fd \<longleftrightarrow> i = j" if "i < poll_num s" for i
      using assms j that unfolding poll_ok_def by metis
    have "poll_list_remove fd s = Done () (s\<lparr>poll_list := l\<rparr>)"
      using r(1) Some poll_write_run [OF assms(1) j(1), of "\<lambda>e. e\<lparr>pf_fd := -1, pf_revents := 0\<rparr>"]
      by (simp add: poll_list_remove_def sbind_def slift_def smod_def l_def)
    moreover have "poll_ok (s\<lparr>poll_list := l\<rparr>)"
      unfolding l_def by (rule poll_ok_update [OF assms(1) j(1)]) simp
    ultimately show ?thesis using that [of l] e uniq by auto
  qed
qed

lemma add_to_poll_list_ends:
  assumes "poll_ok s" "fd \<notin> set (map pf_fd (poll_entries s))"
    "\<And>l n. poll_ok (s\<lparr>poll_list := l, poll_len := n, poll_num := Suc (poll_num s)\<rparr>) \<Longrightarrow>
      (\<And>i. i < poll_num s \<Longrightarrow> l ! i = poll_list s ! i) \<Longrightarrow>
      l ! poll_num s = Some \<lparr>pf_fd = fd, pf_events = ev, pf_revents = 0\<rparr> \<Longrightarrow>
      Q () (s\<lparr>poll_list := l, poll_len := n, poll_num := Suc (poll_num s)\<rparr>)"
  shows "ends Q (add_to_poll_list fd ev s)"
proof -
  define len where "len = (if poll_num s = poll_len s then 2 * poll_len s else poll_len s)"
  define l where "l = (if poll_num s = poll_len s then arr_realloc (poll_list s) len else poll_list s)"
  define e where "e = \<lparr>pf_fd = fd, pf_events = ev, pf_revents = 0\<rparr>"
  have l: "length l = len" "poll_num s < len" "\<And>i. i < poll_num s \<Longrightarrow> l ! i = poll_list s ! i"
    using assms(1) by (auto simp: l_def len_def poll_ok_def array_simps)
  have "fd \<noteq> pf_fd (entry s i)" if "i < poll_num s" for i
    using assms(1,2) that unfolding poll_entries_def poll_ok_def by (force simp: in_set_conv_nth)
  then have "poll_ok (s\<lparr>poll_list := l[poll_num s := Some e], poll_len := len, poll_num := Suc (poll_num s)\<rparr>)"
    using l assms(1) unfolding poll_ok_def by (auto simp: nth_list_update less_Suc_eq e_def)
  moreover have "add_to_poll_list fd ev s = (if int len > INT_MAX then Failed Int_overflow
      else Done () (s\<lparr>poll_list := l[poll_num s := Some e], poll_len := len, poll_num := Suc (poll_num s)\<rparr>))"
    using l(1,2) unfolding add_to_poll_list_def Let_def len_def [symmetric] l_def [symmetric] e_def [symmetric]
    by (simp add: arr_write_def)
  ultimately show ?thesis using assms(3) [where l = "l[poll_num s := Some e]" and n = len] l by (simp add: e_def)
qed

section \<open>Updates of one client\<close>

lemma addr_client:
  assumes "clients_ok s" "p \<in> addrs s"
  obtains c where "s_heap s p = Some c" "client_ok c" "(c_fd c, p) \<in> set (list_pairs (clients s))"
  using assms by (force simp: clients_ok_def addrs_def)

lemma finite_addrs [simp]: "finite (addrs s)"
  by (simp add: addrs_def)

lemma clients_ok_put:
  assumes "clients_ok s" "s_heap s p = Some c" "c_fd c' = c_fd c" "client_ok c'"
  shows "clients_ok (s\<lparr>s_heap := (s_heap s)(p \<mapsto> c')\<rparr>)"
proof -
  have "\<exists>d. ((s_heap s)(p \<mapsto> c')) q = Some d \<and> c_fd d = k \<and> client_ok d"
    if "(k, q) \<in> set (list_pairs (clients s))" for k q
    using assms that by (cases "q = p") (force simp: clients_ok_def)+
  then show ?thesis using assms(1) unfolding clients_ok_def by fastforce
qed

lemma inv_put_client:
  assumes "server_inv s" "s_heap s p = Some c" "c_fd c' = c_fd c" "client_ok c'"
    "has_write_data (c_writebuf c) \<Longrightarrow> has_write_data (c_writebuf c')"
  shows "server_inv (s\<lparr>s_heap := (s_heap s)(p \<mapsto> c')\<rparr>)"
proof -
  have "link_ok (s\<lparr>s_heap := (s_heap s)(p \<mapsto> c')\<rparr>)"
    using assms(1,2,5) unfolding server_inv_def link_ok_def has_data_def by fastforce
  then show ?thesis
    using assms(1) clients_ok_put [OF _ assms(2-4)] by (simp add: server_inv_def poll_ok_def queue_ok_def procs_ok_def env_ok_def)
qed

lemma potential_put_client:
  assumes "p \<in> addrs s" "s_heap s p = Some c"
  shows "potential (s\<lparr>s_heap := (s_heap s)(p \<mapsto> c')\<rparr>) + client_weight c = potential s + client_weight c'"
proof -
  have "(\<Sum>q \<in> addrs s. client_weight (the (((s_heap s)(p \<mapsto> c')) q))) =
      client_weight c' + (\<Sum>q \<in> addrs s - {p}. client_weight (the (s_heap s q)))"
    using assms(1) by (subst sum.remove [of _ p]) (auto intro!: sum.cong)
  moreover have "(\<Sum>q \<in> addrs s. client_weight (the (s_heap s q))) =
      client_weight c + (\<Sum>q \<in> addrs s - {p}. client_weight (the (s_heap s q)))"
    using assms by (subst sum.remove [of _ p]) auto
  ultimately show ?thesis by (simp add: potential_def input_bytes_def)
qed

lemma client_weight_le:
  assumes "p \<in> addrs s" "s_heap s p = Some c"
  shows "client_weight c \<le> potential s"
  using member_le_sum [of p "addrs s" "\<lambda>p. client_weight (the (s_heap s p))"] assms by (simp add: potential_def)

text \<open>The list of clients, their read buffers and the poll list are as before, up to requests for writes.\<close>

definition quiet :: "server \<Rightarrow> server \<Rightarrow> bool" where
  "quiet s s' \<longleftrightarrow> clients s' = clients s \<and> poll_calm s s' \<and>
     (\<forall>p. map_option c_readbuf (s_heap s' p) = map_option c_readbuf (s_heap s p))"

lemma quiet_refl [simp]: "quiet s s"
  by (simp add: quiet_def poll_calm_def)

lemma quiet_trans: "quiet s s1 \<Longrightarrow> quiet s1 s2 \<Longrightarrow> quiet s s2"
  by (auto simp: quiet_def poll_calm_def)

lemma quiet_addrs: "quiet s s' \<Longrightarrow> addrs s' = addrs s"
  by (simp add: quiet_def addrs_def)

lemma quiet_updates [simp]:
  "quiet s (t\<lparr>logfile := f\<rparr>) = quiet s t"
  "quiet s (t\<lparr>s_out := x\<rparr>) = quiet s t" "quiet s (t\<lparr>s_os := y\<rparr>) = quiet s t"
  "quiet s (t\<lparr>processes := ps\<rparr>) = quiet s t" "quiet s (t\<lparr>queue := q\<rparr>) = quiet s t"
  "quiet s (t\<lparr>s_opts := opts\<rparr>) = quiet s t"
  by (simp_all add: quiet_def poll_calm_def)

lemma quiet_put: "s_heap s p = Some c \<Longrightarrow> quiet s (s\<lparr>s_heap := (s_heap s)(p \<mapsto> c\<lparr>c_writebuf := wb\<rparr>)\<rparr>)"
  by (simp add: quiet_def poll_calm_def)

section \<open>Messages\<close>

definition grows :: "nat \<Rightarrow> server \<Rightarrow> unit \<Rightarrow> server \<Rightarrow> bool" where
  "grows k s = (\<lambda>_ s'. server_inv s' \<and> potential s' \<le> potential s + k \<and> quiet s s')"

lemma grows_trans:
  "ends (grows k s1) r \<Longrightarrow> potential s1 \<le> potential s + j \<Longrightarrow> quiet s s1 \<Longrightarrow> j + k \<le> n \<Longrightarrow> ends (grows n s) r"
  by (erule ends_mono) (auto simp: grows_def intro: quiet_trans)

lemma inv_parts: "server_inv s \<Longrightarrow> clients_ok s \<and> poll_ok s \<and> link_ok s \<and> queue_ok s \<and> procs_ok s \<and> env_ok s"
  by (simp add: server_inv_def)

lemma poll_update_run:
  "poll_ok s \<Longrightarrow> i < poll_num s \<Longrightarrow> poll_update i f s =
   Done () (s\<lparr>poll_list := (poll_list s)[i := Some ((entry s i)\<lparr>pf_events := f (pf_events (entry s i))\<rparr>)]\<rparr>)"
  using poll_write_run [of s i "\<lambda>e. e\<lparr>pf_events := f (pf_events e)\<rparr>"]
  by (simp add: poll_update_def sbind_def slift_def smod_def)

lemma or_POLLOUT: "(e OR POLLOUT) AND POLLOUT \<noteq> 0"
proof -
  have "(e OR POLLOUT) AND POLLOUT = POLLOUT" by (rule bit_word_eqI) (auto simp: bit_and_iff bit_or_iff)
  then show ?thesis by (simp add: POLLOUT_def)
qed

lemma push_has_data: "push_write_data b d = Inr b' \<Longrightarrow> has_write_data b'"
  by (auto simp: push_write_data_def has_write_data_def rbind_eq_Inr split: if_splits)

text \<open>Asking for \<open>POLLOUT\<close> on the entry of a client that has data.\<close>

lemma ask_write_ends:
  assumes "server_inv s" "s_heap s p = Some c" "(c_fd c, p) \<in> set (list_pairs (clients s))" "has_write_data (c_writebuf c)"
  shows "ends (grows 0 s) (sbind (poll_list_lookup (c_fd c)) (\<lambda>i. case i of
       None \<Rightarrow> sret () | Some i \<Rightarrow> poll_update i (\<lambda>e. e OR POLLOUT)) s)"
proof -
  note parts = inv_parts [OF assms(1)]
  from parts poll_list_lookup_run [of s "c_fd c"] obtain r where
    r: "poll_list_lookup (c_fd c) s = Done r s" "\<And>j. r = Some j \<Longrightarrow> j < poll_num s \<and> pf_fd (entry s j) = c_fd c" by metis
  show ?thesis
  proof (cases r)
    case None
    then show ?thesis using r(1) assms(1) by (simp add: sbind_def sret_def grows_def)
  next
    case (Some i)
    then have i: "i < poll_num s" "pf_fd (entry s i) = c_fd c" using r(2) by auto
    define e where "e = (entry s i)\<lparr>pf_events := pf_events (entry s i) OR POLLOUT\<rparr>"
    have "distinct (map fst (list_pairs (clients s)))" using parts by (simp add: clients_ok_def)
    then have "map_of (list_pairs (clients s)) (c_fd c) = Some p" using assms(3) by simp
    then have d: "has_data s (pf_fd e)" using i(2) assms(2,4) by (simp add: has_data_def e_def)
    have "server_inv (s\<lparr>poll_list := (poll_list s)[i := Some e]\<rparr>)"
      by (rule inv_poll_events [OF assms(1) i(1) _ d]) (simp add: e_def)
    moreover have "quiet s (s\<lparr>poll_list := (poll_list s)[i := Some e]\<rparr>)"
      using i(1) parts or_POLLOUT
      by (auto simp: quiet_def poll_calm_def nth_list_update e_def wants_write_def poll_ok_def)
    ultimately show ?thesis
      using r(1) Some poll_update_run [of s i] parts i(1) by (simp add: sbind_def grows_def e_def)
  qed
qed

end
