(* ===== verification/Server_jobs.thy ===== *)
theory Server_jobs
  imports Server_inv
begin

lemma queue_write_ends:
  assumes "server_inv s" "p \<in> addrs s" "potential s < 2 ^ 30" "int (length msg) \<le> INT_MAX"
  shows "ends (grows 1 s) (queue_write p msg s)"
proof -
  from addr_client assms(1,2) obtain c where c: "s_heap s p = Some c" "client_ok c"
    "(c_fd c, p) \<in> set (list_pairs (clients s))" by (metis server_inv_def)
  have "length (queue_list (w_queue (c_writebuf c))) \<le> 2 ^ 30"
    using client_weight_le [OF assms(2) c(1)] assms(3) by (simp add: client_weight_def client_msgs_def)
  with wb.push_law [of "c_writebuf c" msg] c(2) assms(4) obtain wb where wb: "push_write_data (c_writebuf c) msg = Inr wb"
    "writebuf_inv wb" "can_write wb"
    "length (queue_list (w_queue wb)) \<le> Suc (length (queue_list (w_queue (c_writebuf c))))"
    by (auto simp: client_ok_def)
  note d = push_has_data [OF wb(1)]
  define s1 where "s1 = s\<lparr>s_heap := (s_heap s)(p \<mapsto> c\<lparr>c_writebuf := wb\<rparr>)\<rparr>"
  have i1: "server_inv s1"
    unfolding s1_def by (rule inv_put_client [OF assms(1) c(1)]) (use c wb d in \<open>simp_all add: client_ok_def\<close>)
  have p1: "potential s1 \<le> potential s + 1"
    using potential_put_client [OF assms(2) c(1), of "c\<lparr>c_writebuf := wb\<rparr>"] wb(4)
    by (simp add: s1_def client_weight_def client_msgs_def client_bytes_def)
  have q1: "quiet s s1" unfolding s1_def by (rule quiet_put [OF c(1)])
  have cl1: "clients s1 = clients s" and h1: "s_heap s1 p = Some (c\<lparr>c_writebuf := wb\<rparr>)" by (simp_all add: s1_def)
  have a: "ends (grows 0 s1) (sbind (poll_list_lookup (c_fd c)) (\<lambda>i. case i of
       None \<Rightarrow> sret () | Some i \<Rightarrow> poll_update i (\<lambda>e. e OR POLLOUT)) s1)"
    using ask_write_ends [OF i1 h1] c(3) d by (simp add: cl1)
  have "ends (grows 1 s) (sbind (poll_list_lookup (c_fd c)) (\<lambda>i. case i of
       None \<Rightarrow> sret () | Some i \<Rightarrow> poll_update i (\<lambda>e. e OR POLLOUT)) s1)"
    by (rule grows_trans [where k = 0 and j = 1, OF _ p1 q1]) (use a in simp_all)
  then show ?thesis unfolding queue_write_def
    by (intro ends_client [OF c(1)] ends_lift [OF wb(1)] ends_put) (simp only: s1_def [symmetric])
qed

lemma INT_MAX_message: "n \<le> 2 ^ 30 + 2 ^ 29 + 100 \<Longrightarrow> int n \<le> INT_MAX"
  by (simp add: INT_MAX_def)

lemma send_started_ends:
  assumes "server_inv s" "p \<in> addrs s" "potential s < 2 ^ 30" "small_id i"
  shows "ends (grows 1 s) (send_started_msg_to_client p i s)"
proof -
  have "send_started_msg_to_client p i = queue_write p (''S;'' @ i @ [CHR 0x0A])"
    by (rule ext) (simp add: send_started_msg_to_client_def snprintf_def sbind_def swhen_def sret_def)
  then show ?thesis
    using assms by (simp only:) (intro queue_write_ends INT_MAX_message, simp_all add: small_id_def)
qed

lemma send_msg_ends:
  assumes "server_inv s" "p \<in> addrs s" "potential s < 2 ^ 30" "small_id i" "length out_file \<le> 2 ^ 29 + 11"
  shows "ends (grows 1 s) (send_msg_to_client p i e t b out_file s)"
proof -
  have *: "clients_ok s" "env_ok s" using assms(1) by (simp_all add: server_inv_def)
  define len where "len = length i + 3 + 23 + (length out_file + 1)"
  have "length (take (len - 1) (finished_msg i e t b out_file)) \<le> 2 ^ 30 + 2 ^ 29 + 100"
    using assms(4,5) by (simp add: small_id_def len_def)
  then show ?thesis
    unfolding send_msg_to_client_def Let_def snprintf_def len_def [symmetric] prod.case
    by (intro ends_when shutdown_ends [OF *] queue_write_ends [OF assms(1-3)] INT_MAX_message)
qed

section \<open>Starting processes\<close>

lemma fill_argv_ok:
  "\<forall>i \<in> set is. i < length argv \<and> Suc i < length a \<Longrightarrow> \<exists>a'. fill_argv a argv is = Inr a' \<and> length a' = length a"
proof (induction "is" arbitrary: a)
  case (Cons i js)
  have "\<exists>a'. fill_argv (a[Suc i := Some (Some (argv ! i))]) argv js = Inr a' \<and> length a' = length a"
    using Cons.IH [of "a[Suc i := Some (Some (argv ! i))]"] Cons.prems by auto
  with Cons.prems show ?case by (simp add: arr_write_def)
qed simp

lemma child_of_ok: "argc = int (length argv) \<Longrightarrow> \<exists>img. child_of c argc argv u out t m = Inr img"
proof -
  assume argc: "argc = int (length argv)"
  define count where "count = (if u then argc - 1 else argc)"
  have c: "-1 \<le> count" "nat count \<le> length argv" using argc by (auto simp: count_def)
  define a where "a = (arr_malloc (nat (count + 2)))[0 := Some (Some c), nat (count + 1) := Some (None :: string option)]"
  have "\<exists>a'. fill_argv a argv [0..<nat count] = Inr a'"
  proof -
    have "\<forall>i \<in> set [0..<nat count]. i < length argv \<and> Suc i < length a"
      using c by (auto simp: a_def)
    from fill_argv_ok [OF this] show ?thesis by blast
  qed
  moreover have "0 < nat (count + 2)" "nat (count + 1) < nat (count + 2)" using c(1) by auto
  ultimately show ?thesis
    unfolding child_of_def Let_def count_def [symmetric] by (auto simp: arr_write_def a_def)
qed

lemma env_ok_tail:
  assumes "server_inv s"
  shows "os_fork (s_os s) = x # xs \<Longrightarrow> server_inv (s\<lparr>s_os := (s_os s)\<lparr>os_fork := xs\<rparr>\<rparr>) \<and> x \<noteq> 0"
    and "server_inv (s\<lparr>s_os := (s_os s)\<lparr>os_mkstemp := ys\<rparr>\<rparr>)"
    and "os_write (s_os s) = z # zs \<Longrightarrow> server_inv (s\<lparr>s_os := (s_os s)\<lparr>os_write := zs\<rparr>\<rparr>) \<and> None \<noteq> z"
  using assms by (auto simp: inv_defs)

lemma potential_tape [simp]:
  "potential (s\<lparr>s_os := (s_os s)\<lparr>os_fork := a\<rparr>\<rparr>) = potential s"
  "potential (s\<lparr>s_os := (s_os s)\<lparr>os_mkstemp := b\<rparr>\<rparr>) = potential s"
  "potential (s\<lparr>s_os := (s_os s)\<lparr>os_write := c\<rparr>\<rparr>) = potential s"
  by (simp_all add: weight_defs)

lemma create_process_ends:
  assumes "server_inv s" "argc = int (length argv)"
    "\<And>pid t eff. server_inv (s\<lparr>s_os := t, s_out := eff\<rparr>) \<Longrightarrow>
       potential (s\<lparr>s_os := t, s_out := eff\<rparr>) = potential s \<Longrightarrow> Q pid (s\<lparr>s_os := t, s_out := eff\<rparr>)"
  shows "ends Q (create_process c argc argv u out t m s)"
proof -
  from child_of_ok [OF assms(2)] obtain img where img: "child_of c argc argv u out t m = Inr img" by blast
  show ?thesis
    unfolding create_process_def sys_fork_def
    apply (rule ends_lift [OF img], rule ends_syscall)
    subgoal for pid xs
      apply (rule ends_when, rule shutdown_ends)
      using env_ok_tail(1) [OF assms(1), of pid xs] inv_parts apply blast
      using env_ok_tail(1) [OF assms(1), of pid xs] inv_parts apply blast
      using env_ok_tail(1) [OF assms(1), of pid xs] assms(3) by (auto intro!: ends_emit simp: sret_def)
    done
qed


lemma client_lookup_run: "clients_ok s \<Longrightarrow> client_lookup key s = Done (map_of (list_pairs (clients s)) key) s"
  by (simp add: client_lookup_def slift_def list_lookup_spec clients_ok_def)

lemma map_of_addrs: "map_of (list_pairs (clients s)) key = Some p \<Longrightarrow> p \<in> addrs s"
  by (force simp: addrs_def dest: map_of_SomeD)

lemma add_process:
  assumes "server_inv s" "list_inv l" "list_pairs l = list_pairs (processes s) @ [(pid, p)]"
    "small_id (task_id p)" "length (outfile p) \<le> 2 ^ 29 + 11"
  shows "server_inv (s\<lparr>processes := l\<rparr>)" "potential (s\<lparr>processes := l\<rparr>) = Suc (potential s)"
proof -
  show "server_inv (s\<lparr>processes := l\<rparr>)" using assms by (auto simp: inv_defs)
  have "length (list_pairs l) = Suc (length (list_pairs (processes s)))" by (simp only: assms(3) length_append) simp
  then show "potential (s\<lparr>processes := l\<rparr>) = Suc (potential s)" by (simp add: weight_defs del: length_list_pairs)
qed

lemma register_ends:
  assumes "server_inv s" "potential s < 2 ^ 30 - 1" "p \<in> addrs s" "small_id (task_id pr)" "length (outfile pr) \<le> 2 ^ 29 + 11"
  shows "ends (grows 2 s) (sbind (sget (\<lambda>s. list_append (processes s) pid pr)) (\<lambda>a.
           sbind (slift a) (\<lambda>l. sbind (smod (\<lambda>s. s\<lparr>processes := l\<rparr>)) (\<lambda>_. send_started_msg_to_client p (task_id pr)))) s)"
proof (rule ends_get, rule ends_lift_cases)
  have inv: "list_inv (processes s)" using assms(1) by (simp add: inv_defs)
  fix l assume l: "list_append (processes s) pid pr = Inr l"
  then have "list_room (processes s)" using list_append_no_room [OF inv, of pid pr] by fastforce
  then have "list_inv l \<and> list_pairs l = list_pairs (processes s) @ [(pid, pr)]"
    using list_append_spec [OF inv, of pid pr] l by (metis Inr_inject)
  then have "server_inv (s\<lparr>processes := l\<rparr>)" "potential (s\<lparr>processes := l\<rparr>) = Suc (potential s)"
    using add_process [OF assms(1) _ _ assms(4,5)] by auto
  then have "ends (grows 1 (s\<lparr>processes := l\<rparr>)) (send_started_msg_to_client p (task_id pr) (s\<lparr>processes := l\<rparr>))"
    by (intro send_started_ends) (use assms in simp_all)
  then have "ends (grows 2 s) (send_started_msg_to_client p (task_id pr) (s\<lparr>processes := l\<rparr>))"
    by (rule grows_trans [where j = 1]) (use \<open>potential (s\<lparr>processes := l\<rparr>) = Suc (potential s)\<close> in simp_all)
  then show "ends (grows 2 s) (sbind (smod (\<lambda>s. s\<lparr>processes := l\<rparr>)) (\<lambda>_. send_started_msg_to_client p (task_id pr)) s)"
    by (rule ends_mod)
next
  have inv: "list_inv (processes s)" using assms(1) by (simp add: inv_defs)
  fix e assume e: "list_append (processes s) pid pr = Inl e"
  then have "\<not> list_room (processes s)" using list_append_spec [OF inv, of pid pr] by (metis Inl_Inr_False)
  then show "e \<in> tolerated" using list_append_no_room [OF inv] e by fastforce
qed

lemma open_temp_file_ends:
  assumes "server_inv s" "\<And>fd six ys. length six = 6 \<Longrightarrow> ends Q (f (fd, current_dir s @ ''/why3'' @ six) (s\<lparr>s_os := (s_os s)\<lparr>os_mkstemp := ys\<rparr>\<rparr>))"
  shows "ends Q (sbind (open_temp_file (current_dir s)) f s)"
proof -
  have a: "sbind (sbind m g) f s = sbind m (\<lambda>x. sbind (g x) f) s" for m :: "'x sm" and g
    by (simp add: sbind_def split: run.splits)
  show ?thesis unfolding open_temp_file_def a sys_mkstemp_def
    by (rule ends_syscall) (use assms(2) in \<open>auto simp: sbind_def sret_def\<close>)
qed

lemma launch_ends:
  assumes "server_inv s" "potential s < 2 ^ 30 - 1" "p \<in> addrs s" "small_id i" "length out_file \<le> 2 ^ 29 + 11" "argc = int (length argv)"
  shows "ends (grows 2 s) (sbind (create_process c argc argv u fd t m) (\<lambda>pid.
           sbind (emit (E_close fd)) (\<lambda>_.
           sbind (sget (\<lambda>s. list_append (processes s) pid \<lparr>proc_id = pid, client_key = key, task_id = i, outfile = out_file\<rparr>)) (\<lambda>a.
           sbind (slift a) (\<lambda>l.
           sbind (smod (\<lambda>s. s\<lparr>processes := l\<rparr>)) (\<lambda>_. send_started_msg_to_client p i))))) s)"
proof (rule ends_bind, rule create_process_ends [OF assms(1,6)], rule ends_emit)
  fix pid :: int and t' eff
  assume a: "server_inv (s\<lparr>s_os := t', s_out := eff\<rparr>)" "potential (s\<lparr>s_os := t', s_out := eff\<rparr>) = potential s"
  define s1 where "s1 = s\<lparr>s_os := t', s_out := s_out (s\<lparr>s_os := t', s_out := eff\<rparr>) @ [E_close fd]\<rparr>"
  define pr where "pr = \<lparr>proc_id = pid, client_key = key, task_id = i, outfile = out_file\<rparr>"
  have e: "s1 = (s\<lparr>s_os := t', s_out := eff\<rparr>)\<lparr>s_out := eff @ [E_close fd]\<rparr>" by (simp add: s1_def)
  have s1: "server_inv s1" "potential s1 = potential s" "quiet s s1" "addrs s1 = addrs s"
    using a unfolding e by simp_all
  have "ends (grows 2 s1) (sbind (sget (\<lambda>s. list_append (processes s) pid pr)) (\<lambda>a.
         sbind (slift a) (\<lambda>l. sbind (smod (\<lambda>s. s\<lparr>processes := l\<rparr>)) (\<lambda>_. send_started_msg_to_client p (task_id pr)))) s1)"
    using assms s1 by (intro register_ends) (simp_all add: pr_def)
  then have "ends (grows 2 s) (sbind (sget (\<lambda>s. list_append (processes s) pid pr)) (\<lambda>a.
         sbind (slift a) (\<lambda>l. sbind (smod (\<lambda>s. s\<lparr>processes := l\<rparr>)) (\<lambda>_. send_started_msg_to_client p (task_id pr)))) s1)"
    by (rule grows_trans [where j = 0]) (use s1 in simp_all)
  then show "ends (grows 2 s) (sbind (sget (\<lambda>s. list_append (processes s) pid
        \<lparr>proc_id = pid, client_key = key, task_id = i, outfile = out_file\<rparr>)) (\<lambda>a.
         sbind (slift a) (\<lambda>l. sbind (smod (\<lambda>s. s\<lparr>processes := l\<rparr>)) (\<lambda>_. send_started_msg_to_client p i)))
       (s\<lparr>s_os := t', s_out := eff, s_out := s_out (s\<lparr>s_os := t', s_out := eff\<rparr>) @ [E_close fd]\<rparr>))"
    by (simp add: pr_def s1_def)
qed

lemma run_request_ends:
  assumes "server_inv s" "potential s < 2 ^ 30 - 1" "runnable r"
  shows "ends (grows 2 s) (run_request r s)"
proof -
  have cl: "clients_ok s" using assms(1) by (simp add: server_inv_def)
  show ?thesis
  proof (cases "map_of (list_pairs (clients s)) (req_key r)")
    case None
    then show ?thesis
      unfolding run_request_def sbind_def client_lookup_run [OF cl] using assms(1) by (simp add: sret_def grows_def)
  next
    case (Some p)
    obtain f where f: "req_run r = Some f" "numargs f = int (length (args f))" and id: "small_id (req_id r)"
      using assms(3) by (auto simp: runnable_def)
    have dir: "length (current_dir s) \<le> 2 ^ 29" using assms(1) by (simp add: inv_defs)
    have "ends (grows 2 s) (sbind (open_temp_file (current_dir s)) (\<lambda>(out_descr, out_file).
           sbind (slift (case req_run r of None \<Rightarrow> Inl Uninit_read | Some f \<Rightarrow> Inr f)) (\<lambda>f.
           sbind (create_process (cmd f) (numargs f) (args f) (usestdin f) out_descr (timeout f) (memlimit f)) (\<lambda>pid.
           sbind (emit (E_close out_descr)) (\<lambda>_.
           sbind (sget (\<lambda>s. list_append (processes s) pid
                     \<lparr>proc_id = pid, client_key = req_key r, task_id = req_id r, outfile = out_file\<rparr>)) (\<lambda>a.
           sbind (slift a) (\<lambda>l.
           sbind (smod (\<lambda>s. s\<lparr>processes := l\<rparr>)) (\<lambda>_.
           send_started_msg_to_client p (req_id r)))))))) s)"
    proof (rule open_temp_file_ends [OF assms(1)], unfold prod.case f(1) option.case, rule ends_lift [OF refl], rule grows_trans [where j = 0 and k = 2], rule launch_ends)
      fix ys
      show "server_inv (s\<lparr>s_os := (s_os s)\<lparr>os_mkstemp := ys\<rparr>\<rparr>)" by (rule env_ok_tail(2) [OF assms(1)])
    qed (use assms(2) map_of_addrs [OF Some] f id dir in simp_all)
    then show ?thesis
      unfolding run_request_def sbind_def client_lookup_run [OF cl] Some by (simp add: sget_def)
  qed
qed


section \<open>Scheduling and terminated processes\<close>

lemma schedule_ends: "server_inv s \<Longrightarrow> potential s < 2 ^ 30 - 1 \<Longrightarrow> ends (grows 0 s) (schedule_new_jobs s)"
proof (induction s rule: schedule_new_jobs.induct)
  case (1 s)
  show ?case
  proof (cases "list_length (processes s) < parallel (s_opts s) \<and> \<not> queue_is_empty (queue s)")
    case False
    then show ?thesis using 1(2) by (auto simp: schedule_new_jobs.simps [of s] grows_def)
  next
    case True
    have q: "queue_inv (queue s)" using 1(2) by (simp add: inv_defs)
    have ne: "queue_list (queue s) \<noteq> []" using True queue_is_empty_iff by auto
    obtain q where pop: "queue_pop (queue s) = Inr (hd (queue_list (queue s)), q)" "queue_inv q"
      "queue_list q = tl (queue_list (queue s))" by (rule queue_pop_spec [OF q ne]) metis
    define r where "r = hd (queue_list (queue s))"
    have run: "runnable r" and s1: "server_inv (s\<lparr>queue := q\<rparr>)"
      using 1(2) pop ne by (auto simp: inv_defs r_def dest: list.set_sel(2))
    have "length (queue_list (queue s)) = Suc (length (queue_list q))"
      unfolding pop(3) using ne by (simp del: length_queue_list)
    then have p1: "potential (s\<lparr>queue := q\<rparr>) + 2 = potential s" by (simp add: weight_defs del: length_queue_list)
    have "ends (grows 2 (s\<lparr>queue := q\<rparr>)) (run_request r (s\<lparr>queue := q\<rparr>))"
      by (rule run_request_ends [OF s1 _ run]) (use p1 1(3) in simp)
    then have "ends (\<lambda>x s'. ends (grows 0 s) (schedule_new_jobs s')) (run_request r (s\<lparr>queue := q\<rparr>))"
    proof (cases "run_request r (s\<lparr>queue := q\<rparr>)")
      case (Done u s2)
      with \<open>ends (grows 2 (s\<lparr>queue := q\<rparr>)) _\<close> have g: "server_inv s2" "potential s2 \<le> potential s" "quiet s s2"
        using p1 by (auto simp: grows_def quiet_def poll_calm_def)
      have "ends (grows 0 s2) (schedule_new_jobs s2)"
        by (rule 1(1) [OF True pop(1) [folded r_def] refl Done g(1)]) (use g 1(3) in simp)
      then show ?thesis using Done g by (auto intro: grows_trans [where j = 0])
    qed simp_all
    then show ?thesis using True pop(1) by (simp add: schedule_new_jobs.simps [of s] ends_case_run r_def)
  qed
qed

lemma remove_process:
  assumes "server_inv s" "map_of (list_pairs (processes s)) pid = Some p"
  obtains l where "list_remove (processes s) pid = Inr l" "server_inv (s\<lparr>processes := l\<rparr>)"
    "Suc (potential (s\<lparr>processes := l\<rparr>)) = potential s"
proof -
  have inv: "list_inv (processes s)" using assms(1) by (simp add: inv_defs)
  obtain l where l: "list_remove (processes s) pid = Inr l" "list_inv l"
    "mset (list_pairs l) = mset (list_pairs (processes s)) - {#(pid, p)#}"
    using list_remove_spec [OF inv, of pid] assms(2) by (metis option.simps(5))
  have m: "(pid, p) \<in># mset (list_pairs (processes s))" using map_of_SomeD [OF assms(2)] by simp
  have "set (list_pairs l) \<subseteq> set (list_pairs (processes s))"
    using l(3) by (metis in_diffD set_mset_mset subsetI)
  then have "server_inv (s\<lparr>processes := l\<rparr>)" using assms(1) l(2) by (auto simp: inv_defs)
  moreover have "Suc (length (list_pairs l)) = length (list_pairs (processes s))"
    using arg_cong [OF l(3), of size] size_Suc_Diff1 [OF m] by (simp del: length_list_pairs)
  then have "Suc (potential (s\<lparr>processes := l\<rparr>)) = potential s" by (simp add: weight_defs del: length_list_pairs)
  ultimately show ?thesis using that l(1) by blast
qed

lemma handle_child_ends:
  assumes "server_inv s" "potential s < 2 ^ 30" "running_child s pid"
  shows "ends (grows 0 s) (handle_child ft pid st sec usec s)"
proof -
  have inv: "list_inv (processes s)" using assms(1) by (simp add: inv_defs)
  obtain ec tmo where st: "decode_status st = (ec, tmo)" by (metis surj_pair)
  from assms(3) obtain child where c: "map_of (list_pairs (processes s)) pid = Some child"
    by (metis map_of_eq_None_iff not_Some_eq running_child_def set_map)
  obtain l where l: "list_remove (processes s) pid = Inr l" "server_inv (s\<lparr>processes := l\<rparr>)"
    "Suc (potential (s\<lparr>processes := l\<rparr>)) = potential s" by (rule remove_process [OF assms(1) c])
  have child: "small_id (task_id child)" "length (outfile child) \<le> 2 ^ 29 + 11"
    using assms(1) map_of_SomeD [OF c] by (auto simp: inv_defs)
  have cl: "clients_ok (s\<lparr>processes := l\<rparr>)" using l(2) by (simp add: server_inv_def)
  have "ends (grows 0 s) (case map_of (list_pairs (clients s)) (client_key child) of None \<Rightarrow> sret () (s\<lparr>processes := l\<rparr>)
     | Some p \<Rightarrow> send_msg_to_client p (task_id child) ec (ft sec usec) tmo (outfile child) (s\<lparr>processes := l\<rparr>))"
  proof (cases "map_of (list_pairs (clients s)) (client_key child)")
    case (Some p)
    have "ends (grows 1 (s\<lparr>processes := l\<rparr>)) (send_msg_to_client p (task_id child) ec (ft sec usec) tmo (outfile child) (s\<lparr>processes := l\<rparr>))"
      by (rule send_msg_ends [OF l(2)]) (use map_of_addrs [OF Some] child l(3) assms(2) in simp_all)
    then show ?thesis using Some l(3) by (auto simp: grows_def elim!: ends_mono intro: quiet_trans [rotated])
  qed (use l in \<open>simp add: sret_def grows_def\<close>)
  then show ?thesis unfolding handle_child_def st prod.case
    by (intro ends_get ends_lift [OF list_lookup_spec [OF inv]] ends_lift [OF l(1)] ends_mod)
      (simp add: c sbind_run client_lookup_run [OF cl] split: option.splits)
qed

lemma handle_child_loop_ends:
  "server_inv s \<Longrightarrow> potential s < 2 ^ 30 \<Longrightarrow> ends (grows 0 s) (handle_child_loop ft ws s)"
proof (induction ws arbitrary: s)
  case (Cons w ws)
  obtain pid st sec usec where w: "w = (pid, st, sec, usec)" by (cases w) auto
  define s1 where "s1 = s\<lparr>s_os := (s_os s)\<lparr>os_wait3 := ws\<rparr>\<rparr>"
  have s1: "server_inv s1" "potential s1 = potential s" "quiet s s1" using Cons.prems by (simp_all add: s1_def)
  have "ends (grows 0 s1) (sbind (handle_child ft pid st sec usec) (\<lambda>_. handle_child_loop ft ws) s1)"
    if "running_child s1 pid"
  proof (rule ends_bind, rule ends_mono [OF handle_child_ends [OF s1(1) _ that]])
    fix x s2 assume g: "grows 0 s1 x s2"
    then have "ends (grows 0 s2) (handle_child_loop ft ws s2)"
      by (intro Cons.IH) (use s1 Cons.prems in \<open>auto simp: grows_def\<close>)
    then show "ends (grows 0 s1) (handle_child_loop ft ws s2)"
      by (rule grows_trans [where j = 0]) (use g in \<open>auto simp: grows_def\<close>)
  qed (use s1 Cons.prems in simp)
  then have "ends (grows 0 s) (sbind (handle_child ft pid st sec usec) (\<lambda>_. handle_child_loop ft ws) s1)"
    if "running_child s1 pid"
    by (rule grows_trans [where j = 0]) (use that s1 in simp_all)
  moreover have "grows 0 s () s1" using s1 by (simp add: grows_def)
  ultimately show ?case unfolding w handle_child_loop.simps
    by (intro ends_mod) (simp add: s1_def [symmetric] sbind_run [of "sget _"] sget_run sret_run slift_run)
qed (simp add: slift_run)

lemma handle_child_events_ends:
  "server_inv s \<Longrightarrow> potential s < 2 ^ 30 \<Longrightarrow> ends (grows 0 s) (handle_child_events ft s)"
  unfolding handle_child_events_def by (intro ends_get handle_child_loop_ends)

end
