(* ===== verification/Server_input.thy ===== *)
theory Server_input
  imports Server_jobs
begin

text \<open>
  Safety of the handlers of client input: every line of a client is dispatched without
  failure and costs at most twice its number of bytes, which the bytes themselves paid for
  when they were received.
\<close>

section \<open>One line\<close>

lemma split_semi_length: "f \<in> set (split_semi s) \<Longrightarrow> length f \<le> length s"
proof (induction s arbitrary: f)
  case (Cons c cs)
  then show ?case by (cases "split_semi cs") (auto split: if_splits intro: le_SucI)
qed simp

lemma atoi_cases: obtains "atoi s = Inl Int_overflow" | n where "atoi s = Inr n" "n \<le> INT_MAX"
  by (cases "atoi s") (auto simp: atoi_def Let_def INT_MAX_def split: if_splits)

lemma parse_request_cases:
  assumes "1 \<le> par" "par \<le> INT_MAX" "length line \<le> 2 ^ 30"
  obtains "parse_request line key par = Inl Int_overflow"
  | par' req where "parse_request line key par = Inr (par', req)" "1 \<le> par'" "par' \<le> INT_MAX"
    "\<And>r. req = Some r \<Longrightarrow> req_type r = REQ_RUN \<Longrightarrow> runnable r"
proof -
  define fs where "fs = map cstr (split_semi line)"
  have small: "small_id f" if "f \<in> set fs" for f
    using that assms(3) unfolding fs_def small_id_def
    by (auto intro: order_trans [OF length_cstr] order_trans [OF split_semi_length])
  have p: "parse_request line key par = request_of_fields key par fs" by (simp add: parse_request_fields fs_def)
  consider a b where "fs = [a, b]" | a i t m c as where "fs = a # i # t # m # c # as"
    | "request_of_fields key par fs = Inr (par, None)"
    unfolding request_of_fields_def
    by (cases fs; cases "tl fs"; cases "tl (tl fs)"; cases "tl (tl (tl fs))"; cases "tl (tl (tl (tl fs)))") auto
  then show ?thesis
  proof cases
    case 1
    then show ?thesis using assms that p
      by (cases rule: atoi_cases [of b]) (auto simp: request_of_fields_def split: if_splits)
  next
    case 2
    have i: "small_id i" using small 2 by simp
    show ?thesis
    proof (cases "a = ''run'' \<or> a = ''runstdin''")
      case True
      show ?thesis
      proof (cases rule: atoi_cases [of t])
        case 1
        then show ?thesis using that(1) p 2 True by (auto simp: request_of_fields_def)
      next
        case t: (2 tn)
        show ?thesis
        proof (cases rule: atoi_cases [of m])
          case 1
          then show ?thesis using that(1) p 2 True t by (auto simp: request_of_fields_def)
        next
          case m: (2 mn)
          then show ?thesis using that(2) p 2 True t assms i by (auto simp: request_of_fields_def runnable_def)
        qed
      qed
    qed (use that(2) p 2 assms in \<open>auto simp: request_of_fields_def\<close>)
  qed (use that(2) p assms in auto)
qed

lemma inv_opts:
  assumes "server_inv s" "1 \<le> par" "par \<le> INT_MAX"
  shows "server_inv (s\<lparr>s_opts := (s_opts s)\<lparr>parallel := par\<rparr>\<rparr>)"
  using assms by (simp add: inv_defs)

lemma inv_log: "server_inv s \<Longrightarrow> (logging (s_opts s) \<Longrightarrow> f \<noteq> None) \<Longrightarrow> server_inv (s\<lparr>logfile := f\<rparr>)"
  by (simp add: inv_defs)

lemma server_log_then:
  assumes "server_inv s" "\<And>f. server_inv (s\<lparr>logfile := f\<rparr>) \<Longrightarrow> ends (grows k (s\<lparr>logfile := f\<rparr>)) (g () (s\<lparr>logfile := f\<rparr>))"
  shows "ends (grows k s) (sbind (server_log msg) g s)"
proof (rule ends_bind, rule server_log_ends)
  show "env_ok s" using assms(1) by (simp add: server_inv_def)
  fix f :: "string option"
  assume "logging (s_opts s) \<Longrightarrow> f \<noteq> None"
  then have "ends (grows k (s\<lparr>logfile := f\<rparr>)) (g () (s\<lparr>logfile := f\<rparr>))" using assms inv_log by blast
  then show "ends (grows k s) (g () (s\<lparr>logfile := f\<rparr>))"
    by (rule grows_trans [where j = 0]) simp_all
qed

lemma enqueue_ends:
  assumes "server_inv s" "potential s \<le> 2 ^ 30" "runnable r"
  shows "ends (grows 2 s) (sbind (sget (\<lambda>s. queue_push (queue s) r)) (\<lambda>q. sbind (slift q) (\<lambda>q. smod (\<lambda>s. s\<lparr>queue := q\<rparr>))) s)"
proof -
  have q: "queue_inv (queue s)" using assms(1) by (simp add: inv_defs)
  have "length (queue_list (queue s)) \<le> 2 ^ 30" using assms(2) by (simp add: potential_def)
  from queue_push_spec [OF q queue_room_small [OF q this], of r] obtain q' where
    q': "queue_push (queue s) r = Inr q'" "queue_inv q'" "queue_list q' = queue_list (queue s) @ [r]" by metis
  have "server_inv (s\<lparr>queue := q'\<rparr>)" using assms(1,3) q' by (auto simp: inv_defs)
  moreover have "length (queue_list q') = Suc (length (queue_list (queue s)))" by (simp add: q'(3) del: length_queue_list)
  then have "potential (s\<lparr>queue := q'\<rparr>) = potential s + 2" by (simp add: weight_defs del: length_queue_list)
  ultimately show ?thesis by (simp add: run_simps q'(1) grows_def)
qed

lemma interrupt_ends:
  assumes "server_inv s"
  shows "ends (grows 0 s) (sbind (sget (\<lambda>s. remove_from_queue (queue s) i)) (\<lambda>q.
                sbind (slift q) (\<lambda>q.
                sbind (smod (\<lambda>s. s\<lparr>queue := q\<rparr>)) (\<lambda>_.
                sbind (sget (\<lambda>s. kill_processes (processes s) i)) (\<lambda>k.
                sbind (slift k) (\<lambda>pids.
                smod (\<lambda>s. s\<lparr>s_out := s_out s @ map E_kill pids\<rparr>)))))) s)"
proof -
  have q: "queue_inv (queue s)" and l: "list_inv (processes s)" using assms by (simp_all add: inv_defs)
  obtain q' where q': "remove_from_queue (queue s) i = Inr q'" "queue_inv q'"
    "queue_list q' = filter (\<lambda>r. req_id r \<noteq> i) (queue_list (queue s))" by (rule remove_from_queue_filter [OF q])
  have "server_inv (s\<lparr>queue := q'\<rparr>)" using assms q' by (auto simp: inv_defs)
  moreover have "length (queue_list q') \<le> length (queue_list (queue s))" by (simp add: q'(3) del: length_queue_list)
  then have "potential (s\<lparr>queue := q'\<rparr>) \<le> potential s" by (simp add: weight_defs del: length_queue_list)
  ultimately show ?thesis by (simp add: run_simps q'(1) kill_processes_eq [OF l] grows_def)
qed

lemma handle_request_ends:
  assumes "server_inv s" "potential s < 2 ^ 30 - 1" "req_type r = REQ_RUN \<Longrightarrow> runnable r"
  shows "ends (grows 2 s) (handle_request r s)"
proof (cases "req_type r")
  case REQ_RUN
  then show ?thesis unfolding handle_request_def REQ_RUN request_type.case
    by (intro ends_get) (use run_request_ends [OF assms(1,2)] enqueue_ends [OF assms(1)] assms(2,3) REQ_RUN in simp)
next
  case REQ_INTERRUPT
  have "ends (grows 0 s) (handle_request r s)"
    unfolding handle_request_def REQ_INTERRUPT request_type.case by (rule server_log_then [OF assms(1)], rule interrupt_ends)
  then show ?thesis by (rule ends_mono) (simp add: grows_def)
qed

lemma handle_line_ends:
  assumes "server_inv s" "potential s < 2 ^ 30 - 1" "length line \<le> 2 ^ 30"
  shows "ends (grows 2 s) (handle_line line key s)"
  unfolding handle_line_def
proof (rule server_log_then [OF assms(1)], rule ends_get)
  fix f define s1 where "s1 = s\<lparr>logfile := f\<rparr>"
  assume "server_inv (s\<lparr>logfile := f\<rparr>)"
  then have s1: "server_inv s1" "potential s1 = potential s" by (simp_all add: s1_def)
  have par: "1 \<le> parallel (s_opts s1)" "parallel (s_opts s1) \<le> INT_MAX" using s1(1) by (simp_all add: inv_defs)
  have "ends (grows 2 s1) (sbind (slift (parse_request line key (parallel (s_opts s1)))) (\<lambda>(par, req).
     sbind (smod (\<lambda>s. s\<lparr>s_opts := (s_opts s)\<lparr>parallel := par\<rparr>\<rparr>)) (\<lambda>_.
       case req of None \<Rightarrow> sret () | Some r \<Rightarrow> handle_request r)) s1)"
  proof (cases rule: parse_request_cases [OF par assms(3), of key])
    case 1
    then show ?thesis by (simp add: sbind_run slift_run)
  next
    case (2 par' req)
    define s2 where "s2 = s1\<lparr>s_opts := (s_opts s1)\<lparr>parallel := par'\<rparr>\<rparr>"
    have s2: "server_inv s2" "potential s2 = potential s" "quiet s1 s2"
      using inv_opts [OF s1(1) 2(2,3)] s1(2) by (simp_all add: s2_def)
    have "ends (grows 2 s2) ((case req of None \<Rightarrow> sret () | Some r \<Rightarrow> handle_request r) s2)"
    proof (cases req)
      case (Some r)
      with handle_request_ends [OF s2(1), of r] s2(2) assms(2) 2(4) show ?thesis by simp
    qed (use s2 in \<open>simp add: sret_run grows_def\<close>)
    then have "ends (grows 2 s1) ((case req of None \<Rightarrow> sret () | Some r \<Rightarrow> handle_request r) s2)"
      by (rule grows_trans [where j = 0]) (use s1 s2 in simp_all)
    then show ?thesis unfolding 2(1) by (simp add: sbind_run slift_run smod_run s2_def)
  qed
  then show "ends (grows 2 (s\<lparr>logfile := f\<rparr>)) (sbind (slift (parse_request line key (parallel (s_opts (s\<lparr>logfile := f\<rparr>))))) (\<lambda>(par, req).
     sbind (smod (\<lambda>s. s\<lparr>s_opts := (s_opts s)\<lparr>parallel := par\<rparr>\<rparr>)) (\<lambda>_.
       case req of None \<Rightarrow> sret () | Some r \<Rightarrow> handle_request r)) (s\<lparr>logfile := f\<rparr>))"
    by (simp only: s1_def)
qed


section \<open>The lines of a buffer\<close>

lemma find_newline_run:
  assumes "cur \<le> mx" "\<forall>i < mx. buf ! i \<noteq> None" "mx \<le> length buf"
  obtains n where "find_newline buf cur (int mx) = Inr n" "cur \<le> n" "n \<le> mx"
proof -
  have "\<exists>n. find_newline buf cur (int mx) = Inr n \<and> cur \<le> n \<and> n \<le> mx"
    using assms
  proof (induction buf cur "int mx" rule: find_newline.induct)
    case (1 buf cur)
    show ?case
    proof (cases "cur < mx")
      case True
      have r: "arr_read buf cur = Inr (the (buf ! cur))" using 1(3,4) True by (intro arr_read_ok) auto
      show ?thesis
      proof (cases "the (buf ! cur) = CHR 0x0A")
        case False
        then have "\<exists>n. find_newline buf (Suc cur) (int mx) = Inr n \<and> Suc cur \<le> n \<and> n \<le> mx"
          using 1(1) [OF _ r False] 1(3,4) True by auto
        then show ?thesis using True r False by (auto simp: find_newline.simps [of buf cur])
      qed (use True r in \<open>auto simp: find_newline.simps [of buf cur]\<close>)
    qed (use 1(2) in \<open>simp add: find_newline.simps [of buf mx]\<close>)
  qed
  then show ?thesis using that by blast
qed

lemma arr_slice_run: "\<forall>i \<in> set is. i < length a \<and> a ! i \<noteq> None \<Longrightarrow> \<exists>xs. arr_slice a is = Inr xs \<and> length xs = length is"
  by (induction "is") (auto simp: arr_read_def)

lemma handle_lines_ends:
  assumes "server_inv s" "potential s + 2 * (mx - cur) < 2 ^ 30" "cur \<le> mx" "old = cur" "\<forall>i < mx. buf ! i \<noteq> None" "mx \<le> length buf" "mx \<le> 2 ^ 30"
  shows "ends (\<lambda>k s'. server_inv s' \<and> quiet s s' \<and> cur \<le> k \<and> k \<le> mx \<and> potential s' \<le> potential s + 2 * (k - cur))
    (handle_lines buf (int mx) key cur old s)"
  using assms
proof (induction buf "int mx" key cur old s rule: handle_lines.induct)
  case (1 buf key cur old s)
  note prems = 1(2-8)
  show ?case
  proof (cases "cur < mx")
    case True
    obtain n where n: "find_newline buf cur (int mx) = Inr n" "cur \<le> n" "n \<le> mx"
      using find_newline_run [OF prems(3,5,6)] .
    show ?thesis
    proof (cases "n = mx")
      case False
      then have nl: "n < mx" using n(3) by simp
      have "\<forall>i \<in> set [old..<n]. i < length buf \<and> buf ! i \<noteq> None" using prems(5,6) nl by auto
      from arr_slice_run [OF this] obtain line where line: "arr_slice buf [old..<n] = Inr line" "length line \<le> 2 ^ 30"
        using n(3) prems(7) by auto
      have "ends (grows 2 s) (handle_line line key s)"
        by (rule handle_line_ends [OF prems(1) _ line(2)]) (use prems(2) nl n(2) in simp)
      then have "ends (\<lambda>u s1. ends (\<lambda>k s'. server_inv s' \<and> quiet s s' \<and> cur \<le> k \<and> k \<le> mx \<and> potential s' \<le> potential s + 2 * (k - cur))
          (handle_lines buf (int mx) key (Suc n) (Suc n) s1)) (handle_line line key s)"
      proof (cases "handle_line line key s")
        case (Done u s1)
        with \<open>ends (grows 2 s) _\<close> have g: "server_inv s1" "potential s1 \<le> potential s + 2" "quiet s s1" by (auto simp: grows_def)
        have "ends (\<lambda>k s'. server_inv s' \<and> quiet s1 s' \<and> Suc n \<le> k \<and> k \<le> mx \<and> potential s' \<le> potential s1 + 2 * (k - Suc n))
            (handle_lines buf (int mx) key (Suc n) (Suc n) s1)"
        proof (rule 1(1) [OF _ n(1) _ line(1) Done g(1)])
          show "potential s1 + 2 * (mx - Suc n) < 2 ^ 30" using g(2) prems(2) nl n(2) by linarith
        qed (use True False prems nl in auto)
        then show ?thesis using Done g n(2)
          by (auto elim!: ends_mono intro: quiet_trans)
      qed simp_all
      then show ?thesis using True False n(1) line(1)
        by (simp add: handle_lines.simps [of buf _ key cur old s] ends_bind)
    qed (use True n prems in \<open>simp add: handle_lines.simps [of buf _ key cur cur s]\<close>)
  qed (use prems in \<open>simp add: handle_lines.simps [of buf _ key mx mx s]\<close>)
qed


section \<open>Input of a client\<close>

text \<open>
  The handlers of a client keep the invariant and the potential, and the entries after the
  one that is handled still ask for the writes they report, and report nothing but
  connections on the listening socket.
\<close>

definition asked :: "nat \<Rightarrow> server \<Rightarrow> bool" where
  "asked i s \<longleftrightarrow> (\<forall>j. i \<le> j \<longrightarrow> j < poll_num s \<longrightarrow>
     (pf_revents (entry s j) AND POLLOUT \<noteq> 0 \<longrightarrow> wants_write (entry s j)) \<and>
     (pf_fd (entry s j) = server_sock s \<longrightarrow> pf_revents (entry s j) = 0 \<or> pf_revents (entry s j) = POLLIN))"

definition handled :: "nat \<Rightarrow> server \<Rightarrow> unit \<Rightarrow> server \<Rightarrow> bool" where
  "handled i s = (\<lambda>_ s'. server_inv s' \<and> potential s' \<le> potential s \<and> (asked i s \<longrightarrow> asked (Suc i) s'))"

lemma asked_Suc: "asked i s \<Longrightarrow> asked (Suc i) s"
  by (simp add: asked_def)

lemma asked_calm: "poll_calm s s' \<Longrightarrow> asked i s \<Longrightarrow> asked i s'"
  by (auto simp: poll_calm_def asked_def)

lemma handled_trans:
  "ends (handled i s1) r \<Longrightarrow> potential s1 \<le> potential s \<Longrightarrow> (asked i s \<Longrightarrow> asked i s1) \<Longrightarrow> ends (handled i s) r"
  by (erule ends_mono) (auto simp: handled_def)

lemma grows_handled: "ends (grows 0 s) r \<Longrightarrow> ends (handled i s) r"
  by (erule ends_mono) (auto simp: grows_def handled_def quiet_def intro: asked_calm asked_Suc)

text \<open>A client that gets another read buffer.\<close>

lemma put_readbuf:
  assumes "server_inv s" "s_heap s p = Some c" "p \<in> addrs s" "readbuf_inv rb" "unat (r_capacity rb) \<le> 2 ^ 33"
  defines "s' \<equiv> s\<lparr>s_heap := (s_heap s)(p \<mapsto> c\<lparr>c_readbuf := rb\<rparr>)\<rparr>"
  shows "server_inv s'" "potential s' + 2 * client_bytes c = potential s + 2 * length (readbuf_bytes rb)"
    "poll_calm s s'" "addrs s' = addrs s"
proof -
  obtain c' where "s_heap s p = Some c'" "client_ok c'" using addr_client assms(1,3) by (metis server_inv_def)
  then have c: "client_ok c" using assms(2) by simp
  show "server_inv s'" unfolding s'_def
    by (rule inv_put_client [OF assms(1,2)]) (use c assms(4,5) in \<open>simp_all add: client_ok_def\<close>)
  show "potential s' + 2 * client_bytes c = potential s + 2 * length (readbuf_bytes rb)"
    using potential_put_client [OF assms(3,2), of "c\<lparr>c_readbuf := rb\<rparr>"]
    by (simp add: s'_def client_weight_def client_msgs_def client_bytes_def)
qed (simp_all add: s'_def poll_calm_def)

lemma client_bytes_le:
  assumes "p \<in> addrs s" "s_heap s p = Some c"
  shows "2 * client_bytes c \<le> potential s"
  using client_weight_le [OF assms] by (simp add: client_weight_def)

lemma consume_ends:
  assumes "server_inv s1" "s_heap s1 p = Some c1" "p \<in> addrs s1" "k \<le> client_bytes c1" "k < 2 ^ 64"
    "potential s1 \<le> potential s + 2 * k" "poll_calm s s1"
  shows "ends (handled i s) (sbind (slift (have_taken (c_readbuf c1) (of_nat k))) (\<lambda>rb. put_client p (c1\<lparr>c_readbuf := rb\<rparr>)) s1)"
proof (rule ends_lift_cases)
  obtain c' where "s_heap s1 p = Some c'" "client_ok c'" using addr_client assms(1,3) by (metis server_inv_def)
  then have rb: "readbuf_inv (c_readbuf c1)" "unat (r_capacity (c_readbuf c1)) \<le> 2 ^ 33"
    using assms(2) by (auto simp: client_ok_def)
  have k: "unat (of_nat k :: 64 word) = k" using assms(5) by (simp add: unsigned_of_nat take_bit_nat_eq_self)
  have le: "unat (of_nat k :: 64 word) \<le> unat (r_len (c_readbuf c1))"
    using assms(4) length_readbuf_bytes [OF rb(1)] by (simp add: k client_bytes_def)
  {
    fix r assume r: "have_taken (c_readbuf c1) (of_nat k) = Inr r"
    have small: "unat (r_len (c_readbuf c1)) - k \<le> k"
      using have_taken_overlap [OF rb(1) le] r by (auto simp: k not_less [symmetric])
    obtain b' where b': "have_taken (c_readbuf c1) (of_nat k) = Inr b'" "readbuf_inv b'"
      "readbuf_bytes b' = drop k (readbuf_bytes (c_readbuf c1))" "r_capacity b' = r_capacity (c_readbuf c1)"
      using have_taken_spec [OF rb(1) le] small unfolding k by metis
    with r have [simp]: "r = b'" by simp
    have cap: "unat (r_capacity b') \<le> 2 ^ 33" using rb(2) b'(4) by simp
    note put = put_readbuf [OF assms(1-3) b'(2) cap]
    have "potential (s1\<lparr>s_heap := (s_heap s1)(p \<mapsto> c1\<lparr>c_readbuf := b'\<rparr>)\<rparr>) \<le> potential s"
      using put(2) assms(4,6) b'(3) by (simp add: client_bytes_def)
    then show "ends (handled i s) (put_client p (c1\<lparr>c_readbuf := r\<rparr>) s1)"
      using put(1,3) assms(7)
      by (auto simp: put_client_def smod_run handled_def intro: asked_calm asked_Suc)
  }
  show "e \<in> tolerated" if "have_taken (c_readbuf c1) (of_nat k) = Inl e" for e
    using that have_taken_overlap [OF rb(1) le] have_taken_spec [OF rb(1) le]
    by (metis Inl_Inr_False Inl_inject not_le tolerated_simps(2))
qed

lemma handle_msg_ends:
  assumes "server_inv s" "s_heap s p = Some c" "p \<in> addrs s" "potential s < 2 ^ 29"
  shows "ends (handled i s) (handle_msg p key s)"
proof -
  obtain c' where "s_heap s p = Some c'" "client_ok c'" using addr_client assms(1,3) by (metis server_inv_def)
  then have rb: "readbuf_inv (c_readbuf c)" using assms(2) by (auto simp: client_ok_def)
  define n where "n = client_bytes c"
  have len: "n = unat (r_len (c_readbuf c))" by (simp add: n_def client_bytes_def length_readbuf_bytes [OF rb])
  have n: "2 * n \<le> potential s" unfolding n_def by (rule client_bytes_le [OF assms(3,2)])
  have "uint (r_len (c_readbuf c)) = int n" unfolding len by (rule uint_nat)
  then have mx: "c_int (uint (r_len (c_readbuf c))) = int n"
    using assms(4) n by (simp add: c_int_def signed_take_bit_int_eq_self)
  have "ends (\<lambda>k s'. server_inv s' \<and> quiet s s' \<and> 0 \<le> k \<and> k \<le> n \<and> potential s' \<le> potential s + 2 * (k - 0))
    (handle_lines (r_data (c_readbuf c)) (int n) key 0 0 s)"
    by (rule handle_lines_ends [OF assms(1)]) (use rb n assms(4) in \<open>auto simp: readbuf_inv_def len\<close>)
  then have "ends (\<lambda>k s'. ends (handled i s) (swhen (k > 0) (sbind (get_client p) (\<lambda>c.
      sbind (slift (have_taken (c_readbuf c) (of_nat k))) (\<lambda>rb. put_client p (c\<lparr>c_readbuf := rb\<rparr>)))) s'))
    (handle_lines (r_data (c_readbuf c)) (int n) key 0 0 s)"
  proof (rule ends_mono)
    fix k s1 assume a: "server_inv s1 \<and> quiet s s1 \<and> 0 \<le> k \<and> k \<le> n \<and> potential s1 \<le> potential s + 2 * (k - 0)"
    then have "map_option c_readbuf (s_heap s1 p) = Some (c_readbuf c)" using assms(2) by (simp add: quiet_def)
    then obtain c1 where c1: "s_heap s1 p = Some c1" "c_readbuf c1 = c_readbuf c" by auto
    have calm: "poll_calm s s1" using a by (simp add: quiet_def)
    have "ends (handled i s) (sbind (slift (have_taken (c_readbuf c1) (of_nat k))) (\<lambda>rb. put_client p (c1\<lparr>c_readbuf := rb\<rparr>)) s1)"
      by (rule consume_ends [OF _ c1(1) _ _ _ _ calm])
        (use a n assms(3,4) quiet_addrs [of s s1] c1(2) in \<open>auto simp: n_def client_bytes_def\<close>)
    then show "ends (handled i s) (swhen (k > 0) (sbind (get_client p) (\<lambda>c.
      sbind (slift (have_taken (c_readbuf c) (of_nat k))) (\<lambda>rb. put_client p (c\<lparr>c_readbuf := rb\<rparr>)))) s1)"
      using a calm by (auto simp: swhen_run handled_def intro: asked_calm asked_Suc intro!: ends_client [OF c1(1)])
  qed
  then show ?thesis unfolding handle_msg_def
    by (intro ends_client [OF assms(2)] ends_bind) (simp add: mx)
qed

end
