(* ===== verification/Server_clients.thy ===== *)
theory Server_clients
  imports Server_input
begin

text \<open>
  Safety of the handlers that change the set of clients or empty their buffers: closing,
  reading, writing and accepting.
\<close>

section \<open>Closing a client\<close>

lemma distinct_snd_unique: "distinct (map snd xs) \<Longrightarrow> (a, p) \<in> set xs \<Longrightarrow> (b, p) \<in> set xs \<Longrightarrow> a = b"
  by (induction xs) force+

lemma remove_client:
  assumes "clients_ok s" "s_heap s p = Some c" "(c_fd c, p) \<in> set (list_pairs (clients s))"
  obtains l where "list_remove (clients s) (c_fd c) = Inr l" "list_inv l" "distinct (map fst (list_pairs l))"
    "distinct (map snd (list_pairs l))" "set (list_pairs l) = set (list_pairs (clients s)) - {(c_fd c, p)}"
    "\<And>k. map_of (list_pairs l) k = (if k = c_fd c then None else map_of (list_pairs (clients s)) k)"
    "\<And>q. q \<in> snd ` set (list_pairs l) \<longleftrightarrow> q \<in> addrs s \<and> q \<noteq> p"
proof -
  have inv: "list_inv (clients s)" "distinct (map fst (list_pairs (clients s)))" "distinct (map snd (list_pairs (clients s)))"
    using assms(1) by (simp_all add: clients_ok_def)
  have m: "map_of (list_pairs (clients s)) (c_fd c) = Some p" using inv(2) assms(3) by simp
  define ps where "ps = filter (\<lambda>q. fst q \<noteq> c_fd c) (list_pairs (clients s))"
  obtain l where l: "list_remove (clients s) (c_fd c) = Inr l" "list_inv l" using list_remove_spec [OF inv(1)] by metis
  have ms: "mset (list_pairs l) = mset ps" unfolding ps_def by (rule al.pairs_after_remove [OF inv(1,2) l(1)])
  have "distinct (map fst ps)" "distinct (map snd ps)" using inv(2,3) by (simp_all add: ps_def distinct_map_filter)
  then have d: "distinct (map fst (list_pairs l))" "distinct (map snd (list_pairs l))"
    using mset_eq_imp_distinct_iff [of "map fst (list_pairs l)" "map fst ps"]
      mset_eq_imp_distinct_iff [of "map snd (list_pairs l)" "map snd ps"] ms by simp_all
  have uniq: "k = c_fd c \<longleftrightarrow> q = p" if "(k, q) \<in> set (list_pairs (clients s))" for k q
    using that assms(3) inv(2,3) by (metis eq_key_imp_eq_value distinct_snd_unique)
  have st: "set (list_pairs l) = set (list_pairs (clients s)) - {(c_fd c, p)}"
    using mset_eq_setD [OF ms] uniq by (auto simp: ps_def)
  moreover have "map_of (list_pairs l) k = (if k = c_fd c then None else map_of (list_pairs (clients s)) k)" for k
    using al.lookup_after_remove [OF inv(1,2) l(1), of k]
    by (simp add: list_lookup_spec [OF l(2)] list_lookup_spec [OF inv(1)] split: if_splits)
  moreover have "q \<in> snd ` set (list_pairs l) \<longleftrightarrow> q \<in> addrs s \<and> q \<noteq> p" for q
    unfolding st addrs_def using uniq by force
  ultimately show ?thesis using that l d by blast
qed


lemma poll_ok_other: "poll_ok (s\<lparr>clients := l, poll_list := pl, s_heap := h\<rparr>) = poll_ok (s\<lparr>poll_list := pl\<rparr>)"
  by (simp add: poll_ok_def)

lemma closed_state:
  assumes inv: "server_inv s" and c: "s_heap s p = Some c" "(c_fd c, p) \<in> set (list_pairs (clients s))"
    and l: "list_remove (clients s) (c_fd c) = Inr l"
    and pl: "poll_ok (s\<lparr>poll_list := pl\<rparr>)" "\<And>i. i < poll_num s \<Longrightarrow> the (pl ! i) =
       (if pf_fd (entry s i) = c_fd c then (entry s i)\<lparr>pf_fd := -1, pf_revents := 0\<rparr> else entry s i)"
  defines "s' \<equiv> s\<lparr>clients := l, poll_list := pl, s_heap := (s_heap s)(p := None)\<rparr>"
  shows "server_inv s'" "potential s' \<le> potential s" "asked i s \<Longrightarrow> asked i s'"
proof -
  have cl: "clients_ok s" using inv by (simp add: server_inv_def)
  obtain l1 where r: "list_remove (clients s) (c_fd c) = Inr l1" "list_inv l1" "distinct (map fst (list_pairs l1))"
    "distinct (map snd (list_pairs l1))" "set (list_pairs l1) = set (list_pairs (clients s)) - {(c_fd c, p)}"
    "\<And>k. map_of (list_pairs l1) k = (if k = c_fd c then None else map_of (list_pairs (clients s)) k)"
    "\<And>q. q \<in> snd ` set (list_pairs l1) \<longleftrightarrow> q \<in> addrs s \<and> q \<noteq> p"
    by (rule remove_client [OF cl c]) metis
  have [simp]: "l1 = l" using r(1) l by simp
  have ne: "q \<noteq> p" if "(k, q) \<in> set (list_pairs l)" for k q using r(7) [of q] that by force
  have no: "map_of (list_pairs l) (- 1) = None"
    using cl r(5) by (auto simp: clients_ok_def map_of_eq_None_iff)
  have "clients_ok s'"
    using cl r(2-5) ne unfolding clients_ok_def s'_def by fastforce
  moreover have "poll_ok s'" using pl(1) by (simp add: s'_def poll_ok_other)
  moreover have "link_ok s'"
    unfolding link_ok_def
  proof (intro allI impI)
    fix j assume j: "j < poll_num s'" "wants_write (entry s' j)"
    then have e: "entry s' j = (if pf_fd (entry s j) = c_fd c then (entry s j)\<lparr>pf_fd := -1, pf_revents := 0\<rparr> else entry s j)"
      using pl(2) by (simp add: s'_def)
    show "has_data s' (pf_fd (entry s' j))"
    proof (cases "pf_fd (entry s j) = c_fd c")
      case True
      then show ?thesis using e no by (simp add: has_data_def s'_def)
    next
      case False
      then have "has_data s (pf_fd (entry s j))" using inv j e by (simp add: server_inv_def link_ok_def s'_def)
      moreover have "q \<noteq> p \<and> map_of (list_pairs (clients s)) (pf_fd (entry s j)) = Some q"
        if "map_of (list_pairs l) (pf_fd (entry s j)) = Some q" for q
        using that ne [OF map_of_SomeD [OF that]] r(6) False by simp
      ultimately show ?thesis using False e by (auto simp: has_data_def s'_def)
    qed
  qed
  ultimately show "server_inv s'" using inv by (simp add: server_inv_def queue_ok_def procs_ok_def env_ok_def s'_def)
  have "addrs s' = snd ` set (list_pairs l)" by (simp add: addrs_def s'_def)
  then have "addrs s' \<subseteq> addrs s" "\<And>q. q \<in> addrs s' \<Longrightarrow> s_heap s' q = s_heap s q" using r(7) by (auto simp: s'_def simp del: image_iff)
  then have "(\<Sum>q \<in> addrs s'. client_weight (the (s_heap s' q))) \<le> (\<Sum>q \<in> addrs s. client_weight (the (s_heap s q)))"
    by (simp add: sum_mono2)
  then show "potential s' \<le> potential s" by (simp add: potential_def input_bytes_def s'_def)
  show "asked i s'" if "asked i s" using that pl(2) by (auto simp: asked_def s'_def wants_write_def)
qed

lemma shutdown_server_ends:
  assumes "clients_ok s" "env_ok s"
  shows "ends Q (shutdown_server s)"
proof -
  obtain n where n: "socketname (s_opts s) = Some n" using assms(2) by (auto simp: env_ok_def)
  show ?thesis unfolding shutdown_server_def
    by (rule ends_get) (simp add: n sbind_run emit_run shutdown_ends assms)
qed

lemma close_client_ends:
  assumes "server_inv s" "p \<in> addrs s"
  shows "ends (handled i s) (close_client p s)"
proof -
  have cl: "clients_ok s" and po: "poll_ok s" using assms(1) by (simp_all add: server_inv_def)
  obtain c where c: "s_heap s p = Some c" "client_ok c" "(c_fd c, p) \<in> set (list_pairs (clients s))"
    by (rule addr_client [OF cl assms(2)])
  obtain l where l: "list_remove (clients s) (c_fd c) = Inr l" by (rule remove_client [OF cl c(1,3)])
  have fd: "c_fd c \<noteq> - 1" using cl c(3) by (auto simp: clients_ok_def)
  have po1: "poll_ok (s\<lparr>clients := l\<rparr>)" using po by (simp add: poll_ok_def)
  obtain pl where pl: "poll_list_remove (c_fd c) (s\<lparr>clients := l\<rparr>) = Done () (s\<lparr>clients := l, poll_list := pl\<rparr>)"
    "poll_ok (s\<lparr>clients := l, poll_list := pl\<rparr>)"
    "\<And>j. j < poll_num s \<Longrightarrow> the (pl ! j) =
       (if pf_fd (entry s j) = c_fd c then (entry s j)\<lparr>pf_fd := -1, pf_revents := 0\<rparr> else entry s j)"
    by (rule poll_list_remove_run [OF po1 fd]) simp
  have po2: "poll_ok (s\<lparr>poll_list := pl\<rparr>)" using pl(2) by (simp add: poll_ok_def)
  define s1 where "s1 = s\<lparr>clients := l, poll_list := pl, s_heap := (s_heap s)(p := None)\<rparr>"
  define s2 where "s2 = s\<lparr>clients := l, poll_list := pl, s_out := s_out s @ [E_close (c_fd c)], s_heap := (s_heap s)(p := None)\<rparr>"
  have e2: "s2 = s1\<lparr>s_out := s_out s @ [E_close (c_fd c)]\<rparr>" by (simp add: s1_def s2_def)
  note st = closed_state [OF assms(1) c(1,3) l po2 pl(3), folded s1_def]
  have s2: "server_inv s2" "potential s2 \<le> potential s" "asked i s \<Longrightarrow> asked (Suc i) s2"
    using st(1,2) st(3) [of i] by (simp_all add: e2) (simp add: asked_def)
  have w: "free_writebuf (c_writebuf c) = Inr ()" using c(2) free_writebuf_ok by (simp add: client_ok_def)
  have sh: "ends Q (shutdown_server s2)" for Q
    by (rule shutdown_server_ends) (use s2(1) in \<open>simp_all add: server_inv_def\<close>)
  have "close_client p s = (if single_client (s_opts s2) \<and> list_is_empty (clients s2) then shutdown_server s2 else Done () s2)"
    unfolding close_client_def
    by (simp add: sbind_run get_client_def c(1) sget_run slift_run l smod_run pl(1) w emit_run swhen_run s2_def)
  then show ?thesis using sh [of "handled i s"] s2 by (simp add: handled_def [of i s])
qed


section \<open>Reading from a client\<close>

lemma prepare_read_ok:
  assumes "readbuf_inv b" "unat (r_capacity b) \<le> 2 ^ 33" "length (readbuf_bytes b) < 2 ^ 29"
  obtains b' where "prepare_read b (of_nat READ_ONCE) = (b', unat (r_len b))" "readbuf_inv b'"
    "readbuf_bytes b' = readbuf_bytes b" "unat (r_len b) + READ_ONCE \<le> unat (r_capacity b')" "r_len b' = r_len b"
    "unat (r_capacity b') \<le> 2 ^ 33"
proof -
  have sz: "unat (of_nat READ_ONCE :: 64 word) = READ_ONCE" by (simp add: READ_ONCE_def)
  have len: "unat (r_len b) < 2 ^ 29" using assms(3) length_readbuf_bytes [OF assms(1)] by simp
  obtain b' where b': "prepare_read b (of_nat READ_ONCE) = (b', unat (r_len b))" "readbuf_inv b'"
    "readbuf_bytes b' = readbuf_bytes b" "unat (r_len b') + READ_ONCE \<le> unat (r_capacity b')" "r_len b' = r_len b"
    "unat (r_capacity b') \<le> max (unat (r_capacity b)) (2 * (unat (r_capacity b) + READ_ONCE))"
    using prepare_read_spec [OF assms(1), of "of_nat READ_ONCE"] assms(2) unfolding sz by (simp add: READ_ONCE_def) metis
  have "unat (r_capacity b') \<le> 2 ^ 33"
  proof (cases "r_len b + of_nat READ_ONCE > r_capacity b")
    case False
    then have "b' = b" using b'(1) by (simp add: prepare_read_def)
    then show ?thesis using assms(2) by simp
  next
    case True
    have "unat (r_len b + of_nat READ_ONCE) = unat (r_len b) + READ_ONCE"
      using len by (simp add: unat_word_ariths READ_ONCE_def)
    then have "unat (r_capacity b) < unat (r_len b) + READ_ONCE" using True by (simp add: word_less_nat_alt)
    then show ?thesis using b'(6) len by (simp add: READ_ONCE_def)
  qed
  then show ?thesis using that b' by simp
qed

lemma input_tape:
  assumes "os_read (s_os s) = r # rs"
  shows "potential (s\<lparr>s_os := (s_os s)\<lparr>os_read := rs\<rparr>\<rparr>) + 2 * (case r of None \<Rightarrow> 0 | Some b \<Rightarrow> length b) = potential s"
    "server_inv (s\<lparr>s_os := (s_os s)\<lparr>os_read := rs\<rparr>\<rparr>) = server_inv s"
  using assms by (simp_all add: weight_defs inv_defs split: option.splits)

lemma received_ends:
  assumes "server_inv s" "s_heap s p = Some (c\<lparr>c_readbuf := rb\<rparr>)" "p \<in> addrs s" "readbuf_inv rb"
    "unat (r_len rb) + length bytes \<le> unat (r_capacity rb)" "unat (r_capacity rb) \<le> 2 ^ 33"
    "potential s + 2 * length bytes \<le> potential s0" "potential s0 < 2 ^ 29" "asked i s0 \<Longrightarrow> asked i s"
  shows "ends (handled i s0) (sbind (slift (arr_store (r_data rb) (unat (r_len rb)) bytes)) (\<lambda>d.
                 sbind (slift (have_read (rb\<lparr>r_data := d\<rparr>) (of_nat (length bytes)))) (\<lambda>rb.
                 sbind (put_client p (c\<lparr>c_readbuf := rb\<rparr>)) (\<lambda>_. handle_msg p key))) s)"
proof -
  obtain a rb' where st: "arr_store (r_data rb) (unat (r_len rb)) bytes = Inr a"
    "have_read (rb\<lparr>r_data := a\<rparr>) (of_nat (length bytes)) = Inr rb'" "readbuf_inv rb'"
    "readbuf_bytes rb' = readbuf_bytes rb @ bytes" "r_capacity rb' = r_capacity rb"
    by (rule have_read_spec [OF assms(4,5)])
  have cap: "unat (r_capacity rb') \<le> 2 ^ 33" using assms(6) st(5) by simp
  define s1 where "s1 = s\<lparr>s_heap := (s_heap s)(p \<mapsto> c\<lparr>c_readbuf := rb'\<rparr>)\<rparr>"
  note put = put_readbuf [OF assms(1-3) st(3) cap, simplified, folded s1_def]
  have pot: "potential s1 \<le> potential s0" using put(2) assms(7) st(4) by (simp add: client_bytes_def)
  have "ends (handled i s1) (handle_msg p key s1)"
    by (rule handle_msg_ends [OF put(1)]) (use pot assms(3,8) put(4) in \<open>auto simp: s1_def\<close>)
  then have "ends (handled i s0) (handle_msg p key s1)"
    by (rule handled_trans [OF _ pot]) (use asked_calm [OF put(3)] assms(9) in blast)
  then show ?thesis by (simp add: sbind_run slift_run st(1,2) put_client_def smod_run s1_def)
qed

lemma read_result_ends:
  assumes "server_inv s" "s_heap s p = Some (c\<lparr>c_readbuf := rb\<rparr>)" "p \<in> addrs s" "readbuf_inv rb"
    "unat (r_len rb) + READ_ONCE \<le> unat (r_capacity rb)" "unat (r_capacity rb) \<le> 2 ^ 33"
    "potential s + 2 * (case r of None \<Rightarrow> 0 | Some b \<Rightarrow> length b) \<le> potential s0" "potential s0 < 2 ^ 29"
    "asked i s0 \<Longrightarrow> asked i s" "case r of None \<Rightarrow> True | Some b \<Rightarrow> length b \<le> READ_ONCE"
  shows "ends (handled i s0) ((case r of
         None \<Rightarrow> sret ()
       | Some bytes \<Rightarrow>
           (if bytes = [] then close_client p
            else sbind (slift (arr_store (r_data rb) (unat (r_len rb)) bytes)) (\<lambda>d.
                 sbind (slift (have_read (rb\<lparr>r_data := d\<rparr>) (of_nat (length bytes)))) (\<lambda>rb.
                 sbind (put_client p (c\<lparr>c_readbuf := rb\<rparr>)) (\<lambda>_. handle_msg p key))))) s)"
proof (cases r)
  case None
  then show ?thesis using assms(1,7,9) by (simp add: sret_run handled_def asked_Suc)
next
  case (Some bytes)
  have "ends (handled i s0) (close_client p s)"
    by (rule handled_trans [OF close_client_ends [OF assms(1,3)]]) (use assms(7,9) in simp_all)
  then show ?thesis using received_ends [OF assms(1-4) _ assms(6) _ assms(8,9), of bytes key] assms(5,7,10)
    by (simp add: Some)
qed

lemma read_on_client_ends:
  assumes "server_inv s" "p \<in> addrs s" "potential s < 2 ^ 29"
  shows "ends (handled i s) (read_on_client p s)"
proof -
  have cl: "clients_ok s" using assms(1) by (simp add: server_inv_def)
  obtain c where c: "s_heap s p = Some c" "client_ok c" by (rule addr_client [OF cl assms(2)])
  have n: "2 * length (readbuf_bytes (c_readbuf c)) \<le> potential s"
    using client_bytes_le [OF assms(2) c(1)] by (simp add: client_bytes_def)
  obtain rb where rb: "prepare_read (c_readbuf c) (of_nat READ_ONCE) = (rb, unat (r_len (c_readbuf c)))" "readbuf_inv rb"
    "readbuf_bytes rb = readbuf_bytes (c_readbuf c)" "unat (r_len (c_readbuf c)) + READ_ONCE \<le> unat (r_capacity rb)"
    "r_len rb = r_len (c_readbuf c)" "unat (r_capacity rb) \<le> 2 ^ 33"
    using prepare_read_ok [of "c_readbuf c"] c(2) n assms(3) by (auto simp: client_ok_def)
  define s1 where "s1 = s\<lparr>s_heap := (s_heap s)(p \<mapsto> c\<lparr>c_readbuf := rb\<rparr>)\<rparr>"
  note put = put_readbuf [OF assms(1) c(1) assms(2) rb(2,6), folded s1_def]
  have pot1: "potential s1 = potential s" using put(2) rb(3) by (simp add: client_bytes_def)
  have "ends (handled i s) (sbind (sys_read READ_ONCE) (\<lambda>res.
       case res of
         None \<Rightarrow> sret ()
       | Some bytes \<Rightarrow>
           (if bytes = [] then close_client p
            else sbind (slift (arr_store (r_data rb) (unat (r_len (c_readbuf c))) bytes)) (\<lambda>d.
                 sbind (slift (have_read (rb\<lparr>r_data := d\<rparr>) (of_nat (length bytes)))) (\<lambda>rb.
                 sbind (put_client p (c\<lparr>c_readbuf := rb\<rparr>)) (\<lambda>_.
                 handle_msg p (c_fd c)))))) s1)"
    unfolding sys_read_def rb(5) [symmetric]
  proof (rule ends_syscall, rule read_result_ends)
    fix r rs assume t: "os_read (s_os s1) = r # rs"
    show "server_inv (s1\<lparr>s_os := (s_os s1)\<lparr>os_read := rs\<rparr>\<rparr>)" using input_tape(2) [OF t] put(1) by simp
    show "potential (s1\<lparr>s_os := (s_os s1)\<lparr>os_read := rs\<rparr>\<rparr>) + 2 * (case r of None \<Rightarrow> 0 | Some b \<Rightarrow> length b) \<le> potential s"
      using input_tape(1) [OF t] pot1 by simp
    show "asked i (s1\<lparr>s_os := (s_os s1)\<lparr>os_read := rs\<rparr>\<rparr>)" if "asked i s"
      using asked_calm [OF put(3) that] by (simp add: asked_def)
  qed (use rb put(4) assms(2,3) in \<open>simp_all add: s1_def\<close>)
  then show ?thesis unfolding read_on_client_def
    by (intro ends_client [OF c(1)]) (simp add: rb(1) sbind_run put_client_def smod_run s1_def)
qed

end
