(* ===== verification/Server_safety.thy ===== *)
theory Server_safety
  imports Server_clients
begin

text \<open>
  Safety of the event loop: with writing and accepting, every entry of the poll list is
  handled without failure, and so is every turn of the loop from the initialised state.
\<close>

section \<open>Writing to a client\<close>

lemma not_POLLOUT: "(e AND NOT POLLOUT) AND POLLOUT = 0"
  by (rule bit_word_eqI) (auto simp: bit_and_iff bit_not_iff)

text \<open>The buffer of the client of an entry after a write, and the events of the entry.\<close>

lemma written_state:
  assumes inv: "server_inv s" and c: "s_heap s p = Some c" "(c_fd c, p) \<in> set (list_pairs (clients s))"
    and i: "i < poll_num s" "pf_fd (entry s i) = c_fd c" and wb: "writebuf_inv wb" "can_write wb"
    and c_ok: "client_ok c"
    and e: "pf_fd e = c_fd c" "wants_write e \<Longrightarrow> has_write_data wb"
  shows "server_inv (s\<lparr>s_heap := (s_heap s)(p \<mapsto> c\<lparr>c_writebuf := wb\<rparr>), poll_list := (poll_list s)[i := Some e]\<rparr>)"
proof -
  let ?s = "s\<lparr>s_heap := (s_heap s)(p \<mapsto> c\<lparr>c_writebuf := wb\<rparr>), poll_list := (poll_list s)[i := Some e]\<rparr>"
  have parts: "clients_ok s" "poll_ok s" "link_ok s" using inv by (simp_all add: server_inv_def)
  have len: "i < length (poll_list s)" using parts(2) i(1) by (simp add: poll_ok_def)
  have en: "entry ?s j = (if j = i then e else entry s j)" for j using len by (simp add: nth_list_update)
  have fd: "c_fd c \<noteq> - 1" using parts(1) c(2) by (auto simp: clients_ok_def)
  have "clients_ok (s\<lparr>s_heap := (s_heap s)(p \<mapsto> c\<lparr>c_writebuf := wb\<rparr>)\<rparr>)"
    by (rule clients_ok_put [OF parts(1) c(1)]) (use c_ok wb in \<open>simp_all add: client_ok_def\<close>)
  then have 1: "clients_ok ?s" by (simp add: clients_ok_def)
  have "poll_ok (s\<lparr>poll_list := (poll_list s)[i := Some e]\<rparr>)"
    by (rule poll_ok_update [OF parts(2) i(1)]) (use e(1) i(2) in simp)
  then have 2: "poll_ok ?s" by (simp add: poll_ok_def)
  have mo: "map_of (list_pairs (clients s)) k = Some p \<longleftrightarrow> k = c_fd c" for k
  proof -
    have d: "distinct (map fst (list_pairs (clients s)))" "distinct (map snd (list_pairs (clients s)))"
      using parts(1) by (simp_all add: clients_ok_def)
    show ?thesis using c(2) d by (metis distinct_snd_unique map_of_SomeD map_of_is_SomeI)
  qed
  define t where "t = ?s"
  have t: "entry t j = (if j = i then e else entry s j)" "clients t = clients s" "s_heap t = (s_heap s)(p \<mapsto> c\<lparr>c_writebuf := wb\<rparr>)" "poll_num t = poll_num s" for j
    using en by (simp_all add: t_def)
  have "has_data t (pf_fd (entry t j))" if j: "j < poll_num s" "wants_write (entry t j)" for j
  proof (cases "j = i")
    case True
    then show ?thesis using j(2) e mo [of "c_fd c"] by (auto simp: t has_data_def)
  next
    case False
    then have "pf_fd (entry s j) \<noteq> c_fd c" using parts(2) i j(1) fd unfolding poll_ok_def by metis
    moreover have "has_data s (pf_fd (entry s j))" using parts(3) j False by (simp add: t link_ok_def)
    ultimately show ?thesis using False mo by (auto simp: t has_data_def)
  qed
  then have 3: "link_ok t" by (simp add: link_ok_def t(4))
  show ?thesis using inv 1 2 3 [unfolded t_def] by (simp add: server_inv_def queue_ok_def procs_ok_def env_ok_def)
qed

lemma finish_write_ends:
  assumes inv: "server_inv s" and c: "s_heap s p = Some c" "(c_fd c, p) \<in> set (list_pairs (clients s))" "client_ok c"
    and i: "i < poll_num s" "pf_fd (entry s i) = c_fd c" and wb: "writebuf_inv wb" "can_write wb"
    and len: "length (queue_list (w_queue wb)) \<le> length (queue_list (w_queue (c_writebuf c)))"
    and d: "has_write_data (c_writebuf c)"
  shows "ends (handled i s) (swhen (\<not> has_write_data wb) (poll_update i (\<lambda>e. e AND NOT POLLOUT))
    (s\<lparr>s_heap := (s_heap s)(p \<mapsto> c\<lparr>c_writebuf := wb\<rparr>)\<rparr>))"
proof -
  define s1 where "s1 = s\<lparr>s_heap := (s_heap s)(p \<mapsto> c\<lparr>c_writebuf := wb\<rparr>)\<rparr>"
  have "p \<in> addrs s" using c(2) by (force simp: addrs_def)
  from potential_put_client [OF this c(1), of "c\<lparr>c_writebuf := wb\<rparr>"] len
  have pot: "potential s1 \<le> potential s" by (simp add: s1_def client_weight_def client_msgs_def client_bytes_def)
  have po: "poll_ok s" using inv by (simp add: server_inv_def)
  show ?thesis
  proof (cases "has_write_data wb")
    case True
    have "server_inv s1" unfolding s1_def
      by (rule inv_put_client [OF inv c(1)]) (use True c(3) wb in \<open>simp_all add: client_ok_def\<close>)
    moreover have "asked (Suc i) s1" if "asked i s" using that by (simp add: asked_def s1_def)
    ultimately show ?thesis using True pot by (simp add: swhen_run handled_def s1_def [symmetric])
  next
    case False
    define e where "e = (entry s i)\<lparr>pf_events := pf_events (entry s i) AND NOT POLLOUT\<rparr>"
    define s2 where "s2 = s\<lparr>s_heap := (s_heap s)(p \<mapsto> c\<lparr>c_writebuf := wb\<rparr>), poll_list := (poll_list s)[i := Some e]\<rparr>"
    have "server_inv s2" unfolding s2_def
      by (rule written_state [OF inv c(1,2) i wb c(3)]) (use i(2) not_POLLOUT in \<open>simp_all add: e_def wants_write_def\<close>)
    moreover have "potential s2 \<le> potential s" using pot by (simp add: s2_def s1_def)
    moreover have "asked (Suc i) s2" if "asked i s" using that by (auto simp: asked_def s2_def)
    moreover have "poll_ok s1" using po by (simp add: s1_def poll_ok_def)
    then have "poll_update i (\<lambda>e. e AND NOT POLLOUT) s1 = Done () s2"
      using poll_update_run [of s1 i] i(1) by (simp add: s1_def s2_def e_def)
    ultimately show ?thesis using False by (simp add: swhen_run handled_def s1_def [symmetric])
  qed
qed

lemma write_to_client_ends:
  assumes "server_inv s" "map_of (list_pairs (clients s)) (pf_fd (entry s i)) = Some p" "i < poll_num s" "wants_write (entry s i)"
  shows "ends (handled i s) (write_to_client p i s)"
proof -
  have parts: "clients_ok s" "poll_ok s" "link_ok s" using assms(1) by (simp_all add: server_inv_def)
  note pin = map_of_SomeD [OF assms(2)]
  have "has_data s (pf_fd (entry s i))" using parts(3) assms(3,4) by (simp add: link_ok_def)
  then obtain c where c: "s_heap s p = Some c" "has_write_data (c_writebuf c)" using assms(2) by (auto simp: has_data_def)
  then have ok: "client_ok c" "c_fd c = pf_fd (entry s i)" using parts(1) pin by (auto simp: clients_ok_def)
  then have cin: "(c_fd c, p) \<in> set (list_pairs (clients s))" using pin by simp
  have wbi: "writebuf_inv (c_writebuf c)" "can_write (c_writebuf c)" using ok(1) by (simp_all add: client_ok_def)
  obtain wb buf n where prep: "prepare_write (c_writebuf c) = Inr (wb, buf, n)" "writebuf_inv wb" "w_is_writing wb"
    "n = int (length buf)" "n = w_len wb - w_pointer wb" "w_queue wb = w_queue (c_writebuf c)"
    by (rule prepare_write_spec [OF wbi c(2)]) metis
  show ?thesis unfolding write_to_client_def sys_write_def
  proof (intro ends_client [OF c(1)] ends_lift [OF prep(1)], unfold prod.case, intro ends_put ends_syscall)
    fix r zs
    let ?s1 = "s\<lparr>s_heap := (s_heap s)(p \<mapsto> c\<lparr>c_writebuf := wb\<rparr>)\<rparr>"
    let ?s2 = "?s1\<lparr>s_os := (s_os ?s1)\<lparr>os_write := zs\<rparr>\<rparr>"
    assume "os_write (s_os ?s1) = r # zs" and promised: "case r of None \<Rightarrow> True | Some k \<Rightarrow> k \<le> nat n"
    then have tail: "server_inv (s\<lparr>s_os := (s_os s)\<lparr>os_write := zs\<rparr>\<rparr>)" "None \<noteq> r"
      using env_ok_tail(3) [OF assms(1)] by simp_all
    then obtain k where r: "r = Some k" by (cases r) auto
    with promised prep(4,5) have k: "0 \<le> int k" "int k \<le> w_len wb - w_pointer wb" by auto
    obtain wb' where wb': "have_written wb (int k) = Inr wb'" "writebuf_inv wb'" "can_write wb'"
      "length (queue_list (w_queue wb')) \<le> length (queue_list (w_queue wb))" by (rule have_written_spec [OF prep(2,3) k])
    define s0 where "s0 = s\<lparr>s_os := (s_os s)\<lparr>os_write := zs\<rparr>, s_out := s_out s @ [E_write (c_fd c) (take k buf)]\<rparr>"
    have e: "s0 = (s\<lparr>s_os := (s_os s)\<lparr>os_write := zs\<rparr>\<rparr>)\<lparr>s_out := s_out s @ [E_write (c_fd c) (take k buf)]\<rparr>" by (simp add: s0_def)
    have s0: "server_inv s0" "potential s0 = potential s" "asked i s \<Longrightarrow> asked i s0"
      using tail(1) unfolding e by simp_all (simp add: asked_def)
    have "ends (handled i s0) (swhen (\<not> has_write_data wb') (poll_update i (\<lambda>e. e AND NOT POLLOUT))
        (s0\<lparr>s_heap := (s_heap s0)(p \<mapsto> c\<lparr>c_writebuf := wb'\<rparr>)\<rparr>))"
      by (rule finish_write_ends [OF s0(1) _ _ ok(1)]) (use c cin assms(3) ok(2) wb'(2-4) prep(6) in \<open>simp_all add: s0_def\<close>)
    then have "ends (handled i s) (swhen (\<not> has_write_data wb') (poll_update i (\<lambda>e. e AND NOT POLLOUT))
        (s0\<lparr>s_heap := (s_heap s0)(p \<mapsto> c\<lparr>c_writebuf := wb'\<rparr>)\<rparr>))"
      by (rule handled_trans) (use s0 in simp_all)
    moreover have "sbind (emit (E_write (c_fd c) (take k buf))) (\<lambda>_.
                sbind (slift (have_written wb (int k))) (\<lambda>wb.
                sbind (put_client p (c\<lparr>c_writebuf := wb\<rparr>)) (\<lambda>_. sret wb))) ?s2 =
        Done wb' (s0\<lparr>s_heap := (s_heap s0)(p \<mapsto> c\<lparr>c_writebuf := wb'\<rparr>)\<rparr>)"
      by (simp add: run_simps wb'(1) put_client_def s0_def)
    ultimately show "ends (handled i s) (sbind (case r of
              None \<Rightarrow> sret wb
            | Some n \<Rightarrow>
                sbind (emit (E_write (c_fd c) (take n buf))) (\<lambda>_.
                sbind (slift (have_written wb (int n))) (\<lambda>wb.
                sbind (put_client p (c\<lparr>c_writebuf := wb\<rparr>)) (\<lambda>_. sret wb)))) (\<lambda>wb.
       swhen (\<not> has_write_data wb) (poll_update i (\<lambda>e. e AND NOT POLLOUT))) ?s2)"
      unfolding r option.case by (simp add: sbind_run [of "sbind _ _"])
  qed
qed

section \<open>Accepting a client\<close>

lemma fd_free:
  assumes "poll_ok s" "\<not> fd_in_use s fd"
  shows "fd \<notin> set (map fst (list_pairs (clients s)))" "\<And>i. i < poll_num s \<Longrightarrow> pf_fd (entry s i) \<noteq> fd"
proof -
  show "fd \<notin> set (map fst (list_pairs (clients s)))" using assms(2) by (simp add: fd_in_use_def)
  have e: "poll_entries s ! i = entry s i" if "i < poll_num s" for i
    using that assms(1) by (simp add: poll_entries_def poll_ok_def)
  have "length (poll_entries s) = poll_num s" using assms(1) by (simp add: poll_entries_def poll_ok_def)
  then show "pf_fd (entry s i) \<noteq> fd" if "i < poll_num s" for i
    using that assms(2) e [OF that] nth_mem [of i "poll_entries s"] by (auto simp: fd_in_use_def)
qed

lemma accepted_state:
  assumes inv: "server_inv s" and fd: "0 \<le> fd" "\<not> fd_in_use s fd"
    and c: "c = \<lparr>c_fd = fd, c_readbuf = rb, c_writebuf = wb\<rparr>" "client_ok c" "client_weight c = 0"
    and l: "list_inv l" "list_pairs l = list_pairs (clients s) @ [(fd, s_next s)]"
    and pl: "poll_ok (s\<lparr>poll_list := pl, poll_len := n, poll_num := Suc (poll_num s)\<rparr>)"
      "\<And>i. i < poll_num s \<Longrightarrow> pl ! i = poll_list s ! i" "pl ! poll_num s = Some \<lparr>pf_fd = fd, pf_events = POLLIN, pf_revents = 0\<rparr>"
  defines "t \<equiv> s\<lparr>s_next := Suc (s_next s), s_heap := (s_heap s)(s_next s \<mapsto> c), clients := l,
      poll_list := pl, poll_len := n, poll_num := Suc (poll_num s)\<rparr>"
  shows "server_inv t" "potential t = potential s" "asked i s \<Longrightarrow> asked i t"
proof -
  have parts: "clients_ok s" "poll_ok s" "link_ok s" using inv by (simp_all add: server_inv_def)
  note free = fd_free [OF parts(2) fd(2)]
  have t: "clients t = l" "poll_num t = Suc (poll_num s)" "s_heap t = (s_heap s)(s_next s \<mapsto> c)" "s_next t = Suc (s_next s)" "server_sock t = server_sock s"
    by (simp_all add: t_def)
  have en: "entry t i = (if i = poll_num s then \<lparr>pf_fd = fd, pf_events = POLLIN, pf_revents = 0\<rparr> else entry s i)"
    if "i < poll_num t" for i using that pl(2,3) by (simp add: t_def)
  have old: "(k, q) \<in> set (list_pairs (clients s)) \<Longrightarrow> q < s_next s" for k q using parts(1) by (auto simp: clients_ok_def)
  have "s_next s \<notin> set (map snd (list_pairs (clients s)))" using old by fastforce
  then have "clients_ok t"
    using parts(1) free(1) fd(1) c(1,2) l old unfolding clients_ok_def t by (auto simp: less_SucI)
  moreover have "poll_ok t" using pl(1) by (simp add: poll_ok_def t_def)
  moreover have "link_ok t"
    unfolding link_ok_def
  proof (intro allI impI)
    fix j assume j: "j < poll_num t" "wants_write (entry t j)"
    have "j \<noteq> poll_num s" using j by (auto simp: en wants_write_def POLLIN_def POLLOUT_def)
    then have j': "j < poll_num s" "entry t j = entry s j" using j(1) en by (auto simp: t)
    then have "has_data s (pf_fd (entry s j))" using parts(3) j by (simp add: link_ok_def)
    moreover have "map_of l' (pf_fd (entry s j)) = Some q \<Longrightarrow> map_of (list_pairs (clients s)) (pf_fd (entry s j)) = Some q \<and> q \<noteq> s_next s"
      if "l' = list_pairs l" for q l' using that free(2) [OF j'(1)] old by (auto simp: l map_add_def split: option.splits dest: map_of_SomeD)
    ultimately show "has_data t (pf_fd (entry t j))" unfolding has_data_def t j'(2) by auto
  qed
  ultimately show "server_inv t" using inv by (simp add: server_inv_def queue_ok_def procs_ok_def env_ok_def t_def)
  have "s_next s \<notin> addrs s" using old by (force simp: addrs_def)
  moreover have "addrs t = insert (s_next s) (addrs s)" by (simp add: addrs_def t l)
  ultimately have "(\<Sum>q \<in> addrs t. client_weight (the (s_heap t q))) = (\<Sum>q \<in> addrs s. client_weight (the (s_heap s q)))"
    using c(3) by (simp add: t) (auto intro: sum.cong)
  then show "potential t = potential s" by (simp add: potential_def input_bytes_def t_def)
  show "asked i t" if "asked i s" using that by (auto simp: asked_def en t less_Suc_eq)
qed

lemma new_buffers:
  assumes "1 \<le> par" "par \<le> INT_MAX"
  obtains rb wb where "init_readbuf (of_nat READ_ONCE) = Inr rb" "init_writebuf par = Inr wb"
    "\<And>fd. client_ok \<lparr>c_fd = fd, c_readbuf = rb, c_writebuf = wb\<rparr>"
    "\<And>fd. client_weight \<lparr>c_fd = fd, c_readbuf = rb, c_writebuf = wb\<rparr> = 0"
proof -
  have "0 < (of_nat READ_ONCE :: 64 word)" by (simp add: READ_ONCE_def)
  then obtain rb where rb: "init_readbuf (of_nat READ_ONCE) = Inr rb" "readbuf_inv rb" "readbuf_bytes rb = []" "r_capacity rb = of_nat READ_ONCE"
    by (rule readbuf_init_spec)
  obtain wb where wb: "init_writebuf par = Inr wb" "writebuf_inv wb" "can_write wb"
    using init_writebuf_spec [of par] assms by (metis less_le_trans zero_less_one)
  then have "w_data wb = None" by (auto simp: init_writebuf_def rbind_eq_Inr)
  then have "queue_list (w_queue wb) = []" using wb(2) by (simp add: writebuf_inv_def)
  then show ?thesis using that [OF rb(1) wb(1)] rb wb
    by (simp add: client_ok_def client_weight_def client_bytes_def client_msgs_def READ_ONCE_def del: length_queue_list)
qed

lemma admit_ends:
  assumes inv: "server_inv s" and fd: "0 \<le> fd" "\<not> fd_in_use s fd"
  shows "ends (handled i s) (sbind (sget (\<lambda>s. parallel (s_opts s))) (\<lambda>par.
     sbind (slift (init_readbuf (of_nat READ_ONCE))) (\<lambda>rb.
     sbind (slift (init_writebuf par)) (\<lambda>wb.
     sbind (sget s_next) (\<lambda>p.
     sbind (smod (\<lambda>s. s\<lparr>s_next := Suc p\<rparr>)) (\<lambda>_.
     sbind (put_client p \<lparr>c_fd = fd, c_readbuf = rb, c_writebuf = wb\<rparr>) (\<lambda>_.
     sbind (sget (\<lambda>s. list_append (clients s) fd p)) (\<lambda>r.
     sbind (slift r) (\<lambda>l.
     sbind (smod (\<lambda>s. s\<lparr>clients := l\<rparr>)) (\<lambda>_.
     add_to_poll_list fd POLLIN))))))))) s)"
proof -
  have parts: "poll_ok s" "list_inv (clients s)" "1 \<le> parallel (s_opts s)" "parallel (s_opts s) \<le> INT_MAX" using inv by (simp_all add: inv_defs)
  obtain rb wb where b: "init_readbuf (of_nat READ_ONCE) = Inr rb" "init_writebuf (parallel (s_opts s)) = Inr wb"
    "\<And>fd. client_ok \<lparr>c_fd = fd, c_readbuf = rb, c_writebuf = wb\<rparr>" "\<And>fd. client_weight \<lparr>c_fd = fd, c_readbuf = rb, c_writebuf = wb\<rparr> = 0"
    by (rule new_buffers [OF parts(3,4)]) metis
  define c where "c = \<lparr>c_fd = fd, c_readbuf = rb, c_writebuf = wb\<rparr>"
  define s1 where "s1 = s\<lparr>s_next := Suc (s_next s), s_heap := (s_heap s)(s_next s \<mapsto> c)\<rparr>"
  have "ends (handled i s) (sbind (slift (list_append (clients s) fd (s_next s))) (\<lambda>l.
     sbind (smod (\<lambda>s. s\<lparr>clients := l\<rparr>)) (\<lambda>_. add_to_poll_list fd POLLIN)) s1)"
  proof (rule ends_lift_cases, rule ends_mod)
    fix l assume l: "list_append (clients s) fd (s_next s) = Inr l"
    then have "list_room (clients s)" using list_append_no_room [OF parts(2)] by fastforce
    then have l': "list_inv l" "list_pairs l = list_pairs (clients s) @ [(fd, s_next s)]"
      using list_append_spec [OF parts(2)] l by (metis Inr_inject)+
    show "ends (handled i s) (add_to_poll_list fd POLLIN (s1\<lparr>clients := l\<rparr>))"
    proof (rule add_to_poll_list_ends)
      show "poll_ok (s1\<lparr>clients := l\<rparr>)" using parts(1) by (simp add: poll_ok_def s1_def)
      show "fd \<notin> set (map pf_fd (poll_entries (s1\<lparr>clients := l\<rparr>)))" using fd(2) by (auto simp: fd_in_use_def poll_entries_def s1_def)
    next
      fix pl n
      let ?u = "s1\<lparr>clients := l, poll_list := pl, poll_len := n, poll_num := Suc (poll_num (s1\<lparr>clients := l\<rparr>))\<rparr>"
      assume pl: "poll_ok ?u" "\<And>i. i < poll_num (s1\<lparr>clients := l\<rparr>) \<Longrightarrow> pl ! i = poll_list (s1\<lparr>clients := l\<rparr>) ! i"
        "pl ! poll_num (s1\<lparr>clients := l\<rparr>) = Some \<lparr>pf_fd = fd, pf_events = POLLIN, pf_revents = 0\<rparr>"
      have pl1: "poll_ok (s\<lparr>poll_list := pl, poll_len := n, poll_num := Suc (poll_num s)\<rparr>)" using pl(1) by (simp add: poll_ok_def s1_def)
      have pl2: "j < poll_num s \<Longrightarrow> pl ! j = poll_list s ! j" "pl ! poll_num s = Some \<lparr>pf_fd = fd, pf_events = POLLIN, pf_revents = 0\<rparr>" for j
        using pl(2) [of j] pl(3) by (simp_all add: s1_def)
      have "?u = s\<lparr>s_next := Suc (s_next s), s_heap := (s_heap s)(s_next s \<mapsto> c), clients := l,
          poll_list := pl, poll_len := n, poll_num := Suc (poll_num s)\<rparr>" by (simp add: s1_def)
      then show "handled i s () ?u"
        using accepted_state [OF inv fd c_def b(3,4) [of fd, folded c_def] l' pl1 pl2] by (simp add: handled_def asked_Suc)
    qed
  next
    fix e assume "list_append (clients s) fd (s_next s) = Inl e"
    then show "e \<in> tolerated"
      using list_append_spec [OF parts(2)] list_append_no_room [OF parts(2)] by (metis Inl_Inr_False Inl_inject tolerated_simps(3))
  qed
  then show ?thesis
    by (simp add: sbind_run [of "sget _"] sbind_run [of "put_client _ _"] sbind_run [of "smod _"] sbind_run [of "slift (Inr _)"] sget_run slift_run smod_run b put_client_def s1_def c_def)
qed

lemma server_accept_client_ends:
  assumes "server_inv s"
  shows "ends (handled i s) (server_accept_client s)"
  unfolding server_accept_client_def sys_accept_def
proof (rule ends_syscall, rule ends_when)
  fix fd xs
  let ?s = "s\<lparr>s_os := (s_os s)\<lparr>os_accept := xs\<rparr>\<rparr>"
  assume promised: "fd = -1 \<or> (0 \<le> fd \<and> \<not> fd_in_use s fd)" and ne: "fd \<noteq> - 1"
  have s1: "server_inv ?s" "potential ?s = potential s" using assms by simp_all
  have fd: "0 \<le> fd" "\<not> fd_in_use ?s fd" using promised ne by (simp_all add: fd_in_use_def poll_entries_def)
  show "ends (handled i s) (sbind (sget (\<lambda>s. parallel (s_opts s))) (\<lambda>par.
     sbind (slift (init_readbuf (of_nat READ_ONCE))) (\<lambda>rb.
     sbind (slift (init_writebuf par)) (\<lambda>wb.
     sbind (sget s_next) (\<lambda>p.
     sbind (smod (\<lambda>s. s\<lparr>s_next := Suc p\<rparr>)) (\<lambda>_.
     sbind (put_client p \<lparr>c_fd = fd, c_readbuf = rb, c_writebuf = wb\<rparr>) (\<lambda>_.
     sbind (sget (\<lambda>s. list_append (clients s) fd p)) (\<lambda>r.
     sbind (slift r) (\<lambda>l.
     sbind (smod (\<lambda>s. s\<lparr>clients := l\<rparr>)) (\<lambda>_.
     add_to_poll_list fd POLLIN))))))))) ?s)"
    by (rule handled_trans [OF admit_ends [OF s1(1) fd]]) (use s1 in \<open>simp_all add: asked_def\<close>)
next
  fix fd xs
  show "ends Q (shutdown_with_msg ''error accepting a client'' (s\<lparr>s_os := (s_os s)\<lparr>os_accept := xs\<rparr>\<rparr>))" for Q :: "unit \<Rightarrow> server \<Rightarrow> bool"
    by (rule shutdown_ends) (use assms inv_accept(1) [where s = s and x = xs] in \<open>simp_all add: server_inv_def\<close>)
qed

end
