(* ===== verification/Server_loop.thy ===== *)
theory Server_loop
  imports Server_safety
begin

text \<open>
  The event loop: one entry of the poll list, all entries, the clean-up of the poll list
  and the wait for events, and a turn of the loop of \<open>main\<close>.
\<close>

section \<open>Entries\<close>

lemma read_child_pipe_ends:
  "server_inv s \<Longrightarrow> ends (\<lambda>_ s'. server_inv s' \<and> potential s' = potential s \<and> quiet s s') (read_child_pipe rs s)"
proof (induction rs arbitrary: s)
  case (Cons r rs)
  define s1 where "s1 = s\<lparr>s_os := (s_os s)\<lparr>os_pipe := rs\<rparr>\<rparr>"
  have s1: "server_inv s1" "potential s1 = potential s" "quiet s s1" using Cons.prems by (simp_all add: s1_def)
  have sh: "ends Q (shutdown_with_msg m s1)" for Q :: "unit \<Rightarrow> server \<Rightarrow> bool" and m
    by (rule shutdown_ends) (use s1(1) in \<open>simp_all add: server_inv_def\<close>)
  have ih: "ends (\<lambda>_ s'. server_inv s' \<and> potential s' = potential s \<and> quiet s s') (read_child_pipe rs s1)"
    by (rule ends_mono [OF Cons.IH [OF s1(1)]]) (use s1 in \<open>auto intro: quiet_trans\<close>)
  show ?case unfolding read_child_pipe.simps
    by (rule ends_mod) (use sh ih s1 in \<open>simp add: s1_def [symmetric] sret_run split: pipe_result.split\<close>)
qed (simp add: slift_run)

lemma handle_entry_ends:
  assumes "server_inv s" "i < poll_num s" "asked i s" "potential s < 2 ^ 29"
  shows "ends (handled i s) (handle_entry ft i s)"
proof -
  have parts: "clients_ok s" "poll_ok s" using assms(1) by (simp_all add: server_inv_def)
  define cur where "cur = entry s i"
  have rd: "arr_read (poll_list s) i = Inr cur" using parts(2) assms(2) by (auto simp: cur_def poll_ok_def intro: arr_read_ok)
  have stay: "handled i s () s" using assms(1,3) by (simp add: handled_def asked_Suc)
  have pipe: "ends (handled i s) (sbind (read_child_pipe rs) (\<lambda>_. handle_child_events ft) s)" for rs
  proof (rule ends_bind, rule ends_mono [OF read_child_pipe_ends [OF assms(1)]])
    fix u s1 assume a: "server_inv s1 \<and> potential s1 = potential s \<and> quiet s s1"
    then have "ends (grows 0 s1) (handle_child_events ft s1)" by (intro handle_child_events_ends) (use assms(4) in simp_all)
    then have "ends (grows 0 s) (handle_child_events ft s1)" by (rule grows_trans) (use a in auto)
    then show "ends (handled i s) (handle_child_events ft s1)" by (rule grows_handled)
  qed
  have sock: "pf_revents cur = POLLIN" if "pf_revents cur \<noteq> 0" "pf_fd cur = server_sock s"
    using assms(2,3) that by (auto simp: asked_def cur_def)
  have cl: "ends (handled i s) ((if pf_revents cur AND POLLERR \<noteq> 0 then close_client p
           else if pf_revents cur AND POLLOUT \<noteq> 0 then write_to_client p i
           else if pf_revents cur AND POLLIN \<noteq> 0 then read_on_client p else sret ()) s)"
    if "map_of (list_pairs (clients s)) (pf_fd cur) = Some p" for p
  proof -
    note p = map_of_addrs [OF that]
    have w: "ends (handled i s) (write_to_client p i s)" if "pf_revents cur AND POLLOUT \<noteq> 0"
      by (rule write_to_client_ends [OF assms(1) _ assms(2)])
        (use that \<open>map_of _ _ = Some p\<close> assms(2,3) in \<open>auto simp: cur_def asked_def\<close>)
    show ?thesis using close_client_ends [OF assms(1) p, of i] read_on_client_ends [OF assms(1) p assms(4), of i] w stay
      by (simp add: sret_run)
  qed
  show ?thesis unfolding handle_entry_def
    apply (rule ends_get, rule ends_lift [OF rd])
    using stay pipe sock cl server_accept_client_ends [OF assms(1), of i]
    by (auto simp: sret_run sbind_run [of "sget _"] sget_run sbind_run [of "client_lookup _"] client_lookup_run [OF parts(1)]
        sbind_run [of "Done _"] slift_def rassert_def split: option.splits)
qed

lemma handle_entries_ends:
  assumes "server_inv s" "asked i s" "potential s < 2 ^ 29"
  shows "ends (\<lambda>_ s'. server_inv s' \<and> potential s' \<le> potential s) (handle_entries ft i s)"
  using assms
proof (induction ft i s rule: handle_entries.induct)
  case (1 ft i s)
  show ?case
  proof (cases "i < poll_num s")
    case True
    note h = handle_entry_ends [OF 1(2) True 1(3,4), of ft]
    show ?thesis
    proof (cases "handle_entry ft i s")
      case (Done u s1)
      with h 1(3) have g: "server_inv s1" "potential s1 \<le> potential s" "asked (Suc i) s1" by (simp_all add: handled_def)
      have "ends (\<lambda>_ s'. server_inv s' \<and> potential s' \<le> potential s1) (handle_entries ft (Suc i) s1)"
        by (rule 1(1) [OF True Done g(1,3)]) (use g 1(4) in simp)
      then show ?thesis using g(2) Done True by (auto simp: handle_entries.simps [of ft i s] elim: ends_mono)
    qed (use h True in \<open>auto simp: handle_entries.simps [of ft i s]\<close>)
  qed (use 1 in \<open>simp add: handle_entries.simps [of ft i s]\<close>)
qed


section \<open>Cleaning the poll list\<close>

text \<open>What is left are the entries that are not closed, each as often as before.\<close>

abbreviation live :: "pollfd option \<Rightarrow> bool" where
  "live e \<equiv> pf_fd (the e) \<noteq> -1"

lemma poll_clean_from_run:
  assumes "\<forall>j < num. l ! j \<noteq> None" "num \<le> length l" "\<forall>j < i. live (l ! j)" "i \<le> num"
  shows "\<exists>l' num'. poll_clean_from l num i = Inr (l', num') \<and> num' \<le> num \<and> length l' = length l \<and>
    mset (take num' l') = filter_mset live (mset (take num l))"
  using assms
proof (induction l num i rule: poll_clean_from.induct)
  case (1 l num i)
  show ?case
  proof (cases "i < num")
    case True
    have rd: "arr_read l i = Inr (the (l ! i))" using 1(3,4) True by (intro arr_read_ok) auto
    show ?thesis
    proof (cases "pf_fd (the (l ! i)) = - 1")
      case True
      define xs where "xs = take num l"
      have xs: "length xs = num" "xs ! i = l ! i" "xs \<noteq> []" using 1(4) \<open>i < num\<close> by (auto simp: xs_def)
      have last: "last xs = l ! (num - 1)" using last_conv_nth [OF xs(3)] \<open>i < num\<close> by (simp add: xs(1)) (simp add: xs_def)
      have rd': "arr_read l (num - 1) = Inr (the (l ! (num - 1)))" using 1(3,4) \<open>i < num\<close> by (intro arr_read_ok) auto
      have wr: "arr_write l i (the (l ! (num - 1))) = Inr (l[i := l ! (num - 1)])"
        using 1(3,4) \<open>i < num\<close> by (simp add: arr_write_def)
      have "take (num - 1) (l[i := l ! (num - 1)]) = swap_remove xs i"
        using 1(4) xs(1) by (simp add: swap_remove_def last butlast_conv_take) (simp add: xs_def take_update_swap min_def)
      then have ms: "mset (take (num - 1) (l[i := l ! (num - 1)])) = mset xs - {#l ! i#}"
        using mset_swap_remove [of i xs] xs \<open>i < num\<close> by simp
      have "\<exists>l' num'. poll_clean_from (l[i := l ! (num - 1)]) (num - 1) i = Inr (l', num') \<and> num' \<le> num - 1 \<and>
          length l' = length l \<and> mset (take num' l') = filter_mset live (mset (take (num - 1) (l[i := l ! (num - 1)])))"
        using 1(1) [OF \<open>i < num\<close> rd True rd' wr] 1(3-6) \<open>i < num\<close> by (auto simp: nth_list_update)
      moreover have "filter_mset live (mset xs - {#l ! i#}) = filter_mset live (mset xs)"
        using True by (simp add: filter_diff_mset)
      ultimately show ?thesis using rd True rd' wr \<open>i < num\<close> ms
        by (auto simp: poll_clean_from.simps [of l num i] xs_def)
    next
      case False
      have "\<exists>l' num'. poll_clean_from l num (Suc i) = Inr (l', num') \<and> num' \<le> num \<and>
          length l' = length l \<and> mset (take num' l') = filter_mset live (mset (take num l))"
        using 1(2) [OF True rd False] 1(3-6) True False by (auto simp: less_Suc_eq)
      then show ?thesis using rd False True by (simp add: poll_clean_from.simps [of l num i])
    qed
  next
    case False
    then have "filter_mset live (mset (take num l)) = mset (take num l)"
      using 1(4,5,6) by (auto simp: filter_mset_eq_conv in_set_conv_nth)
    then show ?thesis using False by (simp add: poll_clean_from.simps [of l num i])
  qed
qed

lemma distinct_live:
  assumes "\<forall>i < length xs. \<forall>j < length xs. i \<noteq> j \<longrightarrow> f (xs ! i) = f (xs ! j) \<longrightarrow> f (xs ! i) = (-1 :: int)"
  shows "distinct (map f (filter (\<lambda>x. f x \<noteq> -1) xs))"
  using assms
proof (induction xs)
  case (Cons x xs)
  have "f x \<notin> f ` set xs" if "f x \<noteq> -1"
  proof
    assume "f x \<in> f ` set xs"
    then obtain j where "j < length xs" "f (xs ! j) = f x" by (auto simp: in_set_conv_nth)
    then show False using Cons.prems [rule_format, of 0 "Suc j"] that by simp
  qed
  moreover have "distinct (map f (filter (\<lambda>x. f x \<noteq> -1) xs))"
    using Cons.prems by (intro Cons.IH) (metis Suc_less_eq length_Cons nat.inject nth_Cons_Suc)
  ultimately show ?case by auto
qed simp

lemma poll_list_clean_ends:
  assumes "server_inv s"
  shows "ends (\<lambda>_ s'. server_inv s' \<and> potential s' = potential s) (poll_list_clean s)"
proof -
  have parts: "poll_ok s" "link_ok s" using assms by (simp_all add: server_inv_def)
  define L where "L = take (poll_num s) (poll_list s)"
  obtain l n where c: "poll_clean_from (poll_list s) (poll_num s) 0 = Inr (l, n)" "n \<le> poll_num s" "length l = length (poll_list s)"
    "mset (take n l) = filter_mset live (mset L)"
    using poll_clean_from_run [of "poll_num s" "poll_list s" 0] parts(1) by (auto simp: poll_ok_def L_def)
  define t where "t = s\<lparr>poll_list := l, poll_num := n\<rparr>"
  have len: "n \<le> length l" "length L = poll_num s" using c(2,3) parts(1) by (simp_all add: poll_ok_def L_def)
  have sub: "\<exists>j < poll_num s. poll_list s ! j = l ! i \<and> live (l ! i)" if "i < n" for i
  proof -
    have "l ! i \<in># mset (take n l)" using that len(1) by (auto simp: in_set_conv_nth)
    then have "l ! i \<in> set L" "live (l ! i)" unfolding c(4) by auto
    then show ?thesis using len(2) by (auto simp: L_def in_set_conv_nth)
  qed
  have "distinct (map (\<lambda>e. pf_fd (the e)) (filter live L))"
    by (rule distinct_live) (use parts(1) len(2) in \<open>auto simp: poll_ok_def L_def\<close>)
  moreover have "mset (map (\<lambda>e. pf_fd (the e)) (take n l)) = mset (map (\<lambda>e. pf_fd (the e)) (filter live L))"
    using c(4) by (simp flip: mset_filter)
  ultimately have "distinct (map (\<lambda>e. pf_fd (the e)) (take n l))" by (metis mset_eq_imp_distinct_iff)
  then have d: "i = j" if "i < n" "j < n" "pf_fd (the (l ! i)) = pf_fd (the (l ! j))" for i j
    using that len(1) nth_eq_iff_index_eq [of "map (\<lambda>e. pf_fd (the e)) (take n l)" i j] by simp
  have t: "poll_num t = n" "poll_list t = l" "poll_len t = poll_len s" by (simp_all add: t_def)
  have hd: "has_data t fd = has_data s fd" for fd by (simp add: has_data_def t_def)
  have nn: "l ! i \<noteq> None" if "i < n" for i using sub [OF that] parts(1) unfolding poll_ok_def by metis
  have "0 < poll_len s \<and> n \<le> poll_len s \<and> length l = poll_len s" using parts(1) c(2,3) by (simp add: poll_ok_def)
  with nn d have "poll_ok t" unfolding poll_ok_def t by blast
  moreover have "link_ok t" unfolding link_ok_def t hd
  proof (intro allI impI)
    fix i assume i: "i < n" "wants_write (the (l ! i))"
    obtain j where "j < poll_num s" "poll_list s ! j = l ! i" using sub [OF i(1)] by blast
    then show "has_data s (pf_fd (the (l ! i)))" using parts(2) i(2) unfolding link_ok_def by metis
  qed
  ultimately have "server_inv t" using assms by (simp add: server_inv_def clients_ok_def queue_ok_def procs_ok_def env_ok_def t_def)
  moreover have "potential t = potential s" by (simp add: weight_defs t_def)
  ultimately show ?thesis by (simp add: poll_list_clean_def run_simps c(1) t_def)
qed

section \<open>Waiting for events\<close>

lemma POLLOUT_bit: "w AND POLLOUT \<noteq> 0 \<longleftrightarrow> bit w 2"
  using and_exp_eq_0_iff_not_bit [of w 2] by (simp add: POLLOUT_def)

lemma promised_POLLOUT: "poll_promise sock e ev \<Longrightarrow> ev AND POLLOUT \<noteq> 0 \<Longrightarrow> wants_write e"
proof -
  assume p: "poll_promise sock e ev" and ev: "ev AND POLLOUT \<noteq> 0"
  have "\<not> bit (ev AND NOT (pf_events e OR POLLERR OR POLLHUP OR POLLNVAL)) 2" using p by (simp add: poll_promise_def)
  then have "bit (pf_events e OR POLLERR OR POLLHUP OR POLLNVAL) 2"
    using ev unfolding POLLOUT_bit by (simp add: bit_and_iff bit_not_iff bit_or_iff)
  then have "bit (pf_events e) 2"
    by (simp add: bit_or_iff POLLERR_def POLLHUP_def POLLNVAL_def bit_numeral_rec)
  then show ?thesis by (simp add: wants_write_def POLLOUT_bit)
qed

lemma revents_state:
  assumes "server_inv s" "list_all2 (poll_promise (server_sock s)) (poll_entries s) evs"
  defines "t \<equiv> s\<lparr>poll_list := set_revents (poll_list s) (poll_num s) evs\<rparr>"
  shows "server_inv t" "potential t = potential s" "asked 0 t"
proof -
  have parts: "poll_ok s" "link_ok s" using assms by (simp_all add: server_inv_def)
  have len: "poll_num s \<le> length (poll_list s)" using parts(1) by (simp add: poll_ok_def)
  have "length (poll_entries s) = poll_num s" using len by (simp add: poll_entries_def)
  then have evs: "length evs = poll_num s" using list_all2_lengthD [OF assms(2)] by simp
  have nth: "poll_list t ! j = map_option (\<lambda>e. e\<lparr>pf_revents := evs ! j\<rparr>) (poll_list s ! j)" if "j < poll_num s" for j
    using that len evs by (simp add: t_def set_revents_def nth_append)
  have some: "poll_list s ! j = Some (entry s j)" if "j < poll_num s" for j using that parts(1) by (simp add: poll_ok_def)
  have en: "entry t j = (entry s j)\<lparr>pf_revents := evs ! j\<rparr>" if "j < poll_num s" for j
    using nth [OF that] some [OF that] by (metis option.map(2) option.sel)
  have pr: "poll_promise (server_sock s) (entry s j) (evs ! j)" if "j < poll_num s" for j
    using list_all2_nthD [OF assms(2), of j] that len by (simp add: poll_entries_def)
  have t: "poll_num t = poll_num s" "poll_len t = poll_len s" "server_sock t = server_sock s" "length (poll_list t) = length (poll_list s)"
    using len evs by (simp_all add: t_def set_revents_def)
  have hd: "has_data t fd = has_data s fd" for fd by (simp add: has_data_def t_def)
  have "poll_list t ! j \<noteq> None" if "j < poll_num s" for j
    using nth [OF that] some [OF that] by (metis option.map_disc_iff option.distinct(1))
  moreover have "pf_fd (entry t j) = pf_fd (entry s j)" if "j < poll_num s" for j by (simp add: en [OF that])
  ultimately have "poll_ok t" using parts(1) unfolding poll_ok_def t by simp
  moreover have "link_ok t" using parts(2) unfolding link_ok_def t hd by (auto simp: en wants_write_def)
  ultimately show "server_inv t" using assms by (simp add: server_inv_def clients_ok_def queue_ok_def procs_ok_def env_ok_def t_def)
  show "potential t = potential s" by (simp add: weight_defs t_def)
  show "asked 0 t" unfolding asked_def t
    using pr promised_POLLOUT by (auto simp: en wants_write_def poll_promise_def)
qed

lemma wait_poll_ends:
  "server_inv s \<Longrightarrow> ends (\<lambda>_ s'. server_inv s' \<and> potential s' = potential s \<and> asked 0 s') (wait_poll rs s)"
proof (induction rs arbitrary: s)
  case (Cons r rs)
  define s1 where "s1 = s\<lparr>s_os := (s_os s)\<lparr>os_poll := rs\<rparr>\<rparr>"
  have s1: "server_inv s1" "potential s1 = potential s" using Cons.prems by (simp_all add: s1_def)
  have sh: "ends Q (shutdown_with_msg m s1)" for Q :: "unit \<Rightarrow> server \<Rightarrow> bool" and m
    by (rule shutdown_ends) (use s1(1) in \<open>simp_all add: server_inv_def\<close>)
  show ?case unfolding wait_poll.simps
    by (rule ends_mod) (use sh Cons.IH [OF s1(1)] s1 revents_state [OF s1(1)] in
      \<open>simp add: s1_def [symmetric] run_simps split: poll_result.split\<close>)
qed (simp add: slift_run)

section \<open>A turn of the loop\<close>

definition server_safe :: "server \<Rightarrow> bool" where
  "server_safe s \<longleftrightarrow> server_inv s \<and> potential s < 2 ^ 29"

lemma main_iteration_ends:
  assumes "server_safe s"
  shows "ends (\<lambda>_ s'. server_safe s') (main_iteration ft s)"
  unfolding main_iteration_def
proof (rule ends_bind, rule ends_mono [OF schedule_ends], goal_cases)
  case (3 u s1)
  then have s1: "server_inv s1" "potential s1 < 2 ^ 29" using assms by (auto simp: grows_def server_safe_def)
  show ?case
  proof (rule ends_bind, rule ends_mono [OF poll_list_clean_ends [OF s1(1)]], rule ends_get, rule ends_bind, goal_cases)
    case (1 v s2)
    show ?case
    proof (rule ends_mono [OF wait_poll_ends], goal_cases)
      case (2 w s3)
      then show ?case using handle_entries_ends [of s3 0 ft] s1(2) 1 by (auto simp: server_safe_def elim!: ends_mono)
    qed (use 1 in simp)
  qed
qed (use assms in \<open>auto simp: server_safe_def\<close>)

lemma main_loop_ends: "server_safe s \<Longrightarrow> ends (\<lambda>_ s'. server_safe s') (main_loop ft n s)"
proof (induction n arbitrary: s)
  case (Suc n)
  then show ?case unfolding main_loop.simps by (intro ends_bind ends_mono [OF main_iteration_ends])
qed (simp add: sret_run)

end
