(* ===== verification/Server_init.thy ===== *)
theory Server_init
  imports Server_loop
begin

text \<open>
  The initialisation of the server ends in a state that satisfies the invariant of the
  event loop, or in \<open>exit\<close>. The one way to fail before the loop is a call of
  \<open>shutdown_with_msg\<close> before the log file is open while logging is on.
\<close>

section \<open>Shutdown before the first client\<close>

definition no_clients :: "server \<Rightarrow> bool" where
  "no_clients s \<longleftrightarrow> l_len (clients s) = 0 \<and> (logging (s_opts s) \<longrightarrow> logfile s \<noteq> None)"

lemma shutdown_no_clients: "no_clients s \<Longrightarrow> ends Q (shutdown_with_msg msg s)"
  by (auto simp: no_clients_def shutdown_with_msg_def logging_shutdown_def server_log_def log_msg_def list_length_def
      run_simps split: option.splits)

lemma ends_check:
  "no_clients s \<or> \<not> b \<Longrightarrow> (\<not> b \<Longrightarrow> ends Q (f () s)) \<Longrightarrow> ends Q (sbind (check_call b msg) f s)"
  unfolding check_call_def by (rule ends_when) (auto intro: shutdown_no_clients)

section \<open>The initialised state\<close>

text \<open>
  What the calls made at the start promise: the log file opens when logging is on, the
  pipe is not the socket, and the name of the current directory is not huge.
\<close>

definition init_promise :: "options \<Rightarrow> init_os \<Rightarrow> bool" where
  "init_promise opts io \<longleftrightarrow>
     (logging opts \<longrightarrow> i_fopen_ok io \<and> i_open io \<noteq> -1 \<and> i_chdir io \<noteq> -1) \<and>
     (\<forall>a b. i_pipe io = Some (a, b) \<longrightarrow> a \<noteq> i_socket io) \<and> length (i_getcwd io) \<le> 2 ^ 29"

text \<open>
  What the calls of the loop promise: \<open>fork\<close> is seen by the server and not by the
  child, no \<open>write\<close> fails, and the input has less than \<open>2 ^ 28\<close> bytes.
\<close>

definition tape_promise :: "os \<Rightarrow> bool" where
  "tape_promise t \<longleftrightarrow> None \<notin> set (os_write t) \<and> 0 \<notin> set (os_fork t) \<and>
     sum_list (map (\<lambda>r. case r of None \<Rightarrow> 0 | Some b \<Rightarrow> length b) (os_read t)) < 2 ^ 28"

definition booted :: "options \<Rightarrow> os \<Rightarrow> server \<Rightarrow> bool" where
  "booted opts t s \<longleftrightarrow> clients s = init_list (parallel opts) \<and> processes s = init_list (parallel opts) \<and>
     queue_inv (queue s) \<and> queue_list (queue s) = [] \<and> s_opts s = opts \<and> s_os s = t \<and>
     (logging opts \<longrightarrow> logfile s \<noteq> None) \<and> length (current_dir s) \<le> 2 ^ 29"

lemma booted_safe:
  assumes "booted opts t s" "tape_promise t" "0 < parallel opts \<and> parallel opts \<le> INT_MAX" "socketname opts \<noteq> None"
    "poll_ok s" "\<And>i. i < poll_num s \<Longrightarrow> pf_events (entry s i) = POLLIN"
  shows "server_safe s"
proof -
  have "clients_ok s" "procs_ok s" using assms(1) list_inv_init [of "parallel opts"] assms(3)
    by (simp_all add: booted_def clients_ok_def procs_ok_def)
  moreover have "link_ok s" using assms(6) by (simp add: link_ok_def wants_write_def POLLIN_def POLLOUT_def)
  moreover have "queue_ok s" "env_ok s" using assms(1-4) by (auto simp: booted_def queue_ok_def env_ok_def tape_promise_def)
  moreover have "addrs s = {}" "list_pairs (processes s) = []" "queue_list (queue s) = []" using assms(1) by (simp_all add: booted_def addrs_def)
  then have "potential s < 2 ^ 29" using assms(1,2)
    by (simp add: potential_def input_bytes_def booted_def tape_promise_def del: length_list_pairs length_queue_list)
  ultimately show ?thesis using assms(5) by (simp add: server_safe_def server_inv_def)
qed

lemma setup_child_pipe_ends:
  assumes "booted opts t s" "tape_promise t" "0 < parallel opts \<and> parallel opts \<le> INT_MAX" "socketname opts \<noteq> None"
    "init_promise opts io" "poll_ok s" "poll_num s = 1" "entry s 0 = \<lparr>pf_fd = i_socket io, pf_events = POLLIN, pf_revents = 0\<rparr>"
  shows "ends (\<lambda>_ s'. server_safe s') (setup_child_pipe io s)"
proof (cases "i_pipe io")
  case None
  have "no_clients s" using assms(1) by (auto simp: no_clients_def booted_def init_list_def)
  obtain g0 s0 g1 s1 where f: "i_fcntl io = (g0, s0, g1, s1)" by (cases "i_fcntl io") auto
  show ?thesis unfolding setup_child_pipe_def f prod.case
    by (rule ends_check) (use None \<open>no_clients s\<close> in simp_all)
next
  case (Some ab)
  obtain a b where ab: "ab = (a, b)" by force
  obtain g0 s0 g1 s1 where f: "i_fcntl io = (g0, s0, g1, s1)" by (cases "i_fcntl io") auto
  define u where "u = s\<lparr>cpipe := (a, b)\<rparr>"
  have nc: "no_clients s" "no_clients u" using assms(1) by (auto simp: no_clients_def booted_def init_list_def u_def)
  have u: "booted opts t u" "poll_ok u" "poll_num u = 1" "entry u 0 = entry s 0"
    using assms(1,6,7) by (simp_all add: u_def booted_def poll_ok_def)
  have ne: "a \<noteq> i_socket io" using assms(5) Some ab by (simp add: init_promise_def)
  have "ends (\<lambda>_ s'. server_safe s') (add_to_poll_list a POLLIN u)"
  proof (rule add_to_poll_list_ends [OF u(2)])
    show "a \<notin> set (map pf_fd (poll_entries u))"
    proof -
      have "length (poll_entries u) = 1" "poll_entries u ! 0 = entry u 0" using u(2,3) by (simp_all add: poll_entries_def poll_ok_def)
      then have "poll_entries u = [entry u 0]" by (metis One_nat_def length_0_conv length_Suc_conv nth_Cons_0)
      then show ?thesis using ne assms(8) u(4) by simp
    qed
    fix l n
    assume p: "poll_ok (u\<lparr>poll_list := l, poll_len := n, poll_num := Suc (poll_num u)\<rparr>)"
      "\<And>i. i < poll_num u \<Longrightarrow> l ! i = poll_list u ! i" "l ! poll_num u = Some \<lparr>pf_fd = a, pf_events = POLLIN, pf_revents = 0\<rparr>"
    show "server_safe (u\<lparr>poll_list := l, poll_len := n, poll_num := Suc (poll_num u)\<rparr>)"
    proof (rule booted_safe [OF _ assms(2-4) p(1)])
      show "pf_events (entry (u\<lparr>poll_list := l, poll_len := n, poll_num := Suc (poll_num u)\<rparr>) i) = POLLIN"
        if "i < poll_num (u\<lparr>poll_list := l, poll_len := n, poll_num := Suc (poll_num u)\<rparr>)" for i
        using that u(3,4) assms(8) p(2,3) by (auto simp: less_Suc_eq)
    qed (use u(1) in \<open>simp add: booted_def\<close>)
  qed
  then show ?thesis unfolding setup_child_pipe_def f prod.case
    by (intro ends_check ends_mod ends_get) (use nc Some ab in \<open>simp_all add: u_def\<close>)
qed


lemma register_socket_ends:
  assumes opts: "0 < parallel opts \<and> parallel opts \<le> INT_MAX" "socketname opts \<noteq> None"
    and io: "init_promise opts io" and t: "tape_promise t"
    and s: "booted opts t (s\<lparr>processes := init_list (parallel opts)\<rparr>)" "poll_ok s" "poll_num s = 0"
  shows "ends (\<lambda>_ s'. server_safe s') (sbind (add_to_poll_list (i_socket io) POLLIN) (\<lambda>_.
     sbind (smod (\<lambda>s. s\<lparr>processes := init_process_list (parallel (s_opts s))\<rparr>)) (\<lambda>_. setup_child_pipe io)) s)"
proof (rule ends_bind, rule add_to_poll_list_ends [OF s(2)])
  show "i_socket io \<notin> set (map pf_fd (poll_entries s))" using s(3) by (simp add: poll_entries_def)
  fix l n
  let ?u = "s\<lparr>poll_list := l, poll_len := n, poll_num := Suc (poll_num s)\<rparr>"
  assume p: "poll_ok ?u" "\<And>i. i < poll_num s \<Longrightarrow> l ! i = poll_list s ! i"
    "l ! poll_num s = Some \<lparr>pf_fd = i_socket io, pf_events = POLLIN, pf_revents = 0\<rparr>"
  have o: "s_opts s = opts" using s(1) by (simp add: booted_def)
  have "ends (\<lambda>_ s'. server_safe s') (setup_child_pipe io (?u\<lparr>processes := init_list (parallel opts)\<rparr>))"
    by (rule setup_child_pipe_ends [OF _ t opts io])
      (use s p in \<open>simp_all add: booted_def poll_ok_def\<close>)
  then show "ends (\<lambda>_ s'. server_safe s') (sbind (smod (\<lambda>s. s\<lparr>processes := init_process_list (parallel (s_opts s))\<rparr>))
      (\<lambda>_. setup_child_pipe io) ?u)" using o by (intro ends_mod) (simp add: init_process_list_def)
qed

lemma poll_ok_malloc: "0 < n \<Longrightarrow> poll_ok (s\<lparr>poll_len := n, poll_list := arr_malloc n, poll_num := 0\<rparr>)"
  by (simp add: poll_ok_def array_simps)

lemma server_init_ends:
  assumes opts: "0 < parallel opts \<and> parallel opts \<le> INT_MAX" "socketname opts \<noteq> None"
    and io: "init_promise opts io" and t: "tape_promise t"
  shows "ends (\<lambda>_ s'. server_safe s') (server_init_listening basename io name (parallel opts) (initial_server opts t))"
proof -
  have "0 < unat (100 :: 32 word)" "unat (100 :: 32 word) \<le> 2 ^ 31" by simp_all
  then obtain q :: "request t_queue" where q: "init_request_queue = Inr q" "queue_inv q" "queue_list q = []"
    unfolding init_request_queue_def by (rule init_queue_spec)
  have lg: "i_open io = - 1 \<or> i_chdir io = - 1 \<Longrightarrow> \<not> logging opts" "logging opts \<Longrightarrow> i_fopen_ok io"
    using io by (auto simp: init_promise_def)
  have cwd: "length (i_getcwd io) \<le> 2 ^ 29" using io by (simp add: init_promise_def)
  show ?thesis unfolding server_init_listening_def
    by (intro ends_mod ends_check ends_emit ends_lift [OF q(1)] ends_lift_cases register_socket_ends [OF opts io t])
      (use lg q cwd opts(1) in \<open>auto simp: no_clients_def initial_server_def init_list_def init_logging_def booted_def poll_ok_def array_simps
        split: if_splits\<close>)
qed

lemma server_main_ends:
  assumes "parse_options einval gets optind argc = Inr opts" "init_promise opts io" "tape_promise t"
  shows "ends (\<lambda>_ s'. server_safe s') (server_main einval gets optind argc basename ft io t n)"
proof -
  note o = parse_options_ok [OF assms(1)]
  show ?thesis unfolding server_main_def assms(1) sum.case
    by (intro ends_bind ends_mono [OF server_init_ends [OF o(1,2) assms(2,3)]] main_loop_ends)
qed

end
