(* ===== verification/Server_props.thy ===== *)
theory Server_props
  imports Server_init
begin

text \<open>
  The properties of the Unix server as a whole: absence of failures, scheduling, framing
  of the input in lines, interruption, messages, and the three ways in which the code can
  fail.
\<close>

section \<open>Lemmas on effects\<close>

text \<open>The processes that were started, and the state that running a request does not touch.\<close>

fun started :: "effect list \<Rightarrow> child_image list" where
  "started [] = []"
| "started (E_fork pid img # es) = img # started es"
| "started (e # es) = started es"

lemma started_append [simp]: "started (xs @ ys) = started xs @ started ys"
  by (induction xs rule: started.induct) auto

definition job_part :: "server \<Rightarrow> nat t_list \<times> options \<times> effect list \<times> t_proc t_list" where
  "job_part s = (clients s, s_opts s, s_out s, processes s)"

lemma job_part_updates [simp]:
  "job_part (s\<lparr>s_heap := h\<rparr>) = job_part s" "job_part (s\<lparr>poll_list := l\<rparr>) = job_part s"
  "job_part (s\<lparr>s_os := t\<rparr>) = job_part s" "job_part (s\<lparr>queue := q\<rparr>) = job_part s"
  by (simp_all add: job_part_def)

lemma keeps_job_write [keeps_intros]: "keeps job_part (queue_write p msg)"
  unfolding queue_write_def by (intro keeps_intros; simp)









section \<open>Lines of the input\<close>

text \<open>The complete lines of a text, without their newline, and what follows the last one.\<close>

fun split_lines :: "string \<Rightarrow> string list \<times> string" where
  "split_lines [] = ([], [])"
| "split_lines (c # cs) = (case split_lines cs of (ls, r) \<Rightarrow>
     if c = CHR 0x0A then ([] # ls, r) else (case ls of [] \<Rightarrow> ([], c # r) | l # ls \<Rightarrow> ((c # l) # ls, r)))"

fun run_lines :: "int \<Rightarrow> string list \<Rightarrow> unit sm" where
  "run_lines key [] = sret ()"
| "run_lines key (l # ls) = sbind (handle_line l key) (\<lambda>_. run_lines key ls)"

lemma split_lines_plain: "CHR 0x0A \<notin> set l \<Longrightarrow> split_lines l = ([], l)"
  by (induction l) auto

lemma split_lines_newline:
  "CHR 0x0A \<notin> set l \<Longrightarrow> split_lines (l @ CHR 0x0A # cs) = (l # fst (split_lines cs), snd (split_lines cs))"
  by (induction l) (auto split: prod.splits)

lemma text_cases:
  obtains (plain) "CHR 0x0A \<notin> set cs" | (line) l rest where "cs = l @ CHR 0x0A # rest" "CHR 0x0A \<notin> set l"
  by (metis split_list_first)

lemma split_lines_drop:
  "length (snd (split_lines cs)) \<le> length cs \<and> drop (length cs - length (snd (split_lines cs))) cs = snd (split_lines cs)"
proof (induction "length cs" arbitrary: cs rule: less_induct)
  case less
  show ?case
  proof (cases cs rule: text_cases)
    case (line l rest)
    then show ?thesis using less [of rest] by (auto simp: split_lines_newline Suc_diff_le)
  qed (simp add: split_lines_plain)
qed

lemma split_lines_append:
  "split_lines (xs @ ys) =
   (fst (split_lines xs) @ fst (split_lines (snd (split_lines xs) @ ys)), snd (split_lines (snd (split_lines xs) @ ys)))"
proof (induction "length xs" arbitrary: xs rule: less_induct)
  case less
  show ?case
  proof (cases xs rule: text_cases)
    case (line l rest)
    then show ?thesis using less [of rest] by (simp add: split_lines_newline)
  qed (simp add: split_lines_plain)
qed

lemma run_lines_append: "run_lines key (xs @ ys) s = sbind (run_lines key xs) (\<lambda>_. run_lines key ys) s"
  by (induction xs arbitrary: s) (auto simp: sbind_def sret_def split: run.splits)

lemma find_newline_eq:
  assumes "cur \<le> length bs"
  shows "find_newline (map Some bs) cur (int (length bs)) = Inr (cur + length (takeWhile (\<lambda>c. c \<noteq> CHR 0x0A) (drop cur bs)))"
  using assms
proof (induction "map Some bs" cur "int (length bs)" rule: find_newline.induct)
  case (1 cur)
  show ?case
  proof (cases "cur < length bs")
    case True
    then have d: "drop cur bs = bs ! cur # drop (Suc cur) bs" by (simp add: Cons_nth_drop_Suc)
    have r: "arr_read (map Some bs) cur = Inr (bs ! cur)" using True by (simp add: arr_read_def)
    show ?thesis using 1(1) [OF _ r] True r by (auto simp: find_newline.simps [of _ cur] d)
  qed (use 1(2) in \<open>simp add: find_newline.simps [of _ "length bs"]\<close>)
qed

lemma arr_slice_eq: "old \<le> n \<Longrightarrow> n \<le> length bs \<Longrightarrow> arr_slice (map Some bs) [old..<n] = Inr (take (n - old) (drop old bs))"
proof (induction "n - old" arbitrary: old)
  case (Suc k)
  then have lt: "old < n" by simp
  then have "[old..<n] = old # [Suc old..<n]" by (rule upt_conv_Cons)
  moreover have "take (n - old) (drop old bs) = bs ! old # take (n - Suc old) (drop (Suc old) bs)"
    using lt Suc.prems Suc.hyps(2) by (simp add: Cons_nth_drop_Suc [symmetric] take_Cons')
  moreover have "arr_slice (map Some bs) [Suc old..<n] = Inr (take (n - Suc old) (drop (Suc old) bs))"
    using Suc.hyps lt Suc.prems by (intro Suc.hyps) auto
  ultimately show ?case using lt Suc.prems by (simp add: arr_read_def)
qed simp

lemma handle_lines_eq:
  assumes "k \<le> length bs"
  shows "handle_lines (map Some bs) (int (length bs)) key k k s =
    sbind (run_lines key (fst (split_lines (drop k bs)))) (\<lambda>_. sret (length bs - length (snd (split_lines (drop k bs))))) s"
  using assms
proof (induction "length bs - k" arbitrary: k s rule: less_induct)
  case less
  note f = find_newline_eq [OF less.prems]
  show ?case
  proof (cases "drop k bs" rule: text_cases)
    case plain
    have "find_newline (map Some bs) k (int (length bs)) = Inr (length bs)"
      using f less.prems by (simp add: takeWhile_plain_all [OF plain])
    then have "handle_lines (map Some bs) (int (length bs)) key k k s = Done k s"
      by (subst handle_lines.simps) simp
    then show ?thesis using less.prems by (simp add: split_lines_plain [OF plain] sbind_def sret_def)
  next
    case (line l rest)
    have tw: "takeWhile (\<lambda>c. c \<noteq> CHR 0x0A) (drop k bs) = l" unfolding line(1) by (rule takeWhile_plain [OF line(2)])
    have len: "length bs = k + length l + Suc (length rest)" using arg_cong [OF line(1), of length] less.prems by simp
    have rest: "drop (Suc (k + length l)) bs = rest"
      using arg_cong [OF line(1), of "drop (Suc (length l))"] by (simp add: add.commute)
    have sl: "arr_slice (map Some bs) [k..<k + length l] = Inr l"
      using arr_slice_eq [of k "k + length l" bs] len line(1) by simp
    have ih: "handle_lines (map Some bs) (int (length bs)) key (Suc (k + length l)) (Suc (k + length l)) t =
        sbind (run_lines key (fst (split_lines rest))) (\<lambda>_. sret (length bs - length (snd (split_lines rest)))) t" for t
      using less.hyps [of "Suc (k + length l)" t] len rest by simp
    have lt: "k + length l < length bs" using len by simp
    have f': "find_newline (map Some bs) k (int (length bs)) = Inr (k + length l)" using f by (simp add: tw)
    have "handle_lines (map Some bs) (int (length bs)) key k k s =
        sbind (handle_line l key) (\<lambda>_. handle_lines (map Some bs) (int (length bs)) key (Suc (k + length l)) (Suc (k + length l))) s"
      by (subst handle_lines.simps) (use lt in \<open>simp add: f' sl\<close>)
    then show ?thesis
      by (simp add: line(1) split_lines_newline [OF line(2)] sbind_def ih split: run.splits)
  qed
qed


section \<open>Properties\<close>


definition sample_io :: init_os where
  "sample_io = \<lparr>i_getcwd = ''/tmp'', i_open = 3, i_chdir = 0, i_fopen_ok = True, i_socket = 4, i_unlink = 0,
     i_unlink_enoent = False, i_bind = 0, i_listen = 0, i_fchdir = 0, i_close = 0, i_pipe = Some (5, 6),
     i_fcntl = (0, 0, 0, 0), i_sigaction = 0\<rparr>"

definition sample_os :: os where
  "sample_os = \<lparr>os_accept = [7], os_read = [Some (''run;t1;10;0;prover;file'' @ [CHR 0x0A])], os_write = [Some 5],
     os_fork = [100], os_mkstemp = [(8, ''abcdef'')], os_wait3 = [(100, Exit_status 0, 1, 500), (0, Other_status, 0, 0)],
     os_poll = [Poll_events [1, 0], Poll_events [0, 0, 1], Poll_events [0, 0, 4], Poll_events [0, 1, 0]],
     os_pipe = [Pipe_read], os_open = (\<lambda>_. 9)\<rparr>"






text \<open>
  C5. How the input is cut into reads does not matter: handling the bytes of one read and
  then the bytes left over with those of the next read has the effect of handling all
  bytes at once, and consumes as many of them.
\<close>

theorem handle_lines_chunks:
  "sbind (handle_lines (map Some b1) (int (length b1)) key 0 0) (\<lambda>k.
     sbind (handle_lines (map Some (drop k b1 @ b2)) (int (length (drop k b1 @ b2))) key 0 0) (\<lambda>k'. sret (k + k'))) s =
   handle_lines (map Some (b1 @ b2)) (int (length (b1 @ b2))) key 0 0 s"
proof -
  define r1 where "r1 = snd (split_lines b1)"
  have r1: "length r1 \<le> length b1" "drop (length b1 - length r1) b1 = r1" using split_lines_drop [of b1] by (simp_all add: r1_def)
  define r2 where "r2 = snd (split_lines (r1 @ b2))"
  have r2: "length r2 \<le> length r1 + length b2" using split_lines_drop [of "r1 @ b2"] by (simp add: r2_def)
  have h: "handle_lines (map Some bs) (int (length bs)) key 0 0 =
      sbind (run_lines key (fst (split_lines bs))) (\<lambda>_. sret (length bs - length (snd (split_lines bs))))" for bs
    by (rule ext) (simp add: handle_lines_eq)
  have len: "length b1 - length r1 + (length b1 + length b2 - (length b1 - length r1 + length r2)) = length b1 + length b2 - length r2"
    using r1(1) r2 by arith
  show ?thesis
    unfolding h split_lines_append [of b1 b2] r1_def [symmetric]
    by (simp add: sbind_def sret_def run_lines_append r1(2) r2_def [symmetric] len split: run.splits)
qed

text \<open>
  C23. An interrupt request removes exactly the queued requests with its identifier, kills
  exactly the running processes with it, in the order of the process list, and changes
  neither the process list nor the clients.
\<close>

theorem handle_request_interrupt:
  assumes "server_inv s" "req_type r = REQ_INTERRUPT"
  shows "\<exists>s'. handle_request r s = Done () s' \<and>
    queue_list (queue s') = filter (\<lambda>x. req_id x \<noteq> req_id r) (queue_list (queue s)) \<and>
    s_out s' = s_out s @ map E_kill (map (proc_id \<circ> snd) (filter (\<lambda>(_, p). task_id p = req_id r) (list_pairs (processes s)))) \<and>
    processes s' = processes s \<and> clients s' = clients s \<and> server_inv s'"
proof -
  have q: "queue_inv (queue s)" and l: "list_inv (processes s)" and lg: "logging (s_opts s) \<longrightarrow> logfile s \<noteq> None"
    using assms(1) by (simp_all add: inv_defs)
  obtain q' where q': "remove_from_queue (queue s) (req_id r) = Inr q'" "queue_inv q'"
    "queue_list q' = filter (\<lambda>x. req_id x \<noteq> req_id r) (queue_list (queue s))" by (rule remove_from_queue_filter [OF q])
  define m where "m = ''Why3 server: removing id '' @ [CHR 39] @ req_id r @ [CHR 39] @ '' from queue''"
  obtain f where f: "log_msg (logging (s_opts s)) (logfile s) m = Inr f" "logging (s_opts s) \<Longrightarrow> f \<noteq> None"
    using lg by (cases "logging (s_opts s)") (auto simp: log_msg_def)
  define s' where "s' = s\<lparr>logfile := f, queue := q',
    s_out := s_out s @ map E_kill (map (proc_id \<circ> snd) (filter (\<lambda>(_, p). task_id p = req_id r) (list_pairs (processes s))))\<rparr>"
  have "handle_request r s = Done () s'"
    unfolding handle_request_def assms(2) request_type.case m_def [symmetric]
    by (simp add: run_simps server_log_def f(1) q'(1) kill_processes_eq [OF l] s'_def)
  moreover have "server_inv s'" using assms(1) q' f(2) by (auto simp: inv_defs s'_def)
  ultimately show ?thesis using q'(3) by (auto simp: s'_def)
qed

definition sample_queue :: "request t_queue" where
  "sample_queue = \<lparr>q_data = [Some \<lparr>req_key = 7, req_type = REQ_RUN, req_id = ''a'', req_run = Some \<lparr>timeout = 1, memlimit = 0, usestdin = False, cmd = ''p'', numargs = 0, args = []\<rparr>\<rparr>, None],
     q_pointer = 0, q_len = 1, q_capacity = 2\<rparr>"

definition sample_server :: server where
  "sample_server = (initial_server \<lparr>parallel = 1, socketname = Some ''sock'', logging = False, single_client = False\<rparr> sample_os)
     \<lparr>queue := sample_queue, clients := init_list 1, processes := init_list 1, poll_len := 1, poll_list := [None]\<rparr>"

lemma sample_queue_list: "map req_id (queue_list sample_queue) = [''a'']" "queue_inv sample_queue" "\<forall>r \<in> set (queue_list sample_queue). runnable r"
  by (simp_all add: sample_queue_def queue_list_def queue_inv_def queue_cell_def runnable_def small_id_def)

lemma sample_server_safe: "server_safe sample_server"
proof -
  have l: "list_inv (init_list 1)" by (rule list_inv_init) (simp_all add: INT_MAX_def)
  have "clients_ok sample_server" "procs_ok sample_server" "poll_ok sample_server" "link_ok sample_server" "queue_ok sample_server" "env_ok sample_server"
    using l sample_queue_list(2,3)
    by (auto simp: clients_ok_def procs_ok_def poll_ok_def link_ok_def queue_ok_def env_ok_def sample_server_def initial_server_def sample_os_def INT_MAX_def)
  moreover have "potential sample_server < 2 ^ 29"
    using arg_cong [OF sample_queue_list(1), of length]
    by (simp add: potential_def addrs_def input_bytes_def sample_server_def initial_server_def sample_os_def del: length_queue_list length_list_pairs)
  ultimately show ?thesis by (simp add: server_safe_def server_inv_def)
qed


theorem handle_request_interrupt_witness:
  "\<exists>s'. handle_request \<lparr>req_key = 7, req_type = REQ_INTERRUPT, req_id = ''a'', req_run = None\<rparr> sample_server = Done () s' \<and>
     queue_list (queue s') = []"
proof -
  have inv: "server_inv sample_server" using sample_server_safe by (simp add: server_safe_def)
  have "queue sample_server = sample_queue" by (simp add: sample_server_def)
  then have "filter (\<lambda>x. req_id x \<noteq> ''a'') (queue_list (queue sample_server)) = []"
    using sample_queue_list(1) by (auto simp: filter_empty_conv)
  with handle_request_interrupt [OF inv, of "\<lparr>req_key = 7, req_type = REQ_INTERRUPT, req_id = ''a'', req_run = None\<rparr>"]
  show ?thesis by auto
qed


text \<open>
  C24. A failing \<open>write\<close> disables the client: when \<open>write\<close> returns -1,
  \<open>write_to_client\<close> returns with the buffer still marked as being written and the entry
  still asking for \<open>POLLOUT\<close>, and the next call for this client fails the assertion of
  \<open>prepare_write\<close>.
\<close>

theorem failed_write_breaks_client:
  assumes "s_heap s p = Some c" "writebuf_inv (c_writebuf c)" "can_write (c_writebuf c)" "has_write_data (c_writebuf c)"
    "os_write (s_os s) = None # ts"
  shows "\<exists>s'. write_to_client p i s = Done () s' \<and> poll_list s' = poll_list s \<and> write_to_client p j s' = Failed Assert_failed"
proof -
  obtain wb buf n where w: "prepare_write (c_writebuf c) = Inr (wb, buf, n)" "w_is_writing wb" "writebuf_inv wb"
    by (rule prepare_write_spec [OF assms(2-4)]) metis
  have d: "has_write_data wb" using w(2,3) by (auto simp: writebuf_inv_def has_write_data_def split: option.splits)
  have a: "prepare_write wb = Inl Assert_failed" using w(2) by (simp add: prepare_write_def can_write_def)
  show ?thesis
    by (simp add: write_to_client_def run_simps get_client_def assms(1,5) w(1) put_client_def sys_write_def syscall_def d a)
qed

theorem failed_write_breaks_client_witness:
  "\<exists>b s'. push_write_data \<lparr>w_data = None, w_len = 0, w_pointer = 0, w_is_writing = False,
       w_queue = \<lparr>q_data = [None], q_pointer = 0, q_len = 0, q_capacity = 1\<rparr>\<rparr> ''hello'' = Inr b \<and>
     write_to_client 0 0 (sample_server\<lparr>s_heap := [0 \<mapsto> \<lparr>c_fd = 7, c_readbuf = \<lparr>r_data = [], r_len = 0, r_capacity = 0\<rparr>, c_writebuf = b\<rparr>],
       s_os := sample_os\<lparr>os_write := [None]\<rparr>\<rparr>) = Done () s' \<and> write_to_client 0 0 s' = Failed Assert_failed"
proof -
  define b where "b = \<lparr>w_data = Some ''hello'', w_len = 5, w_pointer = 0, w_is_writing = False,
       w_queue = \<lparr>q_data = [None], q_pointer = 0, q_len = 0, q_capacity = 1\<rparr> :: string t_queue\<rparr>"
  have "push_write_data \<lparr>w_data = None, w_len = 0, w_pointer = 0, w_is_writing = False,
       w_queue = \<lparr>q_data = [None], q_pointer = 0, q_len = 0, q_capacity = 1\<rparr>\<rparr> ''hello'' = Inr b"
    by (simp add: push_write_data_def has_write_data_def b_def)
  moreover have "writebuf_inv b" "can_write b" "has_write_data b"
    by (simp_all add: b_def writebuf_inv_def queue_inv_def can_write_def has_write_data_def INT_MAX_def queue_list_def)
  ultimately show ?thesis
    using failed_write_breaks_client [of "sample_server\<lparr>s_heap := [0 \<mapsto> \<lparr>c_fd = 7, c_readbuf = \<lparr>r_data = [], r_len = 0, r_capacity = 0\<rparr>, c_writebuf = b\<rparr>],
       s_os := sample_os\<lparr>os_write := [None]\<rparr>\<rparr>" 0 _ "[]" 0 0] by auto
qed


text \<open>
  C26. A failure before the log file is opened crashes the server when logging is on: the
  message of \<open>shutdown_with_msg\<close> is written through a null pointer.
\<close>

theorem early_shutdown_without_log:
  assumes "logging opts" "i_open io = -1 \<or> i_chdir io = -1"
  shows "server_init_listening basename io name par (initial_server opts t) = Failed Null_deref"
  using assms
  by (auto simp: server_init_listening_def check_call_def run_simps shutdown_with_msg_def logging_shutdown_def server_log_def log_msg_def
      initial_server_def list_length_def init_list_def)

theorem early_shutdown_without_log_witness:
  "server_init_listening (\<lambda>n. n) (sample_io\<lparr>i_chdir := -1\<rparr>) ''nodir/sock'' 1
     (initial_server \<lparr>parallel = 1, socketname = Some ''nodir/sock'', logging = True, single_client = False\<rparr> sample_os) = Failed Null_deref"
  by (rule early_shutdown_without_log) (simp_all add: sample_io_def)

end
