(* ===== verification/Limb_div.thy ===== *)
theory Limb_div
  imports Mpn_arith Mpn_bits
begin

text \<open>
  Division by a precomputed reciprocal.
\<close>

section \<open>Model\<close>

text \<open>
  \<open>mpn_invert_3by2\<close> in three steps: the high half of the reciprocal of \<open>u1\<close> with
  its remainder, the low half, and the correction for \<open>u0\<close>.
\<close>

definition invert_high :: "limb \<Rightarrow> 32 word \<times> limb" where
  "invert_high u1 =
     (let ul = (ucast (u1 AND GMP_LLIMB_MASK) :: 32 word);
          uh = (ucast (drop_bit (GMP_LIMB_BITS div 2) u1) :: 32 word);
          qh = (ucast (NOT u1 div ucast uh) :: 32 word);
          r = push_bit (GMP_LIMB_BITS div 2) (NOT u1 - ucast qh * ucast uh) OR GMP_LLIMB_MASK;
          p = ucast qh * ucast ul;
          (qh, r) = (if r < p
                     then (let qh = qh - 1; r = r + u1
                           in if r \<ge> u1 \<and> r < p then (qh - 1, r + u1) else (qh, r))
                     else (qh, r))
      in (qh, r - p))"

definition invert_low :: "limb \<Rightarrow> 32 word \<Rightarrow> limb \<Rightarrow> limb \<times> limb" where
  "invert_low u1 qh r =
     (let p = drop_bit (GMP_LIMB_BITS div 2) r * ucast qh + r;
          ql = drop_bit (GMP_LIMB_BITS div 2) p + 1;
          r = push_bit (GMP_LIMB_BITS div 2) r + GMP_LLIMB_MASK - ql * u1;
          (ql, r) = (if r \<ge> push_bit (GMP_LIMB_BITS div 2) p then (ql - 1, r + u1) else (ql, r));
          m = push_bit (GMP_LIMB_BITS div 2) (ucast qh) + ql
      in if r \<ge> u1 then (m + 1, r - u1) else (m, r))"

definition invert_adjust :: "limb \<Rightarrow> limb \<Rightarrow> limb \<Rightarrow> limb \<Rightarrow> limb" where
  "invert_adjust u1 u0 m r =
     (if u0 > 0
      then (let r = NOT r;
                r = r + u0;
                (m, r) = (if r < u0
                          then (let m = m - 1;
                                    (m, r) = (if r \<ge> u1 then (m - 1, r - u1) else (m, r))
                                in (m, r - u1))
                          else (m, r));
                (th, tl) = gmp_umul_ppmm u0 m;
                r = r + th
            in if r < th
               then m - 1 - of_bool (r > u1 \<or> (r = u1 \<and> tl > u0))
               else m)
      else m)"

definition mpn_invert_3by2 :: "limb \<Rightarrow> limb \<Rightarrow> limb result" where
  "mpn_invert_3by2 u1 u0 =
     rbind (rassert (u1 \<ge> GMP_LIMB_HIGHBIT)) (\<lambda>_.
       case invert_high u1 of (qh, r) \<Rightarrow>
         case invert_low u1 qh r of (m, r) \<Rightarrow> Inr (invert_adjust u1 u0 m r))"

definition mpn_invert_limb :: "limb \<Rightarrow> limb result" where
  "mpn_invert_limb x = mpn_invert_3by2 x 0"

section \<open>Reciprocals of integers\<close>

text \<open>
  The two candidates of a quotient by a reciprocal: for a divisor \<open>d\<close> of two digits in base
  \<open>\<beta>\<close> with \<open>V d = \<beta>\<^sup>3 - k\<close>, and for a divisor of one digit with \<open>V d = \<beta>\<^sup>2 - k\<close>.
\<close>

lemma candidate_3by2_eq:
  fixes \<beta> d V k n2 n1 n0 q1 q0 :: int
  assumes "V * d = \<beta> * \<beta> * \<beta> - k" "n2 * V + n1 = q1 * \<beta> + q0"
  shows "\<beta> * ((n2 * \<beta> + n1) * \<beta> + n0 - (q1 + 1) * d) =
    n1 * (\<beta> * \<beta> - d) + n0 * \<beta> + n2 * k + d * q0 - \<beta> * d"
proof -
  have "\<beta> * ((n2 * \<beta> + n1) * \<beta> + n0 - (q1 + 1) * d) =
      n2 * (\<beta> * \<beta> * \<beta>) + n1 * \<beta> * \<beta> + n0 * \<beta> - (q1 * \<beta>) * d - \<beta> * d"
    by (simp add: algebra_simps)
  also have "q1 * \<beta> = n2 * V + n1 - q0" using assms(2) by simp
  also have "\<beta> * \<beta> * \<beta> = V * d + k" using assms(1) by simp
  finally show ?thesis by (simp add: algebra_simps)
qed

lemma candidate_3by2_large:
  fixes \<beta> d \<delta> k n2 n1 n0 q0 M R :: int
  assumes eq: "\<beta> * R = n1 * \<delta> + n0 * \<beta> + n2 * k + d * q0 - \<beta> * d" and \<delta>: "\<delta> = \<beta> * \<beta> - d" "0 < \<delta>" "d \<le> \<beta> * \<delta>"
    and k: "k \<le> d" and d: "1 < \<beta>" "0 < d"
    and n: "0 \<le> n2" "n2 * \<beta> + n1 < d" "n1 < \<beta>" "n0 < \<beta>"
    and M: "\<delta> \<le> M" "q0 * \<beta> \<le> M"
  shows "R < M"
proof -
  have n2: "\<beta> * (n2 * k) \<le> (d - 1 - n1) * d"
  proof -
    have "\<beta> * (n2 * k) \<le> \<beta> * (n2 * d)" using n k d by (intro mult_left_mono) auto
    also have "\<dots> = (n2 * \<beta>) * d" by simp
    also have "\<dots> \<le> (d - 1 - n1) * d" using n d by (intro mult_right_mono) auto
    finally show ?thesis .
  qed
  have n1: "n1 * (\<beta> * \<delta> - d) \<le> (\<beta> - 1) * (\<beta> * \<delta> - d)"
    using n(3) \<delta>(3) by (intro mult_right_mono) auto
  have n0: "\<beta> * \<beta> * n0 \<le> \<beta> * \<beta> * (\<beta> - 1)" using n(4) d by (intro mult_left_mono) auto
  have "\<beta> * \<beta> * R = \<beta> * (n1 * \<delta> + n0 * \<beta> + n2 * k + d * q0 - \<beta> * d)"
    using eq by (simp add: mult.assoc)
  also have "\<dots> = n1 * (\<beta> * \<delta> - d) + n1 * d + \<beta> * \<beta> * n0 + \<beta> * (n2 * k) + d * (q0 * \<beta>) - \<beta> * \<beta> * d"
    by (simp add: algebra_simps)
  also have "\<dots> \<le> (\<beta> - 1) * (\<beta> * \<delta> - d) + n1 * d + \<beta> * \<beta> * (\<beta> - 1) + (d - 1 - n1) * d + d * (q0 * \<beta>) - \<beta> * \<beta> * d"
    using n2 n1 n0 by linarith
  also have "\<dots> = \<delta> * \<delta> + d * (q0 * \<beta>) - \<beta> * \<beta>"
    unfolding \<delta>(1) by (simp add: algebra_simps)
  also have "\<dots> < \<delta> * M + d * M"
  proof -
    have "\<delta> * \<delta> \<le> \<delta> * M" "d * (q0 * \<beta>) \<le> d * M" using \<delta>(2) d M by (auto intro: mult_left_mono)
    moreover have "0 < \<beta> * \<beta>" using d by simp
    ultimately show ?thesis by linarith
  qed
  also have "\<dots> = \<beta> * \<beta> * M" unfolding \<delta>(1) by (simp add: algebra_simps)
  finally show ?thesis using d by (simp add: mult_less_cancel_left)
qed

lemma candidate_3by2_small:
  fixes \<beta> d \<delta> V k n2 n1 n0 q1 q0 :: int
  assumes V: "V * d = \<beta> * \<beta> * \<beta> - k" "1 \<le> k" "k \<le> d" and \<delta>: "\<delta> = \<beta> * \<beta> - d" "0 < \<delta>" "\<beta> * \<delta> < d"
    and d: "1 < \<beta>" "0 < d" and n: "n2 < \<beta>" "0 \<le> n1" "n1 < \<beta>" "n0 < \<beta>"
    and p: "n2 * V + n1 = q1 * \<beta> + q0" "0 \<le> q0" "q0 < \<beta>"
  shows "(n2 * \<beta> + n1) * \<beta> + n0 - (q1 + 1) * d < q0 * \<beta>"
proof -
  have eq: "(V - \<beta>) * d = \<beta> * \<delta> - k" using V(1) by (simp add: \<delta>(1) algebra_simps)
  have b: "0 < \<beta> * \<delta>" using d(1) \<delta>(2) by simp
  have "(V - \<beta>) * d < 1 * d" "(-1) * d < (V - \<beta>) * d" unfolding eq using V b \<delta>(3) by linarith+
  then have "V - \<beta> < 1" "-1 < V - \<beta>" unfolding mult_less_cancel_right_pos [OF d(2)] .
  then have V': "V = \<beta>" by linarith
  have "(n2 - q1) * \<beta> = q0 - n1" using p(1) V' by (simp add: algebra_simps)
  moreover have "q0 - n1 < 1 * \<beta>" "(-1) * \<beta> < q0 - n1" using p n by linarith+
  ultimately have "(n2 - q1) * \<beta> < 1 * \<beta>" "(-1) * \<beta> < (n2 - q1) * \<beta>" by simp_all
  moreover have "0 < \<beta>" using d(1) by simp
  ultimately have "n2 - q1 < 1" "-1 < n2 - q1" using mult_less_cancel_right_pos [of \<beta>] by blast+
  then have q: "q1 = n2" by linarith
  then have q0: "q0 = n1" using p(1) V' by simp
  have "\<delta> < \<beta>"
  proof (rule ccontr)
    assume "\<not> \<delta> < \<beta>"
    then have "\<beta> * \<beta> \<le> \<beta> * \<delta>" using d(1) by simp
    then show False using \<delta> by linarith
  qed
  have "(n2 + 1) * \<delta> \<le> \<beta> * \<delta>" using n(1) \<delta>(2) by (intro mult_right_mono) auto
  moreover have "\<beta> * \<delta> \<le> \<beta> * (\<beta> - 1)" using \<open>\<delta> < \<beta>\<close> d(1) by (intro mult_left_mono) auto
  moreover have "(n2 * \<beta> + n1) * \<beta> + n0 - (q1 + 1) * d = n1 * \<beta> + n0 + (n2 + 1) * \<delta> - \<beta> * \<beta>"
    unfolding q \<delta>(1) by (simp add: algebra_simps)
  ultimately show ?thesis using n(4) q0 by (simp add: algebra_simps)
qed

lemma candidate_3by2:
  fixes \<beta> d V k n2 n1 n0 q1 q0 :: int
  assumes V: "V * d = \<beta> * \<beta> * \<beta> - k" "1 \<le> k" "k \<le> d" and d: "1 < \<beta>" "0 < d" "d < \<beta> * \<beta>"
    and n: "0 \<le> n2" "n2 * \<beta> + n1 < d" "0 \<le> n1" "n1 < \<beta>" "0 \<le> n0" "n0 < \<beta>"
    and p: "n2 * V + n1 = q1 * \<beta> + q0" "0 \<le> q0" "q0 < \<beta>"
    and R: "R = (n2 * \<beta> + n1) * \<beta> + n0 - (q1 + 1) * d"
  shows "R < max (\<beta> * \<beta> - d) (q0 * \<beta>)" and "- d \<le> R" and "q0 * \<beta> - \<beta> * \<beta> \<le> R"
    and "n2 * V + n1 < \<beta> * \<beta>"
proof -
  have b0: "0 < \<beta>" using d(1) by simp
  define \<delta> where "\<delta> = \<beta> * \<beta> - d"
  have \<delta>: "0 < \<delta>" using d by (simp add: \<delta>_def)
  have eq: "\<beta> * R = n1 * \<delta> + n0 * \<beta> + n2 * k + d * q0 - \<beta> * d"
    unfolding R \<delta>_def by (rule candidate_3by2_eq [OF V(1) p(1)])
  have "n2 * \<beta> < \<beta> * \<beta>" using n d by linarith
  then have n2: "n2 < \<beta>" using b0 by (simp only: mult_less_cancel_right_pos)
  show "R < max (\<beta> * \<beta> - d) (q0 * \<beta>)"
  proof (cases "\<beta> * \<delta> < d")
    case True
    have "R < q0 * \<beta>" unfolding R
      by (rule candidate_3by2_small [OF V \<delta>_def \<delta> True d(1,2) n2 n(3,4,6) p])
    then show ?thesis by simp
  next
    case False
    show ?thesis
      by (rule candidate_3by2_large [OF eq \<delta>_def \<delta> _ V(3) d(1,2) n(1,2,4,6)])
        (use False in \<open>auto simp: \<delta>_def\<close>)
  qed
  have "0 \<le> n1 * \<delta>" "0 \<le> n0 * \<beta>" "0 \<le> n2 * k" using n \<delta> V d by auto
  then have low: "d * q0 - \<beta> * d \<le> \<beta> * R" using eq by linarith
  moreover have "0 \<le> d * q0" using d p by auto
  ultimately have "\<beta> * (- d) \<le> \<beta> * R" by simp
  then show "- d \<le> R" using b0 by (simp only: mult_le_cancel_left_pos)
  have "0 \<le> (\<beta> - q0) * \<delta>" using p \<delta> by simp
  then have "\<beta> * (q0 * \<beta> - \<beta> * \<beta>) \<le> \<beta> * R" using low by (simp add: \<delta>_def algebra_simps)
  then show "q0 * \<beta> - \<beta> * \<beta> \<le> R" using b0 by (simp only: mult_le_cancel_left_pos)
  have V0: "0 < V"
  proof (rule ccontr)
    assume "\<not> 0 < V"
    then have "V * d \<le> 0" using d by (simp add: mult_nonpos_nonneg)
    moreover have "\<beta> * \<beta> * 1 < \<beta> * \<beta> * \<beta>" using d(1) by (intro mult_strict_left_mono) auto
    ultimately show False using V d by linarith
  qed
  show "n2 * V + n1 < \<beta> * \<beta>"
  proof -
    have "\<beta> \<le> V"
    proof (rule ccontr)
      assume "\<not> \<beta> \<le> V"
      then have "V * d \<le> (\<beta> - 1) * d" using d by (intro mult_right_mono) auto
      also have "\<dots> = \<beta> * d - d" by (simp add: algebra_simps)
      also have "\<beta> * d \<le> \<beta> * (\<beta> * \<beta> - 1)" using d by (intro mult_left_mono) auto
      finally show False using V d by (simp add: algebra_simps)
    qed
    then have "n1 * \<beta> \<le> n1 * V" using n(3) by (intro mult_left_mono) auto
    then have "\<beta> * (n2 * V + n1) \<le> (n2 * \<beta> + n1) * V" by (simp add: algebra_simps)
    also have "\<dots> \<le> (d - 1) * V" using n V0 by (intro mult_right_mono) auto
    also have "\<dots> = \<beta> * \<beta> * \<beta> - k - V" using V(1) by (simp add: algebra_simps)
    also have "\<dots> < \<beta> * (\<beta> * \<beta>)" using V V0 by simp
    finally show ?thesis using b0 by (simp only: mult_less_cancel_left_pos)
  qed
qed

lemma candidate_2by1:
  fixes \<beta> d V k n1 n0 q1 q0 :: int
  assumes V: "V * d = \<beta> * \<beta> - k" "1 \<le> k" "k \<le> d" and d: "1 < \<beta>" "0 < d" "d < \<beta>"
    and n: "0 \<le> n1" "n1 < d" "0 \<le> n0" "n0 < \<beta>"
    and p: "n1 * V + n0 = q1 * \<beta> + q0" "0 \<le> q0" "q0 < \<beta>"
    and R: "R = n1 * \<beta> + n0 - (q1 + 1) * d"
  shows "R < max (\<beta> - d) q0" and "- d \<le> R" and "q0 - \<beta> < R"
proof -
  have b0: "0 < \<beta>" using d(1) by simp
  have "\<beta> * R = n1 * (\<beta> * \<beta>) + n0 * \<beta> - (q1 * \<beta>) * d - \<beta> * d"
    unfolding R by (simp add: algebra_simps)
  also have "q1 * \<beta> = n1 * V + n0 - q0" using p(1) by simp
  also have "\<beta> * \<beta> = V * d + k" using V(1) by simp
  finally have eq: "\<beta> * R = n1 * k + n0 * (\<beta> - d) + d * q0 - \<beta> * d" by (simp add: algebra_simps)
  have "0 \<le> n1 * k" "0 \<le> n0 * (\<beta> - d)" using n V d by auto
  then have low: "d * q0 - \<beta> * d \<le> \<beta> * R" using eq by linarith
  moreover have "0 \<le> d * q0" using d p by auto
  ultimately have "\<beta> * (- d) \<le> \<beta> * R" by simp
  then show "- d \<le> R" using b0 by (simp only: mult_le_cancel_left_pos)
  have "0 < (\<beta> - q0) * (\<beta> - d)" using p d by simp
  then have "\<beta> * (q0 - \<beta>) < \<beta> * R" using low by (simp add: algebra_simps)
  then show "q0 - \<beta> < R" using b0 by (simp only: mult_less_cancel_left_pos)
  define M where "M = max (\<beta> - d) q0"
  have "n1 * k \<le> (d - 1) * d" using n V by (intro mult_mono) auto
  moreover have "n0 * (\<beta> - d) \<le> (\<beta> - 1) * (\<beta> - d)" using n d by (intro mult_right_mono) auto
  ultimately have "\<beta> * R \<le> (\<beta> - d) * (\<beta> - d) + d * q0 - \<beta>" using eq by (simp add: algebra_simps)
  also have "\<dots> < (\<beta> - d) * M + d * M"
  proof -
    have "(\<beta> - d) * (\<beta> - d) \<le> (\<beta> - d) * M" "d * q0 \<le> d * M"
      using d by (auto simp: M_def intro: mult_left_mono)
    then show ?thesis using d(1) by linarith
  qed
  also have "\<dots> = \<beta> * M" by (simp add: algebra_simps)
  finally show "R < max (\<beta> - d) q0" using b0 by (simp only: mult_less_cancel_left_pos M_def)
qed

lemma quotient_digit:
  fixes q d r n \<beta> :: int
  assumes "n = q * d + r" "0 \<le> r" "r < d" "0 \<le> n" "n < d * \<beta>"
  shows "0 \<le> q \<and> q < \<beta>"
proof -
  have d: "0 < d" using assms by linarith
  have "0 * d < (q + 1) * d" using assms by (simp add: algebra_simps)
  then have "0 < q + 1" by (simp only: mult_less_cancel_right_pos [OF d])
  moreover have "q * d < \<beta> * d" using assms by (simp only: mult.commute [of d \<beta>])
  then have "q < \<beta>" by (simp only: mult_less_cancel_right_pos [OF d])
  ultimately show ?thesis by simp
qed

section \<open>Limbs and integers\<close>

lemma limb_of_nat_unat [simp]: "(of_nat (unat x) :: limb) = x"
  by (simp add: of_nat_unat)

lemma int_unat_of_int: "int (unat (of_int x :: limb)) = x mod int B"
  by (simp add: B_def uint_word_of_int flip: uint_nat)

lemma unat_of_int_id: "0 \<le> x \<Longrightarrow> x < int B \<Longrightarrow> int (unat (of_int x :: limb)) = x"
  by (simp add: int_unat_of_int)

lemma unat_of_int_neg: "x < 0 \<Longrightarrow> - int B \<le> x \<Longrightarrow> int (unat (of_int x :: limb)) = x + int B"
proof -
  assume x: "x < 0" "- int B \<le> x"
  have "x mod int B = (x + int B) mod int B" by simp
  also have "\<dots> = x + int B" using x by (intro mod_pos_pos_trivial) auto
  finally show ?thesis by (simp add: int_unat_of_int)
qed

lemma limb_less_int: "(a :: limb) < b \<longleftrightarrow> int (unat a) < int (unat b)"
  by (simp add: word_less_nat_alt)

lemma limb_le_int: "(a :: limb) \<le> b \<longleftrightarrow> int (unat a) \<le> int (unat b)"
  by (simp add: word_le_nat_alt)

lemma int_limb_bounds: "0 \<le> int (unat (x :: limb))" "int (unat x) < int B"
  using unat_less_B [of x] by auto

lemma of_int_B [simp]: "(of_int (int B) :: limb) = 0" "(of_nat B :: limb) = 0"
  by (simp_all add: B_def)

lemma mask_and: "- (of_bool b) AND (d :: limb) = (if b then d else 0)"
  by simp

section \<open>Division of two limbs by one\<close>

lemma correct_once:
  fixes d r q :: limb and n :: int
  assumes n: "n = Q * int (unat d) + R" "0 \<le> n" "n < int (unat d) * int B"
    and w: "q = of_int Q" "r = of_int R" and R: "0 \<le> R" "R < int B" and d: "int B \<le> 2 * int (unat d)"
    and res: "(if r \<ge> d then (q + 1, r - d) else (q, r)) = (q', r')"
  shows "n = int (unat q') * int (unat d) + int (unat r') \<and> unat r' < unat d"
proof -
  have r: "int (unat r) = R" unfolding w by (rule unat_of_int_id [OF R])
  have done_: ?thesis if "q' = of_int Q'" "r' = of_int R'" "n = Q' * int (unat d) + R'" "0 \<le> R'" "R' < int (unat d)" for Q' R'
  proof -
    have "0 \<le> Q' \<and> Q' < int B" by (rule quotient_digit [OF that(3,4,5) n(2,3)])
    then have "int (unat q') = Q'" unfolding that(1) by (intro unat_of_int_id) auto
    moreover have "int (unat r') = R'" unfolding that(2)
      using that(4,5) int_limb_bounds [of d] by (intro unat_of_int_id) auto
    ultimately show ?thesis using that by simp
  qed
  show ?thesis
  proof (cases "r \<ge> d")
    case True
    then have "int (unat d) \<le> R" by (simp add: limb_le_int r)
    then show ?thesis using True res w n R d
      by (intro done_ [of "Q + 1" "R - int (unat d)"]) (auto simp: algebra_simps)
  next
    case False
    then have "R < int (unat d)" by (simp add: limb_le_int r)
    then show ?thesis using False res w n R by (intro done_ [of Q R]) auto
  qed
qed

lemma adjust_once:
  fixes qh r0 ql d :: limb
  assumes w: "qh = of_int Q" "r0 = of_int R"
    and R: "R < max (int B - int (unat d)) (int (unat ql))" "- int (unat d) \<le> R" "int (unat ql) - int B < R"
    and d: "0 < unat d"
  obtains Q' R' where "(if r0 > ql then qh - 1 else qh) = of_int Q'" "(if r0 > ql then r0 + d else r0) = of_int R'"
    "Q * int (unat d) + R = Q' * int (unat d) + R'" "0 \<le> R'" "R' < int B"
proof (cases "r0 > ql")
  case True
  define D where "D = int (unat d)"
  note R' = R [folded D_def]
  have D: "0 < D" "D < int B" using d int_limb_bounds [of d] by (auto simp: D_def)
  have "0 \<le> R + D \<and> R + D < int B"
  proof (cases "R < 0")
    case False
    then have "int (unat r0) = R" unfolding w using R' D int_limb_bounds [of ql] by (intro unat_of_int_id) auto
    then have "R < int B - D" using True R'(1) by (auto simp: limb_less_int)
    then show ?thesis using False D by simp
  qed (use R'(2) D in simp)
  moreover have "qh - 1 = of_int (Q - 1)" "r0 + d = of_int (R + D)" by (simp_all add: w D_def)
  moreover have "Q * D + R = (Q - 1) * D + (R + D)" by (simp add: algebra_simps)
  ultimately show ?thesis using True that [of "Q - 1" "R + D"] by (simp add: D_def)
next
  case False
  have "0 \<le> R"
  proof (rule ccontr)
    assume "\<not> 0 \<le> R"
    then have "int (unat r0) = R + int B" unfolding w using R int_limb_bounds [of d] by (intro unat_of_int_neg) auto
    then show False using False R(3) by (simp add: limb_less_int)
  qed
  moreover have "R < int B" using R(1) d int_limb_bounds [of ql] by linarith
  ultimately show ?thesis using False that [of Q R] w by simp
qed

definition inverse_limb :: "limb \<Rightarrow> limb \<Rightarrow> bool" where
  "inverse_limb d di \<longleftrightarrow> B \<le> 2 * unat d \<and> unat di + B = (B * B - 1) div unat d"

lemma reciprocal_remainder:
  fixes V d n :: nat
  assumes "V = (n - 1) div d" "0 < d" "0 < n"
  obtains k where "int V * int d = int n - k" "1 \<le> k" "k \<le> int d"
proof
  have "(n - 1) div d * d + (n - 1) mod d = n - 1" by simp
  then have "V * d + ((n - 1) mod d + 1) = n" using assms by simp
  then have "int (V * d) + int ((n - 1) mod d + 1) = int n" by (simp only: of_nat_add [symmetric])
  then show "int V * int d = int n - int ((n - 1) mod d + 1)" by simp
  show "1 \<le> int ((n - 1) mod d + 1)" by simp
  show "int ((n - 1) mod d + 1) \<le> int d" using mod_less_divisor [OF assms(2), of "n - 1"] by linarith
qed

lemma udiv_qrnnd_preinv_value:
  assumes inv: "inverse_limb d di" and nh: "unat nh < unat d"
    and res: "gmp_udiv_qrnnd_preinv nh nl d di = (q, r)"
  shows "unat nh * B + unat nl = unat q * unat d + unat r" and "unat r < unat d"
proof -
  define D N1 N0 where "D = int (unat d)" and "N1 = int (unat nh)" and "N0 = int (unat nl)"
  define V where "V = int (unat di + B)"
  obtain a0 b0 where u: "gmp_umul_ppmm nh di = (a0, b0)" by (cases "gmp_umul_ppmm nh di")
  define ql where "ql = b0 + nl"
  define c where "c = (of_bool (ql < b0) :: int)"
  define Q1 where "Q1 = int (unat a0) + N1 + c"
  define R where "R = N1 * int B + N0 - (Q1 + 1) * D"
  define qh where "qh = a0 + (nh + 1) + of_bool (ql < b0)"
  define r0 where "r0 = nl - qh * d"
  have D: "0 < D" "D < int B" "int B \<le> 2 * D" using inv int_limb_bounds [of d] nh by (auto simp: inverse_limb_def D_def)
  have n: "0 \<le> N1" "N1 < D" "0 \<le> N0" "N0 < int B" using nh int_limb_bounds [of nl] by (auto simp: N1_def N0_def D_def)
  obtain k where k: "V * D = int B * int B - k" "1 \<le> k" "k \<le> D"
  proof -
    have i: "unat di + B = (B * B - 1) div unat d" "0 < unat d" "0 < B * B"
      using inv nh by (simp_all add: inverse_limb_def)
    from reciprocal_remainder [OF i] show ?thesis
      using that unfolding V_def D_def by (simp only: of_nat_mult) blast
  qed
  have lo: "int (unat ql) + int B * c = int (unat b0) + N0"
    using arg_cong [OF limb_add(2) [of b0 nl], of int] by (simp add: ql_def c_def N0_def)
  have hi: "int (unat a0) * int B + int (unat b0) = N1 * int (unat di)"
    using arg_cong [OF gmp_umul_ppmm_value [OF u], of int] by (simp add: N1_def)
  have p: "N1 * V + N0 = Q1 * int B + int (unat ql)"
    using lo hi by (simp add: V_def Q1_def algebra_simps)
  have b: "1 < int B" by (simp add: B_def)
  note cand = candidate_2by1 [OF k b D(1,2) n p int_limb_bounds R_def]
  have qh: "qh = of_int (Q1 + 1)" by (simp add: qh_def Q1_def N1_def c_def)
  have r0: "r0 = of_int R" by (simp add: r0_def qh R_def N0_def N1_def D_def)
  define q2 r2 where "q2 = (if r0 > ql then qh - 1 else qh)" and "r2 = (if r0 > ql then r0 + d else r0)"
  have fin: "(if r2 \<ge> d then (q2 + 1, r2 - d) else (q2, r2)) = (q, r)"
    using res unfolding gmp_udiv_qrnnd_preinv_def u gmp_add_ssaaaa_def Let_def prod.case
      ql_def [symmetric] qh_def [symmetric] r0_def [symmetric] q2_def r2_def mask_and
    by (cases "ql < r0") (auto split: if_splits)
  obtain Q' R' where "q2 = of_int Q'" "r2 = of_int R'" "(Q1 + 1) * D + R = Q' * D + R'" "0 \<le> R'" "R' < int B"
    unfolding q2_def r2_def by (rule adjust_once [OF qh r0 cand [unfolded D_def]]) (use D in \<open>auto simp: D_def\<close>)
  then have x: "q2 = of_int Q'" "r2 = of_int R'" "N1 * int B + N0 = Q' * D + R'" "0 \<le> R'" "R' < int B"
    by (simp_all add: R_def)
  have "N1 * int B \<le> (D - 1) * int B" using n(2) by (intro mult_right_mono) auto
  then have N: "0 \<le> N1 * int B + N0" "N1 * int B + N0 < D * int B" using n by (auto simp: algebra_simps)
  from correct_once [OF x(3) [unfolded D_def] N [unfolded D_def] x(1,2,4,5) D(3) [unfolded D_def] fin]
  show "unat nh * B + unat nl = unat q * unat d + unat r" "unat r < unat d"
    unfolding N1_def N0_def by (auto simp flip: of_nat_mult of_nat_add)
qed

section \<open>Division of three limbs by two\<close>

definition val2 :: "limb \<Rightarrow> limb \<Rightarrow> int" where
  "val2 h l = int (unat h) * int B + int (unat l)"

lemma val2_bounds: "0 \<le> val2 h l" "val2 h l < int B * int B"
proof -
  show "0 \<le> val2 h l" by (simp add: val2_def)
  have "int (unat h) * int B \<le> (int B - 1) * int B" using int_limb_bounds [of h] by (intro mult_right_mono) auto
  then show "val2 h l < int B * int B" using int_limb_bounds [of l] by (simp add: val2_def algebra_simps)
qed

lemma val2_normal:
  assumes "B \<le> 2 * unat h"
  shows "int B * int B \<le> 2 * val2 h l"
proof -
  have "int B * int B \<le> 2 * int (unat h) * int B" using assms by (intro mult_right_mono) auto
  also have "\<dots> \<le> 2 * val2 h l" by (simp add: val2_def)
  finally show ?thesis .
qed

lemma val2_less_iff: "val2 h l < val2 h' l' \<longleftrightarrow> h < h' \<or> h = h' \<and> l < l'"
proof -
  have lex: "val2 a b < val2 a' b'" if "a < a'" for a b a' b'
  proof -
    have "int (unat a) * int B + int B \<le> int (unat a') * int B"
      using that mult_right_mono [of "int (unat a) + 1" "int (unat a')" "int B"]
      by (simp add: limb_less_int algebra_simps)
    then show ?thesis using int_limb_bounds [of b] int_limb_bounds [of b'] unfolding val2_def by linarith
  qed
  show ?thesis
  proof (cases h h' rule: linorder_cases)
    case equal
    then show ?thesis by (simp add: val2_def limb_less_int)
  next
    case less
    then show ?thesis using lex by simp
  next
    case greater
    then show ?thesis using lex [OF greater, of l' l] by auto
  qed
qed

lemma val2_ge_high: "int (unat q) * int B \<le> val2 h l \<longleftrightarrow> q \<le> h"
  using val2_less_iff [of h l q 0] by (auto simp: val2_def not_less [symmetric])

lemma add2_value:
  assumes "gmp_add_ssaaaa ah al bh bl = (sh, sl)"
  shows "val2 sh sl = (val2 ah al + val2 bh bl) mod (int B * int B)"
proof -
  have "int ((unat sh * B + unat sl) mod (B * B)) = int ((unat ah * B + unat al + unat bh * B + unat bl) mod (B * B))"
    using add_ssaaaa_value [OF assms] by simp
  then have "val2 sh sl mod (int B * int B) = (val2 ah al + val2 bh bl) mod (int B * int B)"
    by (simp add: zmod_int val2_def algebra_simps)
  then show ?thesis using val2_bounds by simp
qed

lemma sub2_value:
  assumes "gmp_sub_ddmmss ah al bh bl = (sh, sl)"
  shows "val2 sh sl = (val2 ah al - val2 bh bl) mod (int B * int B)"
proof -
  define c where "c = (of_bool (al < bl) :: int)"
  from assms have s: "sl = al - bl" "sh = ah - bh - of_bool (al < bl)"
    by (auto simp: gmp_sub_ddmmss_def Let_def)
  have lo: "int (unat sl) = int (unat al) - int (unat bl) + int B * c" using limb_sub [of al bl] by (simp add: s c_def)
  have "sh = of_int (int (unat ah) - int (unat bh) - c)" by (simp add: s c_def)
  then have "int (unat sh) = (int (unat ah) - int (unat bh) - c) mod int B" by (simp only: int_unat_of_int)
  then have "int (unat sh) * int B = ((int (unat ah) - int (unat bh) - c) * int B) mod (int B * int B)"
    by (simp only: mult_mod_left)
  then have "val2 sh sl mod (int B * int B) =
      ((int (unat ah) - int (unat bh) - c) * int B + int (unat sl)) mod (int B * int B)"
    unfolding val2_def by (simp only: mod_add_left_eq)
  also have "(int (unat ah) - int (unat bh) - c) * int B + int (unat sl) = val2 ah al - val2 bh bl"
    unfolding val2_def lo by (simp add: algebra_simps)
  finally show ?thesis using val2_bounds [of sh sl] by simp
qed

lemma umul2_value: "gmp_umul_ppmm u v = (h, l) \<Longrightarrow> val2 h l = int (unat u) * int (unat v)"
  using arg_cong [OF gmp_umul_ppmm_value, of u v h l int] by (simp add: val2_def)

lemma adjust_double:
  fixes X R D b q0 :: int
  assumes X: "X = R mod (b * b)" and R: "R < max (b * b - D) (q0 * b)" "- D \<le> R" "q0 * b - b * b \<le> R"
    and D: "0 < D" "D < b * b" and q0: "q0 < b" "0 < b"
    and R': "R' = (if q0 * b \<le> X then R + D else R)"
  shows "0 \<le> R'" "R' < b * b" "(if q0 * b \<le> X then (X + D) mod (b * b) else X) = R'"
proof -
  have q0b: "q0 * b < b * b" using q0 by simp
  have "0 \<le> R' \<and> R' < b * b \<and> (q0 * b \<le> X \<or> X = R)"
  proof (cases "R < 0")
    case True
    have "X = (R + b * b) mod (b * b)" unfolding X by simp
    also have "\<dots> = R + b * b" using True R D by (intro mod_pos_pos_trivial) auto
    finally show ?thesis using R' R D True by simp
  next
    case False
    then have X': "X = R" using X R(1) D q0b by simp
    show ?thesis
    proof (cases "q0 * b \<le> X")
      case True
      then have "R < b * b - D" using R(1) X' by linarith
      then show ?thesis using False True D R' by simp
    next
      case f: False
      then show ?thesis using False X' q0b R' by simp
    qed
  qed
  then have b: "0 \<le> R'" "R' < b * b" and x: "q0 * b \<le> X \<or> X = R" by blast+
  show "0 \<le> R'" "R' < b * b" by fact+
  show "(if q0 * b \<le> X then (X + D) mod (b * b) else X) = R'"
    using b x unfolding R' X by (auto simp: mod_add_left_eq)
qed

definition inverse_3by2 :: "limb \<Rightarrow> limb \<Rightarrow> limb \<Rightarrow> bool" where
  "inverse_3by2 d1 d0 di \<longleftrightarrow> B \<le> 2 * unat d1 \<and> unat di + B = (B * B * B - 1) div (unat d1 * B + unat d0)"

lemma inverse_3by2_remainder:
  assumes "inverse_3by2 d1 d0 di"
  obtains k where "(int (unat di) + int B) * val2 d1 d0 = int B * int B * int B - k" "1 \<le> k" "k \<le> val2 d1 d0"
proof -
  have "0 < unat d1" using assms B_pos unfolding inverse_3by2_def by linarith
  then have d: "0 < unat d1 * B + unat d0" by simp
  have i: "unat di + B = (B * B * B - 1) div (unat d1 * B + unat d0)" "0 < B * B * B"
    using assms by (simp_all add: inverse_3by2_def)
  obtain k where "int (unat di + B) * int (unat d1 * B + unat d0) = int (B * B * B) - k"
    "1 \<le> k" "k \<le> int (unat d1 * B + unat d0)"
    by (rule reciprocal_remainder [OF i(1) d i(2)])
  then show ?thesis using that [of k] by (simp add: val2_def)
qed

text \<open>The candidate remainder, computed modulo the square of the base.\<close>

lemma candidate_remainder:
  assumes r1: "r1 = n1 - d1 * q" and s1: "gmp_sub_ddmmss r1 n0 d1 d0 = (r1', r0')"
    and t: "gmp_umul_ppmm d0 q = (t1, t0)" and s2: "gmp_sub_ddmmss r1' r0' t1 t0 = (x1, x0)"
  shows "val2 x1 x0 = (int (unat n2) * int B * int B + val2 n1 n0 - (int (unat q) + 1) * val2 d1 d0) mod (int B * int B)"
proof -
  have "r1 = of_int (int (unat n1) - int (unat d1) * int (unat q))" by (simp add: r1)
  then have "int (unat r1) = (int (unat n1) - int (unat d1) * int (unat q)) mod int B" by (simp only: int_unat_of_int)
  then have "int (unat r1) * int B = ((int (unat n1) - int (unat d1) * int (unat q)) * int B) mod (int B * int B)"
    by (simp only: mult_mod_left)
  then have v: "val2 r1 n0 mod (int B * int B) =
      ((int (unat n1) - int (unat d1) * int (unat q)) * int B + int (unat n0)) mod (int B * int B)"
    unfolding val2_def by (simp only: mod_add_left_eq)
  have "val2 x1 x0 = (val2 r1 n0 - val2 d1 d0 - val2 t1 t0) mod (int B * int B)"
    unfolding sub2_value [OF s2] sub2_value [OF s1] by (simp only: mod_diff_left_eq)
  also have "\<dots> = (val2 r1 n0 mod (int B * int B) - (val2 d1 d0 + val2 t1 t0)) mod (int B * int B)"
    by (simp only: mod_diff_left_eq diff_diff_eq)
  also have "\<dots> = ((int (unat n1) - int (unat d1) * int (unat q)) * int B + int (unat n0)
      - (val2 d1 d0 + int (unat d0) * int (unat q))) mod (int B * int B)"
    unfolding v umul2_value [OF t] by (simp only: mod_diff_left_eq)
  also have "(int (unat n1) - int (unat d1) * int (unat q)) * int B + int (unat n0)
      - (val2 d1 d0 + int (unat d0) * int (unat q)) = val2 n1 n0 - (int (unat q) + 1) * val2 d1 d0"
    by (simp add: val2_def algebra_simps)
  also have "\<dots> mod (int B * int B) =
      (int (unat n2) * int B * int B + (val2 n1 n0 - (int (unat q) + 1) * val2 d1 d0)) mod (int B * int B)"
    by (simp add: mult.assoc)
  finally show ?thesis by (simp add: add_diff_eq)
qed

lemma correct_double:
  fixes n Q R :: int and q q' :: limb
  assumes n: "n = Q * val2 d1 d0 + R" "0 \<le> n" "n < val2 d1 d0 * int B" and w: "q = of_int Q"
    and R: "val2 r1 r0 = R" and d: "int B * int B \<le> 2 * val2 d1 d0"
    and res: "(if r1 \<ge> d1 \<and> (r1 > d1 \<or> r0 \<ge> d0)
      then (case gmp_sub_ddmmss r1 r0 d1 d0 of (r1, r0) \<Rightarrow> (q + 1, r1, r0)) else (q, r1, r0)) = (q', r1', r0')"
  shows "n = int (unat q') * val2 d1 d0 + val2 r1' r0' \<and> val2 r1' r0' < val2 d1 d0"
proof -
  have done_: ?thesis if "q' = of_int Q'" "val2 r1' r0' = R'" "n = Q' * val2 d1 d0 + R'" "R' < val2 d1 d0" for Q' R'
  proof -
    have "0 \<le> R'" using val2_bounds(1) [of r1' r0'] that(2) by simp
    then have "0 \<le> Q' \<and> Q' < int B" by (rule quotient_digit [OF that(3) _ that(4) n(2,3)])
    then have "int (unat q') = Q'" unfolding that(1) by (intro unat_of_int_id) auto
    then show ?thesis using that by simp
  qed
  have c: "(r1 \<ge> d1 \<and> (r1 > d1 \<or> r0 \<ge> d0)) \<longleftrightarrow> val2 d1 d0 \<le> R"
    using val2_less_iff [of r1 r0 d1 d0] unfolding R [symmetric] not_less [symmetric] by auto
  show ?thesis
  proof (cases "val2 d1 d0 \<le> R")
    case True
    obtain a b where ab: "gmp_sub_ddmmss r1 r0 d1 d0 = (a, b)" by (cases "gmp_sub_ddmmss r1 r0 d1 d0")
    have "val2 a b = (R - val2 d1 d0) mod (int B * int B)" using sub2_value [OF ab] R by simp
    also have "\<dots> = R - val2 d1 d0"
      using True val2_bounds [of r1 r0] val2_bounds [of d1 d0] R by (intro mod_pos_pos_trivial) auto
    finally have v: "val2 a b = R - val2 d1 d0" .
    have "R - val2 d1 d0 < val2 d1 d0" using d val2_bounds(2) [of r1 r0] R by linarith
    moreover have "q' = q + 1" "r1' = a" "r0' = b" using res c True ab by (auto split: if_splits)
    ultimately show ?thesis using n(1) v w by (intro done_ [of "Q + 1" "R - val2 d1 d0"]) (auto simp: algebra_simps)
  next
    case False
    then have "q' = q" "r1' = r1" "r0' = r0" using res c by (auto split: if_splits)
    then show ?thesis using n(1) R w False by (intro done_ [of Q R]) auto
  qed
qed

lemma udiv_qr_3by2_value:
  assumes inv: "inverse_3by2 d1 d0 di" and nh: "val2 n2 n1 < val2 d1 d0"
    and res: "gmp_udiv_qr_3by2 n2 n1 n0 d1 d0 di = (q, r1, r0)"
  shows "val2 n2 n1 * int B + int (unat n0) = int (unat q) * val2 d1 d0 + val2 r1 r0"
    and "val2 r1 r0 < val2 d1 d0"
proof -
  define b D where "b = int B" and "D = val2 d1 d0"
  define N2 N1 N0 where "N2 = int (unat n2)" and "N1 = int (unat n1)" and "N0 = int (unat n0)"
  have B1: "1 < b" by (simp add: B_def b_def)
  have D: "0 < D" "D < b * b" "b * b \<le> 2 * D"
  proof -
    show "0 < D" "D < b * b" using nh val2_bounds [of n2 n1] val2_bounds [of d1 d0] by (auto simp: D_def b_def)
    show "b * b \<le> 2 * D" unfolding b_def D_def by (rule val2_normal) (use inv in \<open>simp add: inverse_3by2_def\<close>)
  qed
  obtain k where k: "(int (unat di) + b) * D = b * b * b - k" "1 \<le> k" "k \<le> D"
    using inverse_3by2_remainder [OF inv] unfolding b_def D_def by blast
  have n: "0 \<le> N2" "N2 * b + N1 < D" "0 \<le> N1" "N1 < b" "0 \<le> N0" "N0 < b"
    using nh int_limb_bounds [of n1] int_limb_bounds [of n0] by (auto simp: N2_def N1_def N0_def D_def b_def val2_def)
  obtain a1 a0 where a: "gmp_umul_ppmm n2 di = (a1, a0)" by (cases "gmp_umul_ppmm n2 di")
  obtain q1 q0 where qq: "gmp_add_ssaaaa a1 a0 n2 n1 = (q1, q0)" by (cases "gmp_add_ssaaaa a1 a0 n2 n1")
  define P where "P = N2 * (int (unat di) + b) + N1"
  have Pb: "0 \<le> P" "P < b * b"
  proof -
    show "0 \<le> P" using n B1 by (simp add: P_def)
    show "P < b * b" unfolding P_def
      by (rule candidate_3by2(4) [OF k B1 D(1,2) n, of "P div b" "P mod b"]) (use B1 in \<open>simp_all add: P_def\<close>)
  qed
  have p: "N2 * (int (unat di) + b) + N1 = int (unat q1) * b + int (unat q0)"
  proof -
    have "val2 q1 q0 = P mod (b * b)"
      unfolding add2_value [OF qq] umul2_value [OF a] by (simp add: val2_def P_def N2_def N1_def b_def algebra_simps)
    then have "val2 q1 q0 = P" using Pb by simp
    then show ?thesis by (simp add: val2_def P_def b_def)
  qed
  define R where "R = (N2 * b + N1) * b + N0 - (int (unat q1) + 1) * D"
  note q0b = int_limb_bounds [of q0, folded b_def]
  note cand = candidate_3by2 [OF k B1 D(1,2) n p q0b R_def]
  obtain e1 e0 where e: "gmp_sub_ddmmss (n1 - d1 * q1) n0 d1 d0 = (e1, e0)" by (cases "gmp_sub_ddmmss (n1 - d1 * q1) n0 d1 d0")
  obtain t1 t0 where t: "gmp_umul_ppmm d0 q1 = (t1, t0)" by (cases "gmp_umul_ppmm d0 q1")
  obtain x1 x0 where x: "gmp_sub_ddmmss e1 e0 t1 t0 = (x1, x0)" by (cases "gmp_sub_ddmmss e1 e0 t1 t0")
  have X: "val2 x1 x0 = R mod (b * b)"
    using candidate_remainder [OF refl e t x, of n2]
    by (simp add: R_def N2_def N1_def N0_def val2_def D_def b_def algebra_simps)
  define m where "m \<longleftrightarrow> x1 \<ge> q0"
  obtain y1 y0 where y: "gmp_add_ssaaaa x1 x0 (if m then d1 else 0) (if m then d0 else 0) = (y1, y0)"
    by (cases "gmp_add_ssaaaa x1 x0 (if m then d1 else 0) (if m then d0 else 0)")
  have m: "m \<longleftrightarrow> int (unat q0) * b \<le> val2 x1 x0" by (simp add: m_def val2_ge_high b_def)
  define R' where "R' = (if m then R + D else R)"
  note adj = adjust_double [OF X cand(1-3) D(1,2) q0b(2) _ R'_def [unfolded m]]
  have b0: "0 < b" using B1 by simp
  have vy: "val2 y1 y0 = R'"
  proof -
    have "val2 y1 y0 = (if m then (val2 x1 x0 + D) mod (b * b) else val2 x1 x0)"
      unfolding add2_value [OF y] using val2_bounds [of x1 x0] by (auto simp: D_def b_def val2_def)
    then show ?thesis using adj(3) [OF b0] m by simp
  qed
  define Q' where "Q' = (if m then int (unat q1) else int (unat q1) + 1)"
  have n': "val2 n2 n1 * int B + int (unat n0) = Q' * val2 d1 d0 + R'"
    by (simp add: Q'_def R'_def R_def D_def N2_def N1_def N0_def val2_def b_def algebra_simps)
  have lt: "val2 n2 n1 * int B + int (unat n0) < val2 d1 d0 * int B" "0 \<le> val2 n2 n1 * int B + int (unat n0)"
  proof -
    have "val2 n2 n1 * int B \<le> (val2 d1 d0 - 1) * int B" using nh by (intro mult_right_mono) auto
    then show "val2 n2 n1 * int B + int (unat n0) < val2 d1 d0 * int B"
      using int_limb_bounds [of n0] by (simp add: algebra_simps)
    show "0 \<le> val2 n2 n1 * int B + int (unat n0)" using val2_bounds(1) [of n2 n1] by simp
  qed
  have w: "q1 + 1 + - of_bool m = of_int Q'" by (simp add: Q'_def)
  have fin: "(if y1 \<ge> d1 \<and> (y1 > d1 \<or> y0 \<ge> d0)
      then (case gmp_sub_ddmmss y1 y0 d1 d0 of (r1, r0) \<Rightarrow> (q1 + 1 + - of_bool m + 1, r1, r0))
      else (q1 + 1 + - of_bool m, y1, y0)) = (q, r1, r0)"
    using res unfolding gmp_udiv_qr_3by2_def a Let_def prod.case qq e t x m_def [symmetric] mask_and y .
  from correct_double [OF n' lt(2,1) w vy D(3) [unfolded D_def b_def] fin]
  show "val2 n2 n1 * int B + int (unat n0) = int (unat q) * val2 d1 d0 + val2 r1 r0" "val2 r1 r0 < val2 d1 d0"
    by blast+
qed

end
