(* ===== verification/Limb_inv.thy ===== *)
theory Limb_inv
  imports Limb_div
begin

text \<open>
  Correctness of \<open>mpn_invert_3by2\<close>.
\<close>

section \<open>Half limbs\<close>

definition hb :: int where
  "hb = 2 ^ 32"

lemma hb_square: "hb * hb = int B"
  by (simp add: hb_def B_def)

lemma hb_pos: "1 < hb"
  by (simp add: hb_def)

lemma unat_ucast_half_int: "int (unat (ucast (x :: 32 word) :: limb)) = int (unat x)"
  by (simp only: unat_ucast_half)

lemma half_bounds: "0 \<le> int (unat (x :: 32 word))" "int (unat x) < hb"
  using unat_less_32 [of x] by (auto simp: hb_def)

lemma half_of_int: "0 \<le> x \<Longrightarrow> x < hb \<Longrightarrow> int (unat (of_int x :: 32 word)) = x"
  by (simp add: hb_def uint_word_of_int flip: uint_nat)

lemma half_of_nat_unat [simp]: "(of_nat (unat x) :: 32 word) = x"
  by (simp add: of_nat_unat)

lemma drop_half: "int (unat (drop_bit (GMP_LIMB_BITS div 2) x :: limb)) = int (unat x) div hb"
  by (simp add: GMP_LIMB_BITS_def hb_def unat_drop_bit zdiv_int)

lemma push_half_mod: "int (unat (push_bit (GMP_LIMB_BITS div 2) x :: limb)) = int (unat x) mod hb * hb"
  using unat_push_32 [of x] by (simp add: GMP_LIMB_BITS_def hb_def zmod_int)

lemma push_half: "push_bit (GMP_LIMB_BITS div 2) x = (of_int (hb * int (unat x)) :: limb)"
  by (simp add: GMP_LIMB_BITS_def hb_def push_bit_eq_mult mult.commute)

lemma mask_half: "int (unat GMP_LLIMB_MASK) = hb - 1" "GMP_LLIMB_MASK = of_int (hb - 1)"
  by (simp_all add: hb_def GMP_LLIMB_MASK_def GMP_HLIMB_BIT_def GMP_LIMB_BITS_def push_bit_eq_mult)

lemma low_half_int: "int (unat (ucast (u AND GMP_LLIMB_MASK) :: 32 word)) = int (unat (u :: limb)) mod hb"
  by (simp add: unat_low_half hb_def zmod_int)

lemma high_half_int: "int (unat (ucast (drop_bit (GMP_LIMB_BITS div 2) u) :: 32 word)) = int (unat (u :: limb)) div hb"
  using unat_high_half [of u] by (simp add: GMP_LIMB_BITS_def hb_def zdiv_int)

lemma half_product: "int (unat (ucast (x :: 32 word) * ucast (y :: 32 word) :: limb)) = int (unat x) * int (unat y)"
proof -
  have "unat x * unat y < B"
    using half_prod_less [of "unat x" "2 ^ 32" "unat y" 0] unat_less_32 [of x] unat_less_32 [of y] by (simp add: B_def)
  then show ?thesis by (simp add: unat_mult_limb unat_ucast_half)
qed

section \<open>The high half of the reciprocal\<close>

lemma int_div_less:
  fixes a b c :: int
  assumes "0 < b" "a < c * b"
  shows "a div b < c"
proof (rule ccontr)
  assume "\<not> a div b < c"
  then have "c * b \<le> a div b * b" using assms(1) by (intro mult_right_mono) auto
  also have "\<dots> \<le> a" using assms(1) by (simp add: minus_mod_eq_div_mult [symmetric])
  finally show False using assms(2) by simp
qed

lemma half_reciprocal_start:
  fixes u N :: int
  assumes u: "int B \<le> 2 * u" "u < int B" and N: "N = int B - 1 - u"
  shows "0 < u div hb" "N div (u div hb) < hb" "0 \<le> N div (u div hb)" "N mod (u div hb) < u div hb" "u div hb < hb"
    and "hb * (N mod (u div hb)) + hb - 1 < u"
    and "hb * N + hb - 1 = N div (u div hb) * u + (hb * (N mod (u div hb)) + hb - 1 - N div (u div hb) * (u mod hb))"
proof -
  define g where "g = (2 :: int) ^ 31"
  define U q where "U = u div hb" and "q = N div U"
  have hg: "hb = 2 * g" "0 < g" by (simp_all add: hb_def g_def)
  have "g * hb \<le> u" using u(1) unfolding hb_square [symmetric] hg(1) by simp
  then have U: "g \<le> U" using zdiv_mono1 [of "g * hb" u hb] hb_pos by (simp add: U_def)
  then show U0: "0 < u div hb" using hg by (simp add: U_def)
  have "N < g * hb" using u(1) \<open>g * hb \<le> u\<close> N unfolding hb_square [symmetric] hg(1) by simp
  also have "\<dots> \<le> U * hb" using U hb_pos by (intro mult_right_mono) auto
  finally have "N < hb * U" by (simp add: mult.commute)
  then show "N div (u div hb) < hb" unfolding U_def [symmetric]
    using U0 by (intro int_div_less) (simp_all add: U_def)
  show "0 \<le> N div (u div hb)" using u N U0 by (simp add: pos_imp_zdiv_nonneg_iff)
  show m: "N mod (u div hb) < u div hb" using U0 by simp
  have "u < hb * hb" using u by (simp add: hb_square)
  then show "u div hb < hb" using hb_pos by (intro int_div_less) auto
  have uu: "u = hb * U + u mod hb" by (simp add: U_def)
  have "hb * (N mod U + 1) \<le> hb * U" using m hb_pos unfolding U_def by (intro mult_left_mono) auto
  moreover have "0 \<le> u mod hb" using hb_pos by simp
  ultimately show "hb * (N mod (u div hb)) + hb - 1 < u"
    using uu unfolding U_def [symmetric] by (simp add: algebra_simps)
  have "hb * N + hb - 1 = hb * (q * U + N mod U) + hb - 1" by (simp add: q_def)
  also have "\<dots> = q * (hb * U + u mod hb) + (hb * (N mod U) + hb - 1 - q * (u mod hb))" by (simp add: algebra_simps)
  finally show "hb * N + hb - 1 = N div (u div hb) * u + (hb * (N mod (u div hb)) + hb - 1 - N div (u div hb) * (u mod hb))"
    unfolding q_def U_def by simp
qed

text \<open>The adjustments of the candidate, as in \<open>udiv_qrnnd_c\<close>.\<close>

lemma add_back:
  fixes r p u :: limb and q :: "32 word"
  assumes u: "int B \<le> 2 * int (unat u)" and r: "unat r < unat u"
    and res: "(if r < p then (let q = q - 1; r = r + u in if r \<ge> u \<and> r < p then (q - 1, r + u) else (q, r)) else (q, r)) = (q', r')"
  obtains j where "q' = q - of_int j" "r' - p = of_int (int (unat r) - int (unat p) + j * int (unat u))"
    "0 \<le> int (unat r) - int (unat p) + j * int (unat u)" "int (unat r) - int (unat p) + j * int (unat u) < int (unat u)"
proof -
  define R P U where "R = int (unat r)" and "P = int (unat p)" and "U = int (unat u)"
  have b: "0 \<le> R" "R < U" "0 \<le> P" "P < int B" "int B \<le> 2 * U" "U < int B"
    using r u int_limb_bounds [of p] int_limb_bounds [of u] by (auto simp: R_def P_def U_def)
  have w: "r = of_int R" "p = of_int P" "u = of_int U" by (simp_all add: R_def P_def U_def)
  note that' = that [folded R_def P_def U_def]
  show ?thesis
  proof (cases "R < P")
    case False
    then have "q' = q" "r' = r" using res by (auto simp: limb_less_int R_def P_def split: if_splits)
    then show ?thesis using that' [of 0] False b w by simp
  next
    case True
    then have lt: "r < p" by (simp add: limb_less_int R_def P_def)
    show ?thesis
    proof (cases "R + U < int B")
      case True
      then have s: "int (unat (r + u)) = R + U" using b unat_of_int_id [of "R + U"] w by simp
      then have ge: "u \<le> r + u" using b by (simp add: limb_le_int U_def)
      show ?thesis
      proof (cases "R + U < P")
        case True
        then have "r + u < p" using s by (simp add: limb_less_int P_def)
        then have "q' = q - 1 - 1" "r' = r + u + u" using res lt ge by (auto simp: Let_def)
        then show ?thesis using that' [of 2] True b \<open>R < P\<close> w by simp
      next
        case False
        then have "\<not> r + u < p" using s by (simp add: limb_less_int P_def)
        then have "q' = q - 1" "r' = r + u" using res lt by (auto simp: Let_def)
        then show ?thesis using that' [of 1] False b \<open>R < P\<close> w by simp
      qed
    next
      case False
      have "int (unat (r + u)) = R + U - int B"
        using unat_of_int_id [of "R + U - int B"] w b False by simp
      then have "\<not> u \<le> r + u" using b by (simp add: limb_le_int U_def)
      then have "q' = q - 1" "r' = r + u" using res lt by (auto simp: Let_def)
      then show ?thesis using that' [of 1] False b \<open>R < P\<close> w by simp
    qed
  qed
qed

lemma invert_high_value:
  assumes u: "B \<le> 2 * unat u1" and res: "invert_high u1 = (qh, r)"
  shows "(int (unat qh) + hb) * int (unat u1) = hb * hb * hb - (1 + int (unat r))" and "unat r < unat u1"
proof -
  define U N where "U = int (unat u1)" and "N = int B - 1 - U"
  have Ub: "int B \<le> 2 * U" "U < int B" using u int_limb_bounds [of u1] by (auto simp: U_def)
  note st = half_reciprocal_start [OF Ub N_def]
  define uh ul where "uh = (ucast (drop_bit (GMP_LIMB_BITS div 2) u1) :: 32 word)"
    and "ul = (ucast (u1 AND GMP_LLIMB_MASK) :: 32 word)"
  define q0 where "q0 = (ucast (NOT u1 div ucast uh) :: 32 word)"
  have uh: "int (unat uh) = U div hb" and ul: "int (unat ul) = U mod hb"
    by (simp_all only: uh_def ul_def U_def high_half_int low_half_int)
  have N: "int (unat (NOT u1)) = N" using unat_NOT_limb [of u1] by (simp add: N_def U_def)
  have q0: "int (unat q0) = N div (U div hb)"
  proof -
    have "int (unat (NOT u1 div ucast uh)) = N div (U div hb)"
      by (simp only: unat_div_distrib zdiv_int N unat_ucast_half_int uh)
    moreover have "int (unat q0) = int (unat (NOT u1 div ucast uh)) mod hb"
      by (simp add: q0_def unsigned_ucast_eq take_bit_eq_mod hb_def zmod_int)
    ultimately show ?thesis using st(2,3) by simp
  qed
  define r0 p where "r0 = push_bit (GMP_LIMB_BITS div 2) (NOT u1 - ucast q0 * ucast uh) OR GMP_LLIMB_MASK"
    and "p = (ucast q0 * ucast ul :: limb)"
  have d: "int (unat (NOT u1 - ucast q0 * ucast uh)) = N mod (U div hb)"
  proof -
    have "int (unat (ucast q0 * ucast uh :: limb)) = N div (U div hb) * (U div hb)" by (simp only: half_product q0 uh)
    moreover have "N div (U div hb) * (U div hb) = N - N mod (U div hb)" by (simp only: minus_mod_eq_div_mult)
    moreover have "0 \<le> N mod (U div hb)" using st(1) by simp
    ultimately show ?thesis using limb_sub [of "NOT u1" "ucast q0 * ucast uh"] N by (simp add: limb_less_int)
  qed
  have r0: "int (unat r0) = hb * (N mod (U div hb)) + hb - 1"
  proof -
    have "unat GMP_LLIMB_MASK < 2 ^ 32" using mask_half(1) by (simp add: hb_def)
    from push_bit_or [OF this, of "NOT u1 - ucast q0 * ucast uh"]
    have "int (unat r0) = int (unat (push_bit (GMP_LIMB_BITS div 2) (NOT u1 - ucast q0 * ucast uh))) + (hb - 1)"
      using mask_half(1) by (simp add: r0_def GMP_LIMB_BITS_def)
    then show ?thesis using st(1,4,5) by (simp add: push_half_mod d)
  qed
  have p: "int (unat p) = N div (U div hb) * (U mod hb)" by (simp only: p_def half_product q0 ul)
  obtain q' r' where s: "(if r0 < p then (let q = q0 - 1; r = r0 + u1 in if r \<ge> u1 \<and> r < p then (q - 1, r + u1) else (q, r)) else (q0, r0)) = (q', r')"
    by fastforce
  have e: "qh = q'" "r = r' - p"
    using res s unfolding invert_high_def Let_def uh_def [symmetric] ul_def [symmetric] q0_def [symmetric]
      r0_def [symmetric] p_def [symmetric] by simp_all
  have "unat r0 < unat u1" using r0 st(6) by (simp add: U_def)
  from add_back [OF Ub(1) [unfolded U_def] this s] obtain j where
    j: "q' = q0 - of_int j" "r' - p = of_int (int (unat r0) - int (unat p) + j * U)"
      "0 \<le> int (unat r0) - int (unat p) + j * U" "int (unat r0) - int (unat p) + j * U < U"
    unfolding U_def by blast
  define R where "R = int (unat r0) - int (unat p) + j * U"
  have eq: "hb * N + hb - 1 = (N div (U div hb) - j) * U + R"
    using st(7) by (simp add: R_def r0 p algebra_simps)
  have "0 \<le> hb * N + hb - 1 \<and> hb * N + hb - 1 < U * hb"
  proof -
    have "hb * (N + 1) \<le> hb * U" using Ub hb_pos by (intro mult_left_mono) (auto simp: N_def)
    moreover have "0 \<le> hb * N" using hb_pos Ub by (simp add: N_def)
    ultimately show ?thesis using hb_pos by (simp add: algebra_simps)
  qed
  then have Q: "0 \<le> N div (U div hb) - j \<and> N div (U div hb) - j < hb"
    using quotient_digit [OF eq j(3,4) [folded R_def]] by blast
  have "qh = of_int (N div (U div hb) - j)" unfolding e j(1) q0 [symmetric] by simp
  then have qh: "int (unat qh) = N div (U div hb) - j" using Q by (simp only: half_of_int)
  have "r = of_int R" using e j(2) by (simp add: R_def)
  then have rr: "int (unat r) = R" using j(3,4) [folded R_def] Ub by (simp add: unat_of_int_id)
  show "(int (unat qh) + hb) * int (unat u1) = hb * hb * hb - (1 + int (unat r))"
    using eq unfolding qh rr U_def [symmetric] hb_square N_def by (simp add: algebra_simps)
  show "unat r < unat u1" using rr j(4) by (simp add: R_def U_def)
qed

section \<open>The low half of the reciprocal\<close>

lemma invert_low_value:
  assumes u: "B \<le> 2 * unat u1" and r: "unat r < unat u1"
    and V: "(int (unat qh) + hb) * int (unat u1) = hb * hb * hb - (1 + int (unat r))"
    and res: "invert_low u1 qh r = (m, r')"
  shows "int B * int B - 1 - int B * int (unat u1) = int (unat m) * int (unat u1) + int (unat r')"
    and "unat r' < unat u1"
proof -
  define U R0 QH where "U = int (unat u1)" and "R0 = int (unat r)" and "QH = int (unat qh)"
  have Ub: "0 < U" "U < hb * hb" "int B \<le> 2 * U" using u r int_limb_bounds [of u1] by (auto simp: U_def hb_square)
  have R0: "0 \<le> R0" "R0 < U" using r by (auto simp: R0_def U_def)
  define n2 n1 where "n2 = R0 div hb" and "n1 = R0 mod hb"
  have n: "0 \<le> n2" "n2 * hb + n1 < U" "0 \<le> n1" "n1 < hb" "0 \<le> hb - 1" "hb - 1 < hb"
    using R0 hb_pos by (auto simp: n2_def n1_def pos_imp_zdiv_nonneg_iff)
  have V': "(QH + hb) * U = hb * hb * hb - (1 + R0)" "1 \<le> 1 + R0" "1 + R0 \<le> U"
    using V R0 by (auto simp: U_def R0_def QH_def)
  define p where "p = drop_bit (GMP_LIMB_BITS div 2) r * ucast qh + r"
  define P where "P = n2 * (QH + hb) + n1"
  have P: "0 \<le> P" "P < hb * hb"
  proof -
    show "0 \<le> P" using n hb_pos half_bounds(1) [of qh] by (simp add: P_def QH_def)
    show "P < hb * hb" unfolding P_def
      by (rule candidate_3by2(4) [OF V' hb_pos Ub(1,2) n, of "P div hb" "P mod hb"]) (use hb_pos in \<open>simp_all add: P_def\<close>)
  qed
  have R0n: "R0 = n2 * hb + n1" by (simp add: n2_def n1_def)
  have p: "int (unat p) = P"
  proof -
    have "drop_bit (GMP_LIMB_BITS div 2) r = of_int n2" using drop_half [of r] by (simp add: n2_def R0_def) (metis limb_of_nat_unat of_int_of_nat_eq)
    moreover have "(ucast qh :: limb) = of_int QH" using unat_ucast_half [of qh] by (simp add: QH_def) (metis limb_of_nat_unat)
    moreover have "r = of_int R0" by (simp add: R0_def)
    ultimately have "p = of_int P" unfolding p_def P_def by (simp add: R0n algebra_simps)
    then show ?thesis using P by (simp add: unat_of_int_id hb_square)
  qed
  define q1 q0 where "q1 = P div hb" and "q0 = P mod hb"
  have q: "n2 * (QH + hb) + n1 = q1 * hb + q0" "0 \<le> q0" "q0 < hb" using hb_pos by (simp_all add: q1_def q0_def P_def)
  define R where "R = (n2 * hb + n1) * hb + (hb - 1) - (q1 + 1) * U"
  note cand = candidate_3by2 [OF V' hb_pos Ub(1,2) n q R_def]
  define ql where "ql = drop_bit (GMP_LIMB_BITS div 2) p + 1"
  have ql: "ql = of_int (q1 + 1)"
    using drop_half [of p] p by (simp add: ql_def q1_def) (metis limb_of_nat_unat of_int_of_nat_eq)
  define r1 where "r1 = push_bit (GMP_LIMB_BITS div 2) r + GMP_LLIMB_MASK - ql * u1"
  have r1: "r1 = of_int R" unfolding r1_def ql push_half mask_half(2) R_def R0n [symmetric] by (simp add: R0_def U_def mult.commute)
  have X: "int (unat r1) = R mod (hb * hb)" unfolding r1 int_unat_of_int hb_square ..
  define c where "c \<longleftrightarrow> r1 \<ge> push_bit (GMP_LIMB_BITS div 2) p"
  have c: "c \<longleftrightarrow> q0 * hb \<le> int (unat r1)" by (simp add: c_def limb_le_int push_half_mod p q0_def)
  define R' where "R' = (if c then R + U else R)"
  have h0: "0 < hb" using hb_pos by simp
  note adj = adjust_double [OF X cand(1-3) Ub(1,2) q(3) h0 R'_def [unfolded c]]
  define q2 r2 where "q2 = (if c then ql - 1 else ql)" and "r2 = (if c then r1 + u1 else r1)"
  define Q' where "Q' = hb * QH + (if c then q1 else q1 + 1)"
  have m: "push_bit (GMP_LIMB_BITS div 2) (ucast qh) + q2 = of_int Q'"
    unfolding push_half unat_ucast_half_int by (simp add: q2_def ql Q'_def QH_def)
  have r2: "r2 = of_int R'" by (simp add: r2_def R'_def r1 U_def)
  have fin: "(if r2 \<ge> u1 then (push_bit (GMP_LIMB_BITS div 2) (ucast qh) + q2 + 1, r2 - u1)
      else (push_bit (GMP_LIMB_BITS div 2) (ucast qh) + q2, r2)) = (m, r')"
    using res unfolding invert_low_def Let_def p_def [symmetric] ql_def [symmetric] r1_def [symmetric]
      c_def [symmetric] q2_def r2_def by (cases c) (auto split: if_splits)
  define n where "n = int B * int B - 1 - int B * U"
  have N: "n = Q' * U + R'"
  proof -
    have "hb * ((QH + hb) * U) = hb * (hb * hb * hb - (1 + R0))" using V'(1) by simp
    then show ?thesis
      unfolding n_def Q'_def R'_def R_def R0n [symmetric] hb_square [symmetric] by (simp add: algebra_simps)
  qed
  have nb: "0 \<le> n" "n < U * int B"
  proof -
    have "U * int B \<le> (int B - 1) * int B" using Ub by (intro mult_right_mono) (auto simp: hb_square)
    moreover have "1 \<le> int B" by (simp add: B_def)
    ultimately show "0 \<le> n" unfolding n_def by (simp add: algebra_simps)
    have "int B * int B \<le> (2 * U) * int B" using Ub by (intro mult_right_mono) auto
    then show "n < U * int B" unfolding n_def by (simp only: mult.assoc mult.commute [of "int B" U])
  qed
  from correct_once [OF N [unfolded U_def] nb [unfolded U_def] m r2 adj(1,2) [unfolded hb_square] Ub(3) [unfolded U_def] fin]
  show "int B * int B - 1 - int B * int (unat u1) = int (unat m) * int (unat u1) + int (unat r')" "unat r' < unat u1"
    unfolding n_def U_def by blast+
qed

section \<open>The correction for the low limb of the divisor\<close>

lemma dvd_two_power: "(n :: nat) dvd 2 ^ k \<Longrightarrow> \<exists>i. n = 2 ^ i"
proof (induction k arbitrary: n)
  case 0
  then have "n = 2 ^ 0" by simp
  then show ?case ..
next
  case (Suc k)
  show ?case
  proof (cases "even n")
    case True
    then obtain j where j: "n = 2 * j" by blast
    then have "j dvd 2 ^ k" using Suc.prems by simp
    then obtain i where "j = 2 ^ i" using Suc.IH by blast
    then have "n = 2 ^ Suc i" using j by simp
    then show ?thesis ..
  next
    case False
    then have "coprime n (2 ^ Suc k)" by simp
    then have "is_unit n" using Suc.prems by (rule coprime_common_divisor [OF _ dvd_refl])
    then have "n = 2 ^ 0" by simp
    then show ?thesis ..
  qed
qed

lemma reciprocal_not_exact:
  assumes "B \<le> 2 * unat u1" "unat u0 > 0"
  shows "W * val2 u1 u0 \<noteq> int B * int B * int B"
proof
  assume eq: "W * val2 u1 u0 = int B * int B * int B"
  define D where "D = unat u1 * B + unat u0"
  have v: "val2 u1 u0 = int D" by (simp add: val2_def D_def)
  have "int (B * B * B) = W * int D" using eq v by simp
  then have "int D dvd int (B * B * B)" by simp
  then have "D dvd B * B * B" by (simp only: of_nat_dvd_iff)
  then have "D dvd 2 ^ 192" by (simp add: B_def)
  then obtain i where i: "D = 2 ^ i" using dvd_two_power by blast
  have "D < B * B" using val2_bounds(2) [of u1 u0] unfolding v by (simp flip: of_nat_mult)
  then have "(2::nat) ^ i < 2 ^ 128" using i by (simp add: B_def)
  then have "i < 128" by (rule power_less_imp_less_exp [rotated]) simp
  have "2 ^ 63 \<le> unat u1" using assms(1) by (simp add: B_def)
  then have "2 ^ 63 * B \<le> unat u1 * B" by (rule mult_right_mono) simp
  then have "2 ^ 63 * B < D" using assms(2) unfolding D_def by linarith
  then have "(2::nat) ^ 127 < 2 ^ i" using i by (simp add: B_def)
  then have "127 < i" by (rule power_less_imp_less_exp [rotated]) simp
  with \<open>i < 128\<close> show False by simp
qed

lemma inverse_3by2I:
  assumes u: "B \<le> 2 * unat u1" and E: "0 \<le> E" "E < val2 u1 u0" "E = int B * int B * int B - 1 - (M + int B) * val2 u1 u0"
    and m: "m = of_int M"
  shows "inverse_3by2 u1 u0 m"
proof -
  define D n where "D = val2 u1 u0" and "n = int B * int B * int B - 1"
  have n: "n = (M + int B) * D + E" using E(3) by (simp add: n_def D_def)
  have D0: "0 < D" using E by (simp add: D_def)
  then have q: "M + int B = n div D" using n E(1,2) by (simp add: D_def)
  have b1: "1 \<le> int B" by (simp add: B_def)
  have "int B * D \<le> int B * (int B * int B - 1)" using val2_bounds [of u1 u0] by (intro mult_left_mono) (auto simp: D_def)
  also have "\<dots> \<le> n" using b1 by (simp add: n_def algebra_simps)
  finally have "int B * D \<le> n" .
  then have "int B \<le> n div D" using zdiv_mono1 [of "int B * D" n D] D0 by simp
  moreover have "n div D < 2 * int B"
  proof (rule int_div_less [OF D0])
    have "int B * int B \<le> 2 * D" unfolding D_def by (rule val2_normal [OF u])
    then have "int B * (int B * int B) \<le> int B * (2 * D)" by (intro mult_left_mono) auto
    also have "int B * (2 * D) = 2 * int B * D" by simp
    finally have "int B * int B * int B \<le> 2 * int B * D" by (simp only: mult.assoc)
    then show "n < 2 * int B * D" unfolding n_def by (rule less_le_trans [rotated]) simp
  qed
  ultimately have "int (unat m) = M" unfolding m using q by (intro unat_of_int_id) auto
  then have "int (unat m + B) = n div D" using q by simp
  also have "n = int (B * B * B - 1)" by (simp add: n_def B_def)
  also have "D = int (unat u1 * B + unat u0)" by (simp add: D_def val2_def)
  finally have "unat m + B = (B * B * B - 1) div (unat u1 * B + unat u0)" by (simp only: of_nat_div [symmetric] of_nat_eq_iff)
  then show ?thesis using u by (simp add: inverse_3by2_def)
qed

text \<open>
  The state of the correction is a multiplier \<open>M\<close> and \<open>T\<close> with
  \<open>M u1 = T + B\<^sup>2 - B - B u1 - u0\<close>; the remainder of the division is then
  \<open>B\<^sup>2 - 1 - B T - M u0\<close>.
\<close>

lemma correction_error:
  fixes b u v M T :: int
  assumes "M * u = T + b * b - b - b * u - v"
  shows "b * b * b - 1 - (M + b) * (u * b + v) = b * b - 1 - b * T - M * v"
proof -
  have "(M + b) * (u * b + v) = b * (M * u) + M * v + b * (u * b + v)" by (simp add: algebra_simps)
  also have "\<dots> = b * (T + b * b - b - b * u - v) + M * v + b * (u * b + v)" unfolding assms ..
  finally show ?thesis by (simp add: algebra_simps)
qed

lemma correction_carry:
  fixes b u v M T :: int
  assumes st: "M * u = T + b * b - b - b * u - v" and T: "T < 2 * b - 1" "0 \<le> T" and M: "0 \<le> M"
    and b: "0 < b" "b \<le> 2 * u" "u < b" "0 < v" "v < b"
    and E: "b * b - 1 - b * T - M * v < u * b + v"
  obtains j where "j = (if T < b then 0 else if T - b < u then 1 else 2)"
    "(M - j) * u = (T - j * u) + b * b - b - b * u - v" "0 \<le> T - j * u" "T - j * u < b" "0 \<le> M - j"
    "b * b - 1 - b * (T - j * u) - (M - j) * v < u * b + v"
proof -
  define j :: int where "j = (if T < b then 0 else if T - b < u then 1 else 2)"
  have st': "(M - j) * u = (T - j * u) + b * b - b - b * u - v" using st by (simp add: algebra_simps)
  have T': "0 \<le> T - j * u" "T - j * u < b" using T b by (auto simp: j_def)
  have M': "0 \<le> M - j"
  proof (cases "T < b")
    case False
    then have "b - u \<le> T - j * u" using b by (auto simp: j_def)
    moreover have "0 \<le> b * (b - 1 - u)" using b by simp
    ultimately have "- 1 * u < (M - j) * u" unfolding st' using b by (simp add: algebra_simps)
    moreover have "0 < u" using b by simp
    ultimately show ?thesis using mult_less_cancel_right_pos [of u "-1" "M - j"] by linarith
  qed (use M in \<open>simp add: j_def\<close>)
  have step: "b * b - 1 - b * (T - i * u) - (M - i) * v = (b * b - 1 - b * T - M * v) + i * (u * b + v)" for i
    by (simp add: algebra_simps)
  have neg: "b * b - 1 - b * t - k * v < 0" if "b \<le> t" "0 \<le> k" for t k
  proof -
    have "b * b \<le> b * t" "0 \<le> k * v" using that b by auto
    then show ?thesis by linarith
  qed
  have "b * b - 1 - b * (T - j * u) - (M - j) * v < u * b + v"
  proof (cases "T < b")
    case True
    then show ?thesis using E by (simp add: j_def)
  next
    case False
    show ?thesis
    proof (cases "T - b < u")
      case True
      then have "j = 1" using False by (simp add: j_def)
      then show ?thesis using neg [of T M] M False unfolding step by simp
    next
      case f: False
      then have j: "j = 2" using False by (simp add: j_def)
      have "b * b - 1 - b * (T - 1 * u) - (M - 1) * v < 0" using f M' j by (intro neg) auto
      then have "(b * b - 1 - b * T - M * v) + 1 * (u * b + v) < 0" by (simp only: step)
      then show ?thesis unfolding j step distrib_left by linarith
    qed
  qed
  then show ?thesis using that [OF j_def st' T' M'] by blast
qed

lemma invert_adjust_final:
  fixes M T :: int
  assumes u: "B \<le> 2 * unat u1" and v: "0 < unat u0"
    and st: "M * int (unat u1) = T + int B * int B - int B - int B * int (unat u1) - int (unat u0)"
    and T: "0 \<le> T" "T < int B" and M: "0 \<le> M" "M < int B"
    and E: "int B * int B - 1 - int B * T - M * int (unat u0) < int (unat u1) * int B + int (unat u0)"
  shows "inverse_3by2 u1 u0 (let m = of_int M; (th, tl) = gmp_umul_ppmm u0 m; r = of_int T + th
      in if r < th then m - 1 - of_bool (r > u1 \<or> (r = u1 \<and> tl > u0)) else m)"
proof -
  define b U V D where "b = int B" and "U = int (unat u1)" and "V = int (unat u0)" and "D = val2 u1 u0"
  obtain th tl where t: "gmp_umul_ppmm u0 (of_int M) = (th, tl)" by (cases "gmp_umul_ppmm u0 (of_int M)")
  define H L X r where "H = int (unat th)" and "L = int (unat tl)" and "X = T + H" and "r = of_int T + th"
  have HL: "H * b + L = V * M" using umul2_value [OF t] M by (simp add: val2_def H_def L_def V_def b_def unat_of_int_id)
  have bs: "1 < b" "b \<le> 2 * U" "U < b" "0 < V" "V < b" "0 \<le> H" "H < b" "0 \<le> L" "L < b" "0 \<le> T" "T < b"
    using u v T int_limb_bounds [of u1] int_limb_bounds [of u0] int_limb_bounds [of th] int_limb_bounds [of tl]
    by (auto simp: b_def U_def V_def H_def L_def B_def)
  have D: "D = U * b + V" by (simp add: D_def val2_def U_def V_def b_def)
  define E where "E = b * b - 1 - b * X - L"
  have E1: "E = b * b * b - 1 - (M + b) * D"
    using correction_error [OF st] HL unfolding E_def X_def D by (simp add: b_def U_def V_def algebra_simps)
  have E2: "E < D" using assms(8) HL unfolding E_def X_def D b_def [symmetric] U_def [symmetric] V_def [symmetric]
    by (simp add: algebra_simps)
  have inv: "inverse_3by2 u1 u0 (of_int (M - k))" if "0 \<le> E + k * D" "E + k * D < D" for k
    by (rule inverse_3by2I [OF u that [unfolded D_def] _ refl])
      (simp add: E1 D_def b_def algebra_simps)
  have c: "int (unat r) + b * of_bool (r < th) = X"
    using arg_cong [OF limb_add(1) [of "of_int T" th], of int] T
    by (simp add: r_def X_def H_def b_def unat_of_int_id)
  show ?thesis
  proof (cases "r < th")
    case False
    then have "X < b" using c int_limb_bounds [of r] by (simp add: b_def)
    then have "b * X \<le> b * (b - 1)" using bs by (intro mult_left_mono) auto
    then have "0 \<le> E" using bs unfolding E_def by (simp add: algebra_simps)
    then show ?thesis using inv [of 0] E2 False by (simp add: t Let_def r_def [symmetric])
  next
    case True
    define R where "R = X - b"
    have R: "int (unat r) = R" "R < b - 1" using c True bs by (auto simp: R_def X_def)
    have Rr: "int (unat r) = R" by fact
    have E': "E = - 1 - b * R - L" by (simp add: E_def R_def algebra_simps)
    have "0 \<le> b * R" using bs Rr [symmetric] by simp
    then have neg: "E < 0" using bs unfolding E' by linarith
    define c2 where "c2 \<longleftrightarrow> r > u1 \<or> (r = u1 \<and> tl > u0)"
    have ED: "E + D = b * (U - R) + (V - L) - 1" unfolding E' D by (simp add: algebra_simps)
    have c2: "c2 \<longleftrightarrow> E + D < 0"
    proof (cases R U rule: linorder_cases)
      case less
      then have "b * 1 \<le> b * (U - R)" using bs by (intro mult_left_mono) auto
      then have "0 \<le> E + D" using bs unfolding ED by linarith
      moreover have "r < u1" using less Rr by (simp add: limb_less_int U_def)
      ultimately show ?thesis unfolding c2_def by auto
    next
      case equal
      have "E + D \<noteq> - 1"
        using reciprocal_not_exact [OF u v, of "M + b - 1"] unfolding E1 D_def [symmetric] b_def [symmetric]
        by (simp add: algebra_simps)
      then have "L \<noteq> V" unfolding ED using equal by simp
      moreover have "r = u1" using equal Rr by (simp add: U_def word_unat_eq_iff)
      ultimately show ?thesis using equal unfolding ED c2_def by (auto simp: limb_less_int L_def V_def)
    next
      case greater
      then have "b * (U - R) \<le> b * (- 1)" using bs by (intro mult_left_mono) auto
      moreover have "r > u1" using greater Rr by (simp add: limb_less_int U_def)
      ultimately show ?thesis using bs unfolding ED c2_def by simp
    qed
    have "inverse_3by2 u1 u0 (of_int M - 1 - of_bool c2)"
    proof (cases c2)
      case True
      have "b * R \<le> b * (b - 2)" using bs R(2) by (intro mult_left_mono) auto
      then have R': "b * R \<le> b * b - 2 * b" by (simp only: right_diff_distrib mult.commute [of b 2])
      have "b * b \<le> (2 * U) * b" using bs by (intro mult_right_mono) auto
      then have "b * b \<le> 2 * (U * b)" by (simp only: mult.assoc)
      then have "0 \<le> E + 2 * D" using bs R' unfolding E' D distrib_left by linarith
      then show ?thesis using inv [of 2] c2 True by simp
    next
      case False
      then show ?thesis using inv [of 1] c2 neg by simp
    qed
    then show ?thesis using True by (simp add: t Let_def r_def [symmetric] c2_def)
  qed
qed

lemma invert_adjust_value:
  assumes u: "B \<le> 2 * unat u1" and r: "unat r < unat u1"
    and m: "int B * int B - 1 - int B * int (unat u1) = int (unat m) * int (unat u1) + int (unat r)"
  shows "inverse_3by2 u1 u0 (invert_adjust u1 u0 m r)"
proof (cases "u0 > 0")
  case False
  then have "unat u0 = 0" by (simp add: word_less_nat_alt)
  have "inverse_3by2 u1 u0 m"
  proof (rule inverse_3by2I [OF u])
    have "int B * (int (unat r) + 1) \<le> int B * int (unat u1)"
      using r by (intro mult_left_mono) auto
    then show "int B * int (unat r) + int B - 1 < val2 u1 u0"
      using \<open>unat u0 = 0\<close> by (simp add: val2_def algebra_simps)
    show "0 \<le> int B * int (unat r) + int B - 1" by (simp add: B_def)
    show "int B * int (unat r) + int B - 1 = int B * int B * int B - 1 - (int (unat m) + int B) * val2 u1 u0"
      using arg_cong [OF m, of "\<lambda>x. int B * x"] \<open>unat u0 = 0\<close> by (simp add: val2_def algebra_simps)
  qed simp
  then show ?thesis using False by (simp add: invert_adjust_def)
next
  case True
  define b U V M T where "b = int B" and "U = int (unat u1)" and "V = int (unat u0)" and "M = int (unat m)"
    and "T = b - 1 - int (unat r) + V"
  have bs: "0 < b" "b \<le> 2 * U" "U < b" "0 < V" "V < b" "0 \<le> M"
    using u int_limb_bounds [of u1] int_limb_bounds [of u0] True by (auto simp: b_def U_def V_def M_def word_less_nat_alt)
  have rb: "0 \<le> int (unat r)" "int (unat r) < U" using r by (auto simp: U_def)
  have st: "M * U = T + b * b - b - b * U - V" using m by (simp add: M_def U_def T_def b_def)
  have Tb: "T < 2 * b - 1" "0 \<le> T" using bs rb by (auto simp: T_def)
  have E: "b * b - 1 - b * T - M * V < U * b + V"
  proof -
    have "b * (b - 1 - U) \<le> b * (T - V)" using rb bs by (intro mult_left_mono) (auto simp: T_def)
    moreover have "b * 1 \<le> b * V" using bs by (intro mult_left_mono) auto
    moreover have "0 \<le> M * V" using bs by auto
    ultimately have "b * b - b * T - M * V \<le> b * U" by (simp only: right_diff_distrib)
    then show ?thesis using bs by (simp add: mult.commute)
  qed
  obtain j where j: "j = (if T < b then 0 else if T - b < U then 1 else 2)"
      "(M - j) * U = (T - j * U) + b * b - b - b * U - V" "0 \<le> T - j * U" "T - j * U < b" "0 \<le> M - j"
      "b * b - 1 - b * (T - j * U) - (M - j) * V < U * b + V"
    by (rule correction_carry [OF st Tb bs(6) bs(1-5) E])
  note j' = j(2-5) [unfolded b_def U_def V_def] and j'' = j(6) [unfolded b_def U_def V_def]
  define r1 where "r1 = NOT r + u0"
  define s1 where "s1 = (if r1 < u0 then (let m = m - 1; (m, r) = (if r1 \<ge> u1 then (m - 1, r1 - u1) else (m, r1)) in (m, r - u1)) else (m, r1))"
  have nr: "int (unat (NOT r)) = b - 1 - int (unat r)" using unat_NOT_limb [of r] by (simp add: b_def)
  have r1: "r1 = of_int T" using nr [symmetric] by (simp add: r1_def T_def V_def)
  have c: "int (unat r1) + b * of_bool (r1 < u0) = T"
    using arg_cong [OF limb_add(1) [of "NOT r" u0], of int] by (simp add: r1_def T_def nr V_def b_def)
  have s1: "s1 = (of_int (M - j), of_int (T - j * U))"
  proof (cases "r1 < u0")
    case True
    then have v: "int (unat r1) = T - b" using c by simp
    then have "\<not> T < b" by simp
    moreover have "r1 \<ge> u1 \<longleftrightarrow> \<not> T - b < U" using v by (auto simp: limb_le_int U_def)
    ultimately show ?thesis using True r1 by (auto simp: s1_def j(1) M_def U_def)
  next
    case False
    then have "T < b" using c int_limb_bounds [of r1] by (simp add: b_def)
    then show ?thesis using False r1 by (simp add: s1_def j(1) M_def)
  qed
  have "inverse_3by2 u1 u0 (let (m, r) = s1; (th, tl) = gmp_umul_ppmm u0 m; r = r + th
      in if r < th then m - 1 - of_bool (r > u1 \<or> (r = u1 \<and> tl > u0)) else m)"
    unfolding s1 Let_def prod.case U_def
    by (rule invert_adjust_final [OF u _ j' _ j'', unfolded Let_def])
      (use bs j(1) int_limb_bounds(2) [of m] in \<open>auto simp: V_def M_def\<close>)
  then show ?thesis using True unfolding invert_adjust_def s1_def r1_def by (simp add: Let_def)
qed

lemma mpn_invert_3by2_value:
  assumes "u1 \<ge> GMP_LIMB_HIGHBIT"
  obtains m where "mpn_invert_3by2 u1 u0 = Inr m" "inverse_3by2 u1 u0 m"
proof -
  have "unat GMP_LIMB_HIGHBIT = 2 ^ 63" by (simp add: GMP_LIMB_HIGHBIT_def GMP_LIMB_BITS_def push_bit_eq_mult)
  then have u: "B \<le> 2 * unat u1" using assms by (simp add: word_le_nat_alt B_def)
  obtain qh r where h: "invert_high u1 = (qh, r)" by (cases "invert_high u1")
  obtain m r' where l: "invert_low u1 qh r = (m, r')" by (cases "invert_low u1 qh r")
  note hv = invert_high_value [OF u h]
  note lv = invert_low_value [OF u hv(2,1) l]
  have "mpn_invert_3by2 u1 u0 = Inr (invert_adjust u1 u0 m r')" using assms by (simp add: mpn_invert_3by2_def h l)
  then show ?thesis by (rule that) (rule invert_adjust_value [OF u lv(2,1)])
qed

end
