(* ===== verification/Mpn_div.thy ===== *)
theory Mpn_div
  imports Limb_inv
begin

text \<open>
  Division of natural numbers, \<open>mpn_div_*\<close> of \<open>mini-gmp.c\<close>: the reciprocals of the
  divisor, the division by one limb, by two limbs and by more limbs, and their selection by
  the length of the divisor. A null quotient pointer is \<open>None\<close>. The limbs that
  \<open>gmp_xalloc_limbs\<close> returns are at the address \<open>tp\<close> given as an argument; they are
  freed before the function returns.
\<close>

section \<open>Model\<close>

record gmp_div_inverse =
  inv_shift :: nat
  inv_d1 :: limb
  inv_d0 :: limb
  inv_di :: limb

text \<open>The count of leading zeros does not end on zero.\<close>

definition clz_result :: "limb \<Rightarrow> nat result" where
  "clz_result x = (case gmp_clz x of None \<Rightarrow> Inl Diverges | Some c \<Rightarrow> Inr c)"

definition ctz_result :: "limb \<Rightarrow> nat result" where
  "ctz_result x = (case gmp_ctz x of None \<Rightarrow> Inl Diverges | Some c \<Rightarrow> Inr c)"

definition mpn_div_qr_1_invert :: "limb \<Rightarrow> gmp_div_inverse result" where
  "mpn_div_qr_1_invert d =
     rbind (rassert (d > 0)) (\<lambda>_.
     rbind (clz_result d) (\<lambda>shift.
     let d1 = push_bit shift d in
     rbind (mpn_invert_limb d1) (\<lambda>di.
       Inr \<lparr>inv_shift = shift, inv_d1 = d1, inv_d0 = 0, inv_di = di\<rparr>)))"

definition mpn_div_qr_2_invert :: "limb \<Rightarrow> limb \<Rightarrow> gmp_div_inverse result" where
  "mpn_div_qr_2_invert d1 d0 =
     rbind (rassert (d1 > 0)) (\<lambda>_.
     rbind (clz_result d1) (\<lambda>shift.
     let (d1, d0) = (if shift > 0
                     then (push_bit shift d1 OR drop_bit (GMP_LIMB_BITS - shift) d0, push_bit shift d0)
                     else (d1, d0)) in
     rbind (mpn_invert_3by2 d1 d0) (\<lambda>di.
       Inr \<lparr>inv_shift = shift, inv_d1 = d1, inv_d0 = d0, inv_di = di\<rparr>)))"

definition mpn_div_qr_invert :: "mem \<Rightarrow> nat \<Rightarrow> nat \<Rightarrow> gmp_div_inverse result" where
  "mpn_div_qr_invert m dp dn =
     rbind (rassert (dn > 0)) (\<lambda>_.
       if dn = 1 then mpn_div_qr_1_invert (m dp)
       else if dn = 2 then mpn_div_qr_2_invert (m (dp + 1)) (m dp)
       else (let d1 = m (dp + dn - 1); d0 = m (dp + dn - 2) in
             rbind (rassert (d1 > 0)) (\<lambda>_.
             rbind (clz_result d1) (\<lambda>shift.
             let (d1, d0) = (if shift > 0
                             then (push_bit shift d1 OR drop_bit (GMP_LIMB_BITS - shift) d0,
                                   push_bit shift d0 OR drop_bit (GMP_LIMB_BITS - shift) (m (dp + dn - 3)))
                             else (d1, d0)) in
             rbind (mpn_invert_3by2 d1 d0) (\<lambda>di.
               Inr \<lparr>inv_shift = shift, inv_d1 = d1, inv_d0 = d0, inv_di = di\<rparr>)))))"

definition store_q :: "mem \<Rightarrow> nat option \<Rightarrow> nat \<Rightarrow> limb \<Rightarrow> mem" where
  "store_q m qp i q = (case qp of None \<Rightarrow> m | Some p \<Rightarrow> m(p + i := q))"

fun div_qr_1_loop :: "mem \<Rightarrow> nat option \<Rightarrow> nat \<Rightarrow> nat \<Rightarrow> limb \<Rightarrow> limb \<Rightarrow> limb \<Rightarrow> mem \<times> limb" where
  "div_qr_1_loop m qp np 0 r d di = (m, r)"
| "div_qr_1_loop m qp np (Suc nn) r d di =
     (let (q, r) = gmp_udiv_qrnnd_preinv r (m (np + nn)) d di
      in div_qr_1_loop (store_q m qp nn q) qp np nn r d di)"

definition mpn_div_qr_1_preinv ::
    "mem \<Rightarrow> nat \<Rightarrow> nat option \<Rightarrow> nat \<Rightarrow> nat \<Rightarrow> gmp_div_inverse \<Rightarrow> (mem \<times> limb) result" where
  "mpn_div_qr_1_preinv m tp qp np nn iv =
     rbind (if inv_shift iv > 0
            then rbind (mpn_lshift m tp np nn (inv_shift iv)) (\<lambda>(m, r). Inr (m, r, tp))
            else Inr (m, 0, np)) (\<lambda>(m, r, np).
       case div_qr_1_loop m qp np nn r (inv_d1 iv) (inv_di iv) of (m, r) \<Rightarrow>
         Inr (m, drop_bit (inv_shift iv) r))"

definition mpn_div_qr_1 :: "mem \<Rightarrow> nat \<Rightarrow> nat option \<Rightarrow> nat \<Rightarrow> nat \<Rightarrow> limb \<Rightarrow> (mem \<times> limb) result" where
  "mpn_div_qr_1 m tp qp np nn d =
     rbind (rassert (d > 0)) (\<lambda>_.
       if d AND (d - 1) = 0
       then (let r = m np AND (d - 1) in
             case qp of
               None \<Rightarrow> Inr (m, r)
             | Some q \<Rightarrow>
                 if d \<le> 1 then Inr (mpn_copyi m q np nn, r)
                 else rbind (ctz_result d) (\<lambda>shift.
                      rbind (mpn_rshift m q np nn shift) (\<lambda>(m, _). Inr (m, r))))
       else rbind (mpn_div_qr_1_invert d) (\<lambda>iv. mpn_div_qr_1_preinv m tp qp np nn iv))"

text \<open>The loop of the division by two limbs; the last argument is the number of turns left.\<close>

fun div_qr_2_loop :: "mem \<Rightarrow> nat option \<Rightarrow> nat \<Rightarrow> limb \<Rightarrow> limb \<Rightarrow> limb \<Rightarrow> limb \<Rightarrow> limb \<Rightarrow> nat \<Rightarrow> mem \<times> limb \<times> limb" where
  "div_qr_2_loop m qp np r1 r0 d1 d0 di 0 = (m, r1, r0)"
| "div_qr_2_loop m qp np r1 r0 d1 d0 di (Suc i) =
     (let n0 = m (np + i); (q, r1, r0) = gmp_udiv_qr_3by2 r1 r0 n0 d1 d0 di
      in div_qr_2_loop (store_q m qp i q) qp np r1 r0 d1 d0 di i)"

definition mpn_div_qr_2_preinv ::
    "mem \<Rightarrow> nat \<Rightarrow> nat option \<Rightarrow> nat \<Rightarrow> nat \<Rightarrow> nat \<Rightarrow> gmp_div_inverse \<Rightarrow> mem result" where
  "mpn_div_qr_2_preinv m tp qp rp np nn iv =
     rbind (rassert (nn \<ge> 2)) (\<lambda>_.
     let shift = inv_shift iv in
     rbind (if shift > 0
            then rbind (mpn_lshift m tp np nn shift) (\<lambda>(m, r1). Inr (m, r1, tp))
            else Inr (m, 0, np)) (\<lambda>(m, r1, np).
     case div_qr_2_loop m qp np r1 (m (np + (nn - 1))) (inv_d1 iv) (inv_d0 iv) (inv_di iv) (nn - 1) of
       (m, r1, r0) \<Rightarrow>
         rbind (if shift > 0
                then rbind (rassert (push_bit (GMP_LIMB_BITS - shift) r0 = 0)) (\<lambda>_.
                       Inr (drop_bit shift r1, drop_bit shift r0 OR push_bit (GMP_LIMB_BITS - shift) r1))
                else Inr (r1, r0)) (\<lambda>(r1, r0).
           Inr (m(rp + 1 := r1, rp := r0)))))"

text \<open>One turn of the division by more than two limbs, at the address \<open>np + i\<close>.\<close>

definition div_qr_pi1_step ::
    "mem \<Rightarrow> nat \<Rightarrow> nat \<Rightarrow> nat \<Rightarrow> limb \<Rightarrow> limb \<Rightarrow> limb \<Rightarrow> limb \<Rightarrow> (mem \<times> limb \<times> limb) result" where
  "div_qr_pi1_step m np dp dn d1 d0 dinv n1 =
     (let n0 = m (np + (dn - 1)) in
      if n1 = d1 \<and> n0 = d0
      then rbind (mpn_submul_1 m np dp dn GMP_LIMB_MAX) (\<lambda>(m, _).
             Inr (m, GMP_LIMB_MAX, m (np + (dn - 1))))
      else (let (q, n1, n0) = gmp_udiv_qr_3by2 n1 n0 (m (np + (dn - 2))) d1 d0 dinv in
            rbind (mpn_submul_1 m np dp (dn - 2) q) (\<lambda>(m, cy).
            let cy1 = of_bool (n0 < cy); n0 = n0 - cy;
                cy = of_bool (n1 < cy1) :: limb; n1 = n1 - cy1;
                m = m(np + (dn - 2) := n0)
            in if cy \<noteq> 0
               then (case mpn_add_n m np np dp (dn - 1) of (m, c) \<Rightarrow> Inr (m, q - 1, n1 + (d1 + c)))
               else Inr (m, q, n1))))"

fun div_qr_pi1_loop ::
    "mem \<Rightarrow> nat option \<Rightarrow> nat \<Rightarrow> nat \<Rightarrow> nat \<Rightarrow> limb \<Rightarrow> limb \<Rightarrow> limb \<Rightarrow> limb \<Rightarrow> nat \<Rightarrow> (mem \<times> limb) result" where
  "div_qr_pi1_loop m qp np dp dn d1 d0 dinv n1 0 = Inr (m, n1)"
| "div_qr_pi1_loop m qp np dp dn d1 d0 dinv n1 (Suc i) =
     rbind (div_qr_pi1_step m (np + i) dp dn d1 d0 dinv n1) (\<lambda>(m, q, n1).
       div_qr_pi1_loop (store_q m qp i q) qp np dp dn d1 d0 dinv n1 i)"

definition mpn_div_qr_pi1 ::
    "mem \<Rightarrow> nat option \<Rightarrow> nat \<Rightarrow> nat \<Rightarrow> limb \<Rightarrow> nat \<Rightarrow> nat \<Rightarrow> limb \<Rightarrow> mem result" where
  "mpn_div_qr_pi1 m qp np nn n1 dp dn dinv =
     rbind (rassert (dn > 2)) (\<lambda>_.
     rbind (rassert (nn \<ge> dn)) (\<lambda>_.
     let d1 = m (dp + (dn - 1)); d0 = m (dp + (dn - 2)) in
     rbind (rassert (d1 AND GMP_LIMB_HIGHBIT \<noteq> 0)) (\<lambda>_.
     rbind (div_qr_pi1_loop m qp np dp dn d1 d0 dinv n1 (nn - dn + 1)) (\<lambda>(m, n1).
       Inr (m(np + (dn - 1) := n1))))))"

definition mpn_div_qr_preinv ::
    "mem \<Rightarrow> nat \<Rightarrow> nat option \<Rightarrow> nat \<Rightarrow> nat \<Rightarrow> nat \<Rightarrow> nat \<Rightarrow> gmp_div_inverse \<Rightarrow> mem result" where
  "mpn_div_qr_preinv m tp qp np nn dp dn iv =
     rbind (rassert (dn > 0)) (\<lambda>_.
     rbind (rassert (nn \<ge> dn)) (\<lambda>_.
       if dn = 1 then rbind (mpn_div_qr_1_preinv m tp qp np nn iv) (\<lambda>(m, r). Inr (m(np := r)))
       else if dn = 2 then mpn_div_qr_2_preinv m tp qp np np nn iv
       else rbind (rassert (inv_d1 iv = m (dp + (dn - 1)))) (\<lambda>_.
            rbind (rassert (inv_d0 iv = m (dp + (dn - 2)))) (\<lambda>_.
            rbind (rassert (inv_d1 iv AND GMP_LIMB_HIGHBIT \<noteq> 0)) (\<lambda>_.
            let shift = inv_shift iv in
            rbind (if shift > 0 then mpn_lshift m np np nn shift else Inr (m, 0)) (\<lambda>(m, nh).
            rbind (mpn_div_qr_pi1 m qp np nn nh dp dn (inv_di iv)) (\<lambda>m.
              if shift > 0
              then rbind (mpn_rshift m np np dn shift) (\<lambda>(m, cy). rbind (rassert (cy = 0)) (\<lambda>_. Inr m))
              else Inr m)))))))"

definition mpn_div_qr :: "mem \<Rightarrow> nat \<Rightarrow> nat option \<Rightarrow> nat \<Rightarrow> nat \<Rightarrow> nat \<Rightarrow> nat \<Rightarrow> mem result" where
  "mpn_div_qr m tp qp np nn dp dn =
     rbind (rassert (dn > 0)) (\<lambda>_.
     rbind (rassert (nn \<ge> dn)) (\<lambda>_.
     rbind (mpn_div_qr_invert m dp dn) (\<lambda>iv.
     rbind (if dn > 2 \<and> inv_shift iv > 0
            then rbind (mpn_lshift m tp dp dn (inv_shift iv)) (\<lambda>(m, cy).
                   rbind (rassert (cy = 0)) (\<lambda>_. Inr (m, tp)))
            else Inr (m, dp)) (\<lambda>(m, dp).
       mpn_div_qr_preinv m tp qp np nn dp dn iv))))"

end
