(* ===== verification/Mpn_div_value.thy ===== *)
theory Mpn_div_value
  imports Mpn_div
begin

text \<open>
  The division of natural numbers is exact: quotient and remainder of the values.
\<close>

section \<open>Frames and quotients\<close>

definition frame :: "mem \<Rightarrow> mem \<Rightarrow> nat set \<Rightarrow> bool" where
  "frame m m' S \<longleftrightarrow> (\<forall>a. a \<notin> S \<longrightarrow> m' a = m a)"

definition span :: "nat \<Rightarrow> nat \<Rightarrow> nat set" where
  "span p n = {p..<p + n}"

definition qspan :: "nat option \<Rightarrow> nat \<Rightarrow> nat set" where
  "qspan qp n = (case qp of None \<Rightarrow> {} | Some q \<Rightarrow> span q n)"

definition quot :: "mem \<Rightarrow> nat option \<Rightarrow> nat \<Rightarrow> nat \<Rightarrow> bool" where
  "quot m qp n Q \<longleftrightarrow> (case qp of None \<Rightarrow> True | Some q \<Rightarrow> mpn_val m q n = Q)"

definition above :: "nat option \<Rightarrow> nat \<Rightarrow> nat \<Rightarrow> bool" where
  "above qp np n \<longleftrightarrow> (case qp of None \<Rightarrow> True | Some q \<Rightarrow> decr_ok q np n)"

lemma in_span [simp]: "a \<in> span p n \<longleftrightarrow> p \<le> a \<and> a < p + n"
  by (simp add: span_def)

lemma span_0 [simp]: "span p 0 = {}"
  by (simp add: span_def)

lemma span_Suc: "span p (Suc n) = insert (p + n) (span p n)"
  by auto

lemma span_append: "span p (n + k) = span p n \<union> span (p + n) k"
  by auto

lemma span_disjoint: "n \<ge> 1 \<Longrightarrow> k \<ge> 1 \<Longrightarrow> span p n \<inter> span q k = {} \<longleftrightarrow> p + n \<le> q \<or> q + k \<le> p"
proof
  assume a: "n \<ge> 1" "k \<ge> 1" "span p n \<inter> span q k = {}"
  then have "max p q \<notin> span p n \<or> max p q \<notin> span q k" by blast
  then show "p + n \<le> q \<or> q + k \<le> p" using a(1,2) by (auto simp: max_def split: if_splits)
qed (auto simp: disjoint_iff)

lemma unchanged_iff_frame: "unchanged m m' p n \<longleftrightarrow> frame m m' (span p n)"
  by (auto simp: unchanged_def frame_def)

lemma frame_refl [simp]: "frame m m S"
  by (simp add: frame_def)

lemma frame_mono: "frame m m' S \<Longrightarrow> S \<subseteq> T \<Longrightarrow> frame m m' T"
  by (auto simp: frame_def)

lemma frame_trans: "frame m m1 S \<Longrightarrow> frame m1 m2 T \<Longrightarrow> frame m m2 (S \<union> T)"
  by (auto simp: frame_def)

lemma frame_upd: "frame m m' S \<Longrightarrow> frame m (m'(a := x)) (insert a S)"
  by (auto simp: frame_def)

lemma frameD: "frame m m' S \<Longrightarrow> a \<notin> S \<Longrightarrow> m' a = m a"
  by (simp add: frame_def)

lemma frame_keep: "frame m m' S \<Longrightarrow> S \<inter> T = {} \<Longrightarrow> a \<in> T \<Longrightarrow> m' a = m a"
  by (auto simp: frame_def)

lemma frame_val: "frame m m' S \<Longrightarrow> S \<inter> span p n = {} \<Longrightarrow> mpn_val m' p n = mpn_val m p n"
  by (rule mpn_val_cong) (auto simp: frame_def disjoint_iff)

lemma frame_store_q: "frame m (store_q m qp n q) (qspan qp (Suc n))"
  by (auto simp: frame_def store_q_def qspan_def split: option.splits)

lemma qspan_mono: "n \<le> k \<Longrightarrow> qspan qp n \<subseteq> qspan qp k"
  by (auto simp: qspan_def split: option.splits)

lemma quot_frame: "quot m qp n Q \<Longrightarrow> frame m m' S \<Longrightarrow> S \<inter> qspan qp n = {} \<Longrightarrow> quot m' qp n Q"
  by (auto simp: quot_def qspan_def frame_val split: option.splits)

text \<open>One more limb of the quotient, stored above the limbs that follow.\<close>

lemma quot_snoc:
  assumes "quot m' qp n Q" "frame (store_q m qp n q) m' (S \<union> qspan qp n)" "qspan qp (Suc n) \<inter> S = {}"
  shows "quot m' qp (Suc n) (Q + B ^ n * unat q)" and "frame m m' (S \<union> qspan qp (Suc n))"
proof -
  show "frame m m' (S \<union> qspan qp (Suc n))"
    by (rule frame_mono [OF frame_trans [OF frame_store_q assms(2)]]) (use qspan_mono [of n "Suc n" qp] in auto)
  show "quot m' qp (Suc n) (Q + B ^ n * unat q)"
  proof (cases qp)
    case (Some p)
    then have "p + n \<notin> S \<union> qspan qp n" using assms(3) by (auto simp: qspan_def span_Suc)
    from frameD [OF assms(2) this] have "m' (p + n) = q" using Some by (simp add: store_q_def)
    then show ?thesis using assms(1) Some by (simp add: quot_def mpn_val_snoc del: mpn_val.simps)
  qed (simp add: quot_def)
qed

lemma above_store: "above qp np (Suc n) \<Longrightarrow> mpn_val (store_q m qp n q) np n = mpn_val m np n"
  by (auto simp: above_def store_q_def decr_ok_def split: option.splits)

lemma above_mono: "above qp np (Suc n) \<Longrightarrow> above qp np n"
  by (auto simp: above_def decr_ok_def split: option.splits)

section \<open>Division by one limb\<close>

lemma div_qr_1_loop_value:
  assumes "inverse_limb d di" "unat r < unat d" "above qp np nn" "div_qr_1_loop m qp np nn r d di = (m', r')"
  obtains Q where "unat r * B ^ nn + mpn_val m np nn = Q * unat d + unat r'" "unat r' < unat d"
    "quot m' qp nn Q" "frame m m' (qspan qp nn)"
proof -
  have "\<exists>Q. unat r * B ^ nn + mpn_val m np nn = Q * unat d + unat r' \<and> unat r' < unat d \<and>
    quot m' qp nn Q \<and> frame m m' (qspan qp nn)"
    using assms(2-4)
  proof (induction nn arbitrary: m r)
    case 0
    then show ?case by (auto simp: quot_def split: option.splits)
  next
    case (Suc nn)
    obtain q r1 where s: "gmp_udiv_qrnnd_preinv r (m (np + nn)) d di = (q, r1)"
      by (cases "gmp_udiv_qrnnd_preinv r (m (np + nn)) d di")
    note v = udiv_qrnnd_preinv_value [OF assms(1) Suc.prems(1) s]
    define m1 where "m1 = store_q m qp nn q"
    have l: "div_qr_1_loop m1 qp np nn r1 d di = (m', r')" using Suc.prems(3) s by (simp add: m1_def)
    from Suc.IH [OF v(2) above_mono [OF Suc.prems(2)] l] obtain Q where
      Q: "unat r1 * B ^ nn + mpn_val m1 np nn = Q * unat d + unat r'" "unat r' < unat d"
        "quot m' qp nn Q" "frame m1 m' (qspan qp nn)" by blast
    have "unat r * B ^ Suc nn + mpn_val m np (Suc nn) = B ^ nn * (unat r * B + unat (m (np + nn))) + mpn_val m np nn"
      by (simp add: mpn_val_snoc algebra_simps del: mpn_val.simps)
    also have "\<dots> = B ^ nn * unat q * unat d + (unat r1 * B ^ nn + mpn_val m1 np nn)"
      unfolding v(1) m1_def above_store [OF Suc.prems(2)] by (simp add: algebra_simps)
    also have "\<dots> = (Q + B ^ nn * unat q) * unat d + unat r'" unfolding Q(1) by (simp add: algebra_simps)
    finally show ?case
      using Q(2) quot_snoc [where S = "{}", OF Q(3) _] Q(4) unfolding m1_def by auto
  qed
  then show ?thesis using that by blast
qed

lemma unshift:
  fixes N Q d r z :: nat
  assumes "N * z = Q * (d * z) + r" "r < d * z"
  shows "N = Q * d + r div z" "r div z < d" "r mod z = 0"
proof -
  have z: "0 < z" using assms(2) by (cases z) auto
  have "r = N * z - Q * d * z" using assms(1) by (simp only: mult.assoc)
  then have k: "r = (N - Q * d) * z" by (simp only: diff_mult_distrib)
  then show "r mod z = 0" by simp
  have "(Q * d) * z \<le> N * z" using assms(1) by (simp only: mult.assoc)
  then have "Q * d \<le> N" using z by simp
  then show "N = Q * d + r div z" using k z by simp
  show "r div z < d" using assms(2) by (simp only: less_mult_imp_div_less)
qed

definition inverse_1 :: "limb \<Rightarrow> gmp_div_inverse \<Rightarrow> bool" where
  "inverse_1 d iv \<longleftrightarrow> d \<noteq> 0 \<and> inv_shift iv < 64 \<and> unat (inv_d1 iv) = unat d * 2 ^ inv_shift iv \<and>
     inverse_limb (inv_d1 iv) (inv_di iv)"

lemma clz_result_value:
  assumes "x \<noteq> 0"
  obtains c where "clz_result x = Inr c" "2 ^ 63 \<le> unat x * 2 ^ c" "unat x * 2 ^ c < 2 ^ 64" "c < 64"
proof -
  obtain c where c: "gmp_clz x = Some c" "2 ^ 63 \<le> unat x * 2 ^ c" "unat x * 2 ^ c < 2 ^ 64" "c < 64"
    by (rule gmp_clz_spec [OF assms])
  show ?thesis by (rule that [OF _ c(2-4)]) (simp add: clz_result_def c(1))
qed

lemma inverse_limb_of_3by2: "inverse_3by2 d 0 di \<Longrightarrow> inverse_limb d di"
proof -
  assume i: "inverse_3by2 d 0 di"
  have "B * B * B - 1 = B * (B * B - 1) + (B - 1)" by (simp add: B_def)
  then have "(B * B * B - 1) div B = B * B - 1" by simp
  then have "(B * B * B - 1) div (B * unat d) = (B * B - 1) div unat d" by (simp only: div_mult2_eq)
  then show ?thesis using i by (simp add: inverse_3by2_def inverse_limb_def mult.commute)
qed

lemma HIGHBIT_le: "GMP_LIMB_HIGHBIT \<le> x \<longleftrightarrow> 2 ^ 63 \<le> unat x"
proof -
  have "unat GMP_LIMB_HIGHBIT = 2 ^ 63" by (simp add: GMP_LIMB_HIGHBIT_def GMP_LIMB_BITS_def push_bit_eq_mult)
  then show ?thesis by (simp add: word_le_nat_alt)
qed

lemma mpn_div_qr_1_invert_value:
  assumes "d \<noteq> 0"
  obtains iv where "mpn_div_qr_1_invert d = Inr iv" "inverse_1 d iv"
proof -
  obtain c where c: "clz_result d = Inr c" "2 ^ 63 \<le> unat d * 2 ^ c" "unat d * 2 ^ c < 2 ^ 64" "c < 64"
    by (rule clz_result_value [OF assms])
  have d1: "unat (push_bit c d) = unat d * 2 ^ c" by (rule unat_push_bit_small [OF c(3)])
  then have "GMP_LIMB_HIGHBIT \<le> push_bit c d" using c(2) by (simp add: HIGHBIT_le)
  then obtain di where di: "mpn_invert_3by2 (push_bit c d) 0 = Inr di" "inverse_3by2 (push_bit c d) 0 di"
    by (rule mpn_invert_3by2_value)
  have "d > 0" using assms by (simp add: word_neq_0_conv)
  then have "mpn_div_qr_1_invert d = Inr \<lparr>inv_shift = c, inv_d1 = push_bit c d, inv_d0 = 0, inv_di = di\<rparr>"
    using c(1) di(1) by (simp add: mpn_div_qr_1_invert_def mpn_invert_limb_def Let_def)
  then show ?thesis
    by (rule that) (simp add: inverse_1_def assms c(4) d1 inverse_limb_of_3by2 [OF di(2)])
qed

lemma shifted_out_less:
  fixes a v N R s :: nat
  assumes "a + N * R = v * 2 ^ s" "v < N"
  shows "R < 2 ^ s"
proof -
  have "N * R \<le> v * 2 ^ s" unfolding assms(1) [symmetric] by simp
  also have "\<dots> < N * 2 ^ s" using assms(2) by simp
  finally show ?thesis by simp
qed

lemma mpn_div_qr_1_preinv_value:
  assumes iv: "inverse_1 d iv" and nn: "nn \<ge> 1" and q: "above qp np nn"
    and dis: "span tp nn \<inter> span np nn = {}" "span tp nn \<inter> qspan qp nn = {}"
  obtains m' r Q where "mpn_div_qr_1_preinv m tp qp np nn iv = Inr (m', r)"
    "mpn_val m np nn = Q * unat d + unat r" "unat r < unat d" "quot m' qp nn Q"
    "frame m m' (span tp nn \<union> qspan qp nn)"
proof (cases "inv_shift iv > 0")
  case True
  define s where "s = inv_shift iv"
  have s: "s \<ge> 1" "s < 64" "unat (inv_d1 iv) = unat d * 2 ^ s" "inverse_limb (inv_d1 iv) (inv_di iv)"
    using iv True by (auto simp: inverse_1_def s_def)
  have "decr_ok tp np nn" using dis(1) nn by (auto simp: decr_ok_def span_disjoint)
  then obtain m1 r1 where l: "mpn_lshift m tp np nn s = Inr (m1, r1)"
    "mpn_val m1 tp nn + B ^ nn * unat r1 = mpn_val m np nn * 2 ^ s" "unchanged m m1 tp nn"
    by (rule mpn_lshift_value [OF nn s(1,2)])
  have "unat r1 < 2 ^ s" by (rule shifted_out_less [OF l(2) mpn_val_bound])
  moreover have "1 * 2 ^ s \<le> unat d * 2 ^ s" using iv by (intro mult_right_mono) (auto simp: inverse_1_def unat_gt_0 Suc_le_eq)
  ultimately have r1: "unat r1 < unat (inv_d1 iv)" unfolding s(3) by linarith
  have ab: "above qp tp nn" using dis(2) nn by (auto simp: above_def decr_ok_def qspan_def span_disjoint split: option.splits)
  obtain m2 r2 where lp: "div_qr_1_loop m1 qp tp nn r1 (inv_d1 iv) (inv_di iv) = (m2, r2)"
    by (cases "div_qr_1_loop m1 qp tp nn r1 (inv_d1 iv) (inv_di iv)")
  obtain Q where Q: "unat r1 * B ^ nn + mpn_val m1 tp nn = Q * unat (inv_d1 iv) + unat r2"
      "unat r2 < unat (inv_d1 iv)" "quot m2 qp nn Q" "frame m1 m2 (qspan qp nn)"
    by (rule div_qr_1_loop_value [OF s(4) r1 ab lp])
  have "mpn_val m np nn * 2 ^ s = Q * (unat d * 2 ^ s) + unat r2"
    using Q(1) l(2) s(3) by (simp add: algebra_simps)
  note us = unshift [OF this Q(2) [unfolded s(3)]]
  have fr: "frame m m2 (span tp nn \<union> qspan qp nn)"
    using frame_trans [OF _ Q(4)] l(3) by (simp add: unchanged_iff_frame)
  show ?thesis
    by (rule that [of m2 "drop_bit s r2" Q])
      (use l(1) lp us Q(3) fr True in \<open>simp_all add: mpn_div_qr_1_preinv_def unat_drop_bit flip: s_def\<close>)
next
  case False
  then have s: "inv_shift iv = 0" "unat (inv_d1 iv) = unat d" "inverse_limb (inv_d1 iv) (inv_di iv)"
    using iv by (auto simp: inverse_1_def)
  obtain m2 r2 where lp: "div_qr_1_loop m qp np nn 0 (inv_d1 iv) (inv_di iv) = (m2, r2)"
    by (cases "div_qr_1_loop m qp np nn 0 (inv_d1 iv) (inv_di iv)")
  have "unat (0 :: limb) < unat (inv_d1 iv)" using iv s by (simp add: inverse_1_def unat_gt_0)
  then obtain Q where Q: "unat (0 :: limb) * B ^ nn + mpn_val m np nn = Q * unat (inv_d1 iv) + unat r2"
      "unat r2 < unat (inv_d1 iv)" "quot m2 qp nn Q" "frame m m2 (qspan qp nn)"
    by (rule div_qr_1_loop_value [OF s(3) _ q lp])
  have "frame m m2 (span tp nn \<union> qspan qp nn)" using Q(4) by (rule frame_mono) auto
  then show ?thesis
    by (rule that [of m2 r2 Q, rotated 4]) (use lp Q s in \<open>simp_all add: mpn_div_qr_1_preinv_def\<close>)
qed

subsection \<open>Powers of two\<close>

lemma bit_top:
  fixes x :: limb
  assumes "2 ^ k \<le> unat x" "unat x < 2 ^ Suc k" "k < 64"
  shows "bit x k"
proof -
  have "unat x div 2 ^ k = 1" using assms(1,2) by (intro div_nat_eqI) simp_all
  then have "bit (unat x) k" by (simp add: bit_iff_odd)
  then show ?thesis using assms(3) by (simp add: bit_unsigned_iff)
qed

lemma unat_pow2_limb: "k < 64 \<Longrightarrow> unat (2 ^ k :: limb) = 2 ^ k"
  using unat_push_bit_small [of 1 k] power_strict_increasing [of k 64 "2 :: nat"] by simp

lemma power_of_two_limb:
  fixes d :: limb
  assumes "d \<noteq> 0" "d AND (d - 1) = 0"
  obtains k where "k < 64" "unat d = 2 ^ k" "ctz_result d = Inr k"
proof -
  obtain c where c: "gmp_clz d = Some c" "2 ^ 63 \<le> unat d * 2 ^ c" "unat d * 2 ^ c < 2 ^ 64" "c < 64"
    by (rule gmp_clz_spec [OF assms(1)])
  define k where "k = 63 - c"
  have e: "(2::nat) ^ 63 = 2 ^ k * 2 ^ c" "(2::nat) ^ 64 = 2 ^ Suc k * 2 ^ c"
    using c(4) by (simp_all add: k_def flip: power_add power_Suc)
  have lo: "2 ^ k \<le> unat d" and hi: "unat d < 2 ^ Suc k" using c(2,3) unfolding e by simp_all
  have k: "k < 64" by (simp add: k_def)
  have "unat d = 2 ^ k"
  proof (rule ccontr)
    assume "unat d \<noteq> 2 ^ k"
    then have "2 ^ k \<le> unat d - 1" using lo by simp
    moreover have "unat (d - 1) = unat d - 1" using assms(1) by (simp add: unat_minus_one)
    ultimately have "bit (d - 1) k" "bit d k" using lo hi k by (auto intro!: bit_top)
    then have "bit (d AND (d - 1)) k" by (simp add: bit_and_iff)
    then show False using assms(2) by simp
  qed
  have d: "d = 2 ^ k"
    using \<open>unat d = 2 ^ k\<close> k by (simp add: word_unat_eq_iff unat_pow2_limb)
  have "- d = NOT (mask k)" by (simp add: d mask_eq_exp_minus_1 not_eq_complement)
  moreover have "2 ^ k AND NOT (mask k) = (2 ^ k :: limb)"
    by (rule bit_word_eqI) (auto simp: bit_and_iff bit_not_iff bit_mask_iff bit_exp_iff)
  ultimately have "d AND - d = d" by (simp only: d)
  then have "gmp_ctz d = Some k" by (simp add: gmp_ctz_def c(1) k_def GMP_LIMB_BITS_def)
  then show ?thesis by (intro that [OF k \<open>unat d = 2 ^ k\<close>]) (simp add: ctz_result_def)
qed

lemma unat_and_pred:
  fixes x d :: limb
  assumes "unat d = 2 ^ k" "k < 64"
  shows "unat (x AND (d - 1)) = unat x mod unat d"
proof -
  have "d = 2 ^ k" using assms by (simp add: word_unat_eq_iff unat_pow2_limb)
  then have "d - 1 = mask k" by (simp add: mask_eq_exp_minus_1)
  then have "x AND (d - 1) = take_bit k x" by (simp only: take_bit_eq_mask)
  then have "unat (x AND (d - 1)) = take_bit k (unat x)" by (simp only: unsigned_take_bit_eq)
  then show ?thesis using assms by (simp only: take_bit_eq_mod)
qed

lemma mpn_val_mod_low:
  assumes "k < 64" "nn \<ge> 1"
  shows "mpn_val m np nn mod 2 ^ k = unat (m np) mod 2 ^ k"
proof -
  obtain j where j: "nn = Suc j" using assms(2) by (cases nn) auto
  have "B = 2 ^ k * 2 ^ (64 - k)" using assms(1) by (simp add: B_def flip: power_add)
  then have "mpn_val m np nn = unat (m np) + 2 ^ k * (2 ^ (64 - k) * mpn_val m (Suc np) j)"
    by (simp add: j mult.assoc)
  then show ?thesis by simp
qed

definition apart :: "nat option \<Rightarrow> nat \<Rightarrow> nat \<Rightarrow> bool" where
  "apart qp np n \<longleftrightarrow> (case qp of None \<Rightarrow> True | Some q \<Rightarrow> q = np \<or> span q n \<inter> span np n = {})"

lemma apart_above: "apart qp np n \<Longrightarrow> n \<ge> 1 \<Longrightarrow> above qp np n"
  by (auto simp: apart_def above_def decr_ok_def span_disjoint split: option.splits)

lemma apart_incr: "apart (Some q) np n \<Longrightarrow> n \<ge> 1 \<Longrightarrow> incr_ok q np n"
  by (auto simp: apart_def incr_ok_def span_disjoint)

lemma rshift_quotient:
  fixes v q ret k :: nat
  assumes "ret + B * q = v * 2 ^ (64 - k)" "k < 64" "ret < B"
  shows "q = v div 2 ^ k"
proof -
  have B: "B = 2 ^ (64 - k) * 2 ^ k" using assms(2) by (simp add: B_def flip: power_add)
  have "q = (ret + B * q) div B" using assms(3) by simp
  also have "\<dots> = (2 ^ (64 - k) * v) div (2 ^ (64 - k) * 2 ^ k)" unfolding assms(1) using B by (simp add: mult.commute)
  also have "\<dots> = v div 2 ^ k" by (rule div_mult_mult1) simp
  finally show ?thesis .
qed

lemma mpn_div_qr_1_value:
  assumes d: "d \<noteq> 0" and nn: "nn \<ge> 1" and q: "apart qp np nn"
    and dis: "span tp nn \<inter> span np nn = {}" "span tp nn \<inter> qspan qp nn = {}"
  obtains m' r Q where "mpn_div_qr_1 m tp qp np nn d = Inr (m', r)"
    "mpn_val m np nn = Q * unat d + unat r" "unat r < unat d" "quot m' qp nn Q"
    "frame m m' (span tp nn \<union> qspan qp nn)"
proof -
  have d0: "0 < d" using d by (simp add: word_neq_0_conv)
  show ?thesis
proof (cases "d AND (d - 1) = 0")
  case False
  obtain iv where iv: "mpn_div_qr_1_invert d = Inr iv" "inverse_1 d iv" by (rule mpn_div_qr_1_invert_value [OF d])
  obtain m' r Q where r: "mpn_div_qr_1_preinv m tp qp np nn iv = Inr (m', r)"
    "mpn_val m np nn = Q * unat d + unat r" "unat r < unat d" "quot m' qp nn Q" "frame m m' (span tp nn \<union> qspan qp nn)"
    by (rule mpn_div_qr_1_preinv_value [OF iv(2) nn apart_above [OF q nn] dis])
  show ?thesis using d0 False iv(1) r(1)
    by (intro that [OF _ r(2-5)]) (simp add: mpn_div_qr_1_def)
next
  case True
  obtain k where k: "k < 64" "unat d = 2 ^ k" "ctz_result d = Inr k" by (rule power_of_two_limb [OF d True])
  define r Q where "r = m np AND (d - 1)" and "Q = mpn_val m np nn div 2 ^ k"
  have r: "unat r = mpn_val m np nn mod 2 ^ k"
    using unat_and_pred [OF k(2,1)] k by (simp add: r_def mpn_val_mod_low [OF k(1) nn])
  have v: "mpn_val m np nn = Q * unat d + unat r" "unat r < unat d"
    unfolding Q_def k(2) r by (simp_all only: div_mult_mod_eq mod_less_divisor zero_less_power zero_less_numeral)
  have "\<exists>m'. mpn_div_qr_1 m tp qp np nn d = Inr (m', r) \<and> quot m' qp nn Q \<and> frame m m' (qspan qp nn)"
  proof (cases qp)
    case None
    then show ?thesis using d0 True by (simp add: mpn_div_qr_1_def r_def quot_def Let_def)
  next
    case (Some p)
    have io: "incr_ok p np nn" using apart_incr q nn Some by simp
    show ?thesis
    proof (cases "d \<le> 1")
      case d1: True
      then have "(2 :: nat) ^ k \<le> 1" using k(2) by (simp add: word_le_nat_alt)
      then have "k = 0" using less_exp [of k] by linarith
      then show ?thesis using d0 True d1 Some mpn_copyi_limbs [OF io, of m] mpn_val_limbs [of nn "mpn_copyi m p np nn" p m np]
        by (simp add: mpn_div_qr_1_def r_def quot_def Let_def Q_def unchanged_iff_frame qspan_def)
    next
      case d1: False
      then have "k \<ge> 1" using k(2) by (cases k) (auto simp: word_le_nat_alt)
      then obtain m' ret where s: "mpn_rshift m p np nn k = Inr (m', ret)"
        "unat ret + B * mpn_val m' p nn = mpn_val m np nn * 2 ^ (64 - k)" "unchanged m m' p nn"
        by (rule mpn_rshift_value [OF nn _ k(1) io])
      have "mpn_val m' p nn = Q" unfolding Q_def by (rule rshift_quotient [OF s(2) k(1) unat_less_B])
      then show ?thesis using d0 True d1 Some s k(3)
        by (simp add: mpn_div_qr_1_def r_def quot_def Let_def unchanged_iff_frame qspan_def)
    qed
  qed
  then obtain m' where "mpn_div_qr_1 m tp qp np nn d = Inr (m', r)" "quot m' qp nn Q" "frame m m' (qspan qp nn)" by blast
  then show ?thesis by (intro that [OF _ v]) (auto elim: frame_mono)
qed
qed

end
