(* ===== verification/Mpn_div_two.thy ===== *)
theory Mpn_div_two
  imports Mpn_div_value
begin

text \<open>
  Division by a divisor of two limbs.
\<close>

definition dval :: "limb \<Rightarrow> limb \<Rightarrow> nat" where
  "dval h l = unat h * B + unat l"

lemma val2_dval: "val2 h l = int (dval h l)"
  by (simp add: val2_def dval_def)

lemma dval_less_iff: "dval h l < dval h' l' \<longleftrightarrow> h < h' \<or> h = h' \<and> l < l'"
  using val2_less_iff [of h l h' l'] by (simp add: val2_dval)

lemma udiv_3by2_nat:
  assumes "inverse_3by2 d1 d0 di" "dval n2 n1 < dval d1 d0"
    "gmp_udiv_qr_3by2 n2 n1 n0 d1 d0 di = (q, r1, r0)"
  shows "dval n2 n1 * B + unat n0 = unat q * dval d1 d0 + dval r1 r0" and "dval r1 r0 < dval d1 d0"
  using udiv_qr_3by2_value [OF assms(1) _ assms(3)] assms(2)
  by (simp_all add: val2_dval flip: of_nat_mult of_nat_add)

lemma div_qr_2_loop_value:
  assumes "inverse_3by2 d1 d0 di" "dval r1 r0 < dval d1 d0" "above qp np k"
    "div_qr_2_loop m qp np r1 r0 d1 d0 di k = (m', r1', r0')"
  obtains Q where "dval r1 r0 * B ^ k + mpn_val m np k = Q * dval d1 d0 + dval r1' r0'"
    "dval r1' r0' < dval d1 d0" "quot m' qp k Q" "frame m m' (qspan qp k)"
proof -
  have "\<exists>Q. dval r1 r0 * B ^ k + mpn_val m np k = Q * dval d1 d0 + dval r1' r0' \<and>
    dval r1' r0' < dval d1 d0 \<and> quot m' qp k Q \<and> frame m m' (qspan qp k)"
    using assms(2-4)
  proof (induction k arbitrary: m r1 r0)
    case 0
    then show ?case by (auto simp: quot_def split: option.splits)
  next
    case (Suc k)
    obtain q s1 s0 where s: "gmp_udiv_qr_3by2 r1 r0 (m (np + k)) d1 d0 di = (q, s1, s0)"
      by (cases "gmp_udiv_qr_3by2 r1 r0 (m (np + k)) d1 d0 di")
    note v = udiv_3by2_nat [OF assms(1) Suc.prems(1) s]
    define m1 where "m1 = store_q m qp k q"
    have l: "div_qr_2_loop m1 qp np s1 s0 d1 d0 di k = (m', r1', r0')"
      using Suc.prems(3) s by (simp add: m1_def)
    from Suc.IH [OF v(2) above_mono [OF Suc.prems(2)] l] obtain Q where
      Q: "dval s1 s0 * B ^ k + mpn_val m1 np k = Q * dval d1 d0 + dval r1' r0'" "dval r1' r0' < dval d1 d0"
        "quot m' qp k Q" "frame m1 m' (qspan qp k)" by blast
    have "dval r1 r0 * B ^ Suc k + mpn_val m np (Suc k) = B ^ k * (dval r1 r0 * B + unat (m (np + k))) + mpn_val m np k"
      by (simp add: mpn_val_snoc algebra_simps del: mpn_val.simps)
    also have "\<dots> = B ^ k * unat q * dval d1 d0 + (dval s1 s0 * B ^ k + mpn_val m1 np k)"
      unfolding v(1) m1_def above_store [OF Suc.prems(2)] by (simp add: algebra_simps)
    also have "\<dots> = (Q + B ^ k * unat q) * dval d1 d0 + dval r1' r0'" unfolding Q(1) by (simp add: algebra_simps)
    finally show ?case
      using Q(2) quot_snoc [where S = "{}", OF Q(3) _] Q(4) unfolding m1_def by auto
  qed
  then show ?thesis using that by blast
qed

section \<open>Normalisation of a divisor\<close>

definition normalize_limb :: "nat \<Rightarrow> limb \<Rightarrow> limb \<Rightarrow> limb" where
  "normalize_limb c h l = (if c > 0 then push_bit c h OR drop_bit (GMP_LIMB_BITS - c) l else h)"

lemma normalize_value:
  assumes "c < 64" "unat h * 2 ^ c < 2 ^ 64"
  shows "unat (normalize_limb c h l) * B + unat (push_bit c l) = (unat h * B + unat l) * 2 ^ c"
proof (cases "c > 0")
  case True
  have "unat (push_bit c h OR drop_bit (64 - c) l) = unat h * 2 ^ c + unat (drop_bit (64 - c) l)"
    using push_bit_or [OF drop_bit_less, of c h l] assms by (simp add: unat_push_bit_small)
  then have "unat (normalize_limb c h l) * B + unat (push_bit c l) =
      unat h * B * 2 ^ c + (unat (push_bit c l) + B * unat (drop_bit (64 - c) l))"
    using True by (simp add: normalize_limb_def GMP_LIMB_BITS_def algebra_simps)
  then show ?thesis using shift_split [of c l] assms by (simp add: algebra_simps)
qed (simp add: normalize_limb_def)

lemma normalize_high:
  assumes "c < 64" "unat h * 2 ^ c < 2 ^ 64" "2 ^ 63 \<le> unat h * 2 ^ c"
  shows "GMP_LIMB_HIGHBIT \<le> normalize_limb c h l"
proof -
  have "unat h * 2 ^ c \<le> unat (normalize_limb c h l)"
  proof (cases "c > 0")
    case True
    then show ?thesis
      using push_bit_or [OF drop_bit_less, of c h l] assms by (simp add: unat_push_bit_small normalize_limb_def GMP_LIMB_BITS_def)
  qed (simp add: normalize_limb_def)
  then show ?thesis using assms(3) by (simp add: HIGHBIT_le)
qed

definition inverse_2 :: "nat \<Rightarrow> gmp_div_inverse \<Rightarrow> bool" where
  "inverse_2 D iv \<longleftrightarrow> inv_shift iv < 64 \<and> dval (inv_d1 iv) (inv_d0 iv) = D * 2 ^ inv_shift iv \<and>
     inverse_3by2 (inv_d1 iv) (inv_d0 iv) (inv_di iv)"

lemma mpn_div_qr_2_invert_value:
  assumes "d1 \<noteq> 0"
  obtains iv where "mpn_div_qr_2_invert d1 d0 = Inr iv" "inverse_2 (dval d1 d0) iv"
proof -
  obtain c where c: "clz_result d1 = Inr c" "2 ^ 63 \<le> unat d1 * 2 ^ c" "unat d1 * 2 ^ c < 2 ^ 64" "c < 64"
    by (rule clz_result_value [OF assms])
  obtain di where di: "mpn_invert_3by2 (normalize_limb c d1 d0) (push_bit c d0) = Inr di"
      "inverse_3by2 (normalize_limb c d1 d0) (push_bit c d0) di"
    by (rule mpn_invert_3by2_value [OF normalize_high [OF c(4,3,2)]])
  have "d1 > 0" using assms by (simp add: word_neq_0_conv)
  then have "mpn_div_qr_2_invert d1 d0 =
      Inr \<lparr>inv_shift = c, inv_d1 = normalize_limb c d1 d0, inv_d0 = push_bit c d0, inv_di = di\<rparr>"
    using c(1) di(1) by (cases "c > 0") (simp_all add: mpn_div_qr_2_invert_def normalize_limb_def Let_def)
  then show ?thesis
    by (rule that) (simp add: inverse_2_def c(4) di(2) dval_def normalize_value [OF c(4,3)])
qed

section \<open>Denormalisation of a remainder\<close>

lemma denormalize_value:
  assumes "c \<ge> 1" "c < 64" "dval r1 r0 mod 2 ^ c = 0"
  shows "push_bit (GMP_LIMB_BITS - c) r0 = 0"
    and "dval (drop_bit c r1) (drop_bit c r0 OR push_bit (GMP_LIMB_BITS - c) r1) = dval r1 r0 div 2 ^ c"
proof -
  define z :: nat where "z = 2 ^ c"
  have z0: "0 < z" by (simp add: z_def)
  have B: "B = 2 ^ (64 - c) * z" using assms(2) by (simp add: B_def z_def flip: power_add)
  have "dval r1 r0 = z * (2 ^ (64 - c) * unat r1) + unat r0" by (simp add: dval_def B)
  then have r0: "unat r0 mod z = 0" using assms(3) by (simp add: z_def)
  then have "unat r0 * 2 ^ (64 - c) = B * (unat r0 div z)" unfolding B by (metis add.right_neutral div_mult_mod_eq mult.assoc mult.commute)
  then have "unat (push_bit (64 - c) r0) = 0" by (simp add: unat_push_bit)
  then show "push_bit (GMP_LIMB_BITS - c) r0 = 0" by (simp add: GMP_LIMB_BITS_def word_unat_eq_iff)
  have c64: "64 - (64 - c) = c" "64 - c \<le> 64" "64 - c < 64" using assms by simp_all
  have "unat (push_bit (64 - c) r1 OR drop_bit c r0) = unat (push_bit (64 - c) r1) + unat (drop_bit c r0)"
    by (rule push_bit_or) (use drop_bit_less [of "64 - c" r0] assms in simp_all)
  then have "dval (drop_bit c r1) (drop_bit c r0 OR push_bit (64 - c) r1) =
      (unat (push_bit (64 - c) r1) + B * unat (drop_bit c r1)) + unat (drop_bit c r0)"
    by (simp add: dval_def or.commute algebra_simps)
  also have "\<dots> = unat r1 * 2 ^ (64 - c) + unat r0 div z"
    using shift_split [OF c64(2), of r1] c64(1) by (simp add: unat_drop_bit z_def)
  also have "\<dots> = dval r1 r0 div z"
  proof -
    have "dval r1 r0 = (unat r1 * 2 ^ (64 - c)) * z + unat r0" by (simp add: dval_def B)
    then show ?thesis using z0 by simp
  qed
  finally show "dval (drop_bit c r1) (drop_bit c r0 OR push_bit (GMP_LIMB_BITS - c) r1) = dval r1 r0 div 2 ^ c"
    by (simp add: GMP_LIMB_BITS_def z_def)
qed

section \<open>Division by two limbs\<close>

lemma inverse_3by2_high: "inverse_3by2 d1 d0 di \<Longrightarrow> 2 ^ 63 \<le> unat d1"
  by (simp add: inverse_3by2_def B_def)

lemma dval_val: "mpn_val m p 2 = dval (m (p + 1)) (m p)"
  by (simp add: numeral_2_eq_2 dval_def)

lemma mpn_div_qr_2_preinv_value:
  assumes iv: "inverse_2 D iv" and nn: "nn \<ge> 2" and q: "above qp np (nn - 1)"
    and dis: "span tp nn \<inter> span np nn = {}" "span tp nn \<inter> qspan qp (nn - 1) = {}" "span rp 2 \<inter> qspan qp (nn - 1) = {}"
  obtains m' Q where "mpn_div_qr_2_preinv m tp qp rp np nn iv = Inr m'"
    "mpn_val m np nn = Q * D + mpn_val m' rp 2" "mpn_val m' rp 2 < D" "quot m' qp (nn - 1) Q"
    "frame m m' (span tp nn \<union> qspan qp (nn - 1) \<union> span rp 2)"
proof -
  define s d1 d0 di where "s = inv_shift iv" and "d1 = inv_d1 iv" and "d0 = inv_d0 iv" and "di = inv_di iv"
  have i: "s < 64" "dval d1 d0 = D * 2 ^ s" "inverse_3by2 d1 d0 di"
    using iv by (simp_all add: inverse_2_def s_def d1_def d0_def di_def)
  obtain k where k: "nn = Suc k" "k \<ge> 1" using nn by (cases nn) auto
  define xp where "xp = (if s > 0 then tp else np)"
  obtain m1 r1 where sh: "(if s > 0 then rbind (mpn_lshift m tp np nn s) (\<lambda>(m, r1). Inr (m, r1, tp)) else Inr (m, 0, np)) = Inr (m1, r1, xp)"
    and v1: "mpn_val m1 xp nn + B ^ nn * unat r1 = mpn_val m np nn * 2 ^ s" and f1: "frame m m1 (span tp nn)"
    and b1: "unat r1 < 2 ^ s"
  proof (cases "s > 0")
    case True
    have "decr_ok tp np nn" using dis(1) nn by (auto simp: decr_ok_def span_disjoint)
    moreover have "nn \<ge> 1" "s \<ge> 1" using nn True by auto
    ultimately obtain m1 r1 where l: "mpn_lshift m tp np nn s = Inr (m1, r1)"
      "mpn_val m1 tp nn + B ^ nn * unat r1 = mpn_val m np nn * 2 ^ s" "unchanged m m1 tp nn"
      using mpn_lshift_value i(1) by blast
    show ?thesis
      by (rule that [of m1 r1])
        (use True l shifted_out_less [OF l(2) mpn_val_bound] in \<open>simp_all add: xp_def unchanged_iff_frame\<close>)
  next
    case False
    show ?thesis by (rule that [of m 0]) (use False in \<open>simp_all add: xp_def\<close>)
  qed
  define r0 where "r0 = m1 (xp + k)"
  have "(2::nat) ^ s \<le> 2 ^ 63" using i(1) by (intro power_increasing) auto
  then have "r1 < d1" using b1 inverse_3by2_high [OF i(3)] by (simp add: word_less_nat_alt)
  then have lt: "dval r1 r0 < dval d1 d0" by (simp add: dval_less_iff)
  have ab: "above qp xp k"
    using q dis(2) k by (auto simp: xp_def above_def decr_ok_def qspan_def span_disjoint split: option.splits)
  obtain m2 x1 x0 where lp: "div_qr_2_loop m1 qp xp r1 r0 d1 d0 di k = (m2, x1, x0)"
    by (cases "div_qr_2_loop m1 qp xp r1 r0 d1 d0 di k")
  obtain Q where Q: "dval r1 r0 * B ^ k + mpn_val m1 xp k = Q * dval d1 d0 + dval x1 x0"
      "dval x1 x0 < dval d1 d0" "quot m2 qp k Q" "frame m1 m2 (qspan qp k)"
    by (rule div_qr_2_loop_value [OF i(3) lt ab lp])
  have "mpn_val m1 xp nn + B ^ nn * unat r1 = dval r1 r0 * B ^ k + mpn_val m1 xp k"
    by (simp add: k(1) mpn_val_snoc r0_def dval_def algebra_simps del: mpn_val.simps)
  then have "mpn_val m np nn * 2 ^ s = Q * (D * 2 ^ s) + dval x1 x0" using Q(1) v1 i(2) by simp
  note us = unshift [OF this Q(2) [unfolded i(2)]]
  obtain y1 y0 where y: "(if s > 0 then rbind (rassert (push_bit (GMP_LIMB_BITS - s) x0 = 0))
        (\<lambda>_. Inr (drop_bit s x1, drop_bit s x0 OR push_bit (GMP_LIMB_BITS - s) x1)) else Inr (x1, x0)) = Inr (y1, y0)"
    and yv: "dval y1 y0 = dval x1 x0 div 2 ^ s"
    using denormalize_value [of s x1 x0] i(1) us(3) by (cases "s > 0") auto
  define m' where "m' = m2(rp + 1 := y1, rp := y0)"
  have rv: "mpn_val m' rp 2 = dval y1 y0" by (simp add: dval_val m'_def)
  have fr: "frame m m' (span tp nn \<union> qspan qp k \<union> span rp 2)"
    using frame_trans [OF f1 Q(4)] by (auto simp: frame_def m'_def)
  have "quot m' qp k Q" using Q(3) dis(3) k
    by (auto simp: quot_def m'_def qspan_def span_disjoint split: option.splits)
  moreover have "mpn_div_qr_2_preinv m tp qp rp np nn iv = Inr m'"
    using nn sh lp y k unfolding mpn_div_qr_2_preinv_def s_def [symmetric] d1_def [symmetric] d0_def [symmetric] di_def [symmetric]
    by (simp add: r0_def m'_def Let_def)
  ultimately show ?thesis using us rv yv fr k(1) by (intro that [of m' Q]) simp_all
qed

end
