(* ===== verification/Mpn_div_pi1.thy ===== *)
theory Mpn_div_pi1
  imports Mpn_div_two
begin

text \<open>
  Division by a divisor of more than two limbs.
\<close>

section \<open>One turn\<close>

text \<open>The quotient digit is the greatest limb when the two top limbs of both numbers agree.\<close>

lemma greatest_digit:
  fixes N D T P b :: int
  assumes "N < b * D" "T * P * b \<le> N" "D < (T + 1) * P" "P * b \<le> D" "0 < b"
  shows "0 \<le> N - (b - 1) * D" "N - (b - 1) * D < D"
proof -
  show "N - (b - 1) * D < D" using assms(1) by (simp add: algebra_simps)
  have "b * D \<le> b * ((T + 1) * P)" using assms(3,5) by (intro mult_left_mono) auto
  then have "b * D \<le> T * P * b + P * b" by (simp add: algebra_simps)
  then show "0 \<le> N - (b - 1) * D" using assms(2,4) by (simp add: algebra_simps)
qed

lemma dval_limbs:
  "mpn_val m p (Suc (Suc j)) = dval (m (p + Suc j)) (m (p + j)) * B ^ j + mpn_val m p j"
  by (simp add: mpn_val_snoc dval_def algebra_simps del: mpn_val.simps)

lemma mod_eq_in_range:
  fixes a b c n :: int
  assumes "a + n * c = b" "0 \<le> a" "a < n" "0 \<le> b" "b < n"
  shows "a = b"
proof -
  have "b mod n = a mod n" using assms(1) by (metis mod_mult_self2)
  then show ?thesis using assms by simp
qed

lemma pi1_step_equal:
  assumes dn: "dn = Suc (Suc j)" and dis: "span np dn \<inter> span dp dn = {}"
    and d: "d1 = m (dp + Suc j)" "d0 = m (dp + j)" "2 ^ 63 \<le> unat d1"
    and N: "unat n1 * B ^ dn + mpn_val m np dn < B * mpn_val m dp dn"
    and eq: "n1 = d1" "m (np + Suc j) = d0"
  obtains m' q n1' where "div_qr_pi1_step m np dp dn d1 d0 dinv n1 = Inr (m', q, n1')"
    "unat n1 * B ^ dn + mpn_val m np dn = unat q * mpn_val m dp dn + (unat n1' * B ^ Suc j + mpn_val m' np (Suc j))"
    "unat n1' * B ^ Suc j + mpn_val m' np (Suc j) < mpn_val m dp dn" "frame m m' (span np dn)"
proof -
  define D V where "D = int (mpn_val m dp dn)" and "V = int (mpn_val m np dn)"
  have io: "incr_ok np dp dn" using dis dn by (auto simp: incr_ok_def span_disjoint)
  obtain m' cl where s: "mpn_submul_1 m np dp dn GMP_LIMB_MAX = Inr (m', cl)"
    "mpn_val m' np dn + mpn_val m dp dn * unat GMP_LIMB_MAX = mpn_val m np dn + B ^ dn * unat cl" "unchanged m m' np dn"
    by (rule mpn_submul_1_value [of dn, OF _ io]) (use dn in auto)
  have mx: "int (unat GMP_LIMB_MAX) = int B - 1"
    using unat_NOT_limb [of 0] by (simp add: GMP_LIMB_MAX_def)
  define P where "P = int B ^ j"
  define T where "T = int (dval d1 d0)"
  have T: "D = T * P + int (mpn_val m dp j)" by (simp add: D_def dn dval_limbs d T_def P_def del: mpn_val.simps)
  have P0: "0 < P" "int (mpn_val m dp j) < P" "int (mpn_val m np j) < P"
    using mpn_val_bound [of m dp j] mpn_val_bound [of m np j] by (auto simp: P_def simp flip: of_nat_power)
  have "mpn_val m np dn = dval d0 (m (np + j)) * B ^ j + mpn_val m np j" unfolding dn dval_limbs eq(2) ..
  then have NV: "int (unat n1) * int B ^ dn + V = T * P * int B + (int (unat (m (np + j))) * P + int (mpn_val m np j))"
    by (simp add: V_def dn eq(1) T_def dval_def P_def algebra_simps)
  have a: "int (unat n1) * int B ^ dn + V < int B * D"
    using N unfolding V_def D_def by (simp flip: of_nat_power of_nat_mult of_nat_add)
  have b: "T * P * int B \<le> int (unat n1) * int B ^ dn + V" unfolding NV using P0 by simp
  have c: "D < (T + 1) * P" unfolding T using P0 by (simp add: algebra_simps)
  have e: "P * int B \<le> D"
  proof -
    have "1 * B \<le> unat d1 * B" using d(3) by (intro mult_right_mono) auto
    then have "B \<le> dval d1 d0" unfolding dval_def by linarith
    then have "int B \<le> T" by (simp add: T_def)
    then have "int B * P \<le> T * P" using P0 by (intro mult_right_mono) auto
    then show ?thesis unfolding T by (simp add: mult.commute)
  qed
  have b0: "0 < int B" by simp
  note g = greatest_digit [OF a b c e b0]
  have Db: "D < int B ^ dn" "0 \<le> D" using mpn_val_bound [of m dp dn] by (auto simp: D_def simp flip: of_nat_power)
  have "int (mpn_val m' np dn) + int B ^ dn * (int (unat n1) - int (unat cl)) =
      (int (unat n1) * int B ^ dn + V) - (int B - 1) * D"
    using arg_cong [OF s(2), of int] by (simp add: mx V_def D_def algebra_simps)
  moreover have vb: "int (mpn_val m' np dn) < int B ^ dn" using mpn_val_bound [of m' np dn] by (simp flip: of_nat_power)
  moreover have "(int (unat n1) * int B ^ dn + V) - (int B - 1) * D < int B ^ dn" using g(2) Db(1) by (rule less_trans)
  ultimately have R: "int (mpn_val m' np dn) = (int (unat n1) * int B ^ dn + V) - (int B - 1) * D"
    using mod_eq_in_range [of "int (mpn_val m' np dn)"] g(1) of_nat_0_le_iff by blast
  have st: "div_qr_pi1_step m np dp dn d1 d0 dinv n1 = Inr (m', GMP_LIMB_MAX, m' (np + Suc j))"
    using eq s(1) by (simp add: div_qr_pi1_step_def dn)
  have v: "unat (m' (np + Suc j)) * B ^ Suc j + mpn_val m' np (Suc j) = mpn_val m' np dn"
    using mpn_val_snoc [of m' np "Suc j"] dn by (simp add: algebra_simps del: mpn_val.simps)
  show ?thesis
  proof (rule that [OF st])
    show "unat n1 * B ^ dn + mpn_val m np dn = unat GMP_LIMB_MAX * mpn_val m dp dn +
        (unat (m' (np + Suc j)) * B ^ Suc j + mpn_val m' np (Suc j))"
      using R unfolding v by (intro nat_eq_int) (simp add: mx V_def D_def)
    show "unat (m' (np + Suc j)) * B ^ Suc j + mpn_val m' np (Suc j) < mpn_val m dp dn"
      using R g(2) unfolding v by (simp add: D_def)
    show "frame m m' (span np dn)" using s(3) by (simp add: unchanged_iff_frame)
  qed
qed

text \<open>A limb subtracted from two limbs, with the borrow.\<close>

lemma sub_borrow:
  fixes r1 r0 cy :: limb
  shows "int (dval (r1 - of_bool (r0 < cy)) (r0 - cy)) =
    int (dval r1 r0) - int (unat cy) + int B * int B * of_bool (r1 < of_bool (r0 < cy))"
proof -
  define k where "k = (of_bool (r0 < cy) :: limb)"
  have "int (dval (r1 - k) (r0 - cy)) = int (unat (r1 - k)) * int B + int (unat (r0 - cy))" by (simp add: dval_def)
  also have "\<dots> = (int (unat r1) - int (unat k) + int B * of_bool (r1 < k)) * int B +
      (int (unat r0) - int (unat cy) + int B * int (unat k))"
    unfolding limb_sub by (simp add: k_def)
  finally show ?thesis unfolding k_def [symmetric] by (simp add: dval_def algebra_simps)
qed

lemma partial_remainder:
  fixes q dd r P L DL cy v1 n1 n0 x bb :: int
  assumes "n1 * bb + x = q * dd + r" "v1 + DL * q = L + P * cy"
  shows "(n1 * bb + x) * P + L = q * (dd * P + DL) + ((r - cy) * P + v1)"
proof -
  have "(n1 * bb + x) * P + L = (q * dd + r) * P + (v1 + DL * q - P * cy)" unfolding assms(1) using assms(2) by simp
  then show ?thesis by (simp add: algebra_simps)
qed

lemma remainder_range:
  fixes q dd r P L DL b :: int
  assumes "0 \<le> r" "r < dd" "0 \<le> L" "L < P" "0 \<le> DL" "DL < P" "0 \<le> q" "q < b" "b \<le> dd"
  shows "r * P + L - q * DL < dd * P + DL" "- (dd * P + DL) < r * P + L - q * DL"
proof -
  have P: "0 < P" using assms by linarith
  have "(r + 1) * P \<le> dd * P" using assms P by (intro mult_right_mono) auto
  then have "r * P + P \<le> dd * P" by (simp only: distrib_right mult_1)
  moreover have "0 \<le> q * DL" using assms by simp
  ultimately show "r * P + L - q * DL < dd * P + DL" using assms by linarith
  have "q * DL \<le> (b - 1) * DL" "(b - 1) * DL \<le> (b - 1) * P" "b * P \<le> dd * P"
    using assms P by (auto intro: mult_right_mono mult_left_mono)
  moreover have "(b - 1) * P = b * P - P" by (simp add: algebra_simps)
  moreover have "0 \<le> r * P" using assms P by simp
  ultimately show "- (dd * P + DL) < r * P + L - q * DL" using assms P by linarith
qed

lemma top_digit:
  fixes e v b P R :: int
  assumes "R = e * P + v" "0 \<le> R" "R < b * P" "0 \<le> v" "v < P"
  shows "0 \<le> e" "e < b"
proof -
  have P: "0 < P" using assms by linarith
  have "(-1) * P < e * P" using assms by linarith
  then show "0 \<le> e" using mult_less_cancel_right_pos [OF P, of "-1" e] by linarith
  have "e * P < b * P" using assms by linarith
  then show "e < b" using mult_less_cancel_right_pos [OF P, of e b] by simp
qed

lemma pi1_step_less:
  assumes dn: "dn = Suc (Suc j)" "j \<ge> 1" and dis: "span np dn \<inter> span dp dn = {}"
    and d: "d1 = m (dp + Suc j)" "d0 = m (dp + j)" and inv: "inverse_3by2 d1 d0 dinv"
    and lt: "dval n1 (m (np + Suc j)) < dval d1 d0"
  obtains m' q n1' where "div_qr_pi1_step m np dp dn d1 d0 dinv n1 = Inr (m', q, n1')"
    "unat n1 * B ^ dn + mpn_val m np dn = unat q * mpn_val m dp dn + (unat n1' * B ^ Suc j + mpn_val m' np (Suc j))"
    "unat n1' * B ^ Suc j + mpn_val m' np (Suc j) < mpn_val m dp dn" "frame m m' (span np dn)"
proof -
  define n0 where "n0 = m (np + Suc j)"
  define P L DL where "P = int B ^ j" and "L = int (mpn_val m np j)" and "DL = int (mpn_val m dp j)"
  define b dd where "b = int B" and "dd = int (dval d1 d0)"
  obtain q r1 r0 where u: "gmp_udiv_qr_3by2 n1 n0 (m (np + j)) d1 d0 dinv = (q, r1, r0)"
    by (cases "gmp_udiv_qr_3by2 n1 n0 (m (np + j)) d1 d0 dinv")
  note uv = udiv_3by2_nat [OF inv lt [folded n0_def] u]
  have io: "incr_ok np dp j" using dis dn by (auto simp: incr_ok_def span_disjoint)
  obtain m1 cy where s: "mpn_submul_1 m np dp j q = Inr (m1, cy)"
    "mpn_val m1 np j + mpn_val m dp j * unat q = mpn_val m np j + B ^ j * unat cy" "unchanged m m1 np j"
    by (rule mpn_submul_1_value [OF dn(2) io])
  define r where "r = int (dval r1 r0)"
  define w where "w = (of_bool (r1 < of_bool (r0 < cy)) :: int)"
  define y1 y0 where "y1 = r1 - of_bool (r0 < cy)" and "y0 = r0 - cy"
  have bor: "int (dval y1 y0) = r - int (unat cy) + b * b * w"
    unfolding y1_def y0_def r_def b_def w_def by (rule sub_borrow)
  define m2 where "m2 = m1(np + j := y0)"
  define v1 where "v1 = int (mpn_val m1 np j)"
  have P0: "0 < P" "0 \<le> L" "L < P" "0 \<le> DL" "DL < P" "0 \<le> v1" "v1 < P"
    using mpn_val_bound [of m np j] mpn_val_bound [of m dp j] mpn_val_bound [of m1 np j]
    by (auto simp: P_def L_def DL_def v1_def simp flip: of_nat_power)
  have Dv: "int (mpn_val m dp dn) = dd * P + DL" by (simp add: dn(1) dval_limbs d dd_def P_def DL_def del: mpn_val.simps)
  have sub: "v1 + DL * int (unat q) = L + P * int (unat cy)"
    using arg_cong [OF s(2), of int] by (simp add: v1_def DL_def L_def P_def)
  have div: "int (dval n1 n0) * b + int (unat (m (np + j))) = int (unat q) * dd + r"
    using arg_cong [OF uv(1), of int] by (simp add: b_def dd_def r_def)
  have "mpn_val m np dn = dval n0 (m (np + j)) * B ^ j + mpn_val m np j" unfolding dn(1) dval_limbs n0_def ..
  then have Nv: "int (unat n1 * B ^ dn + mpn_val m np dn) = (int (dval n1 n0) * b + int (unat (m (np + j)))) * P + L"
    by (simp add: dn(1) dval_def b_def P_def L_def algebra_simps)
  have N: "int (unat n1 * B ^ dn + mpn_val m np dn) =
      int (unat q) * (dd * P + DL) + ((r - int (unat cy)) * P + v1)"
    unfolding Nv by (rule partial_remainder [OF div sub])
  have v2: "int (unat y1 * B ^ Suc j + mpn_val m2 np (Suc j)) = int (dval y1 y0) * P + v1"
    by (simp add: mpn_val_snoc m2_def dval_def P_def v1_def algebra_simps del: mpn_val.simps)
  have qb: "0 \<le> int (unat q)" "int (unat q) < b" "0 \<le> r" "r < dd" "b \<le> dd"
  proof -
    show "0 \<le> int (unat q)" "int (unat q) < b" using int_limb_bounds [of q] by (simp_all add: b_def)
    show "0 \<le> r" "r < dd" using uv(2) by (simp_all add: r_def dd_def)
    have "1 * B \<le> unat d1 * B" using inverse_3by2_high [OF inv] by (intro mult_right_mono) auto
    then have "B \<le> dval d1 d0" unfolding dval_def by linarith
    then show "b \<le> dd" by (simp add: b_def dd_def)
  qed
  have rem: "(r - int (unat cy)) * P + v1 = r * P + L - int (unat q) * DL" using sub by (simp add: algebra_simps)
  note rng = remainder_range [OF qb(3,4) P0(2,3,4,5) qb(1,2,5), folded rem]
  have f2: "frame m m2 (span np dn)" using s(3) dn by (auto simp: m2_def unchanged_def frame_def)
  have neq: "\<not> (n1 = d1 \<and> n0 = d0)" using lt n0_def by auto
  have st: "div_qr_pi1_step m np dp dn d1 d0 dinv n1 =
      (if w \<noteq> 0 then (case mpn_add_n m2 np np dp (Suc j) of (m, c) \<Rightarrow> Inr (m, q - 1, y1 + (d1 + c)))
       else Inr (m2, q, y1))"
    using u s(1) unfolding div_qr_pi1_step_def dn(1) diff_Suc_Suc diff_Suc_1 n0_def [symmetric] Let_def if_not_P [OF neq]
    by (simp add: numeral_2_eq_2 w_def y1_def y0_def m2_def)
  have fin: "unat n1 * B ^ dn + mpn_val m np dn = unat q' * mpn_val m dp dn + X" "X < mpn_val m dp dn"
    if "int (unat n1 * B ^ dn + mpn_val m np dn) = int (unat q') * (dd * P + DL) + R" "int X = R" "R < dd * P + DL"
    for q' :: limb and X R
    using that(3) that(1) unfolding that(2) [symmetric] Dv [symmetric] of_nat_mult [symmetric] of_nat_add [symmetric]
      of_nat_eq_iff of_nat_less_iff by blast+
  show ?thesis
  proof (cases "w = 0")
    case True
    have rv: "int (unat y1 * B ^ Suc j + mpn_val m2 np (Suc j)) = (r - int (unat cy)) * P + v1"
      unfolding v2 using bor True by simp
    show ?thesis by (rule that [OF _ fin [OF _ rv] f2]) (use st N True rng in simp_all)
  next
    case False
    then have w1: "w = 1" by (simp add: w_def split: if_splits)
    obtain m3 c where ad: "mpn_add_n m2 np np dp (Suc j) = (m3, c)" by (cases "mpn_add_n m2 np np dp (Suc j)")
    have io': "incr_ok np np (Suc j)" "incr_ok np dp (Suc j)" using dis dn by (auto simp: incr_ok_def span_disjoint)
    note av = mpn_add_n_value [OF ad io']
    have dv: "mpn_val m2 dp (Suc j) = mpn_val m dp (Suc j)"
      by (rule frame_val [OF f2]) (use dis dn(1) in \<open>auto simp: disjoint_iff\<close>)
    define e where "e = int (unat y1) + int (unat d1) + int (unat c) - b"
    define R where "R = (r - int (unat cy)) * P + v1 + (dd * P + DL)"
    have P': "int B ^ Suc j = b * P" by (simp add: b_def P_def)
    have Dv': "dd * P + DL = int (unat d1) * (b * P) + int (mpn_val m dp (Suc j))"
      using Dv unfolding dn(1) mpn_val_snoc [of m dp "Suc j"] d(1) [symmetric] P' [symmetric] by (simp add: mult.commute)
    have Re: "R = e * (b * P) + int (mpn_val m3 np (Suc j))"
    proof -
      have "R = int (dval y1 y0) * P + v1 - b * b * P + (int (unat d1) * (b * P) + int (mpn_val m dp (Suc j)))"
        unfolding R_def Dv' [symmetric] bor w1 by (simp add: algebra_simps)
      also have "\<dots> = int (unat y1) * (b * P) + int (mpn_val m2 np (Suc j)) - b * b * P +
          (int (unat d1) * (b * P) + int (mpn_val m2 dp (Suc j)))"
        unfolding v2 [symmetric] dv P' [symmetric] by simp
      also have "\<dots> = e * (b * P) + int (mpn_val m3 np (Suc j))"
        using arg_cong [OF av(1), of int] unfolding of_nat_add of_nat_mult of_nat_power P'
        by (simp add: e_def algebra_simps)
      finally show ?thesis .
    qed
    have R0: "0 \<le> R" "R < dd * P + DL"
    proof -
      show "0 \<le> R" using rng(2) by (simp add: R_def)
      have "int (dval y1 y0) * P \<le> (b * b - 1) * P"
        using val2_bounds(2) [of y1 y0] P0 by (intro mult_right_mono) (auto simp: val2_dval b_def)
      then have "(r - int (unat cy)) * P + v1 < 0" using P0 unfolding bor w1 by (simp add: algebra_simps)
      then show "R < dd * P + DL" by (simp add: R_def)
    qed
    have q0: "q \<noteq> 0"
    proof
      assume "q = 0"
      moreover have "0 \<le> int (unat n1 * B ^ dn + mpn_val m np dn)" by (rule of_nat_0_le_iff)
      ultimately show False using R0(2) unfolding N by (simp add: R_def)
    qed
    have vb: "int (mpn_val m3 np (Suc j)) < b * P" using mpn_val_bound [of m3 np "Suc j"] unfolding P' [symmetric] by (simp flip: of_nat_power of_nat_mult)
    have Rb: "R < b * (b * P)"
      using R0(2) mpn_val_bound [of m dp dn] unfolding Dv [symmetric] dn(1) by (simp add: b_def P_def flip: of_nat_power of_nat_mult)
    note e = top_digit [OF Re R0(1) Rb _ vb]
    have y: "int (unat (y1 + (d1 + c))) = e"
    proof -
      have "y1 + (d1 + c) = of_int e" by (simp add: e_def b_def)
      then show ?thesis using e by (simp add: unat_of_int_id b_def)
    qed
    have q1: "int (unat (q - 1)) = int (unat q) - 1" using q0 by (simp add: unat_minus_one unat_gt_0 of_nat_diff Suc_le_eq)
    have rv: "int (unat (y1 + (d1 + c)) * B ^ Suc j + mpn_val m3 np (Suc j)) = R"
      unfolding Re by (simp add: y b_def P_def)
    have f3: "frame m m3 (span np dn)"
      using frame_trans [OF f2 av(3) [unfolded unchanged_iff_frame]] by (rule frame_mono) (auto simp: dn)
    have "int (unat n1 * B ^ dn + mpn_val m np dn) = int (unat (q - 1)) * (dd * P + DL) + R"
      unfolding N q1 R_def by (simp add: algebra_simps)
    from that [OF _ fin [OF this rv R0(2)] f3] show ?thesis using st w1 ad by simp
  qed
qed

lemma pi1_step_value:
  assumes dn: "dn = Suc (Suc j)" "j \<ge> 1" and dis: "span np dn \<inter> span dp dn = {}"
    and d: "d1 = m (dp + Suc j)" "d0 = m (dp + j)" and inv: "inverse_3by2 d1 d0 dinv"
    and N: "unat n1 * B ^ dn + mpn_val m np dn < B * mpn_val m dp dn"
  obtains m' q n1' where "div_qr_pi1_step m np dp dn d1 d0 dinv n1 = Inr (m', q, n1')"
    "unat n1 * B ^ dn + mpn_val m np dn = unat q * mpn_val m dp dn + (unat n1' * B ^ Suc j + mpn_val m' np (Suc j))"
    "unat n1' * B ^ Suc j + mpn_val m' np (Suc j) < mpn_val m dp dn" "frame m m' (span np dn)"
proof (cases "n1 = d1 \<and> m (np + Suc j) = d0")
  case True
  then show ?thesis using pi1_step_equal [OF dn(1) dis d inverse_3by2_high [OF inv] N] that by blast
next
  case False
  define x where "x = dval n1 (m (np + Suc j))"
  have D: "mpn_val m dp dn < (dval d1 d0 + 1) * B ^ j"
    using mpn_val_bound [of m dp j] by (simp add: dn(1) dval_limbs d del: mpn_val.simps)
  have "x * B * B ^ j \<le> unat n1 * B ^ dn + mpn_val m np dn"
    unfolding dn(1) dval_limbs by (simp add: x_def dval_def algebra_simps)
  also have "\<dots> < B * mpn_val m dp dn" by (rule N)
  also have "\<dots> \<le> B * ((dval d1 d0 + 1) * B ^ j)" using D by (intro mult_left_mono) auto
  finally have "(B * B ^ j) * x < (B * B ^ j) * (dval d1 d0 + 1)" by (simp only: mult_ac)
  then have "x < dval d1 d0 + 1" by (rule mult_left_less_imp_less) simp
  moreover have "x \<noteq> dval d1 d0"
    using dval_less_iff [of n1 "m (np + Suc j)" d1 d0] dval_less_iff [of d1 d0 n1 "m (np + Suc j)"] False
    by (auto simp: x_def)
  ultimately have "dval n1 (m (np + Suc j)) < dval d1 d0" by (simp add: x_def)
  then show ?thesis using pi1_step_less [OF dn dis d inv] that by blast
qed

section \<open>The loop\<close>

lemma div_qr_pi1_loop_value:
  assumes dn: "dn = Suc (Suc j)" "j \<ge> 1" and inv: "inverse_3by2 d1 d0 dinv"
    and d: "d1 = m (dp + Suc j)" "d0 = m (dp + j)"
    and dis: "span np (Suc j + k) \<inter> span dp dn = {}" "qspan qp k \<inter> span np (Suc j + k) = {}" "qspan qp k \<inter> span dp dn = {}"
    and N: "unat n1 * B ^ (Suc j + k) + mpn_val m np (Suc j + k) < B ^ k * mpn_val m dp dn"
  shows "\<exists>m' n1' Q. div_qr_pi1_loop m qp np dp dn d1 d0 dinv n1 k = Inr (m', n1') \<and>
    unat n1 * B ^ (Suc j + k) + mpn_val m np (Suc j + k) =
      Q * mpn_val m dp dn + (unat n1' * B ^ Suc j + mpn_val m' np (Suc j)) \<and>
    unat n1' * B ^ Suc j + mpn_val m' np (Suc j) < mpn_val m dp dn \<and> quot m' qp k Q \<and>
    frame m m' (span np (Suc j + k) \<union> qspan qp k)"
  using d dis N
proof (induction k arbitrary: m n1)
  case 0
  then show ?case by (auto simp: quot_def split: option.splits)
next
  case (Suc k)
  define D where "D = mpn_val m dp dn"
  define W where "W = unat n1 * B ^ dn + mpn_val m (np + k) dn"
  have nk: "Suc j + Suc k = k + dn" by (simp add: dn(1))
  have total: "unat n1 * B ^ (Suc j + Suc k) + mpn_val m np (Suc j + Suc k) = B ^ k * W + mpn_val m np k"
    unfolding nk mpn_val_append W_def by (simp add: power_add algebra_simps)
  have "B ^ k * W \<le> B ^ k * W + mpn_val m np k" by simp
  also have "\<dots> < B ^ Suc k * D" using Suc.prems(6) unfolding total D_def .
  finally have "B ^ k * W < B ^ k * (B * D)" by (simp add: mult_ac)
  then have WD: "W < B * D" by (rule mult_left_less_imp_less) simp
  have dis1: "span (np + k) dn \<inter> span dp dn = {}" using Suc.prems(3) dn(1) by (auto simp: disjoint_iff)
  obtain m1 q n1' where st: "div_qr_pi1_step m (np + k) dp dn d1 d0 dinv n1 = Inr (m1, q, n1')"
    "W = unat q * D + (unat n1' * B ^ Suc j + mpn_val m1 (np + k) (Suc j))"
    "unat n1' * B ^ Suc j + mpn_val m1 (np + k) (Suc j) < D" "frame m m1 (span (np + k) dn)"
    using pi1_step_value [OF dn dis1 Suc.prems(1,2) inv, of n1] WD unfolding W_def D_def by blast
  define m2 where "m2 = store_q m1 qp k q"
  define R where "R = unat n1' * B ^ Suc j + mpn_val m1 (np + k) (Suc j)"
  have f2: "frame m m2 (span (np + k) dn \<union> qspan qp (Suc k))"
    unfolding m2_def by (rule frame_trans [OF st(4) frame_store_q])
  have dp2: "mpn_val m2 dp dn = D" unfolding D_def
    by (rule frame_val [OF f2]) (use dis1 Suc.prems(5) in auto)
  have lo: "mpn_val m2 np k = mpn_val m np k"
    by (rule frame_val [OF f2]) (use Suc.prems(4) in \<open>auto simp: disjoint_iff\<close>)
  have hi: "mpn_val m2 (np + k) (Suc j) = mpn_val m1 (np + k) (Suc j)"
    unfolding m2_def by (rule frame_val [OF frame_store_q]) (use Suc.prems(4) in \<open>auto simp: disjoint_iff\<close>)
  have total': "unat n1' * B ^ (Suc j + k) + mpn_val m2 np (Suc j + k) = B ^ k * R + mpn_val m np k"
    unfolding add.commute [of "Suc j" k] mpn_val_append lo hi R_def by (simp add: power_add algebra_simps)
  have "B ^ k * R + mpn_val m np k < B ^ k * (R + 1)" using mpn_val_bound [of m np k] by simp
  also have "\<dots> \<le> B ^ k * D" using st(3) by (intro mult_left_mono) (auto simp: R_def)
  finally have N': "unat n1' * B ^ (Suc j + k) + mpn_val m2 np (Suc j + k) < B ^ k * mpn_val m2 dp dn"
    unfolding total' dp2 .
  have d2: "d1 = m2 (dp + Suc j)" "d0 = m2 (dp + j)"
    using Suc.prems(1,2) frame_keep [OF f2, of "span dp dn"] dis1 Suc.prems(5) dn(1)
    by (auto simp: Int_Un_distrib2)
  have dis2: "span np (Suc j + k) \<inter> span dp dn = {}" "qspan qp k \<inter> span np (Suc j + k) = {}" "qspan qp k \<inter> span dp dn = {}"
    using Suc.prems(3-5) qspan_mono [of k "Suc k" qp] by (auto simp: disjoint_iff)
  from Suc.IH [OF d2 dis2 N'] obtain m' n1'' Q where
    ih: "div_qr_pi1_loop m2 qp np dp dn d1 d0 dinv n1' k = Inr (m', n1'')"
      "B ^ k * R + mpn_val m np k = Q * D + (unat n1'' * B ^ Suc j + mpn_val m' np (Suc j))"
      "unat n1'' * B ^ Suc j + mpn_val m' np (Suc j) < D" "quot m' qp k Q"
      "frame m2 m' (span np (Suc j + k) \<union> qspan qp k)"
    unfolding total' dp2 by blast
  have qd: "qspan qp (Suc k) \<inter> span np (Suc j + k) = {}" using Suc.prems(4) by (auto simp: disjoint_iff)
  note qs = quot_snoc [OF ih(4) ih(5) [unfolded m2_def] qd]
  have fr: "frame m m' (span np (Suc j + Suc k) \<union> qspan qp (Suc k))"
    by (rule frame_mono [OF frame_trans [OF st(4) qs(2)]]) (auto simp: dn(1))
  have "B ^ k * W + mpn_val m np k = B ^ k * unat q * D + (B ^ k * R + mpn_val m np k)"
    unfolding st(2) R_def by (simp add: algebra_simps)
  also have "\<dots> = (Q + B ^ k * unat q) * D + (unat n1'' * B ^ Suc j + mpn_val m' np (Suc j))"
    unfolding ih(2) by (simp add: algebra_simps)
  finally have eq: "unat n1 * B ^ (Suc j + Suc k) + mpn_val m np (Suc j + Suc k) =
      (Q + B ^ k * unat q) * D + (unat n1'' * B ^ Suc j + mpn_val m' np (Suc j))"
    unfolding total .
  show ?case using st(1) ih(1,3) eq qs(1) fr unfolding D_def m2_def by (metis (no_types, lifting) case_prod_conv div_qr_pi1_loop.simps(2) rbind_Inr)
qed

end
