(* ===== verification/Mpn_div_qr.thy ===== *)
theory Mpn_div_qr
  imports Mpn_div_pi1
begin

text \<open>
  The division of natural numbers of any length, \<open>mpn_div_qr\<close>.
\<close>

section \<open>Division by a normalised divisor\<close>

lemma HIGHBIT_and: "x AND GMP_LIMB_HIGHBIT \<noteq> 0 \<longleftrightarrow> 2 ^ 63 \<le> unat x"
  using clz_conditions(2) [of x] by auto

lemma mpn_div_qr_pi1_value:
  assumes dn: "dn \<ge> 3" "nn \<ge> dn" and inv: "inverse_3by2 (m (dp + (dn - 1))) (m (dp + (dn - 2))) dinv"
    and dis: "span np nn \<inter> span dp dn = {}" "qspan qp (nn - dn + 1) \<inter> span np nn = {}"
      "qspan qp (nn - dn + 1) \<inter> span dp dn = {}"
    and N: "unat nh * B ^ nn + mpn_val m np nn < B ^ (nn - dn + 1) * mpn_val m dp dn"
  obtains m' Q where "mpn_div_qr_pi1 m qp np nn nh dp dn dinv = Inr m'"
    "unat nh * B ^ nn + mpn_val m np nn = Q * mpn_val m dp dn + mpn_val m' np dn"
    "mpn_val m' np dn < mpn_val m dp dn" "quot m' qp (nn - dn + 1) Q"
    "frame m m' (span np nn \<union> qspan qp (nn - dn + 1))"
proof -
  obtain j where j: "dn = Suc (Suc j)" "j \<ge> 1" using dn(1) by (metis One_nat_def Suc_le_D Suc_le_mono numeral_3_eq_3)
  define k where "k = nn - dn + 1"
  have nn: "nn = Suc j + k" using dn(2) j by (simp add: k_def)
  define d1 d0 where "d1 = m (dp + Suc j)" and "d0 = m (dp + j)"
  have i: "inverse_3by2 d1 d0 dinv" using inv by (simp add: d1_def d0_def j(1))
  obtain m1 n1' Q where lp: "div_qr_pi1_loop m qp np dp dn d1 d0 dinv nh k = Inr (m1, n1')"
    "unat nh * B ^ nn + mpn_val m np nn = Q * mpn_val m dp dn + (unat n1' * B ^ Suc j + mpn_val m1 np (Suc j))"
    "unat n1' * B ^ Suc j + mpn_val m1 np (Suc j) < mpn_val m dp dn" "quot m1 qp k Q"
    "frame m m1 (span np nn \<union> qspan qp k)"
    using div_qr_pi1_loop_value [OF j i d1_def d0_def, of np k qp nh] dis N unfolding nn [symmetric] k_def [symmetric] by blast
  define m' where "m' = m1(np + Suc j := n1')"
  have v: "mpn_val m' np dn = unat n1' * B ^ Suc j + mpn_val m1 np (Suc j)"
    unfolding j(1) mpn_val_snoc [of m' np "Suc j"] by (simp add: m'_def del: mpn_val.simps)
  have fr: "frame m m' (span np nn \<union> qspan qp k)"
    using lp(5) dn(2) j(1) by (auto simp: frame_def m'_def)
  have "frame m1 m' {np + Suc j}" by (simp add: m'_def frame_def)
  with lp(4) have "quot m' qp k Q" by (rule quot_frame) (use dis(2) dn(2) j(1) k_def in \<open>auto simp: disjoint_iff\<close>)
  moreover have "mpn_div_qr_pi1 m qp np nn nh dp dn dinv = Inr m'"
    using dn lp(1) inverse_3by2_high [OF i] unfolding mpn_div_qr_pi1_def k_def [symmetric] m'_def
    by (simp add: j(1) d1_def d0_def HIGHBIT_and Let_def)
  ultimately show ?thesis using lp(2,3) v fr unfolding k_def by (intro that [of m' Q]) simp_all
qed

section \<open>The limbs of a shifted number\<close>

lemma mpn_lshift_loop_limbs:
  assumes "c \<ge> 1" "c < 64" "decr_ok r u (Suc n)" "high = push_bit c h" "i < n"
  shows "mpn_lshift_loop m (r + Suc n) (u + n) n c high (r + Suc i) =
    (if Suc i = n then high else push_bit c (m (u + Suc i))) OR drop_bit (GMP_LIMB_BITS - c) (m (u + i))"
  using assms(3-5)
proof (induction n arbitrary: m high h)
  case (Suc n)
  define m1 where "m1 = m(r + Suc n := high OR drop_bit (GMP_LIMB_BITS - c) (m (u + n)))"
  have eq: "mpn_lshift_loop m (r + Suc (Suc n)) (u + Suc n) (Suc n) c high =
      mpn_lshift_loop m1 (r + Suc n) (u + n) n c (push_bit c (m (u + n)))"
    by (simp add: m1_def Let_def)
  have dec: "decr_ok r u (Suc n)" using Suc.prems(1) by (auto simp: decr_ok_def)
  show ?case
  proof (cases "i = n")
    case True
    have "unchanged m1 (mpn_lshift_loop m1 (r + Suc n) (u + n) n c (push_bit c (m (u + n)))) r (Suc n)"
      using mpn_lshift_loop_value [OF assms(1,2) dec refl] by blast
    then have "mpn_lshift_loop m1 (r + Suc n) (u + n) n c (push_bit c (m (u + n))) (r + Suc n) = m1 (r + Suc n)"
      by (rule unchangedD) simp
    then show ?thesis unfolding eq True by (simp add: m1_def)
  next
    case False
    then have i: "i < n" using Suc.prems by auto
    have "m1 (u + i) = m (u + i)" "Suc i \<noteq> n \<longrightarrow> m1 (u + Suc i) = m (u + Suc i)"
      using i Suc.prems(1) by (auto simp: m1_def decr_ok_def)
    then show ?thesis unfolding eq using Suc.IH [OF dec refl i, of m1] i False by auto
  qed
qed simp

lemma mpn_lshift_limb:
  assumes "c \<ge> 1" "c < 64" "decr_ok rp up n" "Suc i < n" "mpn_lshift m rp up n c = Inr (m', ret)"
  shows "m' (rp + Suc i) = normalize_limb c (m (up + Suc i)) (m (up + i))"
proof -
  obtain k where k: "n = Suc k" using assms(4) by (cases n) auto
  have "m' = mpn_lshift_loop m (rp + Suc k) (up + k) k c (push_bit c (m (up + k)))"
    using assms(1,2,5) k by (simp add: mpn_lshift_def GMP_LIMB_BITS_def Let_def)
  then show ?thesis
    using mpn_lshift_loop_limbs [OF assms(1,2) assms(3) [unfolded k] refl, of i m] assms(1,4) k
    by (auto simp: normalize_limb_def)
qed

section \<open>Division by a divisor of more than two limbs\<close>

lemma rshift_exact:
  fixes v q ret k :: nat
  assumes "ret + B * q = v * 2 ^ (64 - k)" "k < 64" "ret < B" "v mod 2 ^ k = 0"
  shows "ret = 0"
proof -
  have "2 ^ k dvd v" using assms(4) by (simp only: dvd_eq_mod_eq_0)
  then obtain j where j: "v = 2 ^ k * j" ..
  have "v * 2 ^ (64 - k) = B * j" using B_split [of k] assms(2) by (simp add: j algebra_simps)
  then have "(ret + B * q) mod B = 0" unfolding assms(1) by simp
  then show ?thesis using assms(3) by simp
qed

lemma shift_or_not:
  assumes "s < 64" "nn \<ge> 1"
  obtains m1 nh where "(if s > 0 then mpn_lshift m np np nn s else Inr (m, 0)) = Inr (m1, nh)"
    "unat nh * B ^ nn + mpn_val m1 np nn = mpn_val m np nn * 2 ^ s" "frame m m1 (span np nn)"
proof (cases "s > 0")
  case True
  have "s \<ge> 1" "decr_ok np np nn" using True by (auto simp: decr_ok_def)
  then obtain m1 nh where "mpn_lshift m np np nn s = Inr (m1, nh)"
    "mpn_val m1 np nn + B ^ nn * unat nh = mpn_val m np nn * 2 ^ s" "unchanged m m1 np nn"
    using mpn_lshift_value assms by blast
  then show ?thesis using True by (intro that) (auto simp: unchanged_iff_frame algebra_simps)
qed (use that [of m 0] in simp)

lemma normalized_bound:
  assumes "dn \<ge> 1" "2 ^ 63 \<le> unat (m (dp + (dn - 1)))"
  shows "B ^ (dn - 1) * 2 ^ 63 \<le> mpn_val m dp dn"
proof -
  obtain j where j: "dn = Suc j" using assms(1) by (cases dn) auto
  have "B ^ j * 2 ^ 63 \<le> B ^ j * unat (m (dp + j))" using assms(2) j by (intro mult_left_mono) auto
  also have "\<dots> \<le> mpn_val m dp dn" unfolding j mpn_val_snoc by simp
  finally show ?thesis using j by simp
qed

lemma unshift_remainder:
  assumes s: "s < 64" and dn: "dn \<ge> 1" and R: "mpn_val m np dn mod 2 ^ s = 0"
  obtains m' where "(if s > 0 then rbind (mpn_rshift m np np dn s) (\<lambda>(m, cy). rbind (rassert (cy = 0)) (\<lambda>_. Inr m)) else Inr m) = Inr m'"
    "mpn_val m' np dn = mpn_val m np dn div 2 ^ s" "frame m m' (span np dn)"
proof (cases "s > 0")
  case True
  have "s \<ge> 1" "incr_ok np np dn" using True by auto
  then obtain m' ret where r: "mpn_rshift m np np dn s = Inr (m', ret)"
    "unat ret + B * mpn_val m' np dn = mpn_val m np dn * 2 ^ (64 - s)" "unchanged m m' np dn"
    using mpn_rshift_value s dn by blast
  have "unat ret = 0" by (rule rshift_exact [OF r(2) s unat_less_B R])
  then have "ret = 0" by (simp add: word_unat_eq_iff)
  moreover have "mpn_val m' np dn = mpn_val m np dn div 2 ^ s" by (rule rshift_quotient [OF r(2) s unat_less_B])
  ultimately show ?thesis using r True by (intro that [of m']) (simp_all add: unchanged_iff_frame)
qed (use that [of m] in simp)

lemma mpn_div_qr_preinv_n:
  assumes dn: "dn \<ge> 3" "nn \<ge> dn" and s: "inv_shift iv < 64"
    and iv: "inv_d1 iv = m (dp + (dn - 1))" "inv_d0 iv = m (dp + (dn - 2))" "inverse_3by2 (inv_d1 iv) (inv_d0 iv) (inv_di iv)"
    and D: "mpn_val m dp dn = D * 2 ^ inv_shift iv"
    and dis: "span np nn \<inter> span dp dn = {}" "qspan qp (nn - dn + 1) \<inter> span np nn = {}"
      "qspan qp (nn - dn + 1) \<inter> span dp dn = {}"
  obtains m' Q where "mpn_div_qr_preinv m tp qp np nn dp dn iv = Inr m'"
    "mpn_val m np nn = Q * D + mpn_val m' np dn" "mpn_val m' np dn < D" "quot m' qp (nn - dn + 1) Q"
    "frame m m' (span np nn \<union> qspan qp (nn - dn + 1))"
proof -
  define s where "s = inv_shift iv"
  have s64: "s < 64" using assms(3) by (simp add: s_def)
  have n1: "nn \<ge> 1" "dn \<ge> 1" using dn by auto
  obtain m1 nh where sh: "(if s > 0 then mpn_lshift m np np nn s else Inr (m, 0)) = Inr (m1, nh)"
    "unat nh * B ^ nn + mpn_val m1 np nn = mpn_val m np nn * 2 ^ s" "frame m m1 (span np nn)"
    by (rule shift_or_not [OF s64 n1(1)])
  have dp1: "m1 a = m a" if "a \<in> span dp dn" for a using frame_keep [OF sh(3) dis(1) that] .
  have dv: "mpn_val m1 dp dn = D * 2 ^ s" using frame_val [OF sh(3) dis(1)] D by (simp add: s_def)
  have top: "m1 (dp + (dn - 1)) = inv_d1 iv" "m1 (dp + (dn - 2)) = inv_d0 iv" using dn iv(1,2) by (auto simp: dp1)
  have "unat nh * B ^ nn + mpn_val m1 np nn < B ^ nn * 2 ^ s" unfolding sh(2) using mpn_val_bound [of m np nn] by simp
  also have "\<dots> \<le> B ^ nn * 2 ^ 63" using s64 by (intro mult_left_mono power_increasing) auto
  also have "\<dots> = B ^ (nn - dn + 1) * (B ^ (dn - 1) * 2 ^ 63)"
  proof -
    have "nn = (nn - dn + 1) + (dn - 1)" using dn by simp
    then have "B ^ nn = B ^ (nn - dn + 1) * B ^ (dn - 1)" by (metis power_add)
    then show ?thesis by (simp only: mult.assoc)
  qed
  also have "\<dots> \<le> B ^ (nn - dn + 1) * mpn_val m1 dp dn"
    using normalized_bound [OF n1(2)] inverse_3by2_high [OF iv(3)] top(1) by (intro mult_left_mono) auto
  finally have N: "unat nh * B ^ nn + mpn_val m1 np nn < B ^ (nn - dn + 1) * mpn_val m1 dp dn" .
  obtain m2 Q where p: "mpn_div_qr_pi1 m1 qp np nn nh dp dn (inv_di iv) = Inr m2"
    "unat nh * B ^ nn + mpn_val m1 np nn = Q * mpn_val m1 dp dn + mpn_val m2 np dn"
    "mpn_val m2 np dn < mpn_val m1 dp dn" "quot m2 qp (nn - dn + 1) Q"
    "frame m1 m2 (span np nn \<union> qspan qp (nn - dn + 1))"
    by (rule mpn_div_qr_pi1_value [OF dn iv(3) [folded top] dis N])
  note us = unshift [OF p(2) [unfolded sh(2) dv] p(3) [unfolded dv]]
  obtain m' where f: "(if s > 0 then rbind (mpn_rshift m2 np np dn s) (\<lambda>(m, cy). rbind (rassert (cy = 0)) (\<lambda>_. Inr m)) else Inr m2) = Inr m'"
    "mpn_val m' np dn = mpn_val m2 np dn div 2 ^ s" "frame m2 m' (span np dn)"
    by (rule unshift_remainder [OF s64 n1(2) us(3)])
  have "quot m' qp (nn - dn + 1) Q" by (rule quot_frame [OF p(4) f(3)]) (use dis(2) dn in \<open>auto simp: disjoint_iff\<close>)
  moreover have "frame m m' (span np nn \<union> qspan qp (nn - dn + 1))"
    by (rule frame_mono [OF frame_trans [OF frame_trans [OF sh(3) p(5)] f(3)]]) (use dn in auto)
  moreover have "mpn_div_qr_preinv m tp qp np nn dp dn iv = Inr m'"
    using dn iv sh(1) p(1) f(1) inverse_3by2_high [OF iv(3)]
    by (simp add: mpn_div_qr_preinv_def HIGHBIT_and Let_def flip: s_def)
  ultimately show ?thesis using us f(2) by (intro that [of m' Q]) simp_all
qed

section \<open>Division\<close>

lemma mpn_div_qr_invert_n:
  assumes dn: "dn = Suc (Suc (Suc j))" and top: "m (dp + Suc (Suc j)) \<noteq> 0"
  obtains iv where "mpn_div_qr_invert m dp dn = Inr iv" "inv_shift iv < 64"
    "unat (m (dp + Suc (Suc j))) * 2 ^ inv_shift iv < 2 ^ 64"
    "inv_d1 iv = normalize_limb (inv_shift iv) (m (dp + Suc (Suc j))) (m (dp + Suc j))"
    "inv_d0 iv = normalize_limb (inv_shift iv) (m (dp + Suc j)) (m (dp + j))"
    "inverse_3by2 (inv_d1 iv) (inv_d0 iv) (inv_di iv)"
proof -
  define d1 d0 d' where "d1 = m (dp + Suc (Suc j))" and "d0 = m (dp + Suc j)" and "d' = m (dp + j)"
  obtain c where c: "clz_result d1 = Inr c" "2 ^ 63 \<le> unat d1 * 2 ^ c" "unat d1 * 2 ^ c < 2 ^ 64" "c < 64"
    by (rule clz_result_value [OF top [folded d1_def]])
  obtain di where di: "mpn_invert_3by2 (normalize_limb c d1 d0) (normalize_limb c d0 d') = Inr di"
      "inverse_3by2 (normalize_limb c d1 d0) (normalize_limb c d0 d') di"
    by (rule mpn_invert_3by2_value [OF normalize_high [OF c(4,3,2)]])
  have "d1 > 0" using top by (simp add: word_neq_0_conv d1_def)
  moreover have i: "dp + dn - 1 = dp + Suc (Suc j)" "dp + dn - 2 = dp + Suc j" "dp + dn - 3 = dp + j" "dn \<noteq> 1" "dn \<noteq> 2" "0 < dn"
    using dn by auto
  ultimately have "mpn_div_qr_invert m dp dn =
      Inr \<lparr>inv_shift = c, inv_d1 = normalize_limb c d1 d0, inv_d0 = normalize_limb c d0 d', inv_di = di\<rparr>"
    using c(1) di(1) unfolding mpn_div_qr_invert_def i(1-3) d1_def [symmetric] d0_def [symmetric] d'_def [symmetric]
    by (cases "c > 0") (simp_all add: i(4-6) normalize_limb_def Let_def)
  then show ?thesis by (rule that) (use c(3,4) di(2) in \<open>simp_all add: d1_def d0_def d'_def\<close>)
qed

lemma normalized_no_carry:
  assumes "unat (m (dp + j)) * 2 ^ s < 2 ^ 64" "s < 64"
  shows "mpn_val m dp (Suc j) * 2 ^ s < B ^ Suc j"
proof -
  have e: "(2::nat) ^ 64 = 2 ^ (64 - s) * 2 ^ s" using assms(2) by (simp flip: power_add)
  have "unat (m (dp + j)) < 2 ^ (64 - s)" using assms(1) unfolding e by simp
  then have "(unat (m (dp + j)) + 1) * 2 ^ s \<le> 2 ^ (64 - s) * 2 ^ s" by (intro mult_right_mono) auto
  then have t: "(unat (m (dp + j)) + 1) * 2 ^ s \<le> B" unfolding e [symmetric] B_def .
  have "mpn_val m dp (Suc j) < B ^ j * (unat (m (dp + j)) + 1)"
    unfolding mpn_val_snoc using mpn_val_bound [of m dp j] by simp
  then have "mpn_val m dp (Suc j) * 2 ^ s < (B ^ j * (unat (m (dp + j)) + 1)) * 2 ^ s" by simp
  also have "\<dots> \<le> B ^ j * B" unfolding mult.assoc using t by (intro mult_left_mono) auto
  finally show ?thesis by (simp add: mult.commute)
qed

lemma mpn_div_qr_n:
  assumes dn: "dn = Suc (Suc (Suc j))" "nn \<ge> dn" and top: "m (dp + (dn - 1)) \<noteq> 0"
    and dis: "span np nn \<inter> span dp dn = {}" "qspan qp (nn - dn + 1) \<inter> span np nn = {}"
      "qspan qp (nn - dn + 1) \<inter> span dp dn = {}" "span tp dn \<inter> span np nn = {}" "span tp dn \<inter> span dp dn = {}"
      "qspan qp (nn - dn + 1) \<inter> span tp dn = {}"
  obtains m' Q where "mpn_div_qr m tp qp np nn dp dn = Inr m'"
    "mpn_val m np nn = Q * mpn_val m dp dn + mpn_val m' np dn" "mpn_val m' np dn < mpn_val m dp dn"
    "quot m' qp (nn - dn + 1) Q" "frame m m' (span np nn \<union> qspan qp (nn - dn + 1) \<union> span tp dn)"
proof -
  have dn3: "dn \<ge> 3" and top': "m (dp + Suc (Suc j)) \<noteq> 0" using dn(1) top by auto
  obtain iv where iv: "mpn_div_qr_invert m dp dn = Inr iv" "inv_shift iv < 64"
    "unat (m (dp + Suc (Suc j))) * 2 ^ inv_shift iv < 2 ^ 64"
    "inv_d1 iv = normalize_limb (inv_shift iv) (m (dp + Suc (Suc j))) (m (dp + Suc j))"
    "inv_d0 iv = normalize_limb (inv_shift iv) (m (dp + Suc j)) (m (dp + j))"
    "inverse_3by2 (inv_d1 iv) (inv_d0 iv) (inv_di iv)"
    by (rule mpn_div_qr_invert_n [where m = m and dp = dp, OF dn(1) top'])
  define s where "s = inv_shift iv"
  show ?thesis
  proof (cases "s > 0")
    case False
    have top2: "inv_d1 iv = m (dp + (dn - 1))" "inv_d0 iv = m (dp + (dn - 2))" "mpn_val m dp dn = mpn_val m dp dn * 2 ^ inv_shift iv"
      using iv(4,5) False dn(1) by (simp_all add: normalize_limb_def s_def)
    obtain m' Q where r: "mpn_div_qr_preinv m tp qp np nn dp dn iv = Inr m'"
      "mpn_val m np nn = Q * mpn_val m dp dn + mpn_val m' np dn" "mpn_val m' np dn < mpn_val m dp dn"
      "quot m' qp (nn - dn + 1) Q" "frame m m' (span np nn \<union> qspan qp (nn - dn + 1))"
      by (rule mpn_div_qr_preinv_n [OF dn3 dn(2) iv(2) top2(1,2) iv(6) top2(3) dis(1-3)])
    have "mpn_div_qr m tp qp np nn dp dn = Inr m'"
      using dn iv(1) r(1) False by (simp add: mpn_div_qr_def s_def)
    moreover have "frame m m' (span np nn \<union> qspan qp (nn - dn + 1) \<union> span tp dn)"
      by (rule frame_mono [OF r(5)]) auto
    ultimately show ?thesis using r(2-4) by (intro that)
  next
    case True
    have dec: "decr_ok tp dp dn" using dis(5) dn by (auto simp: decr_ok_def span_disjoint)
    have s1: "s \<ge> 1" "s < 64" "dn \<ge> 1" using True iv(2) dn by (auto simp: s_def)
    obtain m1 ret where l: "mpn_lshift m tp dp dn s = Inr (m1, ret)"
      "mpn_val m1 tp dn + B ^ dn * unat ret = mpn_val m dp dn * 2 ^ s" "unchanged m m1 tp dn"
      by (rule mpn_lshift_value [OF s1(3,1,2) dec])
    have "mpn_val m dp dn * 2 ^ s < B ^ dn" unfolding dn(1) by (rule normalized_no_carry) (use iv(2,3) in \<open>simp_all add: s_def\<close>)
    then have "B ^ dn * unat ret < B ^ dn * 1" using l(2) by linarith
    then have r0: "ret = 0" by (simp add: word_unat_eq_iff)
    have f1: "frame m m1 (span tp dn)" using l(3) by (simp add: unchanged_iff_frame)
    have top1: "inv_d1 iv = m1 (tp + (dn - 1))" "inv_d0 iv = m1 (tp + (dn - 2))"
      using mpn_lshift_limb [OF s1(1,2) dec _ l(1), of "Suc j"] mpn_lshift_limb [OF s1(1,2) dec _ l(1), of j] iv(4,5) dn(1)
      by (simp_all add: s_def)
    have D: "mpn_val m1 tp dn = mpn_val m dp dn * 2 ^ inv_shift iv" using l(2) r0 by (simp add: s_def)
    obtain m' Q where r: "mpn_div_qr_preinv m1 tp qp np nn tp dn iv = Inr m'"
      "mpn_val m1 np nn = Q * mpn_val m dp dn + mpn_val m' np dn" "mpn_val m' np dn < mpn_val m dp dn"
      "quot m' qp (nn - dn + 1) Q" "frame m1 m' (span np nn \<union> qspan qp (nn - dn + 1))"
      by (rule mpn_div_qr_preinv_n [OF dn3 dn(2) iv(2) top1 iv(6) D]) (use dis in auto)
    have "mpn_val m1 np nn = mpn_val m np nn" by (rule frame_val [OF f1 dis(4)])
    moreover have "mpn_div_qr m tp qp np nn dp dn = Inr m'"
      using dn iv(1) r(1) l(1) r0 True by (simp add: mpn_div_qr_def s_def)
    moreover have "frame m m' (span np nn \<union> qspan qp (nn - dn + 1) \<union> span tp dn)"
      by (rule frame_mono [OF frame_trans [OF f1 r(5)]]) auto
    ultimately show ?thesis using r(2-4) by (intro that [of m' Q]) auto
  qed
qed

lemma mpn_div_qr_value:
  assumes dn: "dn \<ge> 1" "nn \<ge> dn" and top: "m (dp + (dn - 1)) \<noteq> 0"
    and dis: "span np nn \<inter> span dp dn = {}" "qspan qp (nn - dn + 1) \<inter> span np nn = {}"
      "qspan qp (nn - dn + 1) \<inter> span dp dn = {}" "span tp nn \<inter> span np nn = {}" "span tp nn \<inter> span dp dn = {}"
      "span tp nn \<inter> qspan qp (nn - dn + 1) = {}"
  obtains m' Q where "mpn_div_qr m tp qp np nn dp dn = Inr m'"
    "mpn_val m np nn = Q * mpn_val m dp dn + mpn_val m' np dn" "mpn_val m' np dn < mpn_val m dp dn"
    "quot m' qp (nn - dn + 1) Q" "frame m m' (span np nn \<union> qspan qp (nn - dn + 1) \<union> span tp nn)"
proof -
  have ab: "above qp np (nn - dn + 1)"
    using dis(2) dn by (auto simp: above_def decr_ok_def qspan_def span_disjoint split: option.splits)
  have n1: "nn \<ge> 1" using dn by simp
  consider "dn = 1" | "dn = 2" | j where "dn = Suc (Suc (Suc j))"
    using dn(1) by (metis One_nat_def Suc_1 le_0_eq not0_implies_Suc not_one_le_zero)
  then show ?thesis
  proof cases
    case 1
    have k: "nn - dn + 1 = nn" using 1 n1 by simp
    have "m dp \<noteq> 0" using top 1 by simp
    then obtain iv where iv: "mpn_div_qr_1_invert (m dp) = Inr iv" "inverse_1 (m dp) iv"
      by (rule mpn_div_qr_1_invert_value)
    obtain m1 r Q where r: "mpn_div_qr_1_preinv m tp qp np nn iv = Inr (m1, r)"
      "mpn_val m np nn = Q * unat (m dp) + unat r" "unat r < unat (m dp)" "quot m1 qp nn Q"
      "frame m m1 (span tp nn \<union> qspan qp nn)"
      by (rule mpn_div_qr_1_preinv_value [OF iv(2) n1 ab [unfolded k] dis(4) dis(6) [unfolded k]])
    have "mpn_div_qr m tp qp np nn dp dn = Inr (m1(np := r))"
      using iv(1) r(1) 1 n1 by (simp add: mpn_div_qr_def mpn_div_qr_invert_def mpn_div_qr_preinv_def)
    moreover have "quot (m1(np := r)) qp nn Q"
      by (rule quot_frame [OF r(4), of _ "{np}"]) (use dis(2) k n1 in \<open>auto simp: frame_def disjoint_iff\<close>)
    moreover have "frame m (m1(np := r)) (span np nn \<union> qspan qp nn \<union> span tp nn)"
      using r(5) n1 by (auto simp: frame_def)
    moreover have "mpn_val m dp 1 = unat (m dp)" "mpn_val (m1(np := r)) np 1 = unat r" by simp_all
    ultimately show ?thesis using r(2,3) 1 k by (intro that [of "m1(np := r)" Q]) (simp_all del: One_nat_def)
  next
    case 2
    then have k: "nn - dn + 1 = nn - 1" and n2: "nn \<ge> 2" using dn by auto
    have "m (dp + 1) \<noteq> 0" using top 2 by simp
    then obtain iv where iv: "mpn_div_qr_2_invert (m (dp + 1)) (m dp) = Inr iv" "inverse_2 (dval (m (dp + 1)) (m dp)) iv"
      by (rule mpn_div_qr_2_invert_value)
    have "span np 2 \<inter> qspan qp (nn - 1) = {}" using dis(2) n2 k by (auto simp: disjoint_iff)
    then obtain m' Q where r: "mpn_div_qr_2_preinv m tp qp np np nn iv = Inr m'"
      "mpn_val m np nn = Q * dval (m (dp + 1)) (m dp) + mpn_val m' np 2" "mpn_val m' np 2 < dval (m (dp + 1)) (m dp)"
      "quot m' qp (nn - 1) Q" "frame m m' (span tp nn \<union> qspan qp (nn - 1) \<union> span np 2)"
      by (rule mpn_div_qr_2_preinv_value [OF iv(2) n2 ab [unfolded k] dis(4) dis(6) [unfolded k]])
    have "mpn_div_qr m tp qp np nn dp dn = Inr m'"
      using iv(1) r(1) 2 n2 by (simp add: mpn_div_qr_def mpn_div_qr_invert_def mpn_div_qr_preinv_def)
    moreover have "frame m m' (span np nn \<union> qspan qp (nn - 1) \<union> span tp nn)"
      by (rule frame_mono [OF r(5)]) (use n2 in auto)
    ultimately show ?thesis using r(2-4) 2 k by (intro that [of m' Q]) (simp_all add: dval_val)
  next
    case 3
    have t: "span tp dn \<subseteq> span tp nn" using dn(2) by auto
    obtain m' Q where r: "mpn_div_qr m tp qp np nn dp dn = Inr m'"
      "mpn_val m np nn = Q * mpn_val m dp dn + mpn_val m' np dn" "mpn_val m' np dn < mpn_val m dp dn"
      "quot m' qp (nn - dn + 1) Q" "frame m m' (span np nn \<union> qspan qp (nn - dn + 1) \<union> span tp dn)"
      by (rule mpn_div_qr_n [where m = m and dp = dp, OF 3 dn(2) top dis(1-3)]) (use dis(4-6) t in blast)+
    have "frame m m' (span np nn \<union> qspan qp (nn - dn + 1) \<union> span tp nn)"
      by (rule frame_mono [OF r(5)]) (use t in auto)
    then show ?thesis using r(1-4) by (intro that)
  qed
qed

end
