(* ===== verification/Mpn_div_props.thy ===== *)
theory Mpn_div_props
  imports Mpn_div_qr Mpn_props
begin

text \<open>
  Correctness of the division of natural numbers in mini-gmp as statements on numbers: the
  reciprocals are the exact ones, a step divides three limbs by two exactly, and the
  division of numbers of any length stores quotient and remainder.
\<close>

text \<open>
  C18. The reciprocal of a normalised two-limb divisor, computed with half limbs and three
  correction steps, is exactly \<open>(B ^ 3 - 1) div (u1 * B + u0) - B\<close> for the limb base
  \<open>B = 2 ^ 64\<close>; no assertion fails on the way.
\<close>

theorem mpn_invert_3by2_exact:
  assumes "u1 \<ge> GMP_LIMB_HIGHBIT"
  shows "\<exists>m. mpn_invert_3by2 u1 u0 = Inr m \<and> unat m + B = (B ^ 3 - 1) div (unat u1 * B + unat u0)"
proof -
  obtain m where "mpn_invert_3by2 u1 u0 = Inr m" "inverse_3by2 u1 u0 m" by (rule mpn_invert_3by2_value [OF assms])
  then show ?thesis by (auto simp: inverse_3by2_def power3_eq_cube)
qed

theorem mpn_invert_3by2_exact_witness:
  "\<exists>m. mpn_invert_3by2 GMP_LIMB_HIGHBIT 0 = Inr m \<and> unat m + B = (B ^ 3 - 1) div (unat GMP_LIMB_HIGHBIT * B + unat (0 :: limb))"
  by (rule mpn_invert_3by2_exact) simp

text \<open>
  C20. Division of three limbs by two: with the reciprocal that \<open>mpn_invert_3by2\<close> returns
  for a normalised divisor, \<open>gmp_udiv_qr_3by2\<close> gives the quotient limb and the two
  remainder limbs of the exact division, although all its arithmetic wraps around.
\<close>

theorem gmp_udiv_qr_3by2_exact:
  assumes "d1 \<ge> GMP_LIMB_HIGHBIT" "mpn_invert_3by2 d1 d0 = Inr di" "gmp_udiv_qr_3by2 n2 n1 n0 d1 d0 di = (q, r1, r0)"
    and "unat n2 * B + unat n1 < unat d1 * B + unat d0"
  shows "unat q = (unat n2 * B ^ 2 + unat n1 * B + unat n0) div (unat d1 * B + unat d0) \<and>
    unat r1 * B + unat r0 = (unat n2 * B ^ 2 + unat n1 * B + unat n0) mod (unat d1 * B + unat d0)"
proof -
  obtain m where m: "mpn_invert_3by2 d1 d0 = Inr m" "inverse_3by2 d1 d0 m" by (rule mpn_invert_3by2_value [OF assms(1)])
  then have inv: "inverse_3by2 d1 d0 di" using assms(2) by simp
  define N D R where "N = unat n2 * B ^ 2 + unat n1 * B + unat n0" and "D = unat d1 * B + unat d0" and "R = unat r1 * B + unat r0"
  have lt: "val2 n2 n1 < val2 d1 d0"
    using assms(4) unfolding val2_def by (metis of_nat_add of_nat_less_iff of_nat_mult)
  note v = udiv_qr_3by2_value [OF inv lt assms(3)]
  have "int N = val2 n2 n1 * int B + int (unat n0)" by (simp add: N_def val2_def power2_eq_square algebra_simps)
  moreover have "val2 d1 d0 = int D" "val2 r1 r0 = int R" by (simp_all add: val2_def D_def R_def)
  ultimately have "int N = int (unat q * D + R)" "int R < int D" using v by simp_all
  then have "N = unat q * D + R" "R < D" by linarith+
  then show ?thesis unfolding N_def [symmetric] D_def [symmetric] R_def [symmetric] by simp
qed

theorem gmp_udiv_qr_3by2_exact_witness:
  "\<exists>di q r1 r0. mpn_invert_3by2 (- 1) 0 = Inr di \<and> gmp_udiv_qr_3by2 5 7 9 (- 1) 0 di = (q, r1, r0) \<and>
     unat q = (5 * B ^ 2 + 7 * B + 9) div ((B - 1) * B)"
proof -
  have u: "unat (- 1 :: limb) = B - 1" by (simp add: B_def unsigned_minus_1_eq_mask mask_eq_exp_minus_1)
  have hb: "GMP_LIMB_HIGHBIT \<le> - 1" by simp
  obtain di where di: "mpn_invert_3by2 (- 1) 0 = Inr di" using mpn_invert_3by2_value [OF hb, of 0] by blast
  obtain q r1 r0 where r: "gmp_udiv_qr_3by2 5 7 9 (- 1) 0 di = (q, r1, r0)" by (metis surj_pair)
  show ?thesis using gmp_udiv_qr_3by2_exact [OF hb di r] di r unfolding u by (auto simp: B_def)
qed

text \<open>
  C8. Division of natural numbers of any length: for operands in disjoint regions and a
  divisor whose top limb is not zero, \<open>mpn_div_qr\<close> leaves the remainder in the low limbs
  of the dividend, stores the quotient when its pointer is not null, fails no assertion
  and writes only the dividend, the quotient and its scratch space.
\<close>

theorem mpn_div_qr_exact:
  assumes "dn \<ge> 1" "nn \<ge> dn" "m (dp + (dn - 1)) \<noteq> 0"
    and "span np nn \<inter> span dp dn = {}" "qspan qp (nn - dn + 1) \<inter> span np nn = {}"
      "qspan qp (nn - dn + 1) \<inter> span dp dn = {}" "span tp nn \<inter> span np nn = {}" "span tp nn \<inter> span dp dn = {}"
      "span tp nn \<inter> qspan qp (nn - dn + 1) = {}"
  shows "\<exists>m'. mpn_div_qr m tp qp np nn dp dn = Inr m' \<and>
    mpn_val m' np dn = mpn_val m np nn mod mpn_val m dp dn \<and>
    quot m' qp (nn - dn + 1) (mpn_val m np nn div mpn_val m dp dn) \<and>
    frame m m' (span np nn \<union> qspan qp (nn - dn + 1) \<union> span tp nn)"
proof -
  obtain m' Q where r: "mpn_div_qr m tp qp np nn dp dn = Inr m'"
    "mpn_val m np nn = Q * mpn_val m dp dn + mpn_val m' np dn" "mpn_val m' np dn < mpn_val m dp dn"
    "quot m' qp (nn - dn + 1) Q" "frame m m' (span np nn \<union> qspan qp (nn - dn + 1) \<union> span tp nn)"
    by (rule mpn_div_qr_value [where m = m and dp = dp and np = np, OF assms])
  then have "mpn_val m np nn div mpn_val m dp dn = Q" "mpn_val m np nn mod mpn_val m dp dn = mpn_val m' np dn" by simp_all
  with r show ?thesis by auto
qed

theorem mpn_div_qr_exact_witness:
  "\<exists>m'. mpn_div_qr sample_mem 30 (Some 20) 0 2 10 1 = Inr m' \<and> mpn_val m' 0 1 = 6 \<and> mpn_val m' 20 2 = 1"
proof -
  have "\<exists>m'. mpn_div_qr sample_mem 30 (Some 20) 0 2 10 1 = Inr m' \<and>
      mpn_val m' 0 1 = mpn_val sample_mem 0 2 mod mpn_val sample_mem 10 1 \<and>
      quot m' (Some 20) (2 - 1 + 1) (mpn_val sample_mem 0 2 div mpn_val sample_mem 10 1) \<and>
      frame sample_mem m' (span 0 2 \<union> qspan (Some 20) (2 - 1 + 1) \<union> span 30 2)"
    by (rule mpn_div_qr_exact) (auto simp: sample_mem_def qspan_def)
  then show ?thesis by (auto simp: sample_values quot_def B_def simp del: One_nat_def mpn_val.simps)
qed

text \<open>
  Division by one limb: \<open>mpn_div_qr_1\<close> returns the remainder and stores the quotient,
  which may overwrite the dividend, for every divisor but zero; powers of two take the
  path with shifts.
\<close>

theorem mpn_div_qr_1_exact:
  assumes "d \<noteq> 0" "nn \<ge> 1" "apart qp np nn" "span tp nn \<inter> span np nn = {}" "span tp nn \<inter> qspan qp nn = {}"
  shows "\<exists>m' r. mpn_div_qr_1 m tp qp np nn d = Inr (m', r) \<and> unat r = mpn_val m np nn mod unat d \<and>
    quot m' qp nn (mpn_val m np nn div unat d) \<and> frame m m' (span tp nn \<union> qspan qp nn)"
proof -
  obtain m' r Q where r: "mpn_div_qr_1 m tp qp np nn d = Inr (m', r)" "mpn_val m np nn = Q * unat d + unat r"
    "unat r < unat d" "quot m' qp nn Q" "frame m m' (span tp nn \<union> qspan qp nn)"
    by (rule mpn_div_qr_1_value [OF assms])
  then have "mpn_val m np nn div unat d = Q" "mpn_val m np nn mod unat d = unat r" by simp_all
  with r show ?thesis by auto
qed

theorem mpn_div_qr_1_exact_witness:
  "\<exists>m' r. mpn_div_qr_1 sample_mem 30 (Some 0) 0 2 3 = Inr (m', r) \<and> r = 0 \<and> mpn_val m' 0 2 = (B + 5) div 3"
proof -
  have "\<exists>m' r. mpn_div_qr_1 sample_mem 30 (Some 0) 0 2 3 = Inr (m', r) \<and> unat r = mpn_val sample_mem 0 2 mod unat (3 :: limb) \<and>
      quot m' (Some 0) 2 (mpn_val sample_mem 0 2 div unat (3 :: limb)) \<and> frame sample_mem m' (span 30 2 \<union> qspan (Some 0) 2)"
    by (rule mpn_div_qr_1_exact) (auto simp: apart_def qspan_def)
  then show ?thesis by (auto simp: sample_values quot_def B_def unat_eq_0 simp del: One_nat_def mpn_val.simps)
qed

end
