(* ===== verification/Mpz.thy ===== *)
theory Mpz
  imports Mpn_div
begin

text \<open>
  The integer layer of mini-gmp, \<open>mpz_*\<close> of
  \<open>src/examples/multiprecision/mini-gmp/mini-gmp.c\<close>. The state holds the limbs, the
  blocks that are allocated, and the structures \<open>mpz_t\<close> by their addresses; the arguments
  of the functions are these addresses, so that results may alias operands as in C. The
  fields \<open>_mp_size\<close> and \<open>_mp_alloc\<close> are C \<open>int\<close>s and wrap when they are stored. The
  allocator hands out fresh addresses; memory exhaustion is not modelled.
\<close>

section \<open>State\<close>

record mpz_struct =
  mp_alloc :: int
  mp_size :: int
  mp_d :: nat

text \<open>
  \<open>g_next\<close> is the first address never allocated, \<open>g_block\<close> gives the length of each live
  block and \<open>g_top\<close> is the first structure address not in use, where local structures go.
\<close>

record gmp =
  g_mem :: mem
  g_next :: nat
  g_block :: "nat \<Rightarrow> nat option"
  g_mpz :: "nat \<Rightarrow> mpz_struct"
  g_top :: nat

definition msize :: "gmp \<Rightarrow> nat \<Rightarrow> int" where
  "msize s x = mp_size (g_mpz s x)"

definition mdata :: "gmp \<Rightarrow> nat \<Rightarrow> nat" where
  "mdata s x = mp_d (g_mpz s x)"

definition upd_mpz :: "gmp \<Rightarrow> nat \<Rightarrow> (mpz_struct \<Rightarrow> mpz_struct) \<Rightarrow> gmp" where
  "upd_mpz s x f = s\<lparr>g_mpz := (g_mpz s)(x := f (g_mpz s x))\<rparr>"

definition set_size :: "gmp \<Rightarrow> nat \<Rightarrow> int \<Rightarrow> gmp" where
  "set_size s x n = upd_mpz s x (\<lambda>z. z\<lparr>mp_size := c_int n\<rparr>)"

definition set_limb :: "gmp \<Rightarrow> nat \<Rightarrow> limb \<Rightarrow> gmp" where
  "set_limb s p x = s\<lparr>g_mem := (g_mem s)(p := x)\<rparr>"

definition abs_size :: "gmp \<Rightarrow> nat \<Rightarrow> nat" where
  "abs_size s x = nat (GMP_ABS (msize s x))"

section \<open>Allocation\<close>

definition gmp_xalloc_limbs :: "gmp \<Rightarrow> int \<Rightarrow> (nat \<times> gmp) result" where
  "gmp_xalloc_limbs s sz =
     rbind (rassert (sz > 0)) (\<lambda>_.
       Inr (g_next s, s\<lparr>g_next := g_next s + nat sz, g_block := (g_block s)(g_next s \<mapsto> nat sz)\<rparr>))"

definition gmp_xrealloc_limbs :: "gmp \<Rightarrow> nat \<Rightarrow> int \<Rightarrow> (nat \<times> gmp) result" where
  "gmp_xrealloc_limbs s old sz =
     rbind (rassert (sz > 0)) (\<lambda>_.
       case g_block s old of
         None \<Rightarrow> Inl Use_after_free
       | Some k \<Rightarrow>
           Inr (g_next s, s\<lparr>g_mem := mpn_copyi (g_mem s) (g_next s) old (min k (nat sz)),
                            g_next := g_next s + nat sz,
                            g_block := (g_block s)(old := None, g_next s \<mapsto> nat sz)\<rparr>))"

definition gmp_free :: "gmp \<Rightarrow> nat \<Rightarrow> gmp result" where
  "gmp_free s p =
     (if g_block s p = None then Inl Use_after_free else Inr (s\<lparr>g_block := (g_block s)(p := None)\<rparr>))"

definition gmp_die :: "string \<Rightarrow> 'a result" where
  "gmp_die msg = Inl (Abort msg)"

text \<open>A local structure: its address is free again when the function returns.\<close>

definition with_local :: "gmp \<Rightarrow> (gmp \<Rightarrow> nat \<Rightarrow> ('a \<times> gmp) result) \<Rightarrow> ('a \<times> gmp) result" where
  "with_local s f =
     rbind (f (s\<lparr>g_top := Suc (g_top s)\<rparr>) (g_top s)) (\<lambda>(x, s'). Inr (x, s'\<lparr>g_top := g_top s\<rparr>))"

section \<open>Initialisation and assignment\<close>

text \<open>The static limb \<open>dummy_limb\<close> is at address zero.\<close>

definition mpz_init :: "gmp \<Rightarrow> nat \<Rightarrow> gmp" where
  "mpz_init s r = upd_mpz s r (\<lambda>z. \<lparr>mp_alloc = 0, mp_size = 0, mp_d = 0\<rparr>)"

definition mpz_init2 :: "gmp \<Rightarrow> nat \<Rightarrow> 64 word \<Rightarrow> gmp result" where
  "mpz_init2 s r bits =
     (let bits = bits - of_bool (bits \<noteq> 0);
          rn = 1 + int (unat bits div GMP_LIMB_BITS)
      in rbind (gmp_xalloc_limbs s rn) (\<lambda>(p, s).
           Inr (upd_mpz s r (\<lambda>z. \<lparr>mp_alloc = c_int rn, mp_size = 0, mp_d = p\<rparr>))))"

definition mpz_clear :: "gmp \<Rightarrow> nat \<Rightarrow> gmp result" where
  "mpz_clear s r = (if mp_alloc (g_mpz s r) \<noteq> 0 then gmp_free s (mdata s r) else Inr s)"

definition mpz_realloc :: "gmp \<Rightarrow> nat \<Rightarrow> int \<Rightarrow> (nat \<times> gmp) result" where
  "mpz_realloc s r sz =
     (let sz = max sz 1 in
      rbind (if mp_alloc (g_mpz s r) \<noteq> 0 then gmp_xrealloc_limbs s (mdata s r) sz
             else gmp_xalloc_limbs s sz) (\<lambda>(p, s).
        let s = upd_mpz s r (\<lambda>z. z\<lparr>mp_d := p, mp_alloc := c_int sz\<rparr>);
            s = (if GMP_ABS (msize s r) > sz then set_size s r 0 else s)
        in Inr (mdata s r, s)))"

definition MPZ_REALLOC :: "gmp \<Rightarrow> nat \<Rightarrow> int \<Rightarrow> (nat \<times> gmp) result" where
  "MPZ_REALLOC s z n =
     (if n > mp_alloc (g_mpz s z) then mpz_realloc s z n else Inr (mdata s z, s))"

definition mpz_set_ui :: "gmp \<Rightarrow> nat \<Rightarrow> limb \<Rightarrow> gmp result" where
  "mpz_set_ui s r x =
     (if x > 0
      then rbind (MPZ_REALLOC (set_size s r 1) r 1) (\<lambda>(p, s). Inr (set_limb s p x))
      else Inr (set_size s r 0))"

text \<open>\<open>GMP_NEG_CAST\<close> of a \<open>long\<close> to a limb.\<close>

definition GMP_NEG_CAST :: "int \<Rightarrow> limb" where
  "GMP_NEG_CAST x = - (of_int (x + 1) - 1)"

definition mpz_set_si :: "gmp \<Rightarrow> nat \<Rightarrow> int \<Rightarrow> gmp result" where
  "mpz_set_si s r x =
     (if x \<ge> 0 then mpz_set_ui s r (of_int x)
      else rbind (MPZ_REALLOC (set_size s r (-1)) r 1) (\<lambda>(p, s). Inr (set_limb s p (GMP_NEG_CAST x))))"

definition mpz_set :: "gmp \<Rightarrow> nat \<Rightarrow> nat \<Rightarrow> gmp result" where
  "mpz_set s r x =
     (if r \<noteq> x
      then (let n = GMP_ABS (msize s x) in
            rbind (MPZ_REALLOC s r n) (\<lambda>(rp, s).
              let s = s\<lparr>g_mem := mpn_copyi (g_mem s) rp (mdata s x) (nat n)\<rparr>
              in Inr (set_size s r (msize s x))))
      else Inr s)"

definition mpz_init_set_si :: "gmp \<Rightarrow> nat \<Rightarrow> int \<Rightarrow> gmp result" where
  "mpz_init_set_si s r x = mpz_set_si (mpz_init s r) r x"

definition mpz_init_set_ui :: "gmp \<Rightarrow> nat \<Rightarrow> limb \<Rightarrow> gmp result" where
  "mpz_init_set_ui s r x = mpz_set_ui (mpz_init s r) r x"

definition mpz_init_set :: "gmp \<Rightarrow> nat \<Rightarrow> nat \<Rightarrow> gmp result" where
  "mpz_init_set s r x = mpz_set (mpz_init s r) r x"

section \<open>Conversions\<close>

definition mpz_fits_slong_p :: "gmp \<Rightarrow> nat \<Rightarrow> bool" where
  "mpz_fits_slong_p s u =
     (let us = msize s u in
      if us = 1 then g_mem s (mdata s u) < GMP_LIMB_HIGHBIT
      else if us = -1 then g_mem s (mdata s u) \<le> GMP_LIMB_HIGHBIT
      else us = 0)"

definition mpz_fits_ulong_p :: "gmp \<Rightarrow> nat \<Rightarrow> bool" where
  "mpz_fits_ulong_p s u = (let us = msize s u in us = of_bool (us > 0))"

definition mpz_get_ui :: "gmp \<Rightarrow> nat \<Rightarrow> limb" where
  "mpz_get_ui s u = (if msize s u = 0 then 0 else g_mem s (mdata s u))"

definition mpz_get_si :: "gmp \<Rightarrow> nat \<Rightarrow> int" where
  "mpz_get_si s u =
     (if msize s u < 0
      then -1 - int (unat ((g_mem s (mdata s u) - 1) AND NOT GMP_LIMB_HIGHBIT))
      else int (unat (mpz_get_ui s u AND NOT GMP_LIMB_HIGHBIT)))"

definition mpz_size :: "gmp \<Rightarrow> nat \<Rightarrow> int" where
  "mpz_size s u = GMP_ABS (msize s u)"

definition mpz_getlimbn :: "gmp \<Rightarrow> nat \<Rightarrow> int \<Rightarrow> limb" where
  "mpz_getlimbn s u n =
     (if n \<ge> 0 \<and> n < GMP_ABS (msize s u) then g_mem s (mdata s u + nat n) else 0)"

definition mpz_realloc2 :: "gmp \<Rightarrow> nat \<Rightarrow> 64 word \<Rightarrow> gmp result" where
  "mpz_realloc2 s x n =
     rbind (mpz_realloc s x (1 + int (unat (n - of_bool (n \<noteq> 0)) div GMP_LIMB_BITS))) (\<lambda>(_, s). Inr s)"

definition mpz_limbs_modify :: "gmp \<Rightarrow> nat \<Rightarrow> int \<Rightarrow> (nat \<times> gmp) result" where
  "mpz_limbs_modify s x n = rbind (rassert (n > 0)) (\<lambda>_. MPZ_REALLOC s x n)"

definition mpz_limbs_finish :: "gmp \<Rightarrow> nat \<Rightarrow> int \<Rightarrow> gmp" where
  "mpz_limbs_finish s x xs =
     (let xn = int (mpn_normalized_size (g_mem s) (mdata s x) (nat (GMP_ABS xs)))
      in set_size s x (if xs < 0 then - xn else xn))"

definition mpz_roinit_n :: "gmp \<Rightarrow> nat \<Rightarrow> nat \<Rightarrow> int \<Rightarrow> gmp" where
  "mpz_roinit_n s x xp xs =
     mpz_limbs_finish (upd_mpz s x (\<lambda>z. z\<lparr>mp_alloc := 0, mp_d := xp\<rparr>)) x xs"

section \<open>Comparison and sign\<close>

definition mpz_sgn :: "gmp \<Rightarrow> nat \<Rightarrow> int" where
  "mpz_sgn s u = GMP_CMP (msize s u) 0"

definition mpz_cmp_ui :: "gmp \<Rightarrow> nat \<Rightarrow> limb \<Rightarrow> int" where
  "mpz_cmp_ui s u v =
     (let usize = msize s u in
      if usize > 1 then 1 else if usize < 0 then -1 else GMP_CMP (mpz_get_ui s u) v)"

definition mpz_cmp_si :: "gmp \<Rightarrow> nat \<Rightarrow> int \<Rightarrow> int" where
  "mpz_cmp_si s u v =
     (let usize = msize s u in
      if usize < -1 then -1
      else if v \<ge> 0 then mpz_cmp_ui s u (of_int v)
      else if usize \<ge> 0 then 1
      else GMP_CMP (GMP_NEG_CAST v) (g_mem s (mdata s u)))"

definition mpz_cmp :: "gmp \<Rightarrow> nat \<Rightarrow> nat \<Rightarrow> int" where
  "mpz_cmp s a b =
     (let asize = msize s a; bsize = msize s b in
      if asize \<noteq> bsize then (if asize < bsize then -1 else 1)
      else if asize \<ge> 0 then mpn_cmp (g_mem s) (mdata s a) (mdata s b) (nat asize)
      else mpn_cmp (g_mem s) (mdata s b) (mdata s a) (nat (- asize)))"

definition mpz_cmpabs_ui :: "gmp \<Rightarrow> nat \<Rightarrow> limb \<Rightarrow> int" where
  "mpz_cmpabs_ui s u v = (if GMP_ABS (msize s u) > 1 then 1 else GMP_CMP (mpz_get_ui s u) v)"

definition mpz_cmpabs :: "gmp \<Rightarrow> nat \<Rightarrow> nat \<Rightarrow> int" where
  "mpz_cmpabs s u v = mpn_cmp4 (g_mem s) (mdata s u) (abs_size s u) (mdata s v) (abs_size s v)"

definition mpz_abs :: "gmp \<Rightarrow> nat \<Rightarrow> nat \<Rightarrow> gmp result" where
  "mpz_abs s r u = rbind (mpz_set s r u) (\<lambda>s. Inr (set_size s r (GMP_ABS (msize s r))))"

definition mpz_neg :: "gmp \<Rightarrow> nat \<Rightarrow> nat \<Rightarrow> gmp result" where
  "mpz_neg s r u = rbind (mpz_set s r u) (\<lambda>s. Inr (set_size s r (- msize s r)))"

definition mpz_swap :: "gmp \<Rightarrow> nat \<Rightarrow> nat \<Rightarrow> gmp" where
  "mpz_swap s u v = s\<lparr>g_mpz := (g_mpz s)(u := g_mpz s v, v := g_mpz s u)\<rparr>"

end
