(* ===== verification/Mpz_arith.thy ===== *)
theory Mpz_arith
  imports Mpz
begin

text \<open>
  Addition, subtraction and multiplication of \<open>mini-gmp.c\<close> on integers. The
  functions return the new state; the static ones that compute a size return it as well.
\<close>

section \<open>Addition and subtraction\<close>

text \<open>\<open>gmp_assert_nocarry\<close> around a call that returns a carry.\<close>

definition nocarry :: "(mem \<times> limb) result \<Rightarrow> mem result" where
  "nocarry x = rbind x (\<lambda>(m, cy). rbind (rassert (cy = 0)) (\<lambda>_. Inr m))"

definition mpz_abs_add_ui :: "gmp \<Rightarrow> nat \<Rightarrow> nat \<Rightarrow> limb \<Rightarrow> (int \<times> gmp) result" where
  "mpz_abs_add_ui s r a b =
     (let an = GMP_ABS (msize s a) in
      if an = 0 then rbind (MPZ_REALLOC s r 1) (\<lambda>(p, s). Inr (of_bool (b > 0), set_limb s p b))
      else rbind (MPZ_REALLOC s r (an + 1)) (\<lambda>(rp, s).
           rbind (mpn_add_1 (g_mem s) rp (mdata s a) (nat an) b) (\<lambda>(m, cy).
             Inr (an + int (unat cy), s\<lparr>g_mem := m(rp + nat an := cy)\<rparr>))))"

definition mpz_abs_sub_ui :: "gmp \<Rightarrow> nat \<Rightarrow> nat \<Rightarrow> limb \<Rightarrow> (int \<times> gmp) result" where
  "mpz_abs_sub_ui s r a b =
     (let an = GMP_ABS (msize s a) in
      if an = 0 then rbind (MPZ_REALLOC s r 1) (\<lambda>(p, s). Inr (- of_bool (b > 0), set_limb s p b))
      else rbind (MPZ_REALLOC s r an) (\<lambda>(rp, s).
           let a0 = g_mem s (mdata s a) in
           if an = 1 \<and> a0 < b then Inr (-1, set_limb s rp (b - a0))
           else rbind (nocarry (mpn_sub_1 (g_mem s) rp (mdata s a) (nat an) b)) (\<lambda>m.
                  Inr (int (mpn_normalized_size m rp (nat an)), s\<lparr>g_mem := m\<rparr>))))"

definition mpz_add_ui :: "gmp \<Rightarrow> nat \<Rightarrow> nat \<Rightarrow> limb \<Rightarrow> gmp result" where
  "mpz_add_ui s r a b =
     (if msize s a \<ge> 0 then rbind (mpz_abs_add_ui s r a b) (\<lambda>(rn, s). Inr (set_size s r rn))
      else rbind (mpz_abs_sub_ui s r a b) (\<lambda>(rn, s). Inr (set_size s r (- rn))))"

definition mpz_sub_ui :: "gmp \<Rightarrow> nat \<Rightarrow> nat \<Rightarrow> limb \<Rightarrow> gmp result" where
  "mpz_sub_ui s r a b =
     (if msize s a < 0 then rbind (mpz_abs_add_ui s r a b) (\<lambda>(rn, s). Inr (set_size s r (- rn)))
      else rbind (mpz_abs_sub_ui s r a b) (\<lambda>(rn, s). Inr (set_size s r rn)))"

definition mpz_ui_sub :: "gmp \<Rightarrow> nat \<Rightarrow> limb \<Rightarrow> nat \<Rightarrow> gmp result" where
  "mpz_ui_sub s r a b =
     (if msize s b < 0 then rbind (mpz_abs_add_ui s r b a) (\<lambda>(rn, s). Inr (set_size s r rn))
      else rbind (mpz_abs_sub_ui s r b a) (\<lambda>(rn, s). Inr (set_size s r (- rn))))"

definition mpz_abs_add :: "gmp \<Rightarrow> nat \<Rightarrow> nat \<Rightarrow> nat \<Rightarrow> (int \<times> gmp) result" where
  "mpz_abs_add s r a b =
     (let an = GMP_ABS (msize s a); bn = GMP_ABS (msize s b);
          (a, b, an, bn) = (if an < bn then (b, a, bn, an) else (a, b, an, bn)) in
      rbind (MPZ_REALLOC s r (an + 1)) (\<lambda>(rp, s).
      rbind (mpn_add (g_mem s) rp (mdata s a) (nat an) (mdata s b) (nat bn)) (\<lambda>(m, cy).
        Inr (an + int (unat cy), s\<lparr>g_mem := m(rp + nat an := cy)\<rparr>))))"

definition mpz_abs_sub :: "gmp \<Rightarrow> nat \<Rightarrow> nat \<Rightarrow> nat \<Rightarrow> (int \<times> gmp) result" where
  "mpz_abs_sub s r a b =
     (let an = GMP_ABS (msize s a); bn = GMP_ABS (msize s b);
          cmp = mpn_cmp4 (g_mem s) (mdata s a) (nat an) (mdata s b) (nat bn) in
      if cmp > 0
      then rbind (MPZ_REALLOC s r an) (\<lambda>(rp, s).
           rbind (nocarry (mpn_sub (g_mem s) rp (mdata s a) (nat an) (mdata s b) (nat bn))) (\<lambda>m.
             Inr (int (mpn_normalized_size m rp (nat an)), s\<lparr>g_mem := m\<rparr>)))
      else if cmp < 0
      then rbind (MPZ_REALLOC s r bn) (\<lambda>(rp, s).
           rbind (nocarry (mpn_sub (g_mem s) rp (mdata s b) (nat bn) (mdata s a) (nat an))) (\<lambda>m.
             Inr (- int (mpn_normalized_size m rp (nat bn)), s\<lparr>g_mem := m\<rparr>)))
      else Inr (0, s))"

definition mpz_add :: "gmp \<Rightarrow> nat \<Rightarrow> nat \<Rightarrow> nat \<Rightarrow> gmp result" where
  "mpz_add s r a b =
     rbind (if (msize s a XOR msize s b) \<ge> 0 then mpz_abs_add s r a b else mpz_abs_sub s r a b) (\<lambda>(rn, s).
       Inr (set_size s r (if msize s a \<ge> 0 then rn else - rn)))"

definition mpz_sub :: "gmp \<Rightarrow> nat \<Rightarrow> nat \<Rightarrow> nat \<Rightarrow> gmp result" where
  "mpz_sub s r a b =
     rbind (if (msize s a XOR msize s b) \<ge> 0 then mpz_abs_sub s r a b else mpz_abs_add s r a b) (\<lambda>(rn, s).
       Inr (set_size s r (if msize s a \<ge> 0 then rn else - rn)))"

section \<open>Multiplication\<close>

definition mpz_mul_ui :: "gmp \<Rightarrow> nat \<Rightarrow> nat \<Rightarrow> limb \<Rightarrow> gmp result" where
  "mpz_mul_ui s r u v =
     (let us = msize s u in
      if us = 0 \<or> v = 0 then Inr (set_size s r 0)
      else (let un = GMP_ABS us in
            rbind (MPZ_REALLOC s r (un + 1)) (\<lambda>(tp, s).
            rbind (mpn_mul_1 (g_mem s) tp (mdata s u) (nat un) v) (\<lambda>(m, cy).
              let s = s\<lparr>g_mem := m(tp + nat un := cy)\<rparr>;
                  un = un + of_bool (cy > 0)
              in Inr (set_size s r (if us < 0 then - un else un))))))"

definition mpz_mul_si :: "gmp \<Rightarrow> nat \<Rightarrow> nat \<Rightarrow> int \<Rightarrow> gmp result" where
  "mpz_mul_si s r u v =
     (if v < 0 then rbind (mpz_mul_ui s r u (GMP_NEG_CAST v)) (\<lambda>s. mpz_neg s r r)
      else mpz_mul_ui s r u (of_int v))"

definition mpz_mul :: "gmp \<Rightarrow> nat \<Rightarrow> nat \<Rightarrow> nat \<Rightarrow> gmp result" where
  "mpz_mul s r u v =
     (let us = msize s u; vs = msize s v in
      if us = 0 \<or> vs = 0 then Inr (set_size s r 0)
      else (let sign = (us XOR vs) < 0; un = GMP_ABS us; vn = GMP_ABS vs in
            rbind (with_local s (\<lambda>s t.
              rbind (mpz_init2 s t (of_int (un + vn) * of_nat GMP_LIMB_BITS)) (\<lambda>s.
              let tp = mdata s t in
              rbind (if un \<ge> vn then mpn_mul (g_mem s) tp (mdata s u) (nat un) (mdata s v) (nat vn)
                     else mpn_mul (g_mem s) tp (mdata s v) (nat vn) (mdata s u) (nat un)) (\<lambda>(m, _).
              let s = s\<lparr>g_mem := m\<rparr>;
                  rn = un + vn;
                  rn = rn - of_bool (g_mem s (tp + nat (rn - 1)) = 0);
                  s = set_size s t (if sign then - rn else rn);
                  s = mpz_swap s r t
              in rbind (mpz_clear s t) (\<lambda>s. Inr ((), s)))))) (\<lambda>(_, s). Inr s)))"

definition mpz_mul_2exp :: "gmp \<Rightarrow> nat \<Rightarrow> nat \<Rightarrow> 64 word \<Rightarrow> gmp result" where
  "mpz_mul_2exp s r u bits =
     (let un = GMP_ABS (msize s u) in
      if un = 0 then Inr (set_size s r 0)
      else (let limbs = unat bits div GMP_LIMB_BITS; shift = unat bits mod GMP_LIMB_BITS;
                rn = un + int limbs + of_bool (shift > 0) in
            rbind (MPZ_REALLOC s r rn) (\<lambda>(rp, s).
            rbind (if shift > 0
                   then rbind (mpn_lshift (g_mem s) (rp + limbs) (mdata s u) (nat un) shift) (\<lambda>(m, cy).
                          Inr (m(rp + nat (rn - 1) := cy), rn - of_bool (cy = 0)))
                   else Inr (mpn_copyd (g_mem s) (rp + limbs) (mdata s u) (nat un), rn)) (\<lambda>(m, rn).
              let s = s\<lparr>g_mem := mpn_zero m rp limbs\<rparr>
              in Inr (set_size s r (if msize s u < 0 then - rn else rn))))))"

text \<open>The four multiplications with accumulation; \<open>mul\<close> computes the product into a local structure.\<close>

definition accumulate :: "(gmp \<Rightarrow> nat \<Rightarrow> gmp result) \<Rightarrow> (gmp \<Rightarrow> nat \<Rightarrow> nat \<Rightarrow> nat \<Rightarrow> gmp result) \<Rightarrow> gmp \<Rightarrow> nat \<Rightarrow> gmp result" where
  "accumulate mul add s r =
     rbind (with_local s (\<lambda>s t.
       rbind (mul (mpz_init s t) t) (\<lambda>s.
       rbind (add s r r t) (\<lambda>s.
       rbind (mpz_clear s t) (\<lambda>s. Inr ((), s)))))) (\<lambda>(_, s). Inr s)"

definition mpz_addmul_ui :: "gmp \<Rightarrow> nat \<Rightarrow> nat \<Rightarrow> limb \<Rightarrow> gmp result" where
  "mpz_addmul_ui s r u v = accumulate (\<lambda>s t. mpz_mul_ui s t u v) mpz_add s r"

definition mpz_submul_ui :: "gmp \<Rightarrow> nat \<Rightarrow> nat \<Rightarrow> limb \<Rightarrow> gmp result" where
  "mpz_submul_ui s r u v = accumulate (\<lambda>s t. mpz_mul_ui s t u v) mpz_sub s r"

definition mpz_addmul :: "gmp \<Rightarrow> nat \<Rightarrow> nat \<Rightarrow> nat \<Rightarrow> gmp result" where
  "mpz_addmul s r u v = accumulate (\<lambda>s t. mpz_mul s t u v) mpz_add s r"

definition mpz_submul :: "gmp \<Rightarrow> nat \<Rightarrow> nat \<Rightarrow> nat \<Rightarrow> gmp result" where
  "mpz_submul s r u v = accumulate (\<lambda>s t. mpz_mul s t u v) mpz_sub s r"

end
