(* ===== verification/Mpz_div.thy ===== *)
theory Mpz_div
  imports Mpz_arith
begin

text \<open>
  Division of integers in \<open>mini-gmp.c\<close>: by an integer, by a power of two and by a limb, each
  with the three rounding modes, and the greatest common divisor of two limbs. A null
  pointer for a result that is not wanted is \<open>None\<close>.
\<close>

section \<open>Division\<close>

datatype mpz_div_round_mode = GMP_DIV_FLOOR | GMP_DIV_CEIL | GMP_DIV_TRUNC

definition on_some :: "nat option \<Rightarrow> (nat \<Rightarrow> gmp result) \<Rightarrow> gmp \<Rightarrow> gmp result" where
  "on_some x f s = (case x of None \<Rightarrow> Inr s | Some p \<Rightarrow> f p)"

text \<open>The quotient is zero or one in absolute value when the divisor has more limbs.\<close>

definition mpz_div_qr_short :: "gmp \<Rightarrow> nat option \<Rightarrow> nat option \<Rightarrow> nat \<Rightarrow> nat \<Rightarrow> mpz_div_round_mode \<Rightarrow> int \<Rightarrow> gmp result" where
  "mpz_div_qr_short s q r n d mode qs =
     (if mode = GMP_DIV_CEIL \<and> qs \<ge> 0
      then rbind (on_some r (\<lambda>r. mpz_sub s r n d) s) (\<lambda>s. on_some q (\<lambda>q. mpz_set_ui s q 1) s)
      else if mode = GMP_DIV_FLOOR \<and> qs < 0
      then rbind (on_some r (\<lambda>r. mpz_add s r n d) s) (\<lambda>s. on_some q (\<lambda>q. mpz_set_si s q (-1)) s)
      else rbind (on_some r (\<lambda>r. mpz_set s r n) s) (\<lambda>s. on_some q (\<lambda>q. Inr (set_size s q 0)) s))"

text \<open>The adjustment of the truncated quotient and remainder in the structures \<open>tq\<close> and \<open>tr\<close>.\<close>

definition mpz_div_qr_adjust ::
    "gmp \<Rightarrow> bool \<Rightarrow> bool \<Rightarrow> nat \<Rightarrow> nat \<Rightarrow> nat \<Rightarrow> mpz_div_round_mode \<Rightarrow> int \<Rightarrow> nat \<Rightarrow> gmp result" where
  "mpz_div_qr_adjust s hasq hasr tq tr d mode qs rn =
     (if mode = GMP_DIV_FLOOR \<and> qs < 0 \<and> rn \<noteq> 0
      then rbind (if hasq then mpz_sub_ui s tq tq 1 else Inr s) (\<lambda>s. if hasr then mpz_add s tr tr d else Inr s)
      else if mode = GMP_DIV_CEIL \<and> qs \<ge> 0 \<and> rn \<noteq> 0
      then rbind (if hasq then mpz_add_ui s tq tq 1 else Inr s) (\<lambda>s. if hasr then mpz_sub s tr tr d else Inr s)
      else Inr s)"

text \<open>
  The local structures \<open>tr\<close>, a copy of the dividend that becomes the remainder, and \<open>tq\<close>,
  which is initialised only when the quotient is wanted; the division; and the moves of
  the results. \<open>mpz_div_qr_core\<close> returns the size \<open>rn\<close> of the remainder.
\<close>

definition mpz_div_qr_core :: "gmp \<Rightarrow> bool \<Rightarrow> nat \<Rightarrow> nat \<Rightarrow> nat \<Rightarrow> nat \<Rightarrow> int \<Rightarrow> (nat \<times> gmp) result" where
  "mpz_div_qr_core s hasq tq tr n d qs =
     (let ns = msize s n; nn = GMP_ABS ns; dn = GMP_ABS (msize s d); qn = nn - dn + 1 in
      rbind (mpz_init_set s tr n) (\<lambda>s.
      let np = mdata s tr in
      rbind (if hasq then rbind (mpz_init2 s tq (of_int qn * of_nat GMP_LIMB_BITS)) (\<lambda>s. Inr (Some (mdata s tq), s))
             else Inr (None, s)) (\<lambda>(qp, s).
      rbind (mpn_div_qr (g_mem s) (g_next s) qp np (nat nn) (mdata s d) (nat dn)) (\<lambda>m.
      let s = s\<lparr>g_mem := m\<rparr>;
          s = (case qp of None \<Rightarrow> s
               | Some p \<Rightarrow> (let qn = qn - of_bool (m (p + nat (qn - 1)) = 0)
                           in set_size s tq (if qs < 0 then - qn else qn)));
          rn = mpn_normalized_size m np (nat dn)
      in Inr (rn, set_size s tr (if ns < 0 then - int rn else int rn))))))"

definition mpz_div_qr_finish :: "gmp \<Rightarrow> nat option \<Rightarrow> nat option \<Rightarrow> nat \<Rightarrow> nat \<Rightarrow> gmp result" where
  "mpz_div_qr_finish s q r tq tr =
     rbind (on_some q (\<lambda>q. mpz_clear (mpz_swap s tq q) tq) s) (\<lambda>s.
     let s = (case r of None \<Rightarrow> s | Some r \<Rightarrow> mpz_swap s tr r)
     in mpz_clear s tr)"

definition mpz_div_qr_long :: "gmp \<Rightarrow> nat option \<Rightarrow> nat option \<Rightarrow> nat \<Rightarrow> nat \<Rightarrow> mpz_div_round_mode \<Rightarrow> int \<Rightarrow> (bool \<times> gmp) result" where
  "mpz_div_qr_long s q r n d mode qs =
     with_local s (\<lambda>s tq. with_local s (\<lambda>s tr.
       rbind (mpz_div_qr_core s (q \<noteq> None) tq tr n d qs) (\<lambda>(rn, s).
       rbind (mpz_div_qr_adjust s (q \<noteq> None) (r \<noteq> None) tq tr d mode qs rn) (\<lambda>s.
       rbind (mpz_div_qr_finish s q r tq tr) (\<lambda>s. Inr (rn \<noteq> 0, s))))))"

definition mpz_div_qr :: "gmp \<Rightarrow> nat option \<Rightarrow> nat option \<Rightarrow> nat \<Rightarrow> nat \<Rightarrow> mpz_div_round_mode \<Rightarrow> (bool \<times> gmp) result" where
  "mpz_div_qr s q r n d mode =
     (let ns = msize s n; ds = msize s d in
      if ds = 0 then gmp_die ''mpz_div_qr: Divide by zero.''
      else if ns = 0
      then rbind (on_some q (\<lambda>q. Inr (set_size s q 0)) s) (\<lambda>s.
           rbind (on_some r (\<lambda>r. Inr (set_size s r 0)) s) (\<lambda>s. Inr (False, s)))
      else (let qs = ds XOR ns in
            if GMP_ABS ns < GMP_ABS ds
            then rbind (mpz_div_qr_short s q r n d mode qs) (\<lambda>s. Inr (True, s))
            else mpz_div_qr_long s q r n d mode qs))"

definition mpz_cdiv_qr :: "gmp \<Rightarrow> nat \<Rightarrow> nat \<Rightarrow> nat \<Rightarrow> nat \<Rightarrow> gmp result" where
  "mpz_cdiv_qr s q r n d = rbind (mpz_div_qr s (Some q) (Some r) n d GMP_DIV_CEIL) (\<lambda>(_, s). Inr s)"

definition mpz_fdiv_qr :: "gmp \<Rightarrow> nat \<Rightarrow> nat \<Rightarrow> nat \<Rightarrow> nat \<Rightarrow> gmp result" where
  "mpz_fdiv_qr s q r n d = rbind (mpz_div_qr s (Some q) (Some r) n d GMP_DIV_FLOOR) (\<lambda>(_, s). Inr s)"

definition mpz_tdiv_qr :: "gmp \<Rightarrow> nat \<Rightarrow> nat \<Rightarrow> nat \<Rightarrow> nat \<Rightarrow> gmp result" where
  "mpz_tdiv_qr s q r n d = rbind (mpz_div_qr s (Some q) (Some r) n d GMP_DIV_TRUNC) (\<lambda>(_, s). Inr s)"

definition mpz_cdiv_q :: "gmp \<Rightarrow> nat \<Rightarrow> nat \<Rightarrow> nat \<Rightarrow> gmp result" where
  "mpz_cdiv_q s q n d = rbind (mpz_div_qr s (Some q) None n d GMP_DIV_CEIL) (\<lambda>(_, s). Inr s)"

definition mpz_fdiv_q :: "gmp \<Rightarrow> nat \<Rightarrow> nat \<Rightarrow> nat \<Rightarrow> gmp result" where
  "mpz_fdiv_q s q n d = rbind (mpz_div_qr s (Some q) None n d GMP_DIV_FLOOR) (\<lambda>(_, s). Inr s)"

definition mpz_tdiv_q :: "gmp \<Rightarrow> nat \<Rightarrow> nat \<Rightarrow> nat \<Rightarrow> gmp result" where
  "mpz_tdiv_q s q n d = rbind (mpz_div_qr s (Some q) None n d GMP_DIV_TRUNC) (\<lambda>(_, s). Inr s)"

definition mpz_cdiv_r :: "gmp \<Rightarrow> nat \<Rightarrow> nat \<Rightarrow> nat \<Rightarrow> gmp result" where
  "mpz_cdiv_r s r n d = rbind (mpz_div_qr s None (Some r) n d GMP_DIV_CEIL) (\<lambda>(_, s). Inr s)"

definition mpz_fdiv_r :: "gmp \<Rightarrow> nat \<Rightarrow> nat \<Rightarrow> nat \<Rightarrow> gmp result" where
  "mpz_fdiv_r s r n d = rbind (mpz_div_qr s None (Some r) n d GMP_DIV_FLOOR) (\<lambda>(_, s). Inr s)"

definition mpz_tdiv_r :: "gmp \<Rightarrow> nat \<Rightarrow> nat \<Rightarrow> nat \<Rightarrow> gmp result" where
  "mpz_tdiv_r s r n d = rbind (mpz_div_qr s None (Some r) n d GMP_DIV_TRUNC) (\<lambda>(_, s). Inr s)"

definition mpz_mod :: "gmp \<Rightarrow> nat \<Rightarrow> nat \<Rightarrow> nat \<Rightarrow> gmp result" where
  "mpz_mod s r n d =
     rbind (mpz_div_qr s None (Some r) n d (if msize s d \<ge> 0 then GMP_DIV_FLOOR else GMP_DIV_CEIL)) (\<lambda>(_, s). Inr s)"

section \<open>Division by a power of two\<close>

definition mpz_div_q_2exp :: "gmp \<Rightarrow> nat \<Rightarrow> nat \<Rightarrow> 64 word \<Rightarrow> mpz_div_round_mode \<Rightarrow> gmp result" where
  "mpz_div_q_2exp s q u bit_index mode =
     (let un = msize s u in
      if un = 0 then Inr (set_size s q 0)
      else
        let limb_cnt = unat bit_index div GMP_LIMB_BITS;
            qn = GMP_ABS un - int limb_cnt;
            bit_index = unat bit_index mod GMP_LIMB_BITS;
            adjust = (mode = (if un > 0 then GMP_DIV_CEIL else GMP_DIV_FLOOR) \<and>
              (qn \<le> 0 \<or> \<not> mpn_zero_p (g_mem s) (mdata s u) limb_cnt \<or>
               g_mem s (mdata s u + limb_cnt) AND (push_bit bit_index 1 - 1) \<noteq> 0))
        in rbind (if qn \<le> 0 then Inr (0, s)
                  else rbind (MPZ_REALLOC s q qn) (\<lambda>(qp, s).
                    if bit_index \<noteq> 0
                    then rbind (mpn_rshift (g_mem s) qp (mdata s u + limb_cnt) (nat qn) bit_index) (\<lambda>(m, _).
                           Inr (qn - of_bool (m (qp + nat (qn - 1)) = 0), s\<lparr>g_mem := m\<rparr>))
                    else Inr (qn, s\<lparr>g_mem := mpn_copyi (g_mem s) qp (mdata s u + limb_cnt) (nat qn)\<rparr>))) (\<lambda>(qn, s).
           let s = set_size s q qn
           in rbind (if adjust then mpz_add_ui s q q 1 else Inr s) (\<lambda>s.
              if un < 0 then mpz_neg s q q else Inr s)))"

text \<open>The loop \<open>for (i = un; i < rn - 1; i++) rp[i] = GMP_LIMB_MAX\<close>; the last argument counts its turns.\<close>

fun fill_ones :: "mem \<Rightarrow> nat \<Rightarrow> nat \<Rightarrow> mem" where
  "fill_ones m p 0 = m"
| "fill_ones m p (Suc k) = fill_ones (m(p := GMP_LIMB_MAX)) (Suc p) k"

text \<open>The two parts of the remainder: the operand is shorter than the modulus, or it is not.
  They give the memory, the number of limbs and whether the sign flips.\<close>

definition div_r_2exp_short :: "mem \<Rightarrow> nat \<Rightarrow> nat \<Rightarrow> bool \<Rightarrow> nat \<Rightarrow> nat \<Rightarrow> limb \<Rightarrow> bool \<Rightarrow> (mem \<times> nat \<times> bool) result" where
  "div_r_2exp_short m rp up same un rn msk flip =
     (if flip
      then rbind (mpn_neg m rp up un) (\<lambda>(m, cy).
           rbind (rassert (cy \<noteq> 0)) (\<lambda>_.
             Inr ((fill_ones m (rp + un) (rn - 1 - un))(rp + (rn - 1) := msk), rn, True)))
      else Inr (if same then m else mpn_copyi m rp up un, un, False))"

definition div_r_2exp_long :: "mem \<Rightarrow> nat \<Rightarrow> nat \<Rightarrow> bool \<Rightarrow> nat \<Rightarrow> limb \<Rightarrow> bool \<Rightarrow> (mem \<times> nat \<times> bool) result" where
  "div_r_2exp_long m rp up same rn msk flip =
     (let m = (if same then m else mpn_copyi m rp up (rn - 1));
          m = m(rp + (rn - 1) := m (up + (rn - 1)) AND msk)
      in if flip
         then rbind (mpn_neg m rp rp rn) (\<lambda>(m, _).
                Inr (m(rp + (rn - 1) := m (rp + (rn - 1)) AND msk), rn, True))
         else Inr (m, rn, False))"

definition mpz_div_r_2exp :: "gmp \<Rightarrow> nat \<Rightarrow> nat \<Rightarrow> 64 word \<Rightarrow> mpz_div_round_mode \<Rightarrow> gmp result" where
  "mpz_div_r_2exp s r u bit_index mode =
     (let us = msize s u in
      if us = 0 \<or> bit_index = 0 then Inr (set_size s r 0)
      else
        let rn = unat (bit_index + of_nat GMP_LIMB_BITS - 1) div GMP_LIMB_BITS in
        rbind (rassert (rn > 0)) (\<lambda>_.
        rbind (MPZ_REALLOC s r (int rn)) (\<lambda>(rp, s).
        let un = nat (GMP_ABS us);
            msk = drop_bit (rn * GMP_LIMB_BITS - unat bit_index) GMP_LIMB_MAX;
            flip = (mode = (if us > 0 then GMP_DIV_CEIL else GMP_DIV_FLOOR))
        in rbind (if rn > un then div_r_2exp_short (g_mem s) rp (mdata s u) (r = u) un rn msk flip
                  else div_r_2exp_long (g_mem s) rp (mdata s u) (r = u) rn msk flip) (\<lambda>(m, rn, flipped).
           let us = (if flipped then - us else us);
               rn = int (mpn_normalized_size m rp rn)
           in Inr (set_size (s\<lparr>g_mem := m\<rparr>) r (if us < 0 then - rn else rn))))))"

definition mpz_cdiv_q_2exp :: "gmp \<Rightarrow> nat \<Rightarrow> nat \<Rightarrow> 64 word \<Rightarrow> gmp result" where
  "mpz_cdiv_q_2exp s r u cnt = mpz_div_q_2exp s r u cnt GMP_DIV_CEIL"

definition mpz_fdiv_q_2exp :: "gmp \<Rightarrow> nat \<Rightarrow> nat \<Rightarrow> 64 word \<Rightarrow> gmp result" where
  "mpz_fdiv_q_2exp s r u cnt = mpz_div_q_2exp s r u cnt GMP_DIV_FLOOR"

definition mpz_tdiv_q_2exp :: "gmp \<Rightarrow> nat \<Rightarrow> nat \<Rightarrow> 64 word \<Rightarrow> gmp result" where
  "mpz_tdiv_q_2exp s r u cnt = mpz_div_q_2exp s r u cnt GMP_DIV_TRUNC"

definition mpz_cdiv_r_2exp :: "gmp \<Rightarrow> nat \<Rightarrow> nat \<Rightarrow> 64 word \<Rightarrow> gmp result" where
  "mpz_cdiv_r_2exp s r u cnt = mpz_div_r_2exp s r u cnt GMP_DIV_CEIL"

definition mpz_fdiv_r_2exp :: "gmp \<Rightarrow> nat \<Rightarrow> nat \<Rightarrow> 64 word \<Rightarrow> gmp result" where
  "mpz_fdiv_r_2exp s r u cnt = mpz_div_r_2exp s r u cnt GMP_DIV_FLOOR"

definition mpz_tdiv_r_2exp :: "gmp \<Rightarrow> nat \<Rightarrow> nat \<Rightarrow> 64 word \<Rightarrow> gmp result" where
  "mpz_tdiv_r_2exp s r u cnt = mpz_div_r_2exp s r u cnt GMP_DIV_TRUNC"

section \<open>Divisibility\<close>

definition mpz_divexact :: "gmp \<Rightarrow> nat \<Rightarrow> nat \<Rightarrow> nat \<Rightarrow> gmp result" where
  "mpz_divexact s q n d =
     rbind (mpz_div_qr s (Some q) None n d GMP_DIV_TRUNC) (\<lambda>(c, s). rbind (rassert (\<not> c)) (\<lambda>_. Inr s))"

definition mpz_divisible_p :: "gmp \<Rightarrow> nat \<Rightarrow> nat \<Rightarrow> (bool \<times> gmp) result" where
  "mpz_divisible_p s n d = rbind (mpz_div_qr s None None n d GMP_DIV_TRUNC) (\<lambda>(c, s). Inr (\<not> c, s))"

definition mpz_congruent_p :: "gmp \<Rightarrow> nat \<Rightarrow> nat \<Rightarrow> nat \<Rightarrow> (bool \<times> gmp) result" where
  "mpz_congruent_p s a b m =
     (if mpz_sgn s m = 0 then Inr (mpz_cmp s a b = 0, s)
      else with_local s (\<lambda>s t.
        rbind (mpz_sub (mpz_init s t) t a b) (\<lambda>s.
        rbind (mpz_divisible_p s t m) (\<lambda>(res, s).
        rbind (mpz_clear s t) (\<lambda>s. Inr (res, s))))))"

section \<open>Division by a limb\<close>

text \<open>The last steps: the quotient is rounded up, the remainder and the size of the quotient are stored.\<close>

definition round_quotient :: "gmp \<Rightarrow> bool \<Rightarrow> nat \<Rightarrow> nat \<Rightarrow> gmp result" where
  "round_quotient s up qp qn =
     (if up then rbind (nocarry (mpn_add_1 (g_mem s) qp qp qn 1)) (\<lambda>m. Inr (s\<lparr>g_mem := m\<rparr>)) else Inr s)"

definition store_remainder :: "gmp \<Rightarrow> nat option \<Rightarrow> limb \<Rightarrow> int \<Rightarrow> gmp result" where
  "store_remainder s r rl rs =
     on_some r (\<lambda>r. rbind (MPZ_REALLOC s r 1) (\<lambda>(p, s). Inr (set_size (set_limb s p rl) r rs))) s"

definition store_quotient :: "gmp \<Rightarrow> nat \<Rightarrow> nat \<Rightarrow> nat \<Rightarrow> bool \<Rightarrow> gmp result" where
  "store_quotient s q qp qn neg =
     (let qn = qn - of_bool (g_mem s (qp + (qn - 1)) = 0)
      in rbind (rassert (qn = 0 \<or> g_mem s (qp + (qn - 1)) > 0)) (\<lambda>_.
           Inr (set_size s q (if neg then - int qn else int qn))))"

definition mpz_div_qr_ui ::
    "gmp \<Rightarrow> nat option \<Rightarrow> nat option \<Rightarrow> nat \<Rightarrow> limb \<Rightarrow> mpz_div_round_mode \<Rightarrow> (limb \<times> gmp) result" where
  "mpz_div_qr_ui s q r n d mode =
     (let ns = msize s n in
      if ns = 0
      then rbind (on_some q (\<lambda>q. Inr (set_size s q 0)) s) (\<lambda>s.
           rbind (on_some r (\<lambda>r. Inr (set_size s r 0)) s) (\<lambda>s. Inr (0, s)))
      else
        let qn = GMP_ABS ns in
        rbind (case q of None \<Rightarrow> Inr (None, s)
               | Some q \<Rightarrow> rbind (MPZ_REALLOC s q qn) (\<lambda>(p, s). Inr (Some (q, p), s))) (\<lambda>(qp, s).
        rbind (mpn_div_qr_1 (g_mem s) (g_next s) (map_option snd qp) (mdata s n) (nat qn) d) (\<lambda>(m, rl).
        rbind (rassert (rl < d)) (\<lambda>_.
        let s = s\<lparr>g_mem := m\<rparr>;
            rs = (if ns < 0 then - of_bool (rl > 0) else of_bool (rl > 0) :: int);
            up = (rl > 0 \<and> (mode = GMP_DIV_FLOOR \<and> ns < 0 \<or> mode = GMP_DIV_CEIL \<and> ns \<ge> 0))
        in rbind (case qp of Some (q, p) \<Rightarrow> round_quotient s up p (nat qn) | None \<Rightarrow> Inr s) (\<lambda>s.
           let rl = (if up then d - rl else rl);
               rs = (if up then - rs else rs)
           in rbind (store_remainder s r rl rs) (\<lambda>s.
              rbind (case qp of Some (q, p) \<Rightarrow> store_quotient s q p (nat qn) (ns < 0) | None \<Rightarrow> Inr s) (\<lambda>s.
                Inr (rl, s))))))))"

definition mpz_cdiv_qr_ui :: "gmp \<Rightarrow> nat \<Rightarrow> nat \<Rightarrow> nat \<Rightarrow> limb \<Rightarrow> (limb \<times> gmp) result" where
  "mpz_cdiv_qr_ui s q r n d = mpz_div_qr_ui s (Some q) (Some r) n d GMP_DIV_CEIL"

definition mpz_fdiv_qr_ui :: "gmp \<Rightarrow> nat \<Rightarrow> nat \<Rightarrow> nat \<Rightarrow> limb \<Rightarrow> (limb \<times> gmp) result" where
  "mpz_fdiv_qr_ui s q r n d = mpz_div_qr_ui s (Some q) (Some r) n d GMP_DIV_FLOOR"

definition mpz_tdiv_qr_ui :: "gmp \<Rightarrow> nat \<Rightarrow> nat \<Rightarrow> nat \<Rightarrow> limb \<Rightarrow> (limb \<times> gmp) result" where
  "mpz_tdiv_qr_ui s q r n d = mpz_div_qr_ui s (Some q) (Some r) n d GMP_DIV_TRUNC"

definition mpz_cdiv_q_ui :: "gmp \<Rightarrow> nat \<Rightarrow> nat \<Rightarrow> limb \<Rightarrow> (limb \<times> gmp) result" where
  "mpz_cdiv_q_ui s q n d = mpz_div_qr_ui s (Some q) None n d GMP_DIV_CEIL"

definition mpz_fdiv_q_ui :: "gmp \<Rightarrow> nat \<Rightarrow> nat \<Rightarrow> limb \<Rightarrow> (limb \<times> gmp) result" where
  "mpz_fdiv_q_ui s q n d = mpz_div_qr_ui s (Some q) None n d GMP_DIV_FLOOR"

definition mpz_tdiv_q_ui :: "gmp \<Rightarrow> nat \<Rightarrow> nat \<Rightarrow> limb \<Rightarrow> (limb \<times> gmp) result" where
  "mpz_tdiv_q_ui s q n d = mpz_div_qr_ui s (Some q) None n d GMP_DIV_TRUNC"

definition mpz_cdiv_r_ui :: "gmp \<Rightarrow> nat \<Rightarrow> nat \<Rightarrow> limb \<Rightarrow> (limb \<times> gmp) result" where
  "mpz_cdiv_r_ui s r n d = mpz_div_qr_ui s None (Some r) n d GMP_DIV_CEIL"

definition mpz_fdiv_r_ui :: "gmp \<Rightarrow> nat \<Rightarrow> nat \<Rightarrow> limb \<Rightarrow> (limb \<times> gmp) result" where
  "mpz_fdiv_r_ui s r n d = mpz_div_qr_ui s None (Some r) n d GMP_DIV_FLOOR"

definition mpz_tdiv_r_ui :: "gmp \<Rightarrow> nat \<Rightarrow> nat \<Rightarrow> limb \<Rightarrow> (limb \<times> gmp) result" where
  "mpz_tdiv_r_ui s r n d = mpz_div_qr_ui s None (Some r) n d GMP_DIV_TRUNC"

definition mpz_cdiv_ui :: "gmp \<Rightarrow> nat \<Rightarrow> limb \<Rightarrow> (limb \<times> gmp) result" where
  "mpz_cdiv_ui s n d = mpz_div_qr_ui s None None n d GMP_DIV_CEIL"

definition mpz_fdiv_ui :: "gmp \<Rightarrow> nat \<Rightarrow> limb \<Rightarrow> (limb \<times> gmp) result" where
  "mpz_fdiv_ui s n d = mpz_div_qr_ui s None None n d GMP_DIV_FLOOR"

definition mpz_tdiv_ui :: "gmp \<Rightarrow> nat \<Rightarrow> limb \<Rightarrow> (limb \<times> gmp) result" where
  "mpz_tdiv_ui s n d = mpz_div_qr_ui s None None n d GMP_DIV_TRUNC"

definition mpz_mod_ui :: "gmp \<Rightarrow> nat \<Rightarrow> nat \<Rightarrow> limb \<Rightarrow> (limb \<times> gmp) result" where
  "mpz_mod_ui s r n d = mpz_div_qr_ui s None (Some r) n d GMP_DIV_FLOOR"

definition mpz_divexact_ui :: "gmp \<Rightarrow> nat \<Rightarrow> nat \<Rightarrow> limb \<Rightarrow> gmp result" where
  "mpz_divexact_ui s q n d =
     rbind (mpz_div_qr_ui s (Some q) None n d GMP_DIV_TRUNC) (\<lambda>(c, s). rbind (rassert (c = 0)) (\<lambda>_. Inr s))"

definition mpz_divisible_ui_p :: "gmp \<Rightarrow> nat \<Rightarrow> limb \<Rightarrow> (bool \<times> gmp) result" where
  "mpz_divisible_ui_p s n d = rbind (mpz_div_qr_ui s None None n d GMP_DIV_TRUNC) (\<lambda>(c, s). Inr (c = 0, s))"

end
