(* ===== verification/Mpz_heap.thy ===== *)
theory Mpz_heap
  imports Mpz_div Mpn_div_qr
begin

text \<open>
  The invariant of the integer layer and the steps its functions are made of. In a state
  that satisfies \<open>heap_inv s V\<close> the structures in \<open>V\<close> are the live integers: each has a
  size within its allocation and no leading zero limb, each allocated block belongs to
  exactly one of them and the blocks do not overlap. \<open>mpz_val s x\<close> is the integer that the
  structure \<open>x\<close> represents, and \<open>stores s V r v s'\<close> says that the invariant still holds in
  \<open>s'\<close>, where \<open>r\<close> represents \<open>v\<close> and every other integer is what it was. The lemmas give
  the effect of reallocating, of writing a result, of initialising and clearing and of
  swapping; the functions are compositions of these steps.
\<close>

section \<open>The invariant\<close>

definition room :: "gmp \<Rightarrow> nat \<Rightarrow> int" where
  "room s x = mp_alloc (g_mpz s x)"

definition normal_limbs :: "mem \<Rightarrow> nat \<Rightarrow> nat \<Rightarrow> bool" where
  "normal_limbs m p n \<longleftrightarrow> (n \<noteq> 0 \<longrightarrow> m (p + n - 1) \<noteq> 0)"

definition owners :: "gmp \<Rightarrow> nat set \<Rightarrow> nat set" where
  "owners s V = {x \<in> V. room s x \<noteq> 0}"

definition mpz_ok :: "gmp \<Rightarrow> nat \<Rightarrow> bool" where
  "mpz_ok s x \<longleftrightarrow> \<bar>msize s x\<bar> \<le> room s x \<and> room s x \<le> INT_MAX \<and>
     normal_limbs (g_mem s) (mdata s x) (abs_size s x) \<and>
     (room s x \<noteq> 0 \<longrightarrow> g_block s (mdata s x) = Some (nat (room s x)))"

definition blocks_ok :: "gmp \<Rightarrow> bool" where
  "blocks_ok s \<longleftrightarrow> 0 < g_next s \<and>
     (\<forall>p n. g_block s p = Some n \<longrightarrow> 0 < p \<and> 0 < n \<and> p + n \<le> g_next s) \<and>
     (\<forall>p q n k. g_block s p = Some n \<longrightarrow> g_block s q = Some k \<longrightarrow> p \<noteq> q \<longrightarrow> span p n \<inter> span q k = {})"

definition heap_inv :: "gmp \<Rightarrow> nat set \<Rightarrow> bool" where
  "heap_inv s V \<longleftrightarrow> blocks_ok s \<and> (\<forall>x \<in> V. x < g_top s \<and> mpz_ok s x) \<and>
     inj_on (mdata s) (owners s V) \<and> dom (g_block s) = mdata s ` owners s V"

definition mpz_val :: "gmp \<Rightarrow> nat \<Rightarrow> int" where
  "mpz_val s x = sgn (msize s x) * int (mpn_val (g_mem s) (mdata s x) (abs_size s x))"

definition stores :: "gmp \<Rightarrow> nat set \<Rightarrow> nat \<Rightarrow> int \<Rightarrow> gmp \<Rightarrow> bool" where
  "stores s V r v s' \<longleftrightarrow> heap_inv s' V \<and> g_top s' = g_top s \<and>
     (\<forall>x \<in> V. mpz_val s' x = (if x = r then v else mpz_val s x))"

text \<open>The limbs of \<open>x\<close> that may be written.\<close>

definition block :: "gmp \<Rightarrow> nat \<Rightarrow> nat set" where
  "block s x = span (mdata s x) (nat (room s x))"

lemma GMP_ABS_abs [simp]: "GMP_ABS x = \<bar>x\<bar>"
  by (simp add: GMP_ABS_def)

lemma INT_MAX_less: "x \<le> INT_MAX \<longleftrightarrow> x < 2 ^ 31"
  by (auto simp: INT_MAX_def)

lemma c_int_small: "\<bar>x\<bar> \<le> INT_MAX \<Longrightarrow> c_int x = x"
  by (rule c_int_id) (auto simp: INT_MAX_def)

lemma heap_invD:
  assumes "heap_inv s V" "x \<in> V"
  shows "x < g_top s" "mpz_ok s x" "\<bar>msize s x\<bar> \<le> room s x" "room s x \<le> INT_MAX" "0 \<le> room s x"
    "normal_limbs (g_mem s) (mdata s x) (abs_size s x)"
    "room s x \<noteq> 0 \<Longrightarrow> g_block s (mdata s x) = Some (nat (room s x))"
  using assms by (auto simp: heap_inv_def mpz_ok_def)

lemma block_end: "heap_inv s V \<Longrightarrow> x \<in> V \<Longrightarrow> room s x \<noteq> 0 \<Longrightarrow> mdata s x + nat (room s x) \<le> g_next s"
  using heap_invD(7) [of s V x] unfolding heap_inv_def blocks_ok_def by blast

lemma block_bound: "heap_inv s V \<Longrightarrow> x \<in> V \<Longrightarrow> a \<in> block s x \<Longrightarrow> 0 < a \<and> a < g_next s"
  using heap_invD(7) [of s V x] unfolding heap_inv_def blocks_ok_def block_def
  by (cases "room s x = 0") force+

lemma block_disjoint:
  assumes "heap_inv s V" "x \<in> V" "y \<in> V" "x \<noteq> y"
  shows "block s x \<inter> block s y = {}"
proof (cases "room s x = 0 \<or> room s y = 0")
  case False
  then have "mdata s x \<noteq> mdata s y"
    using assms by (auto simp: heap_inv_def owners_def dest: inj_onD)
  then show ?thesis
    using assms False heap_invD(7) [OF assms(1,2)] heap_invD(7) [OF assms(1,3)]
    unfolding heap_inv_def blocks_ok_def block_def by blast
qed (auto simp: block_def)

lemma limbs_in_block: "heap_inv s V \<Longrightarrow> x \<in> V \<Longrightarrow> span (mdata s x) (abs_size s x) \<subseteq> block s x"
  using heap_invD(3) [of s V x] by (auto simp: block_def abs_size_def)

section \<open>Values\<close>

lemma normal_limbs_0 [simp]: "normal_limbs m p 0"
  by (simp add: normal_limbs_def)

lemma normal_limbs_cong:
  "normal_limbs m p n \<Longrightarrow> (\<And>a. a \<in> span p n \<Longrightarrow> m' a = m a) \<Longrightarrow> normal_limbs m' p n"
  by (cases n) (auto simp: normal_limbs_def)

lemma abs_size_room: "heap_inv s V \<Longrightarrow> x \<in> V \<Longrightarrow> int (abs_size s x) \<le> room s x"
  using heap_invD(3) [of s V x] by (simp add: abs_size_def)

lemma mpz_val_abs: "\<bar>mpz_val s x\<bar> = int (mpn_val (g_mem s) (mdata s x) (abs_size s x))"
  by (cases "msize s x = 0") (simp_all add: mpz_val_def abs_mult abs_size_def)

lemma abs_size_0 [simp]: "abs_size s x = 0 \<longleftrightarrow> msize s x = 0"
  by (simp add: abs_size_def)

lemma mpn_val_pos: "normal_limbs m p n \<Longrightarrow> n \<noteq> 0 \<Longrightarrow> 0 < mpn_val m p n"
  using mpn_val_normal_ge [of n m p] by (simp add: normal_limbs_def) (metis B_pos less_le_trans zero_less_power)

lemma mpn_val_less: "n \<le> k \<Longrightarrow> mpn_val m p n < B ^ k"
proof -
  assume "n \<le> k"
  then have "B ^ n \<le> B ^ k" by (intro power_increasing) (simp_all add: B_def)
  with mpn_val_bound [of m p n] show "mpn_val m p n < B ^ k" by simp
qed

text \<open>The number of limbs of an integer without leading zeros.\<close>

lemma normal_size_le: "normal_limbs m p n \<Longrightarrow> n \<le> k \<longleftrightarrow> mpn_val m p n < B ^ k"
proof
  assume "n \<le> k"
  then show "mpn_val m p n < B ^ k" by (rule mpn_val_less)
next
  assume n: "normal_limbs m p n" and "mpn_val m p n < B ^ k"
  show "n \<le> k"
  proof (rule ccontr)
    assume "\<not> n \<le> k"
    then have "B ^ k \<le> B ^ (n - 1)" by (intro power_increasing) (simp_all add: B_def)
    with \<open>mpn_val m p n < B ^ k\<close> \<open>\<not> n \<le> k\<close> n mpn_val_normal_ge [of n m p] show False
      by (auto simp: normal_limbs_def)
  qed
qed

lemma abs_size_le_iff:
  "heap_inv s V \<Longrightarrow> x \<in> V \<Longrightarrow> abs_size s x \<le> k \<longleftrightarrow> \<bar>mpz_val s x\<bar> < int B ^ k"
  using normal_size_le [OF heap_invD(6), of s V x k]
  by (simp only: mpz_val_abs of_nat_power [symmetric] of_nat_less_iff)

lemma sgn_mpz_val: "heap_inv s V \<Longrightarrow> x \<in> V \<Longrightarrow> sgn (mpz_val s x) = sgn (msize s x)"
  using mpn_val_pos [OF heap_invD(6), of s V x] by (cases "msize s x = 0") (auto simp: mpz_val_def sgn_mult sgn_if)

section \<open>Writing a result\<close>

lemma fields_set_size [simp]:
  "g_mem (set_size s r k) = g_mem s" "g_next (set_size s r k) = g_next s" "g_block (set_size s r k) = g_block s"
  "g_top (set_size s r k) = g_top s" "mdata (set_size s r k) x = mdata s x" "room (set_size s r k) x = room s x"
  "msize (set_size s r k) x = (if x = r then c_int k else msize s x)"
  by (simp_all add: set_size_def upd_mpz_def mdata_def room_def msize_def)

lemma fields_mem [simp]:
  "mdata (s\<lparr>g_mem := m\<rparr>) x = mdata s x" "room (s\<lparr>g_mem := m\<rparr>) x = room s x" "msize (s\<lparr>g_mem := m\<rparr>) x = msize s x"
  "abs_size (s\<lparr>g_mem := m\<rparr>) x = abs_size s x"
  by (simp_all add: mdata_def room_def msize_def abs_size_def)

lemma abs_size_set_size: "abs_size (set_size s r k) x = (if x = r then nat \<bar>c_int k\<bar> else abs_size s x)"
  by (simp add: abs_size_def)

text \<open>
  A function writes its result into the limbs of \<open>r\<close>, and scratch limbs that were never
  allocated, and stores the size.
\<close>

definition result_at :: "gmp \<Rightarrow> nat \<Rightarrow> mem \<Rightarrow> int \<Rightarrow> int \<Rightarrow> bool" where
  "result_at s r m k v \<longleftrightarrow> frame (g_mem s) m (block s r \<union> {g_next s..}) \<and> \<bar>k\<bar> \<le> room s r \<and>
     normal_limbs m (mdata s r) (nat \<bar>k\<bar>) \<and> v = sgn k * int (mpn_val m (mdata s r) (nat \<bar>k\<bar>))"

lemma other_limbs:
  assumes "heap_inv s V" "r \<in> V" "x \<in> V" "x \<noteq> r" "frame (g_mem s) m (block s r \<union> {g_next s..})" "a \<in> block s x"
  shows "m a = g_mem s a"
  using block_disjoint [OF assms(1-3)] block_bound [OF assms(1,3,6)] assms(4-6)
  by (auto simp: frame_def disjoint_iff)

lemma write_result:
  assumes h: "heap_inv s V" "r \<in> V" and res: "result_at s r m k v"
  shows "stores s V r v (set_size (s\<lparr>g_mem := m\<rparr>) r k)"
proof -
  let ?s = "set_size (s\<lparr>g_mem := m\<rparr>) r k"
  have k: "c_int k = k" using res heap_invD(4) [OF h] by (intro c_int_small) (simp add: result_at_def)
  have fr: "frame (g_mem s) m (block s r \<union> {g_next s..})" using res by (simp add: result_at_def)
  have same: "m a = g_mem s a" if "x \<in> V" "x \<noteq> r" "a \<in> span (mdata s x) (abs_size s x)" for x a
    using other_limbs [OF h that(1,2) fr] limbs_in_block [OF h(1) that(1)] that(3) by blast
  have val: "mpn_val m (mdata s x) (abs_size s x) = mpn_val (g_mem s) (mdata s x) (abs_size s x)"
    if "x \<in> V" "x \<noteq> r" for x by (rule mpn_val_cong) (use same [OF that] in simp)
  have norm: "normal_limbs m (mdata s x) (abs_size s x)" if "x \<in> V" "x \<noteq> r" for x
    by (rule normal_limbs_cong [OF heap_invD(6) [OF h(1) that(1)] same [OF that]])
  have "mpz_ok ?s x" if "x \<in> V" for x
    using heap_invD [OF h(1) that] res norm [OF that] by (auto simp: mpz_ok_def abs_size_set_size k result_at_def)
  moreover have "blocks_ok ?s" "owners ?s V = owners s V" "mdata ?s = mdata s"
    using h(1) by (simp_all add: heap_inv_def blocks_ok_def owners_def fun_eq_iff)
  ultimately have "heap_inv ?s V" using h(1) by (simp add: heap_inv_def)
  moreover have "mpz_val ?s x = (if x = r then v else mpz_val s x)" if "x \<in> V" for x
    using val [OF that] res by (auto simp: mpz_val_def abs_size_set_size k result_at_def)
  ultimately show ?thesis by (simp add: stores_def)
qed

section \<open>Allocation\<close>

text \<open>A new block at the end of the allocated memory, owned by \<open>r\<close> in place of its old one.\<close>

lemma heap_inv_fresh:
  assumes h: "heap_inv s V" and t: "r < g_top s" "0 < n" "int n \<le> INT_MAX"
    and ok: "\<bar>z\<bar> \<le> int n" "normal_limbs m (g_next s) (nat \<bar>z\<bar>)" "frame (g_mem s) m {g_next s..}"
    and s': "s' = s\<lparr>g_mem := m, g_next := g_next s + n,
      g_block := (if r \<in> owners s V then (g_block s)(mdata s r := None) else g_block s)(g_next s \<mapsto> n),
      g_mpz := (g_mpz s)(r := \<lparr>mp_alloc = int n, mp_size = z, mp_d = g_next s\<rparr>)\<rparr>"
  shows "heap_inv s' (insert r V)" "\<And>x. x \<in> V \<Longrightarrow> x \<noteq> r \<Longrightarrow> mpz_val s' x = mpz_val s x"
proof -
  have f: "room s' x = (if x = r then int n else room s x)" "mdata s' x = (if x = r then g_next s else mdata s x)"
    "msize s' x = (if x = r then z else msize s x)" "abs_size s' x = (if x = r then nat \<bar>z\<bar> else abs_size s x)" for x
    by (simp_all add: s' room_def mdata_def msize_def abs_size_def)
  have old: "g_block s (g_next s) = None"
  proof (cases "g_block s (g_next s)")
    case (Some k)
    then have "0 < k \<and> g_next s + k \<le> g_next s" using h unfolding heap_inv_def blocks_ok_def by blast
    then show ?thesis by auto
  qed
  have same: "m a = g_mem s a" if "x \<in> V" "a \<in> span (mdata s x) (abs_size s x)" for x a
    using block_bound [OF h that(1)] subsetD [OF limbs_in_block [OF h that(1)] that(2)] ok(3) by (auto simp: frame_def not_le)
  have val: "mpn_val m (mdata s x) (abs_size s x) = mpn_val (g_mem s) (mdata s x) (abs_size s x)" if "x \<in> V" for x
    by (rule mpn_val_cong) (use same [OF that] in simp)
  show "mpz_val s' x = mpz_val s x" if "x \<in> V" "x \<noteq> r" for x
    using val [OF that(1)] that(2) f [of x] by (simp add: mpz_val_def) (simp add: s')
  have norm: "normal_limbs m (mdata s x) (abs_size s x)" if "x \<in> V" for x
    by (rule normal_limbs_cong [OF heap_invD(6) [OF h that] same [OF that]])
  have ne: "mdata s x \<noteq> mdata s r" if "x \<in> V" "x \<noteq> r" "room s x \<noteq> 0" "r \<in> owners s V" for x
    using h that by (auto simp: heap_inv_def owners_def dest: inj_onD)
  have nx: "mdata s x \<noteq> g_next s" if "x \<in> V" "room s x \<noteq> 0" for x
    using heap_invD(7) [OF h that] old by auto
  have "mpz_ok s' x" if "x \<in> insert r V" for x
  proof (cases "x = r")
    case True
    then show ?thesis using f [of r] ok t by (simp add: mpz_ok_def) (simp add: s')
  next
    case False
    with that have x: "x \<in> V" by simp
    show ?thesis
      using heap_invD [OF h x] f [of x] False norm [OF x] ne [OF x False] nx [OF x]
      by (simp add: mpz_ok_def) (auto simp: s')
  qed
  moreover have "blocks_ok s'"
  proof -
    have b: "blocks_ok s" using h by (simp add: heap_inv_def)
    then have "span p k \<inter> span (g_next s) n = {}" if "g_block s p = Some k" for p k
      using that by (fastforce simp: blocks_ok_def disjoint_iff)
    with b t(2) show ?thesis
      by (auto simp: blocks_ok_def s' Int_commute split: if_splits) (force+)?
  qed
  moreover have "owners s' (insert r V) = insert r (owners s V)"
    using f t(2) by (auto simp: owners_def)
  moreover have "inj_on (mdata s') (insert r (owners s V))"
    using h nx nx [THEN not_sym] by (auto simp: heap_inv_def owners_def inj_on_def f(2))
  moreover have "dom (g_block s') = mdata s' ` insert r (owners s V)"
    using h f(2) ne nx unfolding heap_inv_def by (auto simp: s' owners_def split: if_splits)
  ultimately show "heap_inv s' (insert r V)" using h t(1) by (auto simp: heap_inv_def s')
qed

text \<open>\<open>grown s V r n s'\<close>: the structure \<open>r\<close> has room for \<open>n\<close> limbs in \<open>s'\<close>, and nothing else happened.\<close>

definition grown :: "gmp \<Rightarrow> nat set \<Rightarrow> nat \<Rightarrow> int \<Rightarrow> gmp \<Rightarrow> bool" where
  "grown s V r n s' \<longleftrightarrow> heap_inv s' V \<and> g_top s' = g_top s \<and> n \<le> room s' r \<and> (\<forall>x. msize s' x = msize s x) \<and>
     (\<forall>x \<in> V. \<forall>i < abs_size s x. g_mem s' (mdata s' x + i) = g_mem s (mdata s x + i)) \<and>
     (\<forall>i < nat (room s r). g_mem s' (mdata s' r + i) = g_mem s (mdata s r + i)) \<and>
     frame (g_mem s) (g_mem s') {g_next s..} \<and> (\<forall>x. x \<noteq> r \<longrightarrow> g_mpz s' x = g_mpz s x)"

lemma grown_frame:
  "grown s V r n s' \<Longrightarrow> frame (g_mem s) (g_mem s') {g_next s..}" "grown s V r n s' \<Longrightarrow> x \<noteq> r \<Longrightarrow> g_mpz s' x = g_mpz s x"
  "grown s V r n s' \<Longrightarrow> i < nat (room s r) \<Longrightarrow> g_mem s' (mdata s' r + i) = g_mem s (mdata s r + i)"
  by (simp_all add: grown_def)

lemma grownD:
  assumes "grown s V r n s'"
  shows "heap_inv s' V" "g_top s' = g_top s" "n \<le> room s' r" "msize s' x = msize s x" "abs_size s' x = abs_size s x"
    "x \<in> V \<Longrightarrow> i < abs_size s x \<Longrightarrow> g_mem s' (mdata s' x + i) = g_mem s (mdata s x + i)"
    "x \<in> V \<Longrightarrow> mpn_val (g_mem s') (mdata s' x) (abs_size s x) = mpn_val (g_mem s) (mdata s x) (abs_size s x)"
    "x \<in> V \<Longrightarrow> mpz_val s' x = mpz_val s x"
proof -
  show "heap_inv s' V" "g_top s' = g_top s" "n \<le> room s' r" "msize s' x = msize s x" "abs_size s' x = abs_size s x"
    using assms by (simp_all add: grown_def abs_size_def)
  show "x \<in> V \<Longrightarrow> i < abs_size s x \<Longrightarrow> g_mem s' (mdata s' x + i) = g_mem s (mdata s x + i)"
    using assms by (simp add: grown_def)
  show v: "x \<in> V \<Longrightarrow> mpn_val (g_mem s') (mdata s' x) (abs_size s x) = mpn_val (g_mem s) (mdata s x) (abs_size s x)"
    using assms by (intro mpn_val_limbs) (simp add: grown_def)
  show "x \<in> V \<Longrightarrow> mpz_val s' x = mpz_val s x"
    using v assms by (simp add: mpz_val_def grown_def abs_size_def)
qed

lemma grown_stores: "grown s V r n s1 \<Longrightarrow> stores s1 V r v s' \<Longrightarrow> stores s V r v s'"
  using grownD [of s V r n s1] by (auto simp: stores_def)

lemma mpz_realloc_grown:
  assumes h: "heap_inv s V" "r \<in> V" and n: "room s r < n" "n \<le> INT_MAX"
  obtains s' where "mpz_realloc s r n = Inr (mdata s' r, s')" "grown s V r n s'"
proof -
  note r = heap_invD [OF h]
  define k where "k = nat (room s r)"
  define m where "m = (if room s r = 0 then g_mem s else mpn_copyi (g_mem s) (g_next s) (mdata s r) k)"
  define s' where "s' = s\<lparr>g_mem := m, g_next := g_next s + nat n,
    g_block := (if r \<in> owners s V then (g_block s)(mdata s r := None) else g_block s)(g_next s \<mapsto> nat n),
    g_mpz := (g_mpz s)(r := \<lparr>mp_alloc = int (nat n), mp_size = msize s r, mp_d = g_next s\<rparr>)\<rparr>"
  have n0: "0 < nat n" "max n 1 = n" "c_int n = n" "int (nat n) = n" using n r(5) by (auto intro: c_int_small)
  have io: "room s r = 0 \<or> incr_ok (g_next s) (mdata s r) k"
    using block_end [OF h] by (auto simp: k_def incr_ok_def)
  then have cp: "(\<forall>i < k. m (g_next s + i) = g_mem s (mdata s r + i)) \<and> frame (g_mem s) m {g_next s..}"
    using mpn_copyi_limbs [of "g_next s" "mdata s r" k "g_mem s"] by (auto simp: m_def k_def unchanged_def frame_def)
  have ak: "abs_size s r \<le> k" using r(3) by (simp add: abs_size_def k_def)
  have nl: "normal_limbs m (g_next s) (nat \<bar>msize s r\<bar>)"
    using r(6) cp ak unfolding abs_size_def by (cases "nat \<bar>msize s r\<bar>") (auto simp: normal_limbs_def)
  have fresh: "heap_inv s' V" "\<And>x. x \<in> V \<Longrightarrow> x \<noteq> r \<Longrightarrow> mpz_val s' x = mpz_val s x"
    using heap_inv_fresh [OF h(1) r(1) n0(1) _ _ nl _ s'_def] h(2) n n0(4) r(3) cp by (simp_all add: insert_absorb)
  have z: "g_mpz s r\<lparr>mp_d := p, mp_alloc := j\<rparr> = \<lparr>mp_alloc = j, mp_size = mp_size (g_mpz s r), mp_d = p\<rparr>" for p j
    by (cases "g_mpz s r") simp
  have run: "mpz_realloc s r n = Inr (mdata s' r, s')"
    using n n0 r h by (auto simp: z mpz_realloc_def gmp_xalloc_limbs_def gmp_xrealloc_limbs_def Let_def upd_mpz_def
        s'_def m_def k_def owners_def mdata_def msize_def room_def)
  have keep: "m (mdata s x + i) = g_mem s (mdata s x + i)" if "x \<in> V" "i < abs_size s x" for x i
  proof -
    have "mdata s x + i \<in> block s x" using limbs_in_block [OF h(1) that(1)] that(2) by auto
    from block_bound [OF h(1) that(1) this] show ?thesis using cp by (auto simp: frame_def not_le)
  qed
  have f: "room s' r = n" "\<And>x. msize s' x = msize s x" "\<And>x. mdata s' x = (if x = r then g_next s else mdata s x)"
    "g_mem s' = m" "g_top s' = g_top s"
    using n0 by (simp_all add: s'_def room_def mdata_def msize_def)
  have "\<And>x. x \<noteq> r \<Longrightarrow> g_mpz s' x = g_mpz s x" by (simp add: s'_def)
  then have "grown s V r n s'"
    using fresh(1) cp ak keep by (auto simp: grown_def f k_def)
  with run show ?thesis by (rule that)
qed

lemma MPZ_REALLOC_grown:
  assumes h: "heap_inv s V" "r \<in> V" and n: "n \<le> INT_MAX"
  obtains s' where "MPZ_REALLOC s r n = Inr (mdata s' r, s')" "grown s V r n s'"
proof (cases "room s r < n")
  case True
  from mpz_realloc_grown [OF h this n] obtain s' where
    "mpz_realloc s r n = Inr (mdata s' r, s')" "grown s V r n s'" .
  with True show ?thesis by (intro that [of s']) (simp_all add: MPZ_REALLOC_def room_def)
next
  case False
  then show ?thesis using h by (intro that [of s]) (simp_all add: MPZ_REALLOC_def room_def grown_def frame_def)
qed

section \<open>Structures\<close>

text \<open>A structure that is not live is initialised.\<close>

lemma mpz_init_inv:
  assumes "heap_inv s V" "t \<notin> V" "t < g_top s"
  shows "heap_inv (mpz_init s t) (insert t V)" "mpz_val (mpz_init s t) t = 0"
    "x \<in> V \<Longrightarrow> mpz_val (mpz_init s t) x = mpz_val s x" "g_top (mpz_init s t) = g_top s"
proof -
  let ?s = "mpz_init s t"
  have f: "room ?s x = (if x = t then 0 else room s x)" "mdata ?s x = (if x = t then 0 else mdata s x)"
    "msize ?s x = (if x = t then 0 else msize s x)" "abs_size ?s x = (if x = t then 0 else abs_size s x)"
    "g_mem ?s = g_mem s" "g_block ?s = g_block s" "g_next ?s = g_next s" "g_top ?s = g_top s" for x
    by (simp_all add: mpz_init_def upd_mpz_def room_def mdata_def msize_def abs_size_def)
  have o: "owners ?s (insert t V) = owners s V" using assms(2) by (auto simp: owners_def f)
  have i: "mdata ?s ` owners s V = mdata s ` owners s V" "inj_on (mdata ?s) (owners s V) = inj_on (mdata s) (owners s V)"
    using assms(2) by (auto intro!: image_cong inj_on_cong simp: f owners_def)
  show "heap_inv ?s (insert t V)"
    using assms unfolding heap_inv_def o i by (auto simp: f blocks_ok_def mpz_ok_def INT_MAX_def)
  show "mpz_val ?s t = 0" "g_top ?s = g_top s" by (simp_all add: mpz_val_def f)
  show "x \<in> V \<Longrightarrow> mpz_val ?s x = mpz_val s x" using assms(2) by (auto simp: mpz_val_def f)
qed

lemma mpz_init2_inv:
  assumes "heap_inv s V" "t \<notin> V" "t < g_top s" and n: "1 \<le> n" "int n \<le> INT_MAX"
  obtains s' where "mpz_init2 s t (of_int (int n) * of_nat GMP_LIMB_BITS) = Inr s'" "heap_inv s' (insert t V)"
    "room s' t = int n" "g_top s' = g_top s" "mpz_val s' t = 0" "\<And>x. x \<in> V \<Longrightarrow> mpz_val s' x = mpz_val s x"
    "\<And>x. x \<in> V \<Longrightarrow> g_mpz s' x = g_mpz s x" "g_mem s' = g_mem s"
proof -
  define bits where "bits = (of_int (int n) * of_nat GMP_LIMB_BITS :: 64 word)"
  have "n * 64 < 2 ^ 64" using n(2) by (simp add: INT_MAX_def)
  then have b: "unat bits = n * 64" by (simp add: bits_def GMP_LIMB_BITS_def unat_of_nat unat_word_ariths flip: of_nat_mult)
  then have "bits \<noteq> 0" using n(1) by auto
  moreover from this b have "unat (bits - 1) = n * 64 - 1" by (simp add: unat_minus_one)
  ultimately have rn: "1 + int (unat (bits - of_bool (bits \<noteq> 0)) div GMP_LIMB_BITS) = int n"
    using n(1) by (simp add: GMP_LIMB_BITS_def)
  define s' where "s' = s\<lparr>g_mem := g_mem s, g_next := g_next s + n,
    g_block := (if t \<in> owners s V then (g_block s)(mdata s t := None) else g_block s)(g_next s \<mapsto> n),
    g_mpz := (g_mpz s)(t := \<lparr>mp_alloc = int n, mp_size = 0, mp_d = g_next s\<rparr>)\<rparr>"
  have "heap_inv s' (insert t V)" "\<And>x. x \<in> V \<Longrightarrow> mpz_val s' x = mpz_val s x"
    using heap_inv_fresh [OF assms(1,3) _ n(2) _ _ _ s'_def] n(1) assms(2) by (auto simp: normal_limbs_def)
  moreover have "mpz_init2 s t bits = Inr s'"
    using rn n assms(2) unfolding mpz_init2_def Let_def
    by (simp add: gmp_xalloc_limbs_def s'_def upd_mpz_def owners_def c_int_small)
  moreover have "mpz_val s' t = 0" "room s' t = int n" by (simp_all add: mpz_val_def s'_def msize_def room_def)
  ultimately show ?thesis
    using assms(2) by (intro that [of s']) (auto simp: bits_def s'_def)
qed

lemma blocks_ok_sub:
  assumes "blocks_ok s" "g_next s' = g_next s" and sub: "\<And>p n. g_block s' p = Some n \<Longrightarrow> g_block s p = Some n"
  shows "blocks_ok s'"
  unfolding blocks_ok_def assms(2)
proof (intro conjI allI impI)
  fix p q n k assume "g_block s' p = Some n" "g_block s' q = Some k" "p \<noteq> q"
  then show "span p n \<inter> span q k = {}" using sub assms(1) unfolding blocks_ok_def by meson
qed (use assms(1) sub in \<open>force simp: blocks_ok_def\<close>)+

text \<open>A structure is cleared: it is no longer live and its block is free.\<close>

lemma mpz_clear_inv:
  assumes h: "heap_inv s (insert t V)" "t \<notin> V"
  obtains s' where "mpz_clear s t = Inr s'" "heap_inv s' V" "g_top s' = g_top s" "\<And>x. mpz_val s' x = mpz_val s x"
proof -
  note r = heap_invD [OF h(1), of t]
  define s' where "s' = s\<lparr>g_block := if room s t = 0 then g_block s else (g_block s)(mdata s t := None)\<rparr>"
  have f: "room s' x = room s x" "mdata s' = mdata s" "msize s' x = msize s x" "abs_size s' x = abs_size s x"
    "g_mem s' = g_mem s" "g_next s' = g_next s" "g_top s' = g_top s" for x
    by (simp_all add: s'_def room_def mdata_def msize_def abs_size_def fun_eq_iff)
  have run: "mpz_clear s t = Inr s'"
    using r(7) by (simp add: mpz_clear_def gmp_free_def s'_def room_def mdata_def)
  have ow: "owners s (insert t V) = (if room s t = 0 then owners s V else insert t (owners s V))" "owners s' V = owners s V"
    using h(2) by (auto simp: owners_def f)
  have tn: "t \<notin> owners s V" using h(2) by (simp add: owners_def)
  have ne: "mdata s x \<noteq> mdata s t" if "x \<in> owners s V" "room s t \<noteq> 0" for x
    using h that tn by (auto simp: heap_inv_def ow dest: inj_onD) (metis imageI)
  have "inj_on (mdata s) (owners s V)" "dom (g_block s') = mdata s ` owners s V"
    using h(1) ne by (auto simp: heap_inv_def ow s'_def split: if_splits)
  moreover have "mpz_ok s' x" if "x \<in> V" for x
    using heap_invD [OF h(1), of x] that ne [of x] by (auto simp: mpz_ok_def f) (auto simp: s'_def owners_def)
  moreover have "blocks_ok s'"
  proof -
    have "blocks_ok s" using h(1) by (simp add: heap_inv_def)
    then show ?thesis by (rule blocks_ok_sub) (simp_all add: s'_def split: if_splits)
  qed
  ultimately have "heap_inv s' V" using h(1) by (simp add: heap_inv_def f ow)
  with run show ?thesis by (rule that) (simp_all add: f mpz_val_def)
qed

lemma mpz_swap_inv:
  assumes h: "heap_inv s V" "u \<in> V" "v \<in> V"
  shows "heap_inv (mpz_swap s u v) V" "g_top (mpz_swap s u v) = g_top s"
    "mpz_val (mpz_swap s u v) x = mpz_val s (if x = u then v else if x = v then u else x)"
    "room (mpz_swap s u v) x = room s (if x = u then v else if x = v then u else x)"
    "msize (mpz_swap s u v) x = msize s (if x = u then v else if x = v then u else x)"
proof -
  let ?s = "mpz_swap s u v"
  define f where "f x = (if x = u then v else if x = v then u else x)" for x
  have g: "g_mpz ?s x = g_mpz s (f x)" for x by (auto simp: mpz_swap_def f_def)
  have m: "room ?s x = room s (f x)" "mdata ?s x = mdata s (f x)" "msize ?s x = msize s (f x)" "abs_size ?s x = abs_size s (f x)"
    for x by (simp_all add: room_def mdata_def msize_def abs_size_def g)
  have o: "g_mem ?s = g_mem s" "g_block ?s = g_block s" "g_next ?s = g_next s" "g_top ?s = g_top s"
    by (simp_all add: mpz_swap_def)
  have ff: "f (f x) = x" for x by (simp add: f_def)
  have fV: "f x \<in> V \<longleftrightarrow> x \<in> V" for x using h by (auto simp: f_def)
  have ow: "owners ?s V = f ` owners s V"
    by (auto simp: owners_def m fV ff image_iff intro: bexI [of _ "f _"]) (metis ff fV)+
  have im: "mdata ?s ` f ` A = mdata s ` A" "inj_on (mdata ?s) (f ` A) = inj_on (mdata s) A" for A
    by (auto simp: m ff image_image inj_on_def) (metis ff)
  have tp: "x < g_top s" if "x \<in> V" for x using heap_invD(1) [OF h(1) that] .
  have "mpz_ok ?s x" if "x \<in> V" for x
    using heap_invD(2) [OF h(1), of "f x"] that by (simp add: mpz_ok_def m o fV)
  then show "heap_inv ?s V" using h(1) tp by (simp add: heap_inv_def blocks_ok_def ow im o)
  show "g_top ?s = g_top s" by (rule o)
  show "mpz_val ?s x = mpz_val s (if x = u then v else if x = v then u else x)"
    "room ?s x = room s (if x = u then v else if x = v then u else x)"
    "msize ?s x = msize s (if x = u then v else if x = v then u else x)"
    unfolding f_def [symmetric] by (simp_all add: mpz_val_def m o)
qed

end
