(* ===== verification/Mpz_set.thy ===== *)
theory Mpz_set
  imports Mpz_value
begin

text \<open>
  Assignment, conversion and comparison of integers: what the functions return and store in
  terms of the integers that the structures represent.
\<close>

section \<open>Assignment\<close>

lemma set_size_swap:
  "set_limb (set_size s r k) p x = set_size (s\<lparr>g_mem := (g_mem s)(p := x)\<rparr>) r k"
  by (simp add: set_limb_def set_size_def upd_mpz_def)

text \<open>Storing the size first, as \<open>mpz_set_ui\<close> does, does not disturb the reallocation.\<close>

lemma MPZ_REALLOC_set_size:
  assumes "heap_inv s V" "r \<in> V" "\<bar>k\<bar> \<le> n" "n \<le> INT_MAX" "MPZ_REALLOC s r n = Inr (p, s1)"
  shows "MPZ_REALLOC (set_size s r k) r n = Inr (p, set_size s1 r k)"
proof -
  have "\<bar>msize s r\<bar> \<le> room s r" "c_int k = k" "room s r \<noteq> 0 \<longrightarrow> g_block s (mdata s r) = Some (nat (room s r))"
    using assms heap_invD [OF assms(1,2)] by (auto intro: c_int_small)
  moreover obtain al sz d where "g_mpz s r = \<lparr>mp_alloc = al, mp_size = sz, mp_d = d\<rparr>" by (cases "g_mpz s r")
  ultimately have z: "\<bar>sz\<bar> \<le> al" "c_int k = k" "al \<noteq> 0 \<longrightarrow> g_block s d = Some (nat al)" "g_mpz s r = \<lparr>mp_alloc = al, mp_size = sz, mp_d = d\<rparr>"
    by (simp_all add: msize_def room_def mdata_def)
  show ?thesis
  proof (cases "al < n")
    case True
    with z(1) have n: "0 < n" "max n 1 = n" "\<not> n < \<bar>sz\<bar>" "\<not> n < \<bar>k\<bar>" using assms(3) by auto
    show ?thesis
      using assms(5) True n z unfolding MPZ_REALLOC_def mpz_realloc_def
      by (cases "al = 0") (simp_all add: gmp_xalloc_limbs_def gmp_xrealloc_limbs_def Let_def set_size_def upd_mpz_def
        msize_def mdata_def, auto)
  next
    case False
    then show ?thesis using assms(5) z(4) by (auto simp: MPZ_REALLOC_def set_size_def upd_mpz_def mdata_def)
  qed
qed

lemma one_limb_stores:
  assumes h: "heap_inv s V" "r \<in> V" and x: "x \<noteq> 0" "\<bar>k\<bar> = 1"
  obtains s1 where "MPZ_REALLOC s r 1 = Inr (mdata s1 r, s1)"
    "stores s V r (k * int (unat x)) (set_size (s1\<lparr>g_mem := (g_mem s1)(mdata s1 r := x)\<rparr>) r k)"
proof -
  have "1 \<le> INT_MAX" by (simp add: INT_MAX_def)
  from MPZ_REALLOC_grown [OF h this] obtain s1 where
    s1: "MPZ_REALLOC s r 1 = Inr (mdata s1 r, s1)" and g: "grown s V r 1 s1" .
  note g' = grownD [OF g]
  have "k = 1 \<or> k = - 1" using x(2) by linarith
  then have "result_at s1 r ((g_mem s1)(mdata s1 r := x)) k (k * int (unat x))"
    using x(1) g'(3) by (auto simp: result_at_def normal_limbs_def frame_def block_def)
  from grown_stores [OF g write_result [OF g'(1) h(2) this]] s1 show ?thesis using that by blast
qed

lemma mpz_set_ui_stores:
  assumes h: "heap_inv s V" "r \<in> V"
  obtains s' where "mpz_set_ui s r x = Inr s'" "stores s V r (int (unat x)) s'"
proof (cases "x = 0")
  case True
  have "result_at s r (g_mem s) 0 0" using heap_invD(5) [OF h] by (simp add: result_at_def)
  from write_result [OF h this] True show ?thesis by (intro that [of "set_size s r 0"]) (simp_all add: mpz_set_ui_def)
next
  case False
  from one_limb_stores [OF h False, of 1] obtain s1 where s1: "MPZ_REALLOC s r 1 = Inr (mdata s1 r, s1)"
    "stores s V r (int (unat x)) (set_size (s1\<lparr>g_mem := (g_mem s1)(mdata s1 r := x)\<rparr>) r 1)" by auto
  have "MPZ_REALLOC (set_size s r 1) r 1 = Inr (mdata s1 r, set_size s1 r 1)"
    by (rule MPZ_REALLOC_set_size [OF h _ _ s1(1)]) (simp_all add: INT_MAX_def)
  with s1(2) False show ?thesis
    by (intro that) (simp_all add: mpz_set_ui_def set_size_swap word_neq_0_conv)
qed

lemma GMP_NEG_CAST_value: "- (2 ^ 63) \<le> x \<Longrightarrow> x < 0 \<Longrightarrow> int (unat (GMP_NEG_CAST x)) = - x"
proof -
  assume x: "- (2 ^ 63) \<le> x" "x < 0"
  define n where "n = nat (- x)"
  have n: "x = - int n" "n < 2 ^ 64" using x by (simp_all add: n_def)
  then have "unat (GMP_NEG_CAST x) = n" by (simp add: GMP_NEG_CAST_def unat_of_nat)
  with n show ?thesis by simp
qed

lemma limb_of_int: "0 \<le> x \<Longrightarrow> x < 2 ^ 63 \<Longrightarrow> int (unat (of_int x :: limb)) = x"
proof -
  assume x: "0 \<le> x" "x < 2 ^ 63"
  define n where "n = nat x"
  have n: "x = int n" "n < 2 ^ 64" using x by (simp_all add: n_def)
  then show ?thesis by (simp add: unat_of_nat)
qed

lemma mpz_set_si_stores:
  assumes h: "heap_inv s V" "r \<in> V" and x: "- (2 ^ 63) \<le> x" "x < 2 ^ 63"
  obtains s' where "mpz_set_si s r x = Inr s'" "stores s V r x s'"
proof (cases "x \<ge> 0")
  case True
  have "int (unat (of_int x :: limb)) = x" by (rule limb_of_int [OF True x(2)])
  with True mpz_set_ui_stores [OF h, of "of_int x"] that show ?thesis by (auto simp: mpz_set_si_def)
next
  case False
  note c = GMP_NEG_CAST_value [OF x(1)]
  have nz: "GMP_NEG_CAST x \<noteq> 0" using c False by force
  from one_limb_stores [OF h nz, of "-1"] obtain s1 where s1: "MPZ_REALLOC s r 1 = Inr (mdata s1 r, s1)"
    "stores s V r x (set_size (s1\<lparr>g_mem := (g_mem s1)(mdata s1 r := GMP_NEG_CAST x)\<rparr>) r (- 1))" using c False by auto
  have "MPZ_REALLOC (set_size s r (- 1)) r 1 = Inr (mdata s1 r, set_size s1 r (- 1))"
    by (rule MPZ_REALLOC_set_size [OF h _ _ s1(1)]) (simp_all add: INT_MAX_def)
  with s1(2) False show ?thesis
    by (intro that) (simp_all add: mpz_set_si_def set_size_swap)
qed

lemma stores_same: "heap_inv s V \<Longrightarrow> stores s V r (mpz_val s r) s"
  by (simp add: stores_def)

lemma mpz_set_stores:
  assumes h: "heap_inv s V" "r \<in> V" "x \<in> V"
  obtains s' where "mpz_set s r x = Inr s'" "stores s V r (mpz_val s x) s'"
    "msize s' r = msize s x"
proof (cases "r = x")
  case True
  then show ?thesis using stores_same [OF h(1), of x] by (intro that [of s]) (simp_all add: mpz_set_def)
next
  case False
  have n: "\<bar>msize s x\<bar> \<le> INT_MAX" using heap_invD(3,4) [OF h(1,3)] by simp
  from MPZ_REALLOC_grown [OF h(1,2) n] obtain s1 where
    s1: "MPZ_REALLOC s r \<bar>msize s x\<bar> = Inr (mdata s1 r, s1)" and g: "grown s V r \<bar>msize s x\<bar> s1" .
  note g' = grownD [OF g]
  define m where "m = mpn_copyi (g_mem s1) (mdata s1 r) (mdata s1 x) (abs_size s x)"
  have "incr_ok (mdata s1 r) (mdata s1 x) (abs_size s x)"
    using operand_incr_ok(1) [OF g'(1) h(2,3), of "abs_size s x"] g'(3,4) by (simp add: abs_size_def)
  from mpn_copyi_limbs [OF this, of "g_mem s1"] have
    cp: "\<forall>i < abs_size s x. m (mdata s1 r + i) = g_mem s1 (mdata s1 x + i)" and un: "unchanged (g_mem s1) m (mdata s1 r) (abs_size s x)"
    by (auto simp: m_def)
  have v: "mpn_val m (mdata s1 r) (abs_size s x) = mpn_val (g_mem s1) (mdata s1 x) (abs_size s x)"
    by (rule mpn_val_limbs [OF cp])
  have "normal_limbs m (mdata s1 r) (abs_size s x)"
    using normal_ge [OF heap_invD(6) [OF g'(1) h(3)]] by (intro normal_limbsI) (simp add: v g'(5))
  then have "result_at s1 r m (msize s x) (mpz_val s x)"
    using g'(3) g'(7) [OF h(3)] frame_block [OF un] v by (simp add: result_at_def mpz_val_def abs_size_def)
  from grown_stores [OF g write_result [OF g'(1) h(2) this]] s1 False show ?thesis
    using n by (intro that) (auto simp: mpz_set_def Let_def m_def abs_size_def g'(4) c_int_small)
qed

text \<open>Changing the sign of a structure.\<close>

lemma set_size_sign:
  assumes h: "heap_inv s V" "r \<in> V" and k: "\<bar>k\<bar> = \<bar>msize s r\<bar>"
  shows "stores s V r (sgn k * \<bar>mpz_val s r\<bar>) (set_size s r k)"
proof -
  have "result_at s r (g_mem s) k (sgn k * \<bar>mpz_val s r\<bar>)"
    using heap_invD [OF h] k unfolding mpz_val_abs by (simp add: result_at_def abs_size_def)
  from write_result [OF h this] show ?thesis by simp
qed

lemma stores_trans: "stores s V r v s1 \<Longrightarrow> stores s1 V r w s2 \<Longrightarrow> stores s V r w s2"
  by (auto simp: stores_def)

lemma storesD:
  assumes "stores s V r v s'"
  shows "heap_inv s' V" "g_top s' = g_top s" "r \<in> V \<Longrightarrow> mpz_val s' r = v" "x \<in> V \<Longrightarrow> x \<noteq> r \<Longrightarrow> mpz_val s' x = mpz_val s x"
  using assms by (auto simp: stores_def)

lemma sgn_abs_val: "heap_inv s V \<Longrightarrow> x \<in> V \<Longrightarrow> sgn (msize s x) * \<bar>mpz_val s x\<bar> = mpz_val s x"
  using sgn_mpz_val [of s V x] by (metis mult_sgn_abs)

lemma mpz_neg_stores:
  assumes h: "heap_inv s V" "r \<in> V" "x \<in> V"
  obtains s' where "mpz_neg s r x = Inr s'" "stores s V r (- mpz_val s x) s'"
proof -
  obtain s1 where s1: "mpz_set s r x = Inr s1" "stores s V r (mpz_val s x) s1" by (rule mpz_set_stores [OF h])
  note d = storesD [OF s1(2)]
  have "stores s1 V r (sgn (- msize s1 r) * \<bar>mpz_val s1 r\<bar>) (set_size s1 r (- msize s1 r))"
    by (rule set_size_sign [OF d(1) h(2)]) simp
  then have "stores s1 V r (- mpz_val s x) (set_size s1 r (- msize s1 r))"
    using sgn_abs_val [OF d(1) h(2)] d(3) [OF h(2)] by (simp add: sgn_minus)
  from stores_trans [OF s1(2) this] s1(1) show ?thesis by (intro that) (simp_all add: mpz_neg_def)
qed

lemma mpz_abs_stores:
  assumes h: "heap_inv s V" "r \<in> V" "x \<in> V"
  obtains s' where "mpz_abs s r x = Inr s'" "stores s V r \<bar>mpz_val s x\<bar> s'"
proof -
  obtain s1 where s1: "mpz_set s r x = Inr s1" "stores s V r (mpz_val s x) s1" by (rule mpz_set_stores [OF h])
  note d = storesD [OF s1(2)]
  have "stores s1 V r (sgn \<bar>msize s1 r\<bar> * \<bar>mpz_val s1 r\<bar>) (set_size s1 r \<bar>msize s1 r\<bar>)"
    by (rule set_size_sign [OF d(1) h(2)]) simp
  then have "stores s1 V r \<bar>mpz_val s x\<bar> (set_size s1 r \<bar>msize s1 r\<bar>)"
    using sgn_mpz_val [OF d(1) h(2)] d(3) [OF h(2)] by (cases "msize s1 r = 0") (auto simp: sgn_if split: if_splits)
  from stores_trans [OF s1(2) this] s1(1) show ?thesis by (intro that) (simp_all add: mpz_abs_def)
qed

section \<open>Comparison\<close>

lemma GMP_CMP_0: "GMP_CMP k 0 = sgn (k :: int)"
  by (simp add: GMP_CMP_def sgn_if)

lemma mpz_sgn_value: "heap_inv s V \<Longrightarrow> x \<in> V \<Longrightarrow> mpz_sgn s x = sgn (mpz_val s x)"
  by (simp add: sgn_mpz_val mpz_sgn_def GMP_CMP_0)

text \<open>An integer with more limbs is larger in absolute value.\<close>

lemma abs_less_of_size:
  assumes "heap_inv s V" "x \<in> V" "y \<in> V" "abs_size s x < abs_size s y"
  shows "\<bar>mpz_val s x\<bar> < \<bar>mpz_val s y\<bar>"
  using abs_size_mono [OF assms(1,2,3)] assms(4) by linarith

lemma mpz_cmp_value:
  assumes h: "heap_inv s V" "a \<in> V" "b \<in> V"
  shows "mpz_cmp s a b = GMP_CMP (mpz_val s a) (mpz_val s b)"
proof -
  note sg = mpz_val_sign [of s a] mpz_val_sign [of s b] and less = abs_less_of_size [OF h] abs_less_of_size [OF h(1,3,2)]
  note pos = sgn_mpz_val [OF h(1,2)] sgn_mpz_val [OF h(1,3)]
  have lt: "mpz_val s x < mpz_val s y"
    if "msize s x < msize s y" and V: "x \<in> V" "y \<in> V" for x y
  proof -
    consider "0 \<le> msize s x" | "msize s x < 0" "0 \<le> msize s y" | "msize s y < 0" using that(1) by linarith
    then show ?thesis
    proof cases
      case 1
      then show ?thesis using abs_less_of_size [OF h(1) V] that(1) mpz_val_sign [of s x] mpz_val_sign [of s y]
        by (simp add: abs_size_def)
    next
      case 2
      then show ?thesis using sgn_mpz_val [OF h(1) V(1)] mpz_val_sign [of s y] by (auto simp: sgn_if split: if_splits)
    next
      case 3
      then show ?thesis using abs_less_of_size [OF h(1) V(2,1)] that(1) mpz_val_sign [of s x] mpz_val_sign [of s y]
        by (simp add: abs_size_def)
    qed
  qed
  consider "msize s a < msize s b" | "msize s b < msize s a" | "msize s a = msize s b" by linarith
  then show ?thesis
  proof cases
    case 1
    with lt [OF 1 h(2,3)] show ?thesis by (simp add: mpz_cmp_def GMP_CMP_def)
  next
    case 2
    with lt [OF 2 h(3,2)] show ?thesis by (simp add: mpz_cmp_def GMP_CMP_def)
  next
    case 3
    then show ?thesis
      by (auto simp: mpz_cmp_def mpn_cmp_value GMP_CMP_def mpz_val_def abs_size_def sgn_if)
  qed
qed

text \<open>Integers of at most one limb, and the others.\<close>

lemma one_limb_val: "\<bar>msize s u\<bar> \<le> 1 \<Longrightarrow> mpz_val s u = msize s u * int (unat (mpz_get_ui s u))"
proof -
  assume "\<bar>msize s u\<bar> \<le> 1"
  then consider "msize s u = 0" | "msize s u = 1" | "msize s u = - 1" by linarith
  then show ?thesis by cases (simp_all add: mpz_val_def mpz_get_ui_def abs_size_def)
qed

lemma mpz_val_nonneg: "0 \<le> msize s u \<Longrightarrow> 0 \<le> mpz_val s u"
  by (simp add: mpz_val_def sgn_if)

lemma more_limbs_val: "heap_inv s V \<Longrightarrow> u \<in> V \<Longrightarrow> 1 < \<bar>msize s u\<bar> \<Longrightarrow> int B \<le> \<bar>mpz_val s u\<bar>"
  using abs_size_le_iff [of s V u 1] by (auto simp: abs_size_def)

lemma one_limb_nonzero: "heap_inv s V \<Longrightarrow> u \<in> V \<Longrightarrow> \<bar>msize s u\<bar> = 1 \<Longrightarrow> mpz_get_ui s u \<noteq> 0"
  using heap_invD(6) [of s V u] by (auto simp: normal_limbs_def mpz_get_ui_def abs_size_def split: if_splits)

lemma mpz_cmp_ui_value:
  assumes h: "heap_inv s V" "u \<in> V"
  shows "mpz_cmp_ui s u v = GMP_CMP (mpz_val s u) (int (unat v))"
proof -
  have vB: "int (unat v) < int B" by (simp add: unat_less_B)
  consider "msize s u < 0" | "1 < msize s u" | "msize s u = 0 \<or> msize s u = 1" by linarith
  then show ?thesis
  proof cases
    case 1
    then have "mpz_val s u < 0" using sgn_mpz_val [OF h] by (auto simp: sgn_if split: if_splits)
    with 1 show ?thesis by (simp add: mpz_cmp_ui_def GMP_CMP_def)
  next
    case 2
    then have "int B \<le> mpz_val s u" using more_limbs_val [OF h] mpz_val_sign [of s u] by simp
    with 2 vB show ?thesis by (simp add: mpz_cmp_ui_def GMP_CMP_def)
  next
    case 3
    then show ?thesis using one_limb_val [of s u]
      by (auto simp: mpz_cmp_ui_def GMP_CMP_def word_less_nat_alt mpz_get_ui_def)
  qed
qed

lemma mpz_cmp_si_value:
  assumes h: "heap_inv s V" "u \<in> V" and v: "- (2 ^ 63) \<le> v" "v < 2 ^ 63"
  shows "mpz_cmp_si s u v = GMP_CMP (mpz_val s u) v"
proof -
  have B: "2 ^ 63 < int B" by (simp add: B_def)
  consider "msize s u < - 1" | "v \<ge> 0" "- 1 \<le> msize s u" | "v < 0" "0 \<le> msize s u" | "v < 0" "msize s u = - 1" by linarith
  then show ?thesis
  proof cases
    case 1
    then have "mpz_val s u \<le> - int B" using more_limbs_val [OF h] mpz_val_sign [of s u] by simp
    with 1 B v(1) show ?thesis by (simp add: mpz_cmp_si_def GMP_CMP_def)
  next
    case 2
    with mpz_cmp_ui_value [OF h, of "of_int v"] limb_of_int [OF 2(1) v(2)] show ?thesis by (simp add: mpz_cmp_si_def)
  next
    case 3
    then have "v < mpz_val s u" using mpz_val_nonneg [of s u] by linarith
    with 3 show ?thesis by (simp add: mpz_cmp_si_def GMP_CMP_def)
  next
    case 4
    have "mpz_val s u = - int (unat (g_mem s (mdata s u)))" using one_limb_val [of s u] 4 by (simp add: mpz_get_ui_def)
    moreover have w: "int (unat (GMP_NEG_CAST v)) = - v" by (rule GMP_NEG_CAST_value [OF v(1) 4(1)])
    ultimately have "GMP_CMP (mpz_val s u) v = GMP_CMP (GMP_NEG_CAST v) (g_mem s (mdata s u))"
      unfolding GMP_CMP_def word_less_nat_alt of_nat_less_iff [where ?'a = int, symmetric] w by simp
    with 4 show ?thesis by (simp add: mpz_cmp_si_def)
  qed
qed

lemma mpz_cmpabs_ui_value:
  assumes h: "heap_inv s V" "u \<in> V"
  shows "mpz_cmpabs_ui s u v = GMP_CMP \<bar>mpz_val s u\<bar> (int (unat v))"
proof (cases "\<bar>msize s u\<bar> > 1")
  case True
  have "int (unat v) < int B" by (simp add: unat_less_B)
  with more_limbs_val [OF h True] True show ?thesis by (simp add: mpz_cmpabs_ui_def GMP_CMP_def)
next
  case False
  then have "\<bar>mpz_val s u\<bar> = int (unat (mpz_get_ui s u))"
    using one_limb_val [of s u] by (cases "msize s u = 0") (auto simp: abs_mult mpz_get_ui_def)
  with False show ?thesis by (simp add: mpz_cmpabs_ui_def GMP_CMP_def word_less_nat_alt)
qed

section \<open>Conversion\<close>

lemma GMP_LIMB_HIGHBIT_unat: "unat GMP_LIMB_HIGHBIT = 2 ^ 63"
  by (simp add: GMP_LIMB_HIGHBIT_def GMP_LIMB_BITS_def push_bit_eq_mult)

lemma mpz_fits_ulong_p_value:
  assumes h: "heap_inv s V" "u \<in> V"
  shows "mpz_fits_ulong_p s u \<longleftrightarrow> 0 \<le> mpz_val s u \<and> mpz_val s u < int B"
proof -
  have "mpz_fits_ulong_p s u \<longleftrightarrow> 0 \<le> msize s u \<and> msize s u \<le> 1" by (auto simp: mpz_fits_ulong_p_def Let_def)
  moreover have "0 \<le> msize s u \<longleftrightarrow> 0 \<le> mpz_val s u" using sgn_mpz_val [OF h] by (auto simp: sgn_if split: if_splits)
  moreover have "abs_size s u \<le> 1 \<longleftrightarrow> \<bar>mpz_val s u\<bar> < int B" using abs_size_le_iff [OF h, of 1] by simp
  ultimately show ?thesis by (auto simp: abs_size_def)
qed

lemma mpz_get_ui_value: "heap_inv s V \<Longrightarrow> u \<in> V \<Longrightarrow> int (unat (mpz_get_ui s u)) = \<bar>mpz_val s u\<bar> mod int B"
proof (cases "abs_size s u")
  case 0
  then show ?thesis by (simp add: mpz_get_ui_def mpz_val_def)
next
  case (Suc n)
  then have "msize s u \<noteq> 0" by (metis abs_size_0 nat.distinct(1))
  then show ?thesis
    unfolding mpz_val_abs Suc by (simp add: mpz_get_ui_def unat_less_B flip: zmod_int)
qed

lemma mpz_fits_slong_p_value:
  assumes h: "heap_inv s V" "u \<in> V"
  shows "mpz_fits_slong_p s u \<longleftrightarrow> - (2 ^ 63) \<le> mpz_val s u \<and> mpz_val s u < 2 ^ 63"
proof (cases "\<bar>msize s u\<bar> \<le> 1")
  case True
  then consider "msize s u = 0" | "msize s u = 1" | "msize s u = - 1" by linarith
  then show ?thesis
    using one_limb_val [OF True]
    by cases (simp_all add: mpz_fits_slong_p_def mpz_get_ui_def word_less_nat_alt word_le_nat_alt GMP_LIMB_HIGHBIT_unat)
next
  case False
  have "2 ^ 63 < int B" by (simp add: B_def)
  with False more_limbs_val [OF h] show ?thesis by (auto simp: mpz_fits_slong_p_def Let_def)
qed

lemma clear_high_bit: "unat (w AND NOT GMP_LIMB_HIGHBIT) = unat w mod 2 ^ 63"
proof -
  have "NOT GMP_LIMB_HIGHBIT = (mask 63 :: limb)"
    by (simp add: GMP_LIMB_HIGHBIT_def GMP_LIMB_BITS_def mask_eq_exp_minus_1 push_bit_eq_mult)
  then have "w AND NOT GMP_LIMB_HIGHBIT = take_bit 63 w" by (simp only: take_bit_eq_mask)
  then show ?thesis by (simp only: unsigned_take_bit_eq) (simp add: take_bit_eq_mod)
qed

lemma mpz_get_si_value:
  assumes h: "heap_inv s V" "u \<in> V" and fit: "mpz_fits_slong_p s u"
  shows "mpz_get_si s u = mpz_val s u"
proof -
  have range: "- (2 ^ 63) \<le> mpz_val s u" "mpz_val s u < 2 ^ 63" using fit mpz_fits_slong_p_value [OF h] by auto
  have one: "\<bar>msize s u\<bar> \<le> 1" using fit by (auto simp: mpz_fits_slong_p_def Let_def split: if_splits)
  consider "0 \<le> msize s u" | "msize s u = - 1" using one by linarith
  then show ?thesis
  proof cases
    case 1
    have v: "mpz_val s u = int (unat (mpz_get_ui s u))"
      using 1 one one_limb_val [OF one] by (cases "msize s u = 0") (auto simp: mpz_get_ui_def)
    have "unat (mpz_get_ui s u) < 2 ^ 63" using range(2) unfolding v by simp
    with 1 v show ?thesis by (simp add: mpz_get_si_def clear_high_bit)
  next
    case 2
    define w where "w = g_mem s (mdata s u)"
    have v: "mpz_val s u = - int (unat w)" using 2 one_limb_val [OF one] by (simp add: mpz_get_ui_def w_def)
    have "w \<noteq> 0" using one_limb_nonzero [OF h] 2 by (simp add: mpz_get_ui_def w_def)
    then have w: "unat (w - 1) = unat w - 1" "0 < unat w" by (simp_all add: unat_minus_one unat_gt_0)
    have "unat w \<le> 2 ^ 63" using range(1) unfolding v by simp
    with w have "unat (w - 1) < 2 ^ 63" by linarith
    then have "mpz_get_si s u = - 1 - int (unat w - 1)" using 2 w(1) by (simp add: mpz_get_si_def clear_high_bit w_def)
    with v w(2) show ?thesis by simp
  qed
qed

end
