(* ===== verification/Mpz_mul.thy ===== *)
theory Mpz_mul
  imports Mpz_set
begin

text \<open>
  Arithmetic of integers with a limb, and multiplication: the results are those of the
  integer operations.
\<close>

section \<open>Addition and subtraction of a limb\<close>

lemma one_limb_computed:
  assumes h: "heap_inv s V" "r \<in> V" and k: "k = of_bool (x \<noteq> 0)"
  obtains s1 where "MPZ_REALLOC s r 1 = Inr (mdata s1 r, s1)"
    "computed s V r k (int (unat x)) (s1\<lparr>g_mem := (g_mem s1)(mdata s1 r := x)\<rparr>)" "grown s V r 1 s1"
proof -
  have "1 \<le> INT_MAX" by (simp add: INT_MAX_def)
  from MPZ_REALLOC_grown [OF h this] obtain s1 where
    s1: "MPZ_REALLOC s r 1 = Inr (mdata s1 r, s1)" and g: "grown s V r 1 s1" .
  have "result_at s1 r ((g_mem s1)(mdata s1 r := x)) (int (of_bool (x \<noteq> 0))) (int (unat x))"
    using grownD(3) [OF g] by (intro result_atI) (auto simp: frame_def block_def normal_limbs_def)
  from computedI [OF g h(2) this] s1 g k show ?thesis by (intro that [of s1]) simp_all
qed

lemma mpz_abs_add_ui_computed:
  assumes h: "heap_inv s V" "r \<in> V" "a \<in> V" and fit: "\<bar>msize s a\<bar> < INT_MAX"
  obtains k s1 where "mpz_abs_add_ui s r a b = Inr (k, s1)" "computed s V r k (\<bar>mpz_val s a\<bar> + int (unat b)) s1"
proof (cases "msize s a = 0")
  case True
  obtain s1 where "MPZ_REALLOC s r 1 = Inr (mdata s1 r, s1)"
    "computed s V r (of_bool (b \<noteq> 0)) (int (unat b)) (s1\<lparr>g_mem := (g_mem s1)(mdata s1 r := b)\<rparr>)"
    by (rule one_limb_computed [OF h(1,2) refl])
  with True show ?thesis
    by (intro that) (simp_all add: mpz_abs_add_ui_def set_limb_def mpz_val_def word_neq_0_conv)
next
  case False
  define n where "n = abs_size s a"
  have n: "n \<ge> 1" "int n = \<bar>msize s a\<bar>" "nat \<bar>msize s a\<bar> = n" using False by (auto simp: n_def abs_size_def)
  from fit n have "int n + 1 \<le> INT_MAX" by simp
  from MPZ_REALLOC_grown [OF h(1,2) this] obtain s1 where
    s1: "MPZ_REALLOC s r (int n + 1) = Inr (mdata s1 r, s1)" and g: "grown s V r (int n + 1) s1" .
  note g' = grownD [OF g]
  have rm: "int n < room s1 r" using g'(3) by simp
  have io: "incr_ok (mdata s1 r) (mdata s1 a) n"
    using operand_incr_ok(1) [OF g'(1) h(2,3), of n] rm by (simp add: g'(5) n_def)
  obtain m cy where m: "mpn_add_1 (g_mem s1) (mdata s1 r) (mdata s1 a) n b = Inr (m, cy)" using mpn_add_1_ok [of n] n(1) by fastforce
  note v = mpn_add_1_value [OF m io]
  have "B ^ 1 \<le> B ^ n" using n(1) by (intro power_increasing) (simp_all add: B_def)
  then have "unat b < B ^ n" using unat_less_B [of b] by simp
  note res = sum_result [OF v(1) mpn_val_bound this normal_ge [OF heap_invD(6) [OF g'(1) h(3), unfolded g'(5), folded n_def]]]
  have "result_at s1 r (m(mdata s1 r + n := cy)) (int (n + unat cy)) (\<bar>mpz_val s a\<bar> + int (unat b))"
    using res rm g'(7) [OF h(3)]
    by (intro result_atI frame_block_upd [OF frame_block [OF v(2) less_imp_le [OF rm]] rm])
      (simp_all add: mpz_val_abs n_def)
  from computedI [OF g h(2) this] s1 m(1) False n show ?thesis
    by (intro that) (simp_all add: mpz_abs_add_ui_def Let_def)
qed

lemma mpz_abs_sub_ui_computed:
  assumes h: "heap_inv s V" "r \<in> V" "a \<in> V"
  obtains k s1 where "mpz_abs_sub_ui s r a b = Inr (k, s1)" "computed s V r k (\<bar>mpz_val s a\<bar> - int (unat b)) s1"
proof (cases "msize s a = 0")
  case True
  obtain s1 where "MPZ_REALLOC s r 1 = Inr (mdata s1 r, s1)"
    "computed s V r (of_bool (b \<noteq> 0)) (int (unat b)) (s1\<lparr>g_mem := (g_mem s1)(mdata s1 r := b)\<rparr>)"
    by (rule one_limb_computed [OF h(1,2) refl])
  with True computed_neg [OF this(2)] show ?thesis
    by (intro that) (simp_all add: mpz_abs_sub_ui_def set_limb_def mpz_val_def word_neq_0_conv)
next
  case nz: False
  define n where "n = abs_size s a"
  have n: "n \<ge> 1" "int n = \<bar>msize s a\<bar>" "nat \<bar>msize s a\<bar> = n" using nz by (auto simp: n_def abs_size_def)
  have "int n \<le> INT_MAX" using n(2) heap_invD(3,4) [OF h(1,3)] by simp
  from MPZ_REALLOC_grown [OF h(1,2) this] obtain s1 where
    s1: "MPZ_REALLOC s r (int n) = Inr (mdata s1 r, s1)" and g: "grown s V r (int n) s1" .
  note g' = grownD [OF g]
  define a0 where "a0 = g_mem s1 (mdata s1 a)"
  show ?thesis
  proof (cases "n = 1 \<and> a0 < b")
    case True
    have "\<bar>mpz_val s a\<bar> = int (unat a0)" using True g'(7) [OF h(3)] by (simp add: mpz_val_abs n_def [symmetric] a0_def)
    moreover have d: "unat (b - a0) = unat b - unat a0" "unat a0 < unat b" using True by (simp_all add: unat_sub word_less_nat_alt less_imp_le)
    moreover have "b - a0 \<noteq> 0" using True by auto
    then have "result_at s1 r ((g_mem s1)(mdata s1 r := b - a0)) (- 1) (- int (unat (b - a0)))"
      using g'(3) n(1) by (auto simp: result_at_def normal_limbs_def frame_def block_def)
    from computedI [OF g h(2) this] have
      "computed s V r (- 1) (- int (unat (b - a0))) (s1\<lparr>g_mem := (g_mem s1)(mdata s1 r := b - a0)\<rparr>)" .
    moreover have "mpz_abs_sub_ui s r a b = Inr (- 1, s1\<lparr>g_mem := (g_mem s1)(mdata s1 r := b - a0)\<rparr>)"
      using True nz s1 n by (simp add: mpz_abs_sub_ui_def Let_def a0_def set_limb_def)
    ultimately show ?thesis using that by (simp add: of_nat_diff less_imp_le)
  next
    case ge: False
    have io: "incr_ok (mdata s1 r) (mdata s1 a) n"
      using operand_incr_ok(1) [OF g'(1) h(2,3), of n] g'(3) by (simp add: g'(5) n_def)
    obtain m cy where m: "mpn_sub_1 (g_mem s1) (mdata s1 r) (mdata s1 a) n b = Inr (m, cy)"
      using mpn_sub_1_ok [of n] n(1) by fastforce
    note v = mpn_sub_1_value [OF m io]
    have "unat b \<le> mpn_val (g_mem s1) (mdata s1 a) n"
    proof (cases "n = 1")
      case True
      with ge show ?thesis by (simp add: a0_def word_less_nat_alt)
    next
      case False
      then have "B ^ 1 \<le> B ^ (n - 1)" using n(1) by (intro power_increasing) (simp_all add: B_def)
      also have "\<dots> \<le> mpn_val (g_mem s1) (mdata s1 a) n"
        using normal_ge [OF heap_invD(6) [OF g'(1) h(3)]] nz by (simp add: g'(5) n_def)
      finally show ?thesis using unat_less_B [of b] by simp
    qed
    note d = difference_result [OF v(1) this]
    have "result_at s1 r m (int (mpn_normalized_size m (mdata s1 r) n)) (\<bar>mpz_val s a\<bar> - int (unat b))"
      using d(2) g'(7) [OF h(3)] by (intro normalized_result frame_block [OF v(2) g'(3)] g'(3)) (simp add: mpz_val_abs n_def)
    from computedI [OF g h(2) this] s1 m d(1) ge nz n show ?thesis
      by (intro that) (auto simp: mpz_abs_sub_ui_def Let_def a0_def)
  qed
qed

lemma mpz_add_ui_stores:
  assumes h: "heap_inv s V" "r \<in> V" "a \<in> V" and fit: "\<bar>msize s a\<bar> < INT_MAX"
  obtains s' where "mpz_add_ui s r a b = Inr s'" "stores s V r (mpz_val s a + int (unat b)) s'"
proof (cases "msize s a \<ge> 0")
  case True
  obtain k s1 where "mpz_abs_add_ui s r a b = Inr (k, s1)" "computed s V r k (\<bar>mpz_val s a\<bar> + int (unat b)) s1"
    by (rule mpz_abs_add_ui_computed [OF h fit])
  with True mpz_val_sign [of s a] that show ?thesis by (simp add: mpz_add_ui_def computed_def algebra_simps)
next
  case False
  obtain k s1 where "mpz_abs_sub_ui s r a b = Inr (k, s1)" "computed s V r k (\<bar>mpz_val s a\<bar> - int (unat b)) s1"
    by (rule mpz_abs_sub_ui_computed [OF h])
  with False mpz_val_sign [of s a] that show ?thesis by (simp add: mpz_add_ui_def computed_def algebra_simps)
qed

lemma mpz_sub_ui_stores:
  assumes h: "heap_inv s V" "r \<in> V" "a \<in> V" and fit: "\<bar>msize s a\<bar> < INT_MAX"
  obtains s' where "mpz_sub_ui s r a b = Inr s'" "stores s V r (mpz_val s a - int (unat b)) s'"
proof (cases "msize s a < 0")
  case True
  obtain k s1 where "mpz_abs_add_ui s r a b = Inr (k, s1)" "computed s V r k (\<bar>mpz_val s a\<bar> + int (unat b)) s1"
    by (rule mpz_abs_add_ui_computed [OF h fit])
  with True mpz_val_sign [of s a] that show ?thesis by (simp add: mpz_sub_ui_def computed_def algebra_simps)
next
  case False
  obtain k s1 where "mpz_abs_sub_ui s r a b = Inr (k, s1)" "computed s V r k (\<bar>mpz_val s a\<bar> - int (unat b)) s1"
    by (rule mpz_abs_sub_ui_computed [OF h])
  with False mpz_val_sign [of s a] that show ?thesis by (simp add: mpz_sub_ui_def computed_def algebra_simps)
qed

lemma mpz_ui_sub_stores:
  assumes h: "heap_inv s V" "r \<in> V" "b \<in> V" and fit: "\<bar>msize s b\<bar> < INT_MAX"
  obtains s' where "mpz_ui_sub s r a b = Inr s'" "stores s V r (int (unat a) - mpz_val s b) s'"
proof (cases "msize s b < 0")
  case True
  obtain k s1 where "mpz_abs_add_ui s r b a = Inr (k, s1)" "computed s V r k (\<bar>mpz_val s b\<bar> + int (unat a)) s1"
    by (rule mpz_abs_add_ui_computed [OF h fit])
  with True mpz_val_sign [of s b] that show ?thesis by (simp add: mpz_ui_sub_def computed_def algebra_simps)
next
  case False
  obtain k s1 where "mpz_abs_sub_ui s r b a = Inr (k, s1)" "computed s V r k (\<bar>mpz_val s b\<bar> - int (unat a)) s1"
    by (rule mpz_abs_sub_ui_computed [OF h])
  with False mpz_val_sign [of s b] that show ?thesis by (simp add: mpz_ui_sub_def computed_def algebra_simps)
qed

section \<open>Multiplication by a limb\<close>

lemma product_result:
  assumes v: "mpn_val m p n + B ^ n * unat cy = A * C" "B ^ (n - 1) \<le> A" "C \<noteq> 0" "n \<noteq> 0"
  shows "normal_limbs (m(p + n := cy)) p (n + of_bool (cy \<noteq> 0))"
    "mpn_val (m(p + n := cy)) p (n + of_bool (cy \<noteq> 0)) = A * C"
proof -
  have "normal_limbs (m(p + n := cy)) p (n + of_bool (cy \<noteq> 0)) \<and> mpn_val (m(p + n := cy)) p (n + of_bool (cy \<noteq> 0)) = A * C"
  proof (cases "cy = 0")
    case True
    have "A \<le> A * C" using v(3) by simp
    with v(2) have "B ^ (n - 1) \<le> A * C" by linarith
    then have "normal_limbs (m(p + n := cy)) p n" using v(1) True by (intro normal_limbsI) simp
    with True v show ?thesis by simp
  next
    case False
    then have "normal_limbs (m(p + n := cy)) p (Suc n)" by (auto simp: normal_limbs_def)
    with False v show ?thesis by (simp add: mpn_val_snoc del: mpn_val.simps)
  qed
  then show "normal_limbs (m(p + n := cy)) p (n + of_bool (cy \<noteq> 0))"
    "mpn_val (m(p + n := cy)) p (n + of_bool (cy \<noteq> 0)) = A * C" by blast+
qed

lemma zero_stores: "heap_inv s V \<Longrightarrow> r \<in> V \<Longrightarrow> stores s V r 0 (set_size s r 0)"
  using write_result [of s V r "g_mem s" 0 0] heap_invD(5) [of s V r] by (simp add: result_at_def)

lemma mpz_mul_ui_stores:
  assumes h: "heap_inv s V" "r \<in> V" "u \<in> V" and fit: "\<bar>msize s u\<bar> < INT_MAX"
  obtains s' where "mpz_mul_ui s r u v = Inr s'" "stores s V r (mpz_val s u * int (unat v)) s'"
proof (cases "msize s u = 0 \<or> v = 0")
  case True
  then show ?thesis using zero_stores [OF h(1,2)]
    by (intro that [of "set_size s r 0"]) (auto simp: mpz_mul_ui_def Let_def mpz_val_def)
next
  case False
  define n where "n = abs_size s u"
  have n: "n \<ge> 1" "int n = \<bar>msize s u\<bar>" "nat \<bar>msize s u\<bar> = n" using False by (auto simp: n_def abs_size_def)
  from fit n have "int n + 1 \<le> INT_MAX" by simp
  from MPZ_REALLOC_grown [OF h(1,2) this] obtain s1 where
    s1: "MPZ_REALLOC s r (int n + 1) = Inr (mdata s1 r, s1)" and g: "grown s V r (int n + 1) s1" .
  note g' = grownD [OF g]
  have rm: "int n < room s1 r" using g'(3) by simp
  have io: "incr_ok (mdata s1 r) (mdata s1 u) n"
    using operand_incr_ok(1) [OF g'(1) h(2,3), of n] rm by (simp add: g'(5) n_def)
  obtain m cy where m: "mpn_mul_1 (g_mem s1) (mdata s1 r) (mdata s1 u) n v = Inr (m, cy)"
    "mpn_val m (mdata s1 r) n + B ^ n * unat cy = mpn_val (g_mem s1) (mdata s1 u) n * unat v"
    "unchanged (g_mem s1) m (mdata s1 r) n" by (rule mpn_mul_1_value [OF n(1) io])
  have A: "B ^ (n - 1) \<le> mpn_val (g_mem s1) (mdata s1 u) n"
    using normal_ge [OF heap_invD(6) [OF g'(1) h(3)]] False by (simp add: g'(5) n_def)
  have "unat v \<noteq> 0" "n \<noteq> 0" using False n(1) by (simp_all add: unat_eq_0)
  note res = product_result [OF m(2) A this]
  have "result_at s1 r (m(mdata s1 r + n := cy)) (int (n + of_bool (cy \<noteq> 0))) (\<bar>mpz_val s u\<bar> * int (unat v))"
    using res rm g'(7) [OF h(3)]
    by (intro result_atI frame_block_upd [OF frame_block [OF m(3) less_imp_le [OF rm]] rm])
      (simp_all add: mpz_val_abs n_def)
  note c = computedI [OF g h(2) this]
  have val: "mpz_val s u * int (unat v) = (if \<not> msize s u < 0 then \<bar>mpz_val s u\<bar> * int (unat v) else - (\<bar>mpz_val s u\<bar> * int (unat v)))"
    by (subst mpz_val_sign) simp
  have "0 < cy \<longleftrightarrow> cy \<noteq> 0" by (simp add: word_neq_0_conv)
  then have "mpz_mul_ui s r u v = Inr (set_size (s1\<lparr>g_mem := m(mdata s1 r + n := cy)\<rparr>) r
      (if \<not> msize s u < 0 then int (n + of_bool (cy \<noteq> 0)) else - int (n + of_bool (cy \<noteq> 0))))"
    using s1 m(1) False n by (simp add: mpz_mul_ui_def Let_def)
  then show ?thesis by (rule that [OF _ computed_sign [OF c val]])
qed

lemma mpz_mul_si_stores:
  assumes h: "heap_inv s V" "r \<in> V" "u \<in> V" and fit: "\<bar>msize s u\<bar> < INT_MAX" and v: "- (2 ^ 63) \<le> v" "v < 2 ^ 63"
  obtains s' where "mpz_mul_si s r u v = Inr s'" "stores s V r (mpz_val s u * v) s'"
proof (cases "v < 0")
  case True
  obtain s1 where s1: "mpz_mul_ui s r u (GMP_NEG_CAST v) = Inr s1" "stores s V r (mpz_val s u * int (unat (GMP_NEG_CAST v))) s1"
    by (rule mpz_mul_ui_stores [OF h fit])
  note d = storesD [OF s1(2)]
  obtain s2 where s2: "mpz_neg s1 r r = Inr s2" "stores s1 V r (- mpz_val s1 r) s2" by (rule mpz_neg_stores [OF d(1) h(2,2)])
  from stores_trans [OF s1(2) s2(2)] True s1(1) s2(1) d(3) [OF h(2)] GMP_NEG_CAST_value [OF v(1) True] that show ?thesis
    by (simp add: mpz_mul_si_def)
next
  case False
  obtain s1 where "mpz_mul_ui s r u (of_int v) = Inr s1" "stores s V r (mpz_val s u * int (unat (of_int v :: limb))) s1"
    by (rule mpz_mul_ui_stores [OF h fit])
  with False limb_of_int [of v] v that show ?thesis by (simp add: mpz_mul_si_def)
qed

section \<open>Local structures\<close>

lemma fields_top [simp]:
  "room (s\<lparr>g_top := g\<rparr>) = room s" "mdata (s\<lparr>g_top := g\<rparr>) = mdata s" "msize (s\<lparr>g_top := g\<rparr>) = msize s"
  "abs_size (s\<lparr>g_top := g\<rparr>) = abs_size s" "owners (s\<lparr>g_top := g\<rparr>) = owners s"
  by (simp_all add: fun_eq_iff room_def mdata_def msize_def abs_size_def owners_def)

lemma heap_inv_top: "heap_inv s V \<Longrightarrow> (\<And>x. x \<in> V \<Longrightarrow> x < g) \<Longrightarrow> heap_inv (s\<lparr>g_top := g\<rparr>) V"
  by (simp add: heap_inv_def blocks_ok_def mpz_ok_def)

lemma mpz_val_top [simp]: "mpz_val (s\<lparr>g_top := g\<rparr>) x = mpz_val s x"
  by (simp add: mpz_val_def)

text \<open>Entering a function with a local structure at \<open>g_top s\<close>, and leaving it.\<close>

lemma enter_local:
  assumes "heap_inv s V"
  shows "heap_inv (s\<lparr>g_top := Suc (g_top s)\<rparr>) V" "g_top s \<notin> V"
  using heap_invD(1) [OF assms] by (auto intro: heap_inv_top [OF assms] less_SucI)

lemma leave_local:
  assumes "heap_inv s V" "heap_inv s1 V" "\<And>x. x \<in> V \<Longrightarrow> mpz_val s1 x = (if x = r then v else mpz_val s x)"
  shows "stores s V r v (s1\<lparr>g_top := g_top s\<rparr>)"
  using assms(3) heap_inv_top [OF assms(2), of "g_top s"] heap_invD(1) [OF assms(1)] by (simp add: stores_def)

text \<open>Moving a result from a local structure to \<open>r\<close> with \<open>mpz_swap\<close> and \<open>mpz_clear\<close>.\<close>

lemma swap_clear:
  assumes h: "heap_inv s (insert t V)" "t \<notin> V" "r \<in> V"
  obtains s' where "mpz_clear (mpz_swap s r t) t = Inr s'" "heap_inv s' V" "g_top s' = g_top s"
    "\<And>x. x \<in> V \<Longrightarrow> mpz_val s' x = mpz_val s (if x = r then t else x)"
proof -
  note w = mpz_swap_inv [OF h(1), of r t]
  have "heap_inv (mpz_swap s r t) (insert t V)" using w(1) h(3) by simp
  from mpz_clear_inv [OF this h(2)] obtain s' where
    "mpz_clear (mpz_swap s r t) t = Inr s'" "heap_inv s' V" "g_top s' = g_top (mpz_swap s r t)"
    "\<And>x. mpz_val s' x = mpz_val (mpz_swap s r t) x" by blast
  then show ?thesis using w(2,3) h(2,3) by (intro that [of s']) auto
qed

section \<open>Multiplication\<close>

lemma mul_result:
  assumes v: "mpn_val m p n = A * C" "B ^ (i - 1) \<le> A" "B ^ (j - 1) \<le> C" "n = i + j" "1 \<le> i" "1 \<le> j"
  shows "normal_limbs m p (n - of_bool (m (p + n - 1) = 0))" "mpn_val m p (n - of_bool (m (p + n - 1) = 0)) = A * C"
proof -
  define k where "k = (i - 1) + (j - 1)"
  then have k: "n = Suc (Suc k)" "k = (i - 1) + (j - 1)" using v(4-6) by auto
  have lo: "B ^ k \<le> A * C" unfolding k(2) power_add by (intro mult_mono v(2,3)) auto
  have "normal_limbs m p (n - of_bool (m (p + n - 1) = 0)) \<and> mpn_val m p (n - of_bool (m (p + n - 1) = 0)) = A * C"
  proof (cases "m (p + n - 1) = 0")
    case True
    then have "mpn_val m p (Suc k) = A * C" using v(1) unfolding k(1) by (subst (asm) mpn_val_snoc) simp
    with lo True k(1) show ?thesis using normal_limbsI [of "Suc k" m p] by simp
  next
    case False
    with v(1) show ?thesis by (simp add: normal_limbs_def)
  qed
  then show "normal_limbs m p (n - of_bool (m (p + n - 1) = 0))" "mpn_val m p (n - of_bool (m (p + n - 1) = 0)) = A * C" by blast+
qed

lemma block_apart:
  assumes "heap_inv s V" "t \<in> V" "x \<in> V" "t \<noteq> x" "msize s x \<noteq> 0" "int n \<le> room s t" "n \<ge> 1"
  shows "disjoint (mdata s t) n (mdata s x) (abs_size s x)"
proof -
  have "int (abs_size s x) \<le> room s x" "abs_size s x \<ge> 1"
    using abs_size_room [OF assms(1,3)] assms(5) by (auto simp: abs_size_def)
  then show ?thesis using block_disjoint [OF assms(1-4)] assms(6,7)
    by (auto simp: block_def span_disjoint disjoint_def)
qed

text \<open>The product of the limbs of \<open>u\<close> and \<open>v\<close> into the block of a fresh structure \<open>t\<close>.\<close>

lemma mpn_mul_result:
  assumes h: "heap_inv s W" "t \<in> W" "u \<in> W" "v \<in> W" "t \<noteq> u" "t \<noteq> v" "msize s u \<noteq> 0" "msize s v \<noteq> 0"
    and rm: "room s t = int (abs_size s u + abs_size s v)" and le: "abs_size s v \<le> abs_size s u"
  obtains m c where "mpn_mul (g_mem s) (mdata s t) (mdata s u) (abs_size s u) (mdata s v) (abs_size s v) = Inr (m, c)"
    "result_at s t m (int (abs_size s u + abs_size s v) - of_bool (m (mdata s t + (abs_size s u + abs_size s v - 1)) = 0))
       (\<bar>mpz_val s u\<bar> * \<bar>mpz_val s v\<bar>)"
proof -
  define i j where "i = abs_size s u" and "j = abs_size s v"
  have ij: "1 \<le> i" "1 \<le> j" "j \<le> i" using h(7,8) le by (auto simp: i_def j_def abs_size_def)
  have dis: "disjoint (mdata s t) (i + j) (mdata s u) i" "disjoint (mdata s t) (i + j) (mdata s v) j"
    using block_apart [OF h(1,2,3,5,7), of "i + j"] block_apart [OF h(1,2,4,6,8), of "i + j"] ij rm by (simp_all add: i_def j_def)
  obtain m c where m: "mpn_mul (g_mem s) (mdata s t) (mdata s u) i (mdata s v) j = Inr (m, c)"
    "mpn_val m (mdata s t) (i + j) = mpn_val (g_mem s) (mdata s u) i * mpn_val (g_mem s) (mdata s v) j"
    "unchanged (g_mem s) m (mdata s t) (i + j)"
    by (rule mpn_mul_value [OF ij(3,2) dis])
  have lo: "B ^ (i - 1) \<le> mpn_val (g_mem s) (mdata s u) i" "B ^ (j - 1) \<le> mpn_val (g_mem s) (mdata s v) j"
    using normal_ge [OF heap_invD(6) [OF h(1,3)]] normal_ge [OF heap_invD(6) [OF h(1,4)]] h(7,8) by (simp_all add: i_def j_def)
  note res = mul_result [OF m(2) lo refl ij(1,2)]
  define k where "k = i + j - of_bool (m (mdata s t + (i + j) - 1) = 0)"
  have "result_at s t m (int k) (\<bar>mpz_val s u\<bar> * \<bar>mpz_val s v\<bar>)"
    using res rm frame_block [OF m(3)] by (intro result_atI) (simp_all add: mpz_val_abs i_def j_def k_def)
  moreover have "int k = int (i + j) - of_bool (m (mdata s t + (i + j - 1)) = 0)"
    using ij by (simp add: k_def of_nat_diff)
  ultimately show ?thesis using m(1) that by (simp add: i_def j_def)
qed

lemma result_sign: "result_at s r m k v \<Longrightarrow> w = (if p then - v else v) \<Longrightarrow> result_at s r m (if p then - k else k) w"
  using result_at_neg by auto

lemma mult_signs:
  fixes x y :: int
  assumes "x = (if p then a else - a)" "y = (if q then b else - b)"
  shows "x * y = (if p = q then a * b else - (a * b))"
  using assms by simp

lemma mpz_val_mult:
  "mpz_val s u * mpz_val s v =
    (if (msize s u XOR msize s v) < 0 then - (\<bar>mpz_val s u\<bar> * \<bar>mpz_val s v\<bar>) else \<bar>mpz_val s u\<bar> * \<bar>mpz_val s v\<bar>)"
  unfolding mult_signs [OF mpz_val_sign mpz_val_sign, of s u s v] by (auto simp: not_le)

lemma mpz_mul_stores:
  assumes h: "heap_inv s V" "r \<in> V" "u \<in> V" "v \<in> V" and fit: "\<bar>msize s u\<bar> + \<bar>msize s v\<bar> \<le> INT_MAX"
  obtains s' where "mpz_mul s r u v = Inr s'" "stores s V r (mpz_val s u * mpz_val s v) s'"
proof (cases "msize s u = 0 \<or> msize s v = 0")
  case True
  then show ?thesis using zero_stores [OF h(1,2)]
    by (intro that [of "set_size s r 0"]) (auto simp: mpz_mul_def Let_def mpz_val_def)
next
  case False
  define t s0 n sign where "t = g_top s" and "s0 = s\<lparr>g_top := Suc (g_top s)\<rparr>"
    and "n = abs_size s u + abs_size s v" and "sign = ((msize s u XOR msize s v) < 0)"
  have e: "heap_inv s0 V" "t \<notin> V" using enter_local [OF h(1)] by (simp_all add: t_def s0_def)
  have n: "1 \<le> n" "int n \<le> INT_MAX" "\<bar>msize s u\<bar> + \<bar>msize s v\<bar> = int n"
    using False fit by (auto simp: n_def abs_size_def)
  have "t < g_top s0" by (simp add: t_def s0_def)
  from mpz_init2_inv [OF e(1,2) this n(1,2)] obtain s1 where
    s1: "mpz_init2 s0 t (of_int (int n) * of_nat GMP_LIMB_BITS) = Inr s1" "heap_inv s1 (insert t V)" "room s1 t = int n"
      "\<And>x. x \<in> V \<Longrightarrow> mpz_val s1 x = mpz_val s0 x" "\<And>x. x \<in> V \<Longrightarrow> g_mpz s1 x = g_mpz s0 x" "g_mem s1 = g_mem s0" by metis
  have eq: "msize s1 x = msize s x" "abs_size s1 x = abs_size s x" "mpz_val s1 x = mpz_val s x" if "x \<in> V" for x
    using s1(4,5) [OF that] by (simp_all add: msize_def abs_size_def s0_def)
  have pre: "heap_inv s1 (insert t V)" "t \<in> insert t V" "u \<in> insert t V" "v \<in> insert t V" "t \<noteq> u" "t \<noteq> v"
    "msize s1 u \<noteq> 0" "msize s1 v \<noteq> 0" "room s1 t = int (abs_size s1 u + abs_size s1 v)"
    using e(2) h(3,4) False s1(2,3) by (auto simp: eq n_def)
  obtain m c where mul: "(if \<bar>msize s u\<bar> \<ge> \<bar>msize s v\<bar>
      then mpn_mul (g_mem s1) (mdata s1 t) (mdata s1 u) (abs_size s u) (mdata s1 v) (abs_size s v)
      else mpn_mul (g_mem s1) (mdata s1 t) (mdata s1 v) (abs_size s v) (mdata s1 u) (abs_size s u)) = Inr (m, c)"
    and res: "result_at s1 t m (int n - of_bool (m (mdata s1 t + (n - 1)) = 0)) (\<bar>mpz_val s u\<bar> * \<bar>mpz_val s v\<bar>)"
  proof (cases "\<bar>msize s u\<bar> \<ge> \<bar>msize s v\<bar>")
    case True
    then have le: "abs_size s1 v \<le> abs_size s1 u" by (simp add: eq h abs_size_def [of s])
    obtain m c where
      "mpn_mul (g_mem s1) (mdata s1 t) (mdata s1 u) (abs_size s1 u) (mdata s1 v) (abs_size s1 v) = Inr (m, c)"
      "result_at s1 t m (int (abs_size s1 u + abs_size s1 v) - of_bool (m (mdata s1 t + (abs_size s1 u + abs_size s1 v - 1)) = 0))
         (\<bar>mpz_val s1 u\<bar> * \<bar>mpz_val s1 v\<bar>)" by (rule mpn_mul_result [OF pre(1-8) _ le]) (use pre(9) in simp)
    with True show ?thesis by (intro that) (simp_all add: eq h n_def)
  next
    case False
    then have le: "abs_size s1 u \<le> abs_size s1 v" by (simp add: eq h abs_size_def [of s])
    obtain m c where
      "mpn_mul (g_mem s1) (mdata s1 t) (mdata s1 v) (abs_size s1 v) (mdata s1 u) (abs_size s1 u) = Inr (m, c)"
      "result_at s1 t m (int (abs_size s1 v + abs_size s1 u) - of_bool (m (mdata s1 t + (abs_size s1 v + abs_size s1 u - 1)) = 0))
         (\<bar>mpz_val s1 v\<bar> * \<bar>mpz_val s1 u\<bar>)" by (rule mpn_mul_result [OF pre(1,2,4,3,6,5,8,7) _ le]) (use pre(9) in simp)
    with False show ?thesis by (intro that) (simp_all add: eq h n_def ac_simps)
  qed
  define k where "k = int n - of_bool (m (mdata s1 t + (n - 1)) = 0)"
  define s2 where "s2 = set_size (s1\<lparr>g_mem := m\<rparr>) t (if sign then - k else k)"
  have "stores s1 (insert t V) t (mpz_val s u * mpz_val s v) s2"
    unfolding s2_def by (intro write_result [OF s1(2)] result_sign [OF res [folded k_def]]) (simp_all add: sign_def mpz_val_mult [of s u v])
  note d = storesD [OF this]
  from swap_clear [OF d(1) e(2) h(2)] obtain s3 where
    s3: "mpz_clear (mpz_swap s2 r t) t = Inr s3" "heap_inv s3 V" "\<And>x. x \<in> V \<Longrightarrow> mpz_val s3 x = mpz_val s2 (if x = r then t else x)" by metis
  have "mpz_val s3 x = (if x = r then mpz_val s u * mpz_val s v else mpz_val s x)" if "x \<in> V" for x
    using s3(3) [OF that] d(3,4) eq(3) that e(2) by auto
  note l = leave_local [OF h(1) s3(2) this]
  have nn: "nat \<bar>msize s x\<bar> = abs_size s x" for x by (simp add: abs_size_def)
  have s0t: "s\<lparr>g_top := Suc t\<rparr> = s0" by (simp add: s0_def t_def)
  have k': "k = int n - of_bool (g_mem (s1\<lparr>g_mem := m\<rparr>) (mdata s1 t + (n - 1)) = 0)" by (simp add: k_def)
  have n1: "nat (int n - 1) = n - 1" by simp
  have "mpz_mul s r u v = Inr (s3\<lparr>g_top := g_top s\<rparr>)"
    unfolding mpz_mul_def with_local_def Let_def GMP_ABS_abs n(3) nn n1 t_def [symmetric] s0t sign_def [symmetric] if_not_P [OF False]
      s1(1) rbind_Inr mul prod.case s3(1) [unfolded s2_def k'] ..
  then show ?thesis by (rule that [OF _ l])
qed

end
