(* ===== verification/Mpz_ops.thy ===== *)
theory Mpz_ops
  imports Mpz_mul
begin

text \<open>
  The contract of the integer functions. \<open>limbs v\<close> is the number of limbs of the integer
  \<open>v\<close>; it bounds the sizes, which are C integers, in terms of the values alone. The locale
  \<open>integer_op\<close> is the interface of a function of two operands: in a state that satisfies
  the invariant it returns, stores a function of the values of its operands in its result
  and keeps everything else. What is built on such functions, multiplication with
  accumulation and sequences of calls, is shown from the contract.
\<close>

section \<open>Sizes of integers\<close>

definition limbs :: "int \<Rightarrow> nat" where
  "limbs v = (LEAST k. \<bar>v\<bar> < int B ^ k)"

lemma int_B_gt_1: "1 < int B"
  by (simp add: B_def)

lemma limbs_exists: "\<exists>k. \<bar>v\<bar> < int B ^ k"
proof -
  have "nat \<bar>v\<bar> < B ^ nat \<bar>v\<bar>" by (rule power_gt_expt) (simp add: B_def)
  then have "\<bar>v\<bar> < int (B ^ nat \<bar>v\<bar>)" by linarith
  then show ?thesis by (metis of_nat_power)
qed

lemma limbs_le_iff: "limbs v \<le> k \<longleftrightarrow> \<bar>v\<bar> < int B ^ k"
proof
  have l: "\<bar>v\<bar> < int B ^ limbs v" unfolding limbs_def by (rule LeastI_ex [OF limbs_exists])
  assume "limbs v \<le> k"
  then have "int B ^ limbs v \<le> int B ^ k" using int_B_gt_1 by (intro power_increasing) auto
  with l show "\<bar>v\<bar> < int B ^ k" by simp
qed (simp add: limbs_def Least_le)

lemma limbs_abs_le: "\<bar>v\<bar> \<le> \<bar>w\<bar> \<Longrightarrow> limbs v \<le> limbs w"
  using limbs_le_iff [of w "limbs w"] by (simp add: limbs_le_iff)

lemma limbs_minus [simp]: "limbs (- v) = limbs v" "limbs \<bar>v\<bar> = limbs v"
  by (simp_all add: limbs_def)

lemma limbs_0 [simp]: "limbs 0 = 0"
  using limbs_le_iff [of 0 0] by simp

lemma limbs_add: "limbs (v + w) \<le> Suc (max (limbs v) (limbs w))"
proof -
  define k where "k = max (limbs v) (limbs w)"
  have "\<bar>v\<bar> < int B ^ k" "\<bar>w\<bar> < int B ^ k" by (simp_all add: k_def flip: limbs_le_iff)
  then have "\<bar>v + w\<bar> < 2 * int B ^ k" by linarith
  also have "\<dots> \<le> int B * int B ^ k" using int_B_gt_1 by (intro mult_right_mono) auto
  finally show ?thesis by (simp add: limbs_le_iff k_def)
qed

lemma limbs_mult: "limbs (v * w) \<le> limbs v + limbs w"
proof -
  have "\<bar>v\<bar> < int B ^ limbs v" "\<bar>w\<bar> < int B ^ limbs w" by (simp_all flip: limbs_le_iff)
  then have "\<bar>v\<bar> * \<bar>w\<bar> < int B ^ limbs v * int B ^ limbs w" by (intro mult_strict_mono) auto
  then show ?thesis by (simp add: limbs_le_iff abs_mult power_add)
qed

lemma limbs_limb: "limbs (int (unat (x :: limb))) \<le> 1"
  by (simp add: limbs_le_iff unat_less_B)

lemma abs_size_limbs: "heap_inv s V \<Longrightarrow> x \<in> V \<Longrightarrow> abs_size s x = limbs (mpz_val s x)"
  using abs_size_le_iff [of s V x] limbs_le_iff [of "mpz_val s x"] by (meson order_antisym order_refl)

lemma msize_limbs: "heap_inv s V \<Longrightarrow> x \<in> V \<Longrightarrow> \<bar>msize s x\<bar> = int (limbs (mpz_val s x))"
  using abs_size_limbs [of s V x] by (simp add: abs_size_def)

section \<open>Functions of two operands\<close>

definition add_fits :: "int \<Rightarrow> int \<Rightarrow> bool" where
  "add_fits v w \<longleftrightarrow> int (limbs v) < INT_MAX \<and> int (limbs w) < INT_MAX"

definition mul_fits :: "int \<Rightarrow> int \<Rightarrow> bool" where
  "mul_fits v w \<longleftrightarrow> int (limbs v) + int (limbs w) \<le> INT_MAX"

locale integer_op =
  fixes fn :: "gmp \<Rightarrow> nat \<Rightarrow> nat \<Rightarrow> nat \<Rightarrow> gmp result" and F :: "int \<Rightarrow> int \<Rightarrow> int" and fits :: "int \<Rightarrow> int \<Rightarrow> bool"
  assumes op_stores: "heap_inv s V \<Longrightarrow> r \<in> V \<Longrightarrow> a \<in> V \<Longrightarrow> b \<in> V \<Longrightarrow> fits (mpz_val s a) (mpz_val s b) \<Longrightarrow>
    \<exists>s'. fn s r a b = Inr s' \<and> stores s V r (F (mpz_val s a) (mpz_val s b)) s'"
begin

text \<open>The value may be computed into a local structure first.\<close>

lemma accumulate_stores:
  assumes h: "heap_inv s V" "r \<in> V" and fit: "fits (mpz_val s r) w"
    and mul: "\<And>s1 t. heap_inv s1 (insert t V) \<Longrightarrow> (\<And>x. x \<in> V \<Longrightarrow> mpz_val s1 x = mpz_val s x) \<Longrightarrow>
      \<exists>s2. mul s1 t = Inr s2 \<and> stores s1 (insert t V) t w s2"
  shows "\<exists>s'. accumulate mul fn s r = Inr s' \<and> stores s V r (F (mpz_val s r) w) s'"
proof -
  define t s0 where "t = g_top s" and "s0 = s\<lparr>g_top := Suc (g_top s)\<rparr>"
  have e: "heap_inv s0 V" "t \<notin> V" "t < g_top s0" using enter_local [OF h(1)] by (simp_all add: t_def s0_def)
  note i = mpz_init_inv [OF e]
  have "\<And>x. x \<in> V \<Longrightarrow> mpz_val (mpz_init s0 t) x = mpz_val s x" using i(3) by (simp add: s0_def)
  from mul [OF i(1) this] obtain s2 where
    s2: "mul (mpz_init s0 t) t = Inr s2" "stores (mpz_init s0 t) (insert t V) t w s2" by blast
  note d2 = storesD [OF s2(2)]
  have v2: "mpz_val s2 t = w" "\<And>x. x \<in> V \<Longrightarrow> mpz_val s2 x = mpz_val s x"
    using d2(3,4) i(3) e(2) by (auto simp: s0_def)
  obtain s3 where s3: "fn s2 r r t = Inr s3" "stores s2 (insert t V) r (F (mpz_val s r) w) s3"
    using op_stores [OF d2(1), of r r t] h(2) fit v2 by auto
  note d3 = storesD [OF s3(2)]
  obtain s4 where s4: "mpz_clear s3 t = Inr s4" "heap_inv s4 V" "\<And>x. mpz_val s4 x = mpz_val s3 x"
    using mpz_clear_inv [OF d3(1) e(2)] by metis
  have "stores s V r (F (mpz_val s r) w) (s4\<lparr>g_top := g_top s\<rparr>)"
    by (rule leave_local [OF h(1) s4(2)]) (use s4(3) d3(3,4) v2 h(2) e(2) in auto)
  moreover have "accumulate mul fn s r = Inr (s4\<lparr>g_top := g_top s\<rparr>)"
    using s2(1) s3(1) s4(1) by (simp add: accumulate_def with_local_def t_def s0_def)
  ultimately show ?thesis by blast
qed

end

interpretation addition: integer_op mpz_add "\<lambda>v w. v + w" add_fits
proof
  fix s V r a b
  assume "heap_inv s V" "r \<in> V" "a \<in> V" "b \<in> V" "add_fits (mpz_val s a) (mpz_val s b)"
  then show "\<exists>s'. mpz_add s r a b = Inr s' \<and> stores s V r (mpz_val s a + mpz_val s b) s'"
    using mpz_add_stores [of s V r a b] by (metis add_fits_def msize_limbs)
qed

interpretation subtraction: integer_op mpz_sub "\<lambda>v w. v - w" add_fits
proof
  fix s V r a b
  assume "heap_inv s V" "r \<in> V" "a \<in> V" "b \<in> V" "add_fits (mpz_val s a) (mpz_val s b)"
  then show "\<exists>s'. mpz_sub s r a b = Inr s' \<and> stores s V r (mpz_val s a - mpz_val s b) s'"
    using mpz_sub_stores [of s V r a b] by (metis add_fits_def msize_limbs)
qed

interpretation multiplication: integer_op mpz_mul "\<lambda>v w. v * w" mul_fits
proof
  fix s V r a b
  assume "heap_inv s V" "r \<in> V" "a \<in> V" "b \<in> V" "mul_fits (mpz_val s a) (mpz_val s b)"
  then show "\<exists>s'. mpz_mul s r a b = Inr s' \<and> stores s V r (mpz_val s a * mpz_val s b) s'"
    using mpz_mul_stores [of s V r a b] by (metis mul_fits_def msize_limbs)
qed

section \<open>Multiplication with accumulation\<close>

lemma mul_into_local:
  assumes "u \<in> V" "v \<in> V" "mul_fits (mpz_val s u) (mpz_val s v)"
    and "heap_inv s1 (insert t V)" "\<And>x. x \<in> V \<Longrightarrow> mpz_val s1 x = mpz_val s x"
  shows "\<exists>s2. mpz_mul s1 t u v = Inr s2 \<and> stores s1 (insert t V) t (mpz_val s u * mpz_val s v) s2"
  using multiplication.op_stores [OF assms(4), of t u v] assms by simp

lemma mul_ui_into_local:
  assumes "u \<in> V" "int (limbs (mpz_val s u)) < INT_MAX"
    and "heap_inv s1 (insert t V)" "\<And>x. x \<in> V \<Longrightarrow> mpz_val s1 x = mpz_val s x"
  shows "\<exists>s2. mpz_mul_ui s1 t u v = Inr s2 \<and> stores s1 (insert t V) t (mpz_val s u * int (unat v)) s2"
  using mpz_mul_ui_stores [OF assms(3), of t u v] msize_limbs [OF assms(3), of u] assms by (metis insertCI)

lemma mpz_addmul_stores:
  assumes "heap_inv s V" "r \<in> V" "u \<in> V" "v \<in> V" "mul_fits (mpz_val s u) (mpz_val s v)"
    "add_fits (mpz_val s r) (mpz_val s u * mpz_val s v)"
  shows "\<exists>s'. mpz_addmul s r u v = Inr s' \<and> stores s V r (mpz_val s r + mpz_val s u * mpz_val s v) s'"
  unfolding mpz_addmul_def by (rule addition.accumulate_stores [OF assms(1,2,6) mul_into_local [OF assms(3-5)]])

lemma mpz_submul_stores:
  assumes "heap_inv s V" "r \<in> V" "u \<in> V" "v \<in> V" "mul_fits (mpz_val s u) (mpz_val s v)"
    "add_fits (mpz_val s r) (mpz_val s u * mpz_val s v)"
  shows "\<exists>s'. mpz_submul s r u v = Inr s' \<and> stores s V r (mpz_val s r - mpz_val s u * mpz_val s v) s'"
  unfolding mpz_submul_def by (rule subtraction.accumulate_stores [OF assms(1,2,6) mul_into_local [OF assms(3-5)]])

lemma mpz_addmul_ui_stores:
  assumes "heap_inv s V" "r \<in> V" "u \<in> V" "int (limbs (mpz_val s u)) < INT_MAX"
    "add_fits (mpz_val s r) (mpz_val s u * int (unat v))"
  shows "\<exists>s'. mpz_addmul_ui s r u v = Inr s' \<and> stores s V r (mpz_val s r + mpz_val s u * int (unat v)) s'"
  unfolding mpz_addmul_ui_def by (rule addition.accumulate_stores [OF assms(1,2,5) mul_ui_into_local [OF assms(3,4)]])

lemma mpz_submul_ui_stores:
  assumes "heap_inv s V" "r \<in> V" "u \<in> V" "int (limbs (mpz_val s u)) < INT_MAX"
    "add_fits (mpz_val s r) (mpz_val s u * int (unat v))"
  shows "\<exists>s'. mpz_submul_ui s r u v = Inr s' \<and> stores s V r (mpz_val s r - mpz_val s u * int (unat v)) s'"
  unfolding mpz_submul_ui_def by (rule subtraction.accumulate_stores [OF assms(1,2,5) mul_ui_into_local [OF assms(3,4)]])

end
