(* ===== verification/Mpz_shift.thy ===== *)
theory Mpz_shift
  imports Mpz_ops
begin

text \<open>Multiplication of an integer by a power of two.\<close>

lemma shifted_result:
  assumes "normal_limbs m (p + l) k" "k \<noteq> 0"
  shows "normal_limbs (mpn_zero m p l) p (l + k)" "mpn_val (mpn_zero m p l) p (l + k) = B ^ l * mpn_val m (p + l) k"
proof -
  note z = mpn_zero_value [of m p l]
  have same: "mpn_zero m p l (p + l + i) = m (p + l + i)" for i using z by (auto simp: unchanged_def)
  then have v: "mpn_val (mpn_zero m p l) (p + l) k = mpn_val m (p + l) k" by (intro mpn_val_limbs) simp
  show "mpn_val (mpn_zero m p l) p (l + k) = B ^ l * mpn_val m (p + l) k" using z v by (simp add: mpn_val_append)
  show "normal_limbs (mpn_zero m p l) p (l + k)"
    using assms same [of "k - 1"] by (simp add: normal_limbs_def add.assoc)
qed

lemma power_split: "2 ^ b = B ^ (b div GMP_LIMB_BITS) * 2 ^ (b mod GMP_LIMB_BITS)"
proof -
  have "(2::nat) ^ b = 2 ^ (64 * (b div 64) + b mod 64)" by simp
  also have "\<dots> = B ^ (b div 64) * 2 ^ (b mod 64)" unfolding power_add power_mult by (simp add: B_def)
  finally show ?thesis by (simp add: GMP_LIMB_BITS_def)
qed

lemma operand_decr_shift:
  assumes h: "heap_inv s V" "r \<in> V" "x \<in> V" and n: "int (n + l) \<le> room s r" "n \<le> abs_size s x"
  shows "decr_ok (mdata s r + l) (mdata s x) n"
proof (cases "x = r \<or> n = 0")
  case False
  then have "block s r \<inter> block s x = {}" using block_disjoint [OF h] by auto
  moreover have "1 \<le> nat (room s x)" "1 \<le> nat (room s r)" "int n \<le> room s x"
    using False n abs_size_room [OF h(1,3)] by auto
  ultimately show ?thesis using n by (auto simp: block_def span_disjoint decr_ok_def)
qed (auto simp: decr_ok_def)

text \<open>The limbs of \<open>u\<close> shifted left by \<open>sh < 64\<close> bits into the block of \<open>r\<close>, \<open>l\<close> limbs up.\<close>

definition shift_up :: "mem \<Rightarrow> nat \<Rightarrow> nat \<Rightarrow> nat \<Rightarrow> nat \<Rightarrow> nat \<Rightarrow> (mem \<times> int) result" where
  "shift_up m rp l up n sh =
     (if sh > 0
      then rbind (mpn_lshift m (rp + l) up n sh) (\<lambda>(m, cy).
             Inr (m(rp + (n + l) := cy), int (n + l + 1) - of_bool (cy = 0)))
      else Inr (mpn_copyd m (rp + l) up n, int (n + l)))"

lemma shift_up_value:
  assumes n: "n \<noteq> 0" "sh < 64" "decr_ok (rp + l) up n" "B ^ (n - 1) \<le> mpn_val m up n"
  obtains m' k where "shift_up m rp l up n sh = Inr (m', int (l + k))" "k \<noteq> 0" "normal_limbs m' (rp + l) k"
    "mpn_val m' (rp + l) k = mpn_val m up n * 2 ^ sh" "frame m m' (span rp (n + l + of_bool (sh > 0)))"
    "k \<le> n + of_bool (sh > 0)"
proof (cases "sh > 0")
  case True
  have "n \<ge> 1" "sh \<ge> 1" using n(1) True by auto
  from mpn_lshift_value [OF this n(2,3)] obtain m1 cy where
    m: "mpn_lshift m (rp + l) up n sh = Inr (m1, cy)" "mpn_val m1 (rp + l) n + B ^ n * unat cy = mpn_val m up n * 2 ^ sh"
      "unchanged m m1 (rp + l) n" .
  note res = product_result [OF m(2) n(4) _ n(1)]
  have "frame m (m1(rp + l + n := cy)) (span rp (n + l + 1))" using m(3) by (auto simp: unchanged_def frame_def)
  then show ?thesis
    using True m(1) res n(1) by (intro that [of "m1(rp + l + n := cy)" "n + of_bool (cy \<noteq> 0)"]) (simp_all add: shift_up_def ac_simps)
next
  case False
  note c = mpn_copyd_limbs [OF n(3), of m]
  then have v: "mpn_val (mpn_copyd m (rp + l) up n) (rp + l) n = mpn_val m up n" by (intro mpn_val_limbs) simp
  have "frame m (mpn_copyd m (rp + l) up n) (span rp (n + l))" using c by (auto simp: unchanged_def frame_def)
  with False v n show ?thesis
    by (intro that [of "mpn_copyd m (rp + l) up n" n]) (auto simp: shift_up_def ac_simps intro!: normal_limbsI)
qed

lemma mpz_mul_2exp_shift_up:
  assumes "msize s u \<noteq> 0"
  shows "mpz_mul_2exp s r u bits =
    rbind (MPZ_REALLOC s r (int (abs_size s u + unat bits div GMP_LIMB_BITS + of_bool (unat bits mod GMP_LIMB_BITS > 0)))) (\<lambda>(rp, s1).
    rbind (shift_up (g_mem s1) rp (unat bits div GMP_LIMB_BITS) (mdata s1 u) (abs_size s u) (unat bits mod GMP_LIMB_BITS)) (\<lambda>(m, k).
      Inr (set_size (s1\<lparr>g_mem := mpn_zero m rp (unat bits div GMP_LIMB_BITS)\<rparr>) r (if msize s1 u < 0 then - k else k))))"
proof -
  have a: "\<bar>msize s u\<bar> = int (abs_size s u)" by (simp add: abs_size_def)
  show ?thesis
    using assms unfolding mpz_mul_2exp_def Let_def shift_up_def GMP_ABS_abs a
    by (cases "unat bits mod GMP_LIMB_BITS > 0") (simp_all add: nat_add_distrib rbind_assoc split_beta ac_simps cong: if_cong)
qed

lemma mpz_mul_2exp_stores:
  assumes h: "heap_inv s V" "r \<in> V" "u \<in> V"
    and fit: "\<bar>msize s u\<bar> + int (unat bits div GMP_LIMB_BITS) < INT_MAX"
  obtains s' where "mpz_mul_2exp s r u bits = Inr s'" "stores s V r (mpz_val s u * 2 ^ unat bits) s'"
proof (cases "msize s u = 0")
  case True
  then show ?thesis using zero_stores [OF h(1,2)]
    by (intro that [of "set_size s r 0"]) (auto simp: mpz_mul_2exp_def Let_def mpz_val_def)
next
  case False
  define l sh n where "l = unat bits div GMP_LIMB_BITS" and "sh = unat bits mod GMP_LIMB_BITS" and "n = abs_size s u"
  have n: "n \<noteq> 0" "\<bar>msize s u\<bar> = int n" "nat \<bar>msize s u\<bar> = n" "sh < 64" using False by (auto simp: n_def abs_size_def sh_def GMP_LIMB_BITS_def)
  define rn where "rn = n + l + of_bool (sh > 0)"
  have "int rn \<le> INT_MAX" using fit n(2) by (simp add: rn_def l_def)
  from MPZ_REALLOC_grown [OF h(1,2) this] obtain s1 where
    s1: "MPZ_REALLOC s r (int rn) = Inr (mdata s1 r, s1)" and g: "grown s V r (int rn) s1" .
  note g' = grownD [OF g]
  have dok: "decr_ok (mdata s1 r + l) (mdata s1 u) n"
    using g'(3) by (intro operand_decr_shift [OF g'(1) h(2,3)]) (simp_all add: g'(5) n_def [symmetric] rn_def split: split_of_bool_asm)
  have lo: "B ^ (n - 1) \<le> mpn_val (g_mem s1) (mdata s1 u) n"
    using normal_ge [OF heap_invD(6) [OF g'(1) h(3)]] False by (simp add: g'(5) n_def)
  obtain m k where m: "shift_up (g_mem s1) (mdata s1 r) l (mdata s1 u) n sh = Inr (m, int (l + k))" "k \<noteq> 0"
    "normal_limbs m (mdata s1 r + l) k" "mpn_val m (mdata s1 r + l) k = mpn_val (g_mem s1) (mdata s1 u) n * 2 ^ sh"
    "frame (g_mem s1) m (span (mdata s1 r) rn)" "k \<le> n + of_bool (sh > 0)"
    using shift_up_value [OF n(1,4) dok lo] unfolding rn_def by metis
  note z = shifted_result [OF m(3,2)] mpn_zero_value [of m "mdata s1 r" l]
  define m' where "m' = mpn_zero m (mdata s1 r) l"
  have "frame (g_mem s1) m' (span (mdata s1 r) rn)"
    using m(5) z(3) by (auto simp: m'_def frame_def unchanged_def rn_def)
  then have fr: "frame (g_mem s1) m' (block s1 r \<union> {g_next s1..})"
    by (rule frame_mono) (use g'(3) in \<open>auto simp: block_def\<close>)
  have "\<bar>mpz_val s u\<bar> * 2 ^ unat bits = int (mpn_val (g_mem s) (mdata s u) n * 2 ^ unat bits)" by (simp add: mpz_val_abs n_def)
  also have "\<dots> = int (mpn_val m' (mdata s1 r) (l + k))"
    using z(2) m(4) g'(7) [OF h(3)] by (simp only: m'_def power_split [of "unat bits"] l_def sh_def n_def) (simp add: ac_simps)
  finally have val: "\<bar>mpz_val s u\<bar> * 2 ^ unat bits = int (mpn_val m' (mdata s1 r) (l + k))" .
  have km: "int (l + k) \<le> room s1 r" using g'(3) m(6) by (cases "sh > 0") (simp_all add: rn_def)
  have "result_at s1 r m' (int (l + k)) (\<bar>mpz_val s u\<bar> * 2 ^ unat bits)"
    using z(1) by (intro result_atI fr val km) (simp add: m'_def)
  note c = computedI [OF g h(2) this]
  have sg: "mpz_val s u * 2 ^ unat bits = (if \<not> msize s u < 0 then \<bar>mpz_val s u\<bar> * 2 ^ unat bits else - (\<bar>mpz_val s u\<bar> * 2 ^ unat bits))"
    by (subst mpz_val_sign) simp
  have "mpz_mul_2exp s r u bits = Inr (set_size (s1\<lparr>g_mem := m'\<rparr>) r (if \<not> msize s u < 0 then int (l + k) else - int (l + k)))"
    using s1 m(1) g'(4) mpz_mul_2exp_shift_up [OF False, of r bits, folded l_def sh_def n_def, folded rn_def] by (simp add: m'_def)
  then show ?thesis by (rule that [OF _ computed_sign [OF c sg]])
qed

end
