(* ===== verification/Mpz_div_value.thy ===== *)
theory Mpz_div_value
  imports Mpz_shift
begin

text \<open>
  Division of integers. The quotient is the one of the rounding mode, the remainder
  satisfies the division equation, and the function returns whether it is exact, for all
  combinations of operands and results that are the same structure, except quotient and
  remainder.
\<close>

section \<open>Two results\<close>

text \<open>The limbs of the quotient and of the remainder are written by one call.\<close>

lemma write_two_results:
  assumes h: "heap_inv s W" "x \<in> W" "y \<in> W" "x \<noteq> y"
    and fr: "frame (g_mem s) m (block s x \<union> block s y \<union> {g_next s..})"
    and kx: "\<bar>k\<bar> \<le> room s x" "normal_limbs m (mdata s x) (nat \<bar>k\<bar>)"
    and ky: "\<bar>j\<bar> \<le> room s y" "normal_limbs m (mdata s y) (nat \<bar>j\<bar>)"
  shows "heap_inv (set_size (set_size (s\<lparr>g_mem := m\<rparr>) x k) y j) W"
    "mpz_val (set_size (set_size (s\<lparr>g_mem := m\<rparr>) x k) y j) x = sgn k * int (mpn_val m (mdata s x) (nat \<bar>k\<bar>))"
    "mpz_val (set_size (set_size (s\<lparr>g_mem := m\<rparr>) x k) y j) y = sgn j * int (mpn_val m (mdata s y) (nat \<bar>j\<bar>))"
    "\<And>z. z \<in> W \<Longrightarrow> z \<noteq> x \<Longrightarrow> z \<noteq> y \<Longrightarrow> mpz_val (set_size (set_size (s\<lparr>g_mem := m\<rparr>) x k) y j) z = mpz_val s z"
proof -
  define m1 where "m1 a = (if a \<in> block s x then m a else g_mem s a)" for a
  define s1 where "s1 = set_size (s\<lparr>g_mem := m1\<rparr>) x k"
  have in_x: "a \<in> span (mdata s x) (nat \<bar>k\<bar>) \<Longrightarrow> m1 a = m a" for a using kx(1) by (auto simp: m1_def block_def)
  have nx: "normal_limbs m1 (mdata s x) (nat \<bar>k\<bar>)" by (rule normal_limbs_cong [OF kx(2) in_x])
  have vx: "mpn_val m1 (mdata s x) (nat \<bar>k\<bar>) = mpn_val m (mdata s x) (nat \<bar>k\<bar>)" by (rule mpn_val_cong) (use in_x in simp)
  have "frame (g_mem s) m1 (block s x \<union> {g_next s..})" by (simp add: frame_def m1_def)
  then have "result_at s x m1 k (sgn k * int (mpn_val m (mdata s x) (nat \<bar>k\<bar>)))" using kx nx vx by (simp add: result_at_def)
  from write_result [OF h(1,2) this] have
    st: "stores s W x (sgn k * int (mpn_val m (mdata s x) (nat \<bar>k\<bar>))) s1" by (simp add: s1_def)
  note d = storesD [OF st]
  have f: "room s1 z = room s z" "mdata s1 z = mdata s z" "g_mem s1 = m1" "g_next s1 = g_next s" "block s1 z = block s z" for z
    by (simp_all add: s1_def block_def)
  have "frame m1 m (block s y \<union> {g_next s..})"
    using fr by (auto simp: frame_def m1_def)
  then have "result_at s1 y m j (sgn j * int (mpn_val m (mdata s y) (nat \<bar>j\<bar>)))" using ky by (simp add: result_at_def f)
  from write_result [OF d(1) h(3) this] have
    st2: "stores s1 W y (sgn j * int (mpn_val m (mdata s y) (nat \<bar>j\<bar>))) (set_size (s1\<lparr>g_mem := m\<rparr>) y j)" .
  note d2 = storesD [OF st2]
  have eq: "set_size (s1\<lparr>g_mem := m\<rparr>) y j = set_size (set_size (s\<lparr>g_mem := m\<rparr>) x k) y j"
    by (simp add: s1_def set_size_def upd_mpz_def)
  show "heap_inv (set_size (set_size (s\<lparr>g_mem := m\<rparr>) x k) y j) W"
    "mpz_val (set_size (set_size (s\<lparr>g_mem := m\<rparr>) x k) y j) x = sgn k * int (mpn_val m (mdata s x) (nat \<bar>k\<bar>))"
    "mpz_val (set_size (set_size (s\<lparr>g_mem := m\<rparr>) x k) y j) y = sgn j * int (mpn_val m (mdata s y) (nat \<bar>j\<bar>))"
    using d2(1,3,4) d(3) h unfolding eq by auto
  show "mpz_val (set_size (set_size (s\<lparr>g_mem := m\<rparr>) x k) y j) z = mpz_val s z" if "z \<in> W" "z \<noteq> x" "z \<noteq> y" for z
    using d2(4) [of z] d(4) [of z] that unfolding eq by auto
qed

section \<open>Rounding\<close>

definition div_quot :: "mpz_div_round_mode \<Rightarrow> int \<Rightarrow> int \<Rightarrow> int" where
  "div_quot mode n d = (case mode of
     GMP_DIV_FLOOR \<Rightarrow> n div d
   | GMP_DIV_CEIL \<Rightarrow> - ((- n) div d)
   | GMP_DIV_TRUNC \<Rightarrow> sgn n * sgn d * (\<bar>n\<bar> div \<bar>d\<bar>))"

definition div_rem :: "mpz_div_round_mode \<Rightarrow> int \<Rightarrow> int \<Rightarrow> int" where
  "div_rem mode n d = n - d * div_quot mode n d"

text \<open>The truncated quotient and remainder, and the two adjustments.\<close>

lemma div_unique:
  fixes n d q r :: int
  assumes "n = d * q + r" "0 \<le> r \<and> r < d \<or> d < r \<and> r \<le> 0"
  shows "n div d = q"
  using assms by (auto intro: int_div_pos_eq int_div_neg_eq)

lemma div_quot_abs:
  fixes n d :: int
  assumes d: "d \<noteq> 0" and qr: "\<bar>n\<bar> = Q * \<bar>d\<bar> + R" "0 \<le> R" "R < \<bar>d\<bar>" and sg: "neg \<longleftrightarrow> (n < 0) \<noteq> (d < 0)"
  shows "div_quot GMP_DIV_TRUNC n d = (if neg then - Q else Q)"
    "div_quot GMP_DIV_FLOOR n d = (if neg then - Q - of_bool (R \<noteq> 0) else Q)"
    "div_quot GMP_DIV_CEIL n d = (if neg then - Q else Q + of_bool (R \<noteq> 0))"
proof -
  have Q: "\<bar>n\<bar> div \<bar>d\<bar> = Q" using qr by (intro div_unique [of _ _ _ R]) (auto simp: ac_simps)
  have z: "n = 0 \<Longrightarrow> Q = 0" using Q by auto
  show "div_quot GMP_DIV_TRUNC n d = (if neg then - Q else Q)"
    using Q sg d z by (auto simp: div_quot_def sgn_if)
  have fl: "n div d = (if neg then - Q - of_bool (R \<noteq> 0) else Q)" if "\<bar>n\<bar> = Q * \<bar>d\<bar> + R" "neg \<longleftrightarrow> (n < 0) \<noteq> (d < 0)" for n neg
    by (rule div_unique [where r = "n - d * (if neg then - Q - of_bool (R \<noteq> 0) else Q)"])
      (use that qr(2,3) d in \<open>auto simp: abs_if algebra_simps split: if_splits\<close>)
  show "div_quot GMP_DIV_FLOOR n d = (if neg then - Q - of_bool (R \<noteq> 0) else Q)"
    using fl [OF qr(1) sg] by (simp add: div_quot_def)
  show "div_quot GMP_DIV_CEIL n d = (if neg then - Q else Q + of_bool (R \<noteq> 0))"
  proof (cases "n = 0")
    case True
    then have "Q = 0" "R = 0" using z qr by auto
    with True show ?thesis by (simp add: div_quot_def)
  next
    case False
    then have "(- n) div d = (if \<not> neg then - Q - of_bool (R \<noteq> 0) else Q)"
      using qr(1) sg by (intro fl) auto
    then show ?thesis by (simp add: div_quot_def)
  qed
qed

section \<open>Division of the limbs\<close>

lemma top_limb_result:
  assumes v: "mpn_val m p n = A" "n \<noteq> 0" "n \<ge> 2 \<Longrightarrow> B ^ (n - 2) \<le> A"
  shows "normal_limbs m p (n - of_bool (m (p + n - 1) = 0))" "mpn_val m p (n - of_bool (m (p + n - 1) = 0)) = A"
proof -
  obtain k where k: "n = Suc k" using v(2) by (cases n) auto
  have "normal_limbs m p (n - of_bool (m (p + n - 1) = 0)) \<and> mpn_val m p (n - of_bool (m (p + n - 1) = 0)) = A"
  proof (cases "m (p + n - 1) = 0")
    case True
    then have "mpn_val m p k = A" using v(1) unfolding k by (subst (asm) mpn_val_snoc) simp
    with v(3) True k show ?thesis using normal_limbsI [of k m p] by (simp add: numeral_2_eq_2)
  next
    case False
    with v(1) show ?thesis by (simp add: normal_limbs_def)
  qed
  then show "normal_limbs m p (n - of_bool (m (p + n - 1) = 0))" "mpn_val m p (n - of_bool (m (p + n - 1) = 0)) = A" by blast+
qed

lemma quotient_lower:
  fixes N D Q R :: nat
  assumes "N = Q * D + R" "R < D" "D < B ^ j" "B ^ (i - 1) \<le> N" "j < i"
  shows "B ^ (i - j - 1) \<le> Q"
proof (rule ccontr)
  assume "\<not> B ^ (i - j - 1) \<le> Q"
  then have "Suc Q * D \<le> B ^ (i - j - 1) * D" by (intro mult_right_mono) auto
  also have "\<dots> < B ^ (i - j - 1) * B ^ j" using assms(3) by (simp add: B_def)
  also have "\<dots> = B ^ (i - 1)" using assms(5) by (simp flip: power_add)
  finally show False using assms(1,2,4) by simp
qed

text \<open>The structures that the division works on: the dividend is overwritten.\<close>

lemma mpn_div_qr_result:
  assumes h: "heap_inv s W" "tr \<in> W" "d \<in> W" "tr \<noteq> d" and sz: "msize s d \<noteq> 0" "abs_size s d \<le> abs_size s tr"
    and q: "qp = None \<or> qp = Some (mdata s tq) \<and> tq \<in> W \<and> tq \<noteq> tr \<and> tq \<noteq> d \<and> room s tq = int (abs_size s tr - abs_size s d + 1)"
  obtains m where "mpn_div_qr (g_mem s) (g_next s) qp (mdata s tr) (abs_size s tr) (mdata s d) (abs_size s d) = Inr m"
    "int (mpn_val m (mdata s tr) (abs_size s d)) = \<bar>mpz_val s tr\<bar> mod \<bar>mpz_val s d\<bar>"
    "quot m qp (abs_size s tr - abs_size s d + 1) (nat (\<bar>mpz_val s tr\<bar> div \<bar>mpz_val s d\<bar>))"
    "frame (g_mem s) m (block s tr \<union> qspan qp (abs_size s tr - abs_size s d + 1) \<union> {g_next s..})"
    "abs_size s tr - abs_size s d + 1 \<ge> 2 \<Longrightarrow> B ^ (abs_size s tr - abs_size s d - 1) \<le> nat (\<bar>mpz_val s tr\<bar> div \<bar>mpz_val s d\<bar>)"
proof -
  define i j where "i = abs_size s tr" and "j = abs_size s d"
  have ij: "1 \<le> j" "j \<le> i" using sz by (auto simp: i_def j_def abs_size_def)
  have blk: "span (mdata s tr) i \<subseteq> block s tr" "span (mdata s d) j \<subseteq> block s d"
    using limbs_in_block [OF h(1)] h by (simp_all add: i_def j_def)
  have qb: "qspan qp (i - j + 1) \<subseteq> block s tq \<and> block s tq \<inter> block s tr = {} \<and> block s tq \<inter> block s d = {} \<and>
      (\<forall>a \<in> block s tq. a < g_next s)" if "qp \<noteq> None"
  proof -
    have q': "qp = Some (mdata s tq)" "tq \<in> W" "tq \<noteq> tr" "tq \<noteq> d" "room s tq = int (i - j + 1)"
      using q that by (auto simp: i_def j_def)
    then have "qspan qp (i - j + 1) \<subseteq> block s tq" unfolding block_def q'(5) nat_int by (simp add: qspan_def)
    then show ?thesis
      using block_disjoint [OF h(1) q'(2) h(2) q'(3)] block_disjoint [OF h(1) q'(2) h(3) q'(4)] block_bound [OF h(1) q'(2)] by simp
  qed
  have top: "g_mem s (mdata s d + (j - 1)) \<noteq> 0"
    using heap_invD(6) [OF h(1,3)] ij sz(1) by (simp add: normal_limbs_def j_def)
  have fresh: "block s tr \<subseteq> {..<g_next s}" "block s d \<subseteq> {..<g_next s}" "span (g_next s) i \<inter> {..<g_next s} = {}"
    using block_bound [OF h(1)] h by auto
  have trd: "block s tr \<inter> block s d = {}" by (rule block_disjoint [OF h])
  have q0: "qspan qp (i - j + 1) \<inter> block s tr = {}" "qspan qp (i - j + 1) \<inter> block s d = {}" "qspan qp (i - j + 1) \<subseteq> {..<g_next s}"
    using qb by (cases "qp = None"; auto simp: qspan_def)+
  have dis: "span (mdata s tr) i \<inter> span (mdata s d) j = {}" "qspan qp (i - j + 1) \<inter> span (mdata s tr) i = {}"
    "qspan qp (i - j + 1) \<inter> span (mdata s d) j = {}" "span (g_next s) i \<inter> span (mdata s tr) i = {}"
    "span (g_next s) i \<inter> span (mdata s d) j = {}" "span (g_next s) i \<inter> qspan qp (i - j + 1) = {}"
    using blk trd q0 fresh by blast+
  obtain m Q where m: "mpn_div_qr (g_mem s) (g_next s) qp (mdata s tr) i (mdata s d) j = Inr m"
    "mpn_val (g_mem s) (mdata s tr) i = Q * mpn_val (g_mem s) (mdata s d) j + mpn_val m (mdata s tr) j"
    "mpn_val m (mdata s tr) j < mpn_val (g_mem s) (mdata s d) j"
    "quot m qp (i - j + 1) Q" "frame (g_mem s) m (span (mdata s tr) i \<union> qspan qp (i - j + 1) \<union> span (g_next s) i)"
    by (rule mpn_div_qr_value [where m = "g_mem s" and dp = "mdata s d" and np = "mdata s tr", OF ij top dis])
  define N D R where "N = mpn_val (g_mem s) (mdata s tr) i" and "D = mpn_val (g_mem s) (mdata s d) j" and "R = mpn_val m (mdata s tr) j"
  have ND: "\<bar>mpz_val s tr\<bar> = int N" "\<bar>mpz_val s d\<bar> = int D" by (simp_all add: mpz_val_abs N_def D_def i_def j_def)
  have QR: "N div D = Q" "N mod D = R" using m(2,3) by (simp_all add: N_def D_def R_def)
  have lo: "B ^ (i - j - 1) \<le> Q" if "i - j + 1 \<ge> 2"
  proof (rule quotient_lower [OF m(2,3)])
    show "B ^ (i - 1) \<le> mpn_val (g_mem s) (mdata s tr) i"
      using normal_ge [OF heap_invD(6) [OF h(1,2)], folded i_def] ij by simp
  qed (use that mpn_val_bound in auto)
  show ?thesis
  proof (rule that)
    show "mpn_div_qr (g_mem s) (g_next s) qp (mdata s tr) (abs_size s tr) (mdata s d) (abs_size s d) = Inr m"
      using m(1) by (simp add: i_def j_def)
    show "int (mpn_val m (mdata s tr) (abs_size s d)) = \<bar>mpz_val s tr\<bar> mod \<bar>mpz_val s d\<bar>"
      unfolding ND using QR(2) by (simp add: R_def j_def flip: zmod_int)
    have qq: "nat (\<bar>mpz_val s tr\<bar> div \<bar>mpz_val s d\<bar>) = Q" unfolding ND using QR(1) by (simp flip: zdiv_int)
    show "quot m qp (abs_size s tr - abs_size s d + 1) (nat (\<bar>mpz_val s tr\<bar> div \<bar>mpz_val s d\<bar>))"
      using m(4) unfolding qq i_def j_def .
    show "frame (g_mem s) m (block s tr \<union> qspan qp (abs_size s tr - abs_size s d + 1) \<union> {g_next s..})"
      using m(5) blk(1) unfolding i_def [symmetric] j_def [symmetric] by (elim frame_mono) auto
    show "B ^ (abs_size s tr - abs_size s d - 1) \<le> nat (\<bar>mpz_val s tr\<bar> div \<bar>mpz_val s d\<bar>)"
      if "abs_size s tr - abs_size s d + 1 \<ge> 2" using lo that unfolding qq i_def j_def by blast
  qed
qed

lemma init_copy:
  assumes h: "heap_inv s V" "n \<in> V" "tr \<notin> V" "tr < g_top s"
  obtains s1 where "mpz_init_set s tr n = Inr s1" "heap_inv s1 (insert tr V)" "g_top s1 = g_top s"
    "mpz_val s1 tr = mpz_val s n" "\<And>x. x \<in> V \<Longrightarrow> mpz_val s1 x = mpz_val s x"
proof -
  note i = mpz_init_inv [OF h(1,3,4)]
  obtain s1 where s1: "mpz_set (mpz_init s tr) tr n = Inr s1" "stores (mpz_init s tr) (insert tr V) tr (mpz_val (mpz_init s tr) n) s1"
    using mpz_set_stores [OF i(1), of tr n] h(2) by blast
  note d = storesD [OF s1(2)]
  show ?thesis
    by (rule that [of s1]) (use s1(1) d i h in \<open>auto simp: mpz_init_set_def\<close>)
qed

lemma abs_size_eq:
  "heap_inv s V \<Longrightarrow> x \<in> V \<Longrightarrow> heap_inv s' W \<Longrightarrow> y \<in> W \<Longrightarrow> mpz_val s' y = mpz_val s x \<Longrightarrow> abs_size s' y = abs_size s x"
  by (simp add: abs_size_limbs)

text \<open>The sign of a result that is stored with the sign of a size.\<close>

lemma sgn_size_mult:
  "(0::int) \<le> k \<Longrightarrow> v = int (mpn_val m p (nat k)) \<Longrightarrow>
   sgn (if neg then - k else k) * int (mpn_val m p (nat \<bar>if neg then - k else k\<bar>)) = (if neg then - v else v)"
  by (cases "k = 0") auto

lemma mpz_div_qr_core_rem:
  assumes h: "heap_inv s V" "n \<in> V" "d \<in> V" "tr \<notin> V" "tr < g_top s" and sz: "msize s d \<noteq> 0" "abs_size s d \<le> abs_size s n"
  obtains rn s' where "mpz_div_qr_core s False tq tr n d qs = Inr (rn, s')" "heap_inv s' (insert tr V)" "g_top s' = g_top s"
    "mpz_val s' tr = (if msize s n < 0 then - 1 else 1) * (\<bar>mpz_val s n\<bar> mod \<bar>mpz_val s d\<bar>)"
    "rn = 0 \<longleftrightarrow> \<bar>mpz_val s n\<bar> mod \<bar>mpz_val s d\<bar> = 0" "\<And>x. x \<in> V \<Longrightarrow> mpz_val s' x = mpz_val s x"
proof -
  obtain s1 where s1: "mpz_init_set s tr n = Inr s1" "heap_inv s1 (insert tr V)" "g_top s1 = g_top s"
    "mpz_val s1 tr = mpz_val s n" "\<And>x. x \<in> V \<Longrightarrow> mpz_val s1 x = mpz_val s x" by (rule init_copy [OF h(1,2,4,5)]) blast
  have ne: "tr \<noteq> d" using h by auto
  have as: "abs_size s1 tr = abs_size s n" "abs_size s1 d = abs_size s d"
    using abs_size_eq [OF h(1,2) s1(2) _ s1(4)] abs_size_eq [OF h(1,3) s1(2)] s1(5) h(3) by auto
  have pre: "msize s1 d \<noteq> 0" "abs_size s1 d \<le> abs_size s1 tr" using as sz abs_size_0 [of s1 d] by auto
  obtain m where m: "mpn_div_qr (g_mem s1) (g_next s1) None (mdata s1 tr) (abs_size s n) (mdata s1 d) (abs_size s d) = Inr m"
    "int (mpn_val m (mdata s1 tr) (abs_size s d)) = \<bar>mpz_val s1 tr\<bar> mod \<bar>mpz_val s1 d\<bar>"
    "frame (g_mem s1) m (block s1 tr \<union> {g_next s1..})"
    using mpn_div_qr_result [OF s1(2) _ _ ne pre, of None] h(3) as by (auto simp: qspan_def)
  define R where "R = \<bar>mpz_val s n\<bar> mod \<bar>mpz_val s d\<bar>"
  have R: "int (mpn_val m (mdata s1 tr) (abs_size s d)) = R" using m(2) s1(4,5) h(3) by (simp add: R_def)
  define rn where "rn = mpn_normalized_size m (mdata s1 tr) (abs_size s d)"
  have "int (abs_size s d) \<le> room s1 tr" using abs_size_room [OF s1(2), of tr] as sz(2) by simp
  from normalized_result [OF m(3) this R [symmetric]] have
    "result_at s1 tr m (if msize s n < 0 then - int rn else int rn) (if msize s n < 0 then - R else R)"
    by (intro result_sign) (simp_all add: rn_def)
  moreover define s2 where "s2 = set_size (s1\<lparr>g_mem := m\<rparr>) tr (if msize s n < 0 then - int rn else int rn)"
  ultimately have st: "stores s1 (insert tr V) tr (if msize s n < 0 then - R else R) s2"
    using write_result [OF s1(2)] by simp
  have rn0: "rn = 0 \<longleftrightarrow> R = 0"
    using R mpn_zero_p_iff [of m "mdata s1 tr" "abs_size s d"] by (auto simp: rn_def mpn_zero_p_def)
  have "mpz_div_qr_core s False tq tr n d qs = Inr (rn, s2)"
    using s1(1) m(1) by (simp add: mpz_div_qr_core_def Let_def rn_def s2_def abs_size_def cong: if_cong)
  moreover have "mpz_val s2 x = mpz_val s x" if "x \<in> V" for x
    using storesD(4) [OF st, of x] s1(5) [OF that] that h(4) by auto
  ultimately show ?thesis using storesD(1-3) [OF st] s1(3) rn0
    by (intro that [of rn s2]) (auto simp: R_def)
qed

text \<open>The division with a quotient: copy of the dividend, block of the quotient, and the call.\<close>

lemma div_setup:
  assumes h: "heap_inv s V" "n \<in> V" "d \<in> V" "tr \<notin> V" "tr < g_top s" "tq \<notin> V" "tq < g_top s" "tq \<noteq> tr"
    and sz: "msize s d \<noteq> 0" "abs_size s d \<le> abs_size s n"
  obtains s1 s2 where "mpz_init_set s tr n = Inr s1"
    "mpz_init2 s1 tq (of_int (\<bar>msize s n\<bar> - \<bar>msize s d\<bar> + 1) * of_nat GMP_LIMB_BITS) = Inr s2"
    "heap_inv s2 (insert tq (insert tr V))" "room s2 tq = int (abs_size s n - abs_size s d + 1)" "g_top s2 = g_top s"
    "mpz_val s2 tr = mpz_val s n" "\<And>x. x \<in> V \<Longrightarrow> mpz_val s2 x = mpz_val s x" "mdata s1 tr = mdata s2 tr"
proof -
  obtain s1 where s1: "mpz_init_set s tr n = Inr s1" "heap_inv s1 (insert tr V)" "g_top s1 = g_top s"
    "mpz_val s1 tr = mpz_val s n" "\<And>x. x \<in> V \<Longrightarrow> mpz_val s1 x = mpz_val s x" by (rule init_copy [OF h(1,2,4,5)]) blast
  have q: "\<bar>msize s n\<bar> - \<bar>msize s d\<bar> + 1 = int (abs_size s n - abs_size s d + 1)"
    using sz(2) by (simp add: abs_size_def of_nat_diff)
  have qm: "int (abs_size s n - abs_size s d + 1) \<le> INT_MAX"
  proof -
    have "1 \<le> \<bar>msize s d\<bar>" using sz(1) by simp
    then show ?thesis unfolding q [symmetric] using heap_invD(3,4) [OF h(1,2)] by linarith
  qed
  have tq: "tq \<notin> insert tr V" "tq < g_top s1" using h s1(3) by auto
  obtain s2 where
    "mpz_init2 s1 tq (of_int (int (abs_size s n - abs_size s d + 1)) * of_nat GMP_LIMB_BITS) = Inr s2"
    "heap_inv s2 (insert tq (insert tr V))" "room s2 tq = int (abs_size s n - abs_size s d + 1)" "g_top s2 = g_top s1"
    "\<And>x. x \<in> insert tr V \<Longrightarrow> mpz_val s2 x = mpz_val s1 x" "\<And>x. x \<in> insert tr V \<Longrightarrow> g_mpz s2 x = g_mpz s1 x"
    by (rule mpz_init2_inv [OF s1(2) tq _ qm]) (simp, blast)
  then show ?thesis using s1 by (intro that [of s1 s2]) (simp_all add: q mdata_def)
qed

lemma mpz_div_qr_core_both:
  assumes h: "heap_inv s V" "n \<in> V" "d \<in> V" "tr \<notin> V" "tr < g_top s" "tq \<notin> V" "tq < g_top s" "tq \<noteq> tr"
    and sz: "msize s d \<noteq> 0" "abs_size s d \<le> abs_size s n"
  obtains rn s' where "mpz_div_qr_core s True tq tr n d qs = Inr (rn, s')" "heap_inv s' (insert tq (insert tr V))" "g_top s' = g_top s"
    "mpz_val s' tr = (if msize s n < 0 then - 1 else 1) * (\<bar>mpz_val s n\<bar> mod \<bar>mpz_val s d\<bar>)"
    "mpz_val s' tq = (if qs < 0 then - 1 else 1) * (\<bar>mpz_val s n\<bar> div \<bar>mpz_val s d\<bar>)"
    "rn = 0 \<longleftrightarrow> \<bar>mpz_val s n\<bar> mod \<bar>mpz_val s d\<bar> = 0" "\<And>x. x \<in> V \<Longrightarrow> mpz_val s' x = mpz_val s x"
proof -
  define W where "W = insert tq (insert tr V)"
  define qn where "qn = abs_size s n - abs_size s d + 1"
  obtain s1 s2 where s: "mpz_init_set s tr n = Inr s1"
    "mpz_init2 s1 tq (of_int (\<bar>msize s n\<bar> - \<bar>msize s d\<bar> + 1) * of_nat GMP_LIMB_BITS) = Inr s2"
    "heap_inv s2 W" "room s2 tq = int qn" "g_top s2 = g_top s"
    "mpz_val s2 tr = mpz_val s n" "\<And>x. x \<in> V \<Longrightarrow> mpz_val s2 x = mpz_val s x" "mdata s1 tr = mdata s2 tr"
    unfolding W_def qn_def by (rule div_setup [OF h sz]) blast
  have W: "tr \<in> W" "tq \<in> W" "d \<in> W" "tr \<noteq> d" "tq \<noteq> d" using h by (auto simp: W_def)
  have as: "abs_size s2 tr = abs_size s n" "abs_size s2 d = abs_size s d"
    using abs_size_eq [OF h(1,2) s(3) W(1) s(6)] abs_size_eq [OF h(1,3) s(3) W(3)] s(7) h(3) by auto
  have pre: "msize s2 d \<noteq> 0" "abs_size s2 d \<le> abs_size s2 tr" using as sz abs_size_0 [of s2 d] by auto
  define Q R where "Q = nat (\<bar>mpz_val s n\<bar> div \<bar>mpz_val s d\<bar>)" and "R = \<bar>mpz_val s n\<bar> mod \<bar>mpz_val s d\<bar>"
  obtain m where m: "mpn_div_qr (g_mem s2) (g_next s2) (Some (mdata s2 tq)) (mdata s2 tr) (abs_size s n) (mdata s2 d) (abs_size s d) = Inr m"
    "int (mpn_val m (mdata s2 tr) (abs_size s d)) = R" "mpn_val m (mdata s2 tq) qn = Q"
    "frame (g_mem s2) m (block s2 tr \<union> span (mdata s2 tq) qn \<union> {g_next s2..})" "qn \<ge> 2 \<Longrightarrow> B ^ (qn - 2) \<le> Q"
    using mpn_div_qr_result [OF s(3) W(1,3,4) pre, of "Some (mdata s2 tq)" tq] W h(8) s(4,6,7) h(3)
    by (auto simp: as qspan_def quot_def Q_def R_def qn_def)
  define rn where "rn = mpn_normalized_size m (mdata s2 tr) (abs_size s d)"
  define k where "k = qn - of_bool (m (mdata s2 tq + qn - 1) = 0)"
  note top = top_limb_result [OF m(3) _ m(5), folded k_def]
  have qn0: "qn \<noteq> 0" "k \<le> qn" by (simp_all add: qn_def k_def)
  have fr: "frame (g_mem s2) m (block s2 tq \<union> block s2 tr \<union> {g_next s2..})"
    using m(4) by (rule frame_mono) (auto simp: block_def s(4))
  define K J where "K = (if qs < 0 then - int k else int k)" and "J = (if msize s n < 0 then - int rn else int rn)"
  have KJ: "nat \<bar>K\<bar> = k" "nat \<bar>J\<bar> = rn" by (simp_all add: K_def J_def)
  have rn: "rn \<le> abs_size s d" "normal_limbs m (mdata s2 tr) rn" "int (mpn_val m (mdata s2 tr) rn) = R"
    using m(2) mpn_normalized_size_le [of m "mdata s2 tr"] mpn_normalized_size_top [of m "mdata s2 tr"]
    by (auto simp: rn_def normal_limbs_def mpn_normalized_size_val)
  have rm: "\<bar>K\<bar> \<le> room s2 tq" "\<bar>J\<bar> \<le> room s2 tr"
    using qn0 s(4) rn(1) abs_size_room [OF s(3) W(1)] as sz(2) by (auto simp: K_def J_def)
  define s3 where "s3 = set_size (set_size (s2\<lparr>g_mem := m\<rparr>) tq K) tr J"
  have nk: "normal_limbs m (mdata s2 tq) k" "mpn_val m (mdata s2 tq) k = Q" using top qn0(1) by auto
  note w = write_two_results [OF s(3) W(2,1) h(8) fr rm(1) _ rm(2), unfolded KJ, OF nk(1) rn(2), folded s3_def]
  have "int Q = \<bar>mpz_val s n\<bar> div \<bar>mpz_val s d\<bar>" 
    by (cases "mpz_val s d = 0") (simp_all add: Q_def pos_imp_zdiv_nonneg_iff)
  then have vq: "mpz_val s3 tq = (if qs < 0 then - 1 else 1) * (\<bar>mpz_val s n\<bar> div \<bar>mpz_val s d\<bar>)"
    using w(2) nk(2) by (cases "k = 0") (auto simp: K_def)
  have vr: "mpz_val s3 tr = (if msize s n < 0 then - 1 else 1) * R" using w(3) rn(3) by (cases "rn = 0") (auto simp: J_def)
  have rn0: "rn = 0 \<longleftrightarrow> R = 0"
    using m(2) mpn_zero_p_iff [of m "mdata s2 tr" "abs_size s d"] by (auto simp: rn_def mpn_zero_p_def)
  have vV: "mpz_val s3 x = mpz_val s x" if "x \<in> V" for x
    using w(4) [of x] s(7) [OF that] that h(4,6) by (auto simp: W_def)
  have e1: "\<bar>msize s n\<bar> - \<bar>msize s d\<bar> + 1 = int qn" "nat \<bar>msize s x\<bar> = abs_size s x" for x
    using sz(2) by (simp_all add: qn_def abs_size_def of_nat_diff)
  have "mdata s2 tq + nat (int qn - 1) = mdata s2 tq + qn - 1" using qn0(1) by auto
  then have e2: "int qn - of_bool (m (mdata s2 tq + nat (int qn - 1)) = 0) = int k" using qn0(1) by (simp only: k_def) (simp add: of_nat_diff)
  have run: "mpz_div_qr_core s True tq tr n d qs = Inr (rn, s3)"
    unfolding mpz_div_qr_core_def Let_def GMP_ABS_abs e1 s(1) rbind_Inr s(2) [unfolded e1] prod.case if_True s(8) m(1)
      option.case e2 rn_def [symmetric] by (simp add: s3_def K_def J_def)
  have tp: "g_top s3 = g_top s" using s(5) by (simp add: s3_def)
  show ?thesis by (rule that [OF run w(1) [unfolded W_def] tp vr [unfolded R_def] vq rn0 [unfolded R_def] vV])
qed

section \<open>Rounding and moving the results\<close>

definition live :: "bool \<Rightarrow> nat \<Rightarrow> nat \<Rightarrow> nat set \<Rightarrow> nat set" where
  "live hasq tq tr V = (if hasq then insert tq (insert tr V) else insert tr V)"

lemma mpz_swap_commute: "mpz_swap s u v = mpz_swap s v u"
  by (cases "u = v") (simp_all add: mpz_swap_def fun_upd_twist)

lemma mpz_div_qr_finish_value:
  assumes h: "heap_inv s (live (q \<noteq> None) tq tr V)" "tq \<notin> V" "tr \<notin> V" "tq \<noteq> tr"
    and V: "set_option q \<subseteq> V" "set_option r \<subseteq> V" "q = None \<or> q \<noteq> r"
  obtains s' where "mpz_div_qr_finish s q r tq tr = Inr s'" "heap_inv s' V" "g_top s' = g_top s"
    "\<And>x. x \<in> V \<Longrightarrow> mpz_val s' x = mpz_val s (if r = Some x then tr else if q = Some x then tq else x)"
proof -
  obtain s1 where s1: "on_some q (\<lambda>q. mpz_clear (mpz_swap s tq q) tq) s = Inr s1" "heap_inv s1 (insert tr V)" "g_top s1 = g_top s"
    "\<And>x. x \<in> insert tr V \<Longrightarrow> mpz_val s1 x = mpz_val s (if q = Some x then tq else x)"
  proof (cases q)
    case None
    with h(1) show ?thesis by (intro that [of s]) (simp_all add: on_some_def live_def)
  next
    case (Some y)
    have "heap_inv s (insert tq (insert tr V))" "tq \<notin> insert tr V" "y \<in> insert tr V"
      using h V(1) Some by (auto simp: live_def)
    from swap_clear [OF this] obtain s1 where "mpz_clear (mpz_swap s y tq) tq = Inr s1" "heap_inv s1 (insert tr V)"
      "g_top s1 = g_top s" "\<And>x. x \<in> insert tr V \<Longrightarrow> mpz_val s1 x = mpz_val s (if x = y then tq else x)" by metis
    with Some show ?thesis by (intro that [of s1]) (auto simp: on_some_def mpz_swap_commute)
  qed
  have tq: "q \<noteq> Some tr" using V(1) h(3) by auto
  show ?thesis
  proof (cases r)
    case None
    from mpz_clear_inv [OF s1(2) h(3)] obtain s2 where "mpz_clear s1 tr = Inr s2" "heap_inv s2 V" "g_top s2 = g_top s1"
      "\<And>x. mpz_val s2 x = mpz_val s1 x" by metis
    with None s1 show ?thesis by (intro that [of s2]) (auto simp: mpz_div_qr_finish_def)
  next
    case (Some y)
    then have "y \<in> V" using V(2) by simp
    from swap_clear [OF s1(2) h(3) this] obtain s2 where "mpz_clear (mpz_swap s1 y tr) tr = Inr s2" "heap_inv s2 V"
      "g_top s2 = g_top s1" "\<And>x. x \<in> V \<Longrightarrow> mpz_val s2 x = mpz_val s1 (if x = y then tr else x)" by metis
    with Some s1 tq show ?thesis by (intro that [of s2]) (auto simp: mpz_div_qr_finish_def mpz_swap_commute)
  qed
qed

lemma add_one:
  assumes "heap_inv s V" "r \<in> V" "\<bar>msize s r\<bar> < INT_MAX"
  shows "\<exists>s'. mpz_sub_ui s r r 1 = Inr s' \<and> stores s V r (mpz_val s r + - 1) s'"
    "\<exists>s'. mpz_add_ui s r r 1 = Inr s' \<and> stores s V r (mpz_val s r + 1) s'"
  using mpz_sub_ui_stores [OF assms(1,2,2,3), of 1] mpz_add_ui_stores [OF assms(1,2,2,3), of 1] by (simp, metis)+

text \<open>One of the two adjustments of quotient and remainder, or none.\<close>

lemma adjust_step:
  assumes h: "heap_inv s W" "tr \<in> W" "d \<in> W" "hasq \<longrightarrow> tq \<in> W" "tq \<noteq> tr" "tr \<noteq> d" "tq \<noteq> d"
    and fit: "hasq \<longrightarrow> int (limbs (mpz_val s tq)) < INT_MAX" "add_fits (mpz_val s tr) (mpz_val s d)"
  shows "\<exists>s'. rbind (if hasq then mpz_sub_ui s tq tq 1 else Inr s) (\<lambda>s. if hasr then mpz_add s tr tr d else Inr s) = Inr s' \<and>
      heap_inv s' W \<and> g_top s' = g_top s \<and>
      (\<forall>x \<in> W. mpz_val s' x = mpz_val s x - of_bool (hasq \<and> x = tq) + of_bool (hasr \<and> x = tr) * mpz_val s d)"
    (is "\<exists>s'. ?sub = Inr s' \<and> _")
    and "\<exists>s'. rbind (if hasq then mpz_add_ui s tq tq 1 else Inr s) (\<lambda>s. if hasr then mpz_sub s tr tr d else Inr s) = Inr s' \<and>
      heap_inv s' W \<and> g_top s' = g_top s \<and>
      (\<forall>x \<in> W. mpz_val s' x = mpz_val s x + of_bool (hasq \<and> x = tq) - of_bool (hasr \<and> x = tr) * mpz_val s d)"
    (is "\<exists>s'. ?add = Inr s' \<and> _")
proof -
  have q: "\<exists>s1. (if hasq then f s tq tq 1 else Inr s) = Inr s1 \<and> heap_inv s1 W \<and> g_top s1 = g_top s \<and>
      (\<forall>x \<in> W. mpz_val s1 x = mpz_val s x + e * of_bool (hasq \<and> x = tq))"
    if f: "\<And>s. heap_inv s W \<Longrightarrow> tq \<in> W \<Longrightarrow> \<bar>msize s tq\<bar> < INT_MAX \<Longrightarrow> \<exists>s'. f s tq tq 1 = Inr s' \<and> stores s W tq (mpz_val s tq + e) s'"
    for f :: "gmp \<Rightarrow> nat \<Rightarrow> nat \<Rightarrow> limb \<Rightarrow> gmp result" and e
  proof (cases hasq)
    case True
    then have "\<bar>msize s tq\<bar> < INT_MAX" using msize_limbs [OF h(1)] fit(1) h(4) by simp
    from f [OF h(1) _ this] True h(4) obtain s1 where "f s tq tq 1 = Inr s1" "stores s W tq (mpz_val s tq + e) s1" by auto
    with True show ?thesis by (intro exI [of _ s1]) (auto simp: stores_def)
  qed (use h in simp)
  have r: "\<exists>s2. (if hasr then f s1 tr tr d else Inr s1) = Inr s2 \<and> heap_inv s2 W \<and> g_top s2 = g_top s1 \<and>
      (\<forall>x \<in> W. mpz_val s2 x = (if hasr \<and> x = tr then F (mpz_val s1 tr) (mpz_val s1 d) else mpz_val s1 x))"
    if "integer_op f F add_fits" "heap_inv s1 W" "mpz_val s1 tr = mpz_val s tr" "mpz_val s1 d = mpz_val s d" for f F s1
    using integer_op.op_stores [OF that(1,2), of tr tr d] that fit(2) h(2,3) by (auto simp: stores_def)
  have "\<exists>s1. (if hasq then mpz_sub_ui s tq tq 1 else Inr s) = Inr s1 \<and> heap_inv s1 W \<and> g_top s1 = g_top s \<and>
      (\<forall>x \<in> W. mpz_val s1 x = mpz_val s x + - 1 * of_bool (hasq \<and> x = tq))"
    by (rule q) (rule add_one)
  then obtain s1 where s1: "(if hasq then mpz_sub_ui s tq tq 1 else Inr s) = Inr s1" "heap_inv s1 W" "g_top s1 = g_top s"
    "\<forall>x \<in> W. mpz_val s1 x = mpz_val s x + - 1 * of_bool (hasq \<and> x = tq)" by blast
  from r [OF addition.integer_op_axioms s1(2)] s1(4) h show "\<exists>s'. ?sub = Inr s' \<and> heap_inv s' W \<and> g_top s' = g_top s \<and>
      (\<forall>x \<in> W. mpz_val s' x = mpz_val s x - of_bool (hasq \<and> x = tq) + of_bool (hasr \<and> x = tr) * mpz_val s d)"
    by (auto simp: s1(1,3))
  have "\<exists>s1. (if hasq then mpz_add_ui s tq tq 1 else Inr s) = Inr s1 \<and> heap_inv s1 W \<and> g_top s1 = g_top s \<and>
      (\<forall>x \<in> W. mpz_val s1 x = mpz_val s x + 1 * of_bool (hasq \<and> x = tq))"
    by (rule q) (rule add_one)
  then obtain s2 where s2: "(if hasq then mpz_add_ui s tq tq 1 else Inr s) = Inr s2" "heap_inv s2 W" "g_top s2 = g_top s"
    "\<forall>x \<in> W. mpz_val s2 x = mpz_val s x + 1 * of_bool (hasq \<and> x = tq)" by blast
  from r [OF subtraction.integer_op_axioms s2(2)] s2(4) h show "\<exists>s'. ?add = Inr s' \<and> heap_inv s' W \<and> g_top s' = g_top s \<and>
      (\<forall>x \<in> W. mpz_val s' x = mpz_val s x + of_bool (hasq \<and> x = tq) - of_bool (hasr \<and> x = tr) * mpz_val s d)"
    by (auto simp: s2(1,3))
qed

section \<open>The division function\<close>

definition divided :: "gmp \<Rightarrow> nat set \<Rightarrow> nat option \<Rightarrow> nat option \<Rightarrow> mpz_div_round_mode \<Rightarrow> int \<Rightarrow> int \<Rightarrow> gmp \<Rightarrow> bool" where
  "divided s V q r mode n d s' \<longleftrightarrow> heap_inv s' V \<and> g_top s' = g_top s \<and>
     (\<forall>x \<in> V. mpz_val s' x =
       (if r = Some x then div_rem mode n d else if q = Some x then div_quot mode n d else mpz_val s x))"

text \<open>The truncated results and what the two modes change.\<close>

lemma div_rounding:
  fixes n d :: int
  assumes d: "d \<noteq> 0" and neg: "neg \<longleftrightarrow> (n < 0) \<noteq> (d < 0)"
    and R: "R = \<bar>n\<bar> mod \<bar>d\<bar>" and Q: "Q = \<bar>n\<bar> div \<bar>d\<bar>"
    and c: "down \<longleftrightarrow> mode = GMP_DIV_FLOOR \<and> neg \<and> R \<noteq> 0" "up \<longleftrightarrow> mode = GMP_DIV_CEIL \<and> \<not> neg \<and> R \<noteq> 0"
  shows "div_quot mode n d = (if neg then - 1 else 1) * Q - of_bool down + of_bool up"
    "div_rem mode n d = (if n < 0 then - 1 else 1) * R + of_bool down * d - of_bool up * d"
proof -
  have qr: "\<bar>n\<bar> = Q * \<bar>d\<bar> + R" "0 \<le> R" "R < \<bar>d\<bar>" using d by (simp_all add: R Q)
  note q = div_quot_abs [OF d qr neg]
  show quot: "div_quot mode n d = (if neg then - 1 else 1) * Q - of_bool down + of_bool up"
    using q c by (cases mode) auto
  have "n = d * ((if neg then - 1 else 1) * Q) + (if n < 0 then - 1 else 1) * R"
    using qr(1) neg by (auto simp: abs_if algebra_simps split: if_splits)
  then show "div_rem mode n d = (if n < 0 then - 1 else 1) * R + of_bool down * d - of_bool up * d"
    unfolding div_rem_def quot by (simp add: algebra_simps)
qed

lemma mpz_div_qr_core_value:
  assumes h: "heap_inv s V" "n \<in> V" "d \<in> V" "tr \<notin> V" "tr < g_top s" "tq \<notin> V" "tq < g_top s" "tq \<noteq> tr"
    and sz: "msize s d \<noteq> 0" "abs_size s d \<le> abs_size s n"
  obtains rn s' where "mpz_div_qr_core s hasq tq tr n d qs = Inr (rn, s')" "heap_inv s' (live hasq tq tr V)" "g_top s' = g_top s"
    "mpz_val s' tr = (if msize s n < 0 then - 1 else 1) * (\<bar>mpz_val s n\<bar> mod \<bar>mpz_val s d\<bar>)"
    "hasq \<longrightarrow> mpz_val s' tq = (if qs < 0 then - 1 else 1) * (\<bar>mpz_val s n\<bar> div \<bar>mpz_val s d\<bar>)"
    "rn = 0 \<longleftrightarrow> \<bar>mpz_val s n\<bar> mod \<bar>mpz_val s d\<bar> = 0" "\<And>x. x \<in> V \<Longrightarrow> mpz_val s' x = mpz_val s x"
proof (cases hasq)
  case True
  obtain rn s' where c: "mpz_div_qr_core s True tq tr n d qs = Inr (rn, s')" "heap_inv s' (insert tq (insert tr V))" "g_top s' = g_top s"
    "mpz_val s' tr = (if msize s n < 0 then - 1 else 1) * (\<bar>mpz_val s n\<bar> mod \<bar>mpz_val s d\<bar>)"
    "mpz_val s' tq = (if qs < 0 then - 1 else 1) * (\<bar>mpz_val s n\<bar> div \<bar>mpz_val s d\<bar>)"
    "rn = 0 \<longleftrightarrow> \<bar>mpz_val s n\<bar> mod \<bar>mpz_val s d\<bar> = 0" "\<And>x. x \<in> V \<Longrightarrow> mpz_val s' x = mpz_val s x"
    by (rule mpz_div_qr_core_both [OF h sz, of qs]) metis
  show ?thesis by (rule that [of rn s']) (use c True in \<open>simp_all add: live_def\<close>)
next
  case False
  obtain rn s' where c: "mpz_div_qr_core s False tq tr n d qs = Inr (rn, s')" "heap_inv s' (insert tr V)" "g_top s' = g_top s"
    "mpz_val s' tr = (if msize s n < 0 then - 1 else 1) * (\<bar>mpz_val s n\<bar> mod \<bar>mpz_val s d\<bar>)"
    "rn = 0 \<longleftrightarrow> \<bar>mpz_val s n\<bar> mod \<bar>mpz_val s d\<bar> = 0" "\<And>x. x \<in> V \<Longrightarrow> mpz_val s' x = mpz_val s x"
    by (rule mpz_div_qr_core_rem [OF h(1-5) sz, of tq qs]) metis
  show ?thesis by (rule that [of rn s']) (use c False in \<open>simp_all add: live_def\<close>)
qed

lemma mpz_div_qr_adjust_value:
  assumes h: "heap_inv s W" "tr \<in> W" "d \<in> W" "hasq \<longrightarrow> tq \<in> W" "tq \<noteq> tr" "tr \<noteq> d" "tq \<noteq> d"
    and fit: "hasq \<longrightarrow> int (limbs (mpz_val s tq)) < INT_MAX" "add_fits (mpz_val s tr) (mpz_val s d)"
    and c: "down \<longleftrightarrow> mode = GMP_DIV_FLOOR \<and> qs < 0 \<and> rn \<noteq> 0" "up \<longleftrightarrow> mode = GMP_DIV_CEIL \<and> \<not> qs < 0 \<and> rn \<noteq> 0"
  obtains s' where "mpz_div_qr_adjust s hasq hasr tq tr d mode qs rn = Inr s'" "heap_inv s' W" "g_top s' = g_top s"
    "\<And>x. x \<in> W \<Longrightarrow> x \<noteq> tr \<Longrightarrow> x \<noteq> tq \<Longrightarrow> mpz_val s' x = mpz_val s x"
    "hasq \<longrightarrow> mpz_val s' tq = mpz_val s tq - of_bool down + of_bool up"
    "hasr \<longrightarrow> mpz_val s' tr = mpz_val s tr + of_bool down * mpz_val s d - of_bool up * mpz_val s d"
proof -
  have "\<not> (down \<and> up)" using c by auto
  then consider "down" "\<not> up" | "\<not> down" "up" | "\<not> down" "\<not> up" by blast
  then show ?thesis
  proof cases
    case 1
    then have e: "mpz_div_qr_adjust s hasq hasr tq tr d mode qs rn =
        rbind (if hasq then mpz_sub_ui s tq tq 1 else Inr s) (\<lambda>s. if hasr then mpz_add s tr tr d else Inr s)"
      using c by (simp add: mpz_div_qr_adjust_def)
    from adjust_step(1) [OF h fit, of hasr, folded e] show ?thesis using 1 h that by auto
  next
    case 2
    then have e: "mpz_div_qr_adjust s hasq hasr tq tr d mode qs rn =
        rbind (if hasq then mpz_add_ui s tq tq 1 else Inr s) (\<lambda>s. if hasr then mpz_sub s tr tr d else Inr s)"
      using c by (auto simp: mpz_div_qr_adjust_def)
    from adjust_step(2) [OF h fit, of hasr, folded e] show ?thesis using 2 h that by auto
  next
    case 3
    then have "mpz_div_qr_adjust s hasq hasr tq tr d mode qs rn = Inr s"
      using c by (auto simp: mpz_div_qr_adjust_def)
    with 3 h(1) show ?thesis by (intro that [of s]) auto
  qed
qed

lemma mpz_div_qr_long_value:
  assumes h: "heap_inv s V" "n \<in> V" "d \<in> V" "set_option q \<subseteq> V" "set_option r \<subseteq> V" "q = None \<or> q \<noteq> r"
    and sz: "msize s d \<noteq> 0" "abs_size s d \<le> abs_size s n" and fit: "add_fits (mpz_val s n) (mpz_val s d)"
  obtains s' where "mpz_div_qr_long s q r n d mode (msize s d XOR msize s n) = Inr (\<not> mpz_val s d dvd mpz_val s n, s')"
    "divided s V q r mode (mpz_val s n) (mpz_val s d) s'"
proof -
  define tq tr s0 qs N D where "tq = g_top s" and "tr = Suc (g_top s)" and "s0 = s\<lparr>g_top := Suc (Suc (g_top s))\<rparr>"
    and "qs = msize s d XOR msize s n" and "N = mpz_val s n" and "D = mpz_val s d"
  define Q R where "Q = \<bar>N\<bar> div \<bar>D\<bar>" and "R = \<bar>N\<bar> mod \<bar>D\<bar>"
  have lt: "x < g_top s" if "x \<in> V" for x using heap_invD(1) [OF h(1) that] .
  have V: "tq \<notin> V" "tr \<notin> V" "tq \<noteq> tr" "tr \<noteq> d" "tq \<noteq> d" using lt [of tq] lt [of tr] lt [OF h(3)] by (auto simp: tq_def tr_def)
  have e: "heap_inv s0 V" "tr < g_top s0" "tq < g_top s0"
    using lt by (auto simp: s0_def tq_def tr_def intro!: heap_inv_top [OF h(1)] less_SucI)
  have D0: "D \<noteq> 0" using sgn_mpz_val [OF h(1,3)] sz(1) by (auto simp: D_def sgn_if split: if_splits)
  have sg: "msize s n < 0 \<longleftrightarrow> N < 0" "qs < 0 \<longleftrightarrow> (N < 0) \<noteq> (D < 0)"
    using sgn_mpz_val [OF h(1,2)] sgn_mpz_val [OF h(1,3)] by (auto simp: qs_def N_def D_def not_le sgn_if split: if_splits)
  have [simp]: "mpz_val s0 x = mpz_val s x" "msize s0 x = msize s x" "abs_size s0 x = abs_size s x" for x by (simp_all add: s0_def)
  obtain rn s1 where s1: "mpz_div_qr_core s0 (q \<noteq> None) tq tr n d qs = Inr (rn, s1)" "heap_inv s1 (live (q \<noteq> None) tq tr V)"
    "g_top s1 = g_top s0" "mpz_val s1 tr = (if N < 0 then - 1 else 1) * R"
    "q \<noteq> None \<longrightarrow> mpz_val s1 tq = (if qs < 0 then - 1 else 1) * Q" "rn = 0 \<longleftrightarrow> R = 0" "\<And>x. x \<in> V \<Longrightarrow> mpz_val s1 x = mpz_val s x"
  proof -
    obtain rn s1 where "mpz_div_qr_core s0 (q \<noteq> None) tq tr n d qs = Inr (rn, s1)" "heap_inv s1 (live (q \<noteq> None) tq tr V)"
      "g_top s1 = g_top s0" "mpz_val s1 tr = (if msize s0 n < 0 then - 1 else 1) * (\<bar>mpz_val s0 n\<bar> mod \<bar>mpz_val s0 d\<bar>)"
      "q \<noteq> None \<longrightarrow> mpz_val s1 tq = (if qs < 0 then - 1 else 1) * (\<bar>mpz_val s0 n\<bar> div \<bar>mpz_val s0 d\<bar>)"
      "rn = 0 \<longleftrightarrow> \<bar>mpz_val s0 n\<bar> mod \<bar>mpz_val s0 d\<bar> = 0" "\<And>x. x \<in> V \<Longrightarrow> mpz_val s1 x = mpz_val s0 x"
      by (rule mpz_div_qr_core_value [OF e(1) h(2,3) V(2) e(2) V(1) e(3) V(3), of "q \<noteq> None" qs]) (use sz in simp, use sz in simp, metis)
    then show ?thesis by (intro that [of rn s1]) (simp_all add: sg N_def D_def Q_def R_def)
  qed
  define down up where "down \<longleftrightarrow> mode = GMP_DIV_FLOOR \<and> qs < 0 \<and> rn \<noteq> 0" and "up \<longleftrightarrow> mode = GMP_DIV_CEIL \<and> \<not> qs < 0 \<and> rn \<noteq> 0"
  have "down \<longleftrightarrow> mode = GMP_DIV_FLOOR \<and> qs < 0 \<and> R \<noteq> 0" "up \<longleftrightarrow> mode = GMP_DIV_CEIL \<and> \<not> qs < 0 \<and> R \<noteq> 0"
    using s1(6) by (auto simp: down_def up_def)
  note rd = div_rounding [OF D0 sg(2) R_def Q_def this]
  have QR0: "0 \<le> Q" "0 \<le> R" "R \<le> \<bar>D\<bar>" "\<bar>N\<bar> = Q * \<bar>D\<bar> + R"
    using D0 by (auto simp: Q_def R_def pos_imp_zdiv_nonneg_iff less_imp_le)
  have "Q * 1 \<le> Q * \<bar>D\<bar>" by (rule mult_left_mono) (use D0 QR0(1) in auto)
  then have QR: "0 \<le> Q" "Q \<le> \<bar>N\<bar>" "0 \<le> R" "R \<le> \<bar>D\<bar>" using QR0 by auto
  have fq: "q \<noteq> None \<longrightarrow> int (limbs (mpz_val s1 tq)) < INT_MAX"
    using s1(5) limbs_abs_le [of Q N] QR fit by (auto simp: add_fits_def N_def)
  have fr: "add_fits (mpz_val s1 tr) (mpz_val s1 d)"
    using s1(4,7) h(3) limbs_abs_le [of R D] QR fit by (auto simp: add_fits_def D_def)
  define W where "W = live (q \<noteq> None) tq tr V"
  have W: "tr \<in> W" "d \<in> W" "q \<noteq> None \<longrightarrow> tq \<in> W" "\<And>x. x \<in> V \<Longrightarrow> x \<in> W" using h(3) by (auto simp: W_def live_def)
  obtain s2 where s2: "mpz_div_qr_adjust s1 (q \<noteq> None) (r \<noteq> None) tq tr d mode qs rn = Inr s2" "heap_inv s2 W" "g_top s2 = g_top s1"
    "\<And>x. x \<in> W \<Longrightarrow> x \<noteq> tr \<Longrightarrow> x \<noteq> tq \<Longrightarrow> mpz_val s2 x = mpz_val s1 x"
    "q \<noteq> None \<longrightarrow> mpz_val s2 tq = mpz_val s1 tq - of_bool down + of_bool up"
    "r \<noteq> None \<longrightarrow> mpz_val s2 tr = mpz_val s1 tr + of_bool down * mpz_val s1 d - of_bool up * mpz_val s1 d"
    by (rule mpz_div_qr_adjust_value [where hasr = "r \<noteq> None", OF s1(2) [folded W_def] W(1-3) V(3-5) fq fr down_def up_def]) metis
  obtain s3 where s3: "mpz_div_qr_finish s2 q r tq tr = Inr s3" "heap_inv s3 V" "g_top s3 = g_top s2"
    "\<And>x. x \<in> V \<Longrightarrow> mpz_val s3 x = mpz_val s2 (if r = Some x then tr else if q = Some x then tq else x)"
    by (rule mpz_div_qr_finish_value [OF s2(2) [unfolded W_def] V(1-3) h(4-6)]) metis
  have val: "mpz_val s3 x = (if r = Some x then div_rem mode N D else if q = Some x then div_quot mode N D else mpz_val s x)"
    if "x \<in> V" for x
    using s3(4) [OF that] s2(4) [OF W(4) [OF that]] s2(5,6) s1(4,5) s1(7) [OF that] s1(7) [OF h(3)] rd that V(1,2)
    by (auto simp: D_def split: if_splits)
  have ex: "rn \<noteq> 0 \<longleftrightarrow> \<not> mpz_val s d dvd mpz_val s n" using s1(6) by (simp add: R_def mod_eq_0_iff_dvd N_def D_def)
  have "mpz_div_qr_long s q r n d mode qs = Inr (rn \<noteq> 0, s3\<lparr>g_top := g_top s\<rparr>)"
    using s1(1) s2(1) s3(1) by (simp add: mpz_div_qr_long_def with_local_def s0_def tq_def tr_def)
  moreover have "divided s V q r mode (mpz_val s n) (mpz_val s d) (s3\<lparr>g_top := g_top s\<rparr>)"
    using heap_inv_top [OF s3(2), of "g_top s"] lt val by (simp add: divided_def N_def D_def)
  ultimately show ?thesis using that ex by (simp add: qs_def)
qed

text \<open>Storing the remainder and then the quotient, where they are wanted.\<close>

lemma store_pair:
  assumes h: "heap_inv s V" "set_option q \<subseteq> V" "set_option r \<subseteq> V" "q = None \<or> q \<noteq> r"
    and f: "\<And>y. y \<in> V \<Longrightarrow> \<exists>s'. f y = Inr s' \<and> stores s V y (div_rem mode n d) s'"
    and g: "\<And>s1 y. heap_inv s1 V \<Longrightarrow> y \<in> V \<Longrightarrow> \<exists>s'. g s1 y = Inr s' \<and> stores s1 V y (div_quot mode n d) s'"
  shows "\<exists>s'. rbind (on_some r f s) (\<lambda>s. on_some q (g s) s) = Inr s' \<and> divided s V q r mode n d s'"
proof -
  obtain s1 where s1: "on_some r f s = Inr s1" "heap_inv s1 V" "g_top s1 = g_top s"
    "\<And>x. x \<in> V \<Longrightarrow> mpz_val s1 x = (if r = Some x then div_rem mode n d else mpz_val s x)"
  proof (cases r)
    case None
    then show ?thesis using h(1) by (intro that [of s]) (simp_all add: on_some_def)
  next
    case (Some y)
    with h(3) f [of y] obtain s1 where "f y = Inr s1" "stores s V y (div_rem mode n d) s1" by auto
    with Some show ?thesis by (intro that [of s1]) (auto simp: on_some_def stores_def)
  qed
  show ?thesis
  proof (cases q)
    case None
    then show ?thesis using s1 by (intro exI [of _ s1]) (simp add: on_some_def divided_def)
  next
    case (Some y)
    with h(2) g [OF s1(2), of y] obtain s2 where s2: "g s1 y = Inr s2" "stores s1 V y (div_quot mode n d) s2" by auto
    have "divided s V q r mode n d s2"
      using s2(2) s1(3,4) h(4) Some by (auto simp: divided_def stores_def)
    with s1(1) s2(1) Some show ?thesis by (intro exI [of _ s2]) (simp add: on_some_def)
  qed
qed

lemma assign_ex:
  assumes "heap_inv s V" "r \<in> V"
  shows "\<exists>s'. mpz_set_ui s r 1 = Inr s' \<and> stores s V r 1 s'" "\<exists>s'. mpz_set_si s r (- 1) = Inr s' \<and> stores s V r (- 1) s'"
    "x \<in> V \<Longrightarrow> \<exists>s'. mpz_set s r x = Inr s' \<and> stores s V r (mpz_val s x) s'"
proof -
  obtain s1 where "mpz_set_ui s r 1 = Inr s1" "stores s V r (int (unat (1 :: limb))) s1" by (rule mpz_set_ui_stores [OF assms])
  then show "\<exists>s'. mpz_set_ui s r 1 = Inr s' \<and> stores s V r 1 s'" by simp
  obtain s2 where "mpz_set_si s r (- 1) = Inr s2" "stores s V r (- 1) s2" by (rule mpz_set_si_stores [OF assms, of "- 1"]) auto
  then show "\<exists>s'. mpz_set_si s r (- 1) = Inr s' \<and> stores s V r (- 1) s'" by blast
  show "\<exists>s'. mpz_set s r x = Inr s' \<and> stores s V r (mpz_val s x) s'" if "x \<in> V"
    using mpz_set_stores [OF assms that] by metis
qed

lemma mpz_div_qr_short_value:
  assumes h: "heap_inv s V" "n \<in> V" "d \<in> V" "set_option q \<subseteq> V" "set_option r \<subseteq> V" "q = None \<or> q \<noteq> r"
    and sz: "msize s n \<noteq> 0" "abs_size s n < abs_size s d" and fit: "add_fits (mpz_val s n) (mpz_val s d)"
  shows "\<not> mpz_val s d dvd mpz_val s n"
    "\<exists>s'. mpz_div_qr_short s q r n d mode (msize s d XOR msize s n) = Inr s' \<and> divided s V q r mode (mpz_val s n) (mpz_val s d) s'"
proof -
  define N D qs where "N = mpz_val s n" and "D = mpz_val s d" and "qs = msize s d XOR msize s n"
  have lt: "\<bar>N\<bar> < \<bar>D\<bar>" unfolding N_def D_def by (rule abs_less_of_size [OF h(1,2,3) sz(2)])
  have N0: "N \<noteq> 0" using sgn_mpz_val [OF h(1,2)] sz(1) by (auto simp: N_def sgn_if split: if_splits)
  then show "\<not> mpz_val s d dvd mpz_val s n" using lt dvd_imp_le_int [of N D] by (auto simp: N_def D_def)
  have sg: "qs < 0 \<longleftrightarrow> (N < 0) \<noteq> (D < 0)"
    using sgn_mpz_val [OF h(1,2)] sgn_mpz_val [OF h(1,3)] by (auto simp: qs_def N_def D_def not_le sgn_if split: if_splits)
  have D0: "D \<noteq> 0" and R0: "\<bar>N\<bar> mod \<bar>D\<bar> = \<bar>N\<bar>" "\<bar>N\<bar> div \<bar>D\<bar> = 0" using lt by auto
  note rd = div_rounding [OF D0 sg refl refl refl refl, unfolded R0, of mode]
  have sub: "\<exists>s'. mpz_sub s y n d = Inr s' \<and> stores s V y (N - D) s'" "\<exists>s'. mpz_add s y n d = Inr s' \<and> stores s V y (N + D) s'" if "y \<in> V" for y
    using subtraction.op_stores [OF h(1) that h(2,3) fit] addition.op_stores [OF h(1) that h(2,3) fit] by (auto simp: N_def D_def)
  have aN: "(if N < 0 then - 1 else 1) * \<bar>N\<bar> = N" by simp
  consider (ceil) "mode = GMP_DIV_CEIL" "\<not> qs < 0" | (floor) "mode = GMP_DIV_FLOOR" "qs < 0"
    | (none) "\<not> (mode = GMP_DIV_CEIL \<and> \<not> qs < 0)" "\<not> (mode = GMP_DIV_FLOOR \<and> qs < 0)" by blast
  then have "\<exists>s'. mpz_div_qr_short s q r n d mode qs = Inr s' \<and> divided s V q r mode N D s'"
  proof cases
    case ceil
    then have v: "div_quot mode N D = 1" "div_rem mode N D = N - D" using rd N0 aN by simp_all
    have e: "mpz_div_qr_short s q r n d mode qs =
        rbind (on_some r (\<lambda>r. mpz_sub s r n d) s) (\<lambda>s. on_some q (\<lambda>q. mpz_set_ui s q 1) s)"
      using ceil by (simp add: mpz_div_qr_short_def not_less)
    show ?thesis unfolding e by (rule store_pair [OF h(1,4-6)]) (simp_all add: v sub assign_ex)
  next
    case floor
    then have v: "div_quot mode N D = - 1" "div_rem mode N D = N + D" using rd N0 aN by simp_all
    have e: "mpz_div_qr_short s q r n d mode qs =
        rbind (on_some r (\<lambda>r. mpz_add s r n d) s) (\<lambda>s. on_some q (\<lambda>q. mpz_set_si s q (- 1)) s)"
      using floor by (simp add: mpz_div_qr_short_def)
    show ?thesis unfolding e by (rule store_pair [OF h(1,4-6)]) (simp_all add: v sub assign_ex)
  next
    case none
    then have v: "div_quot mode N D = 0" "div_rem mode N D = N" using rd aN by auto
    have "\<exists>s'. mpz_set s y n = Inr s' \<and> stores s V y N s'" if "y \<in> V" for y
      using assign_ex(3) [OF h(1) that h(2)] by (simp add: N_def)
    moreover have e: "mpz_div_qr_short s q r n d mode qs =
        rbind (on_some r (\<lambda>r. mpz_set s r n) s) (\<lambda>s. on_some q (\<lambda>q. Inr (set_size s q 0)) s)"
      using none by (auto simp: mpz_div_qr_short_def)
    ultimately show ?thesis unfolding e by (intro store_pair [OF h(1,4-6)]) (simp_all add: v zero_stores)
  qed
  then show "\<exists>s'. mpz_div_qr_short s q r n d mode (msize s d XOR msize s n) = Inr s' \<and> divided s V q r mode (mpz_val s n) (mpz_val s d) s'"
    by (simp add: qs_def N_def D_def)
qed

text \<open>The division function, for a divisor that is not zero; a zero divisor aborts the program.\<close>

lemma mpz_div_qr_value:
  assumes h: "heap_inv s V" "n \<in> V" "d \<in> V" "set_option q \<subseteq> V" "set_option r \<subseteq> V" "q = None \<or> q \<noteq> r"
    and d0: "mpz_val s d \<noteq> 0" and fit: "add_fits (mpz_val s n) (mpz_val s d)"
  shows "\<exists>s'. mpz_div_qr s q r n d mode = Inr (\<not> mpz_val s d dvd mpz_val s n, s') \<and>
    divided s V q r mode (mpz_val s n) (mpz_val s d) s'"
proof -
  have sd: "msize s d \<noteq> 0" using d0 by (auto simp: mpz_val_def)
  consider "msize s n = 0" | "msize s n \<noteq> 0" "abs_size s n < abs_size s d" | "msize s n \<noteq> 0" "abs_size s d \<le> abs_size s n"
    by linarith
  then show ?thesis
  proof cases
    case 1
    then have n0: "mpz_val s n = 0" by (simp add: mpz_val_def)
    then have v: "div_quot mode 0 (mpz_val s d) = 0" "div_rem mode 0 (mpz_val s d) = 0"
      by (cases mode; simp add: div_quot_def div_rem_def)+
    obtain s1 where s1: "on_some q (\<lambda>q. Inr (set_size s q 0)) s = Inr s1" "heap_inv s1 V" "g_top s1 = g_top s"
      "\<And>x. x \<in> V \<Longrightarrow> mpz_val s1 x = (if q = Some x then 0 else mpz_val s x)"
      using h(1,4) zero_stores [OF h(1)] by (cases q) (fastforce simp: on_some_def stores_def)+
    obtain s2 where s2: "on_some r (\<lambda>r. Inr (set_size s1 r 0)) s1 = Inr s2" "heap_inv s2 V" "g_top s2 = g_top s1"
      "\<And>x. x \<in> V \<Longrightarrow> mpz_val s2 x = (if r = Some x then 0 else mpz_val s1 x)"
      using s1(2) h(5) zero_stores [OF s1(2)] by (cases r) (fastforce simp: on_some_def stores_def)+
    have "mpz_div_qr s q r n d mode = Inr (False, s2)" using 1 sd s1(1) s2(1) by (simp add: mpz_div_qr_def)
    then show ?thesis using s1 s2 v n0 by (auto simp: divided_def)
  next
    case 2
    from mpz_div_qr_short_value(1) [OF h 2 fit] mpz_div_qr_short_value(2) [OF h 2 fit, of mode] show ?thesis
      using 2 sd by (auto simp: mpz_div_qr_def Let_def abs_size_def)
  next
    case 3
    obtain s' where "mpz_div_qr_long s q r n d mode (msize s d XOR msize s n) = Inr (\<not> mpz_val s d dvd mpz_val s n, s')"
      "divided s V q r mode (mpz_val s n) (mpz_val s d) s'" by (rule mpz_div_qr_long_value [OF h sd 3(2) fit])
    then show ?thesis using 3 sd by (auto simp: mpz_div_qr_def Let_def abs_size_def)
  qed
qed

lemma mpz_div_qr_by_zero: "heap_inv s V \<Longrightarrow> d \<in> V \<Longrightarrow> mpz_val s d = 0 \<Longrightarrow>
  mpz_div_qr s q r n d mode = Inl (Abort ''mpz_div_qr: Divide by zero.'')"
  using sgn_mpz_val [of s V d] by (auto simp: mpz_div_qr_def Let_def gmp_die_def sgn_if split: if_splits)

end
