(* ===== verification/Mpz_program.thy ===== *)
theory Mpz_program
  imports Mpz_div_value
begin

text \<open>
  Sequences of calls of the integer functions. A call names its result and operands, which
  may be the same; \<open>call_mpz\<close> is the C function and \<open>call_int\<close> the operation on an
  environment of integers that it is meant to be. \<open>call_ok\<close> bounds the operands so that
  the sizes of the results are C integers, and asks for a divisor that is not zero.
\<close>

datatype mpz_call =
    Set_si nat int
  | Assign nat nat
  | Neg nat nat
  | Abs nat nat
  | Swap nat nat
  | Add nat nat nat
  | Sub nat nat nat
  | Mul nat nat nat
  | Addmul nat nat nat
  | Submul nat nat nat
  | Add_ui nat nat limb
  | Sub_ui nat nat limb
  | Mul_si nat nat int
  | Mul_2exp nat nat "64 word"
  | Div_qr nat nat nat nat mpz_div_round_mode

fun call_mpz :: "mpz_call \<Rightarrow> gmp \<Rightarrow> gmp result" where
  "call_mpz (Set_si r v) s = mpz_set_si s r v"
| "call_mpz (Assign r x) s = mpz_set s r x"
| "call_mpz (Neg r x) s = mpz_neg s r x"
| "call_mpz (Abs r x) s = mpz_abs s r x"
| "call_mpz (Swap x y) s = Inr (mpz_swap s x y)"
| "call_mpz (Add r a b) s = mpz_add s r a b"
| "call_mpz (Sub r a b) s = mpz_sub s r a b"
| "call_mpz (Mul r a b) s = mpz_mul s r a b"
| "call_mpz (Addmul r a b) s = mpz_addmul s r a b"
| "call_mpz (Submul r a b) s = mpz_submul s r a b"
| "call_mpz (Add_ui r a v) s = mpz_add_ui s r a v"
| "call_mpz (Sub_ui r a v) s = mpz_sub_ui s r a v"
| "call_mpz (Mul_si r a v) s = mpz_mul_si s r a v"
| "call_mpz (Mul_2exp r a v) s = mpz_mul_2exp s r a v"
| "call_mpz (Div_qr q r n d mode) s = rbind (mpz_div_qr s (Some q) (Some r) n d mode) (\<lambda>(_, s). Inr s)"

fun call_int :: "mpz_call \<Rightarrow> (nat \<Rightarrow> int) \<Rightarrow> nat \<Rightarrow> int" where
  "call_int (Set_si r v) E = E(r := v)"
| "call_int (Assign r x) E = E(r := E x)"
| "call_int (Neg r x) E = E(r := - E x)"
| "call_int (Abs r x) E = E(r := \<bar>E x\<bar>)"
| "call_int (Swap x y) E = E(x := E y, y := E x)"
| "call_int (Add r a b) E = E(r := E a + E b)"
| "call_int (Sub r a b) E = E(r := E a - E b)"
| "call_int (Mul r a b) E = E(r := E a * E b)"
| "call_int (Addmul r a b) E = E(r := E r + E a * E b)"
| "call_int (Submul r a b) E = E(r := E r - E a * E b)"
| "call_int (Add_ui r a v) E = E(r := E a + int (unat v))"
| "call_int (Sub_ui r a v) E = E(r := E a - int (unat v))"
| "call_int (Mul_si r a v) E = E(r := E a * v)"
| "call_int (Mul_2exp r a v) E = E(r := E a * 2 ^ unat v)"
| "call_int (Div_qr q r n d mode) E = E(q := div_quot mode (E n) (E d), r := div_rem mode (E n) (E d))"

fun call_vars :: "mpz_call \<Rightarrow> nat set" where
  "call_vars (Set_si r v) = {r}"
| "call_vars (Assign r x) = {r, x}"
| "call_vars (Neg r x) = {r, x}"
| "call_vars (Abs r x) = {r, x}"
| "call_vars (Swap x y) = {x, y}"
| "call_vars (Add r a b) = {r, a, b}"
| "call_vars (Sub r a b) = {r, a, b}"
| "call_vars (Mul r a b) = {r, a, b}"
| "call_vars (Addmul r a b) = {r, a, b}"
| "call_vars (Submul r a b) = {r, a, b}"
| "call_vars (Add_ui r a v) = {r, a}"
| "call_vars (Sub_ui r a v) = {r, a}"
| "call_vars (Mul_si r a v) = {r, a}"
| "call_vars (Mul_2exp r a v) = {r, a}"
| "call_vars (Div_qr q r n d mode) = {q, r, n, d}"

definition is_long :: "int \<Rightarrow> bool" where
  "is_long v \<longleftrightarrow> - (2 ^ 63) \<le> v \<and> v < 2 ^ 63"

fun call_ok :: "mpz_call \<Rightarrow> (nat \<Rightarrow> int) \<Rightarrow> bool" where
  "call_ok (Set_si r v) E \<longleftrightarrow> is_long v"
| "call_ok (Add r a b) E \<longleftrightarrow> add_fits (E a) (E b)"
| "call_ok (Sub r a b) E \<longleftrightarrow> add_fits (E a) (E b)"
| "call_ok (Mul r a b) E \<longleftrightarrow> mul_fits (E a) (E b)"
| "call_ok (Addmul r a b) E \<longleftrightarrow> mul_fits (E a) (E b) \<and> add_fits (E r) (E a * E b)"
| "call_ok (Submul r a b) E \<longleftrightarrow> mul_fits (E a) (E b) \<and> add_fits (E r) (E a * E b)"
| "call_ok (Add_ui r a v) E \<longleftrightarrow> int (limbs (E a)) < INT_MAX"
| "call_ok (Sub_ui r a v) E \<longleftrightarrow> int (limbs (E a)) < INT_MAX"
| "call_ok (Mul_si r a v) E \<longleftrightarrow> int (limbs (E a)) < INT_MAX \<and> is_long v"
| "call_ok (Mul_2exp r a v) E \<longleftrightarrow> int (limbs (E a)) + int (unat v div GMP_LIMB_BITS) < INT_MAX"
| "call_ok (Div_qr q r n d mode) E \<longleftrightarrow> E d \<noteq> 0 \<and> add_fits (E n) (E d) \<and> q \<noteq> r"
| "call_ok _ E \<longleftrightarrow> True"

fun run_mpz :: "mpz_call list \<Rightarrow> gmp \<Rightarrow> gmp result" where
  "run_mpz [] s = Inr s"
| "run_mpz (c # cs) s = rbind (call_mpz c s) (run_mpz cs)"

fun run_int :: "mpz_call list \<Rightarrow> (nat \<Rightarrow> int) \<Rightarrow> nat \<Rightarrow> int" where
  "run_int [] E = E"
| "run_int (c # cs) E = run_int cs (call_int c E)"

fun run_ok :: "mpz_call list \<Rightarrow> (nat \<Rightarrow> int) \<Rightarrow> bool" where
  "run_ok [] E \<longleftrightarrow> True"
| "run_ok (c # cs) E \<longleftrightarrow> call_ok c E \<and> run_ok cs (call_int c E)"

definition represents :: "gmp \<Rightarrow> nat set \<Rightarrow> (nat \<Rightarrow> int) \<Rightarrow> bool" where
  "represents s V E \<longleftrightarrow> heap_inv s V \<and> (\<forall>x \<in> V. mpz_val s x = E x)"

lemma represents_stores:
  "represents s V E \<Longrightarrow> stores s V r v s' \<Longrightarrow> represents s' V (E(r := v)) \<and> g_top s' = g_top s"
  by (simp add: represents_def stores_def)

lemma call_simulation:
  assumes rep: "represents s V E" and V: "call_vars c \<subseteq> V" and ok: "call_ok c E"
  shows "\<exists>s'. call_mpz c s = Inr s' \<and> represents s' V (call_int c E) \<and> g_top s' = g_top s"
proof -
  have h: "heap_inv s V" and val: "\<And>x. x \<in> V \<Longrightarrow> mpz_val s x = E x" using rep by (auto simp: represents_def)
  have size: "\<bar>msize s x\<bar> = int (limbs (E x))" if "x \<in> V" for x using msize_limbs [OF h that] val [OF that] by simp
  have st: "\<exists>s'. f = Inr s' \<and> represents s' V (E(r := v)) \<and> g_top s' = g_top s"
    if "f = Inr s'" "stores s V r v s'" for f r v s'
    using that represents_stores [OF rep] by blast
  have op: "\<exists>s'. f s r a b = Inr s' \<and> represents s' V (E(r := F (E a) (E b))) \<and> g_top s' = g_top s"
    if "integer_op f F fits" "r \<in> V" "a \<in> V" "b \<in> V" "fits (E a) (E b)" for f F fits r a b
    using integer_op.op_stores [OF that(1) h that(2-4)] that(3-5) val st by metis
  show ?thesis
  proof (cases c)
    case (Set_si r v)
    obtain s' where "mpz_set_si s r v = Inr s'" "stores s V r v s'"
      by (rule mpz_set_si_stores [OF h, of r v]) (use V ok Set_si in \<open>auto simp: is_long_def\<close>)
    from st [OF this] Set_si show ?thesis by simp
  next
    case (Assign r x)
    obtain s' where "mpz_set s r x = Inr s'" "stores s V r (mpz_val s x) s'"
      by (rule mpz_set_stores [OF h, of r x]) (use V Assign in auto)
    from st [OF this] Assign V val show ?thesis by simp
  next
    case (Neg r x)
    obtain s' where "mpz_neg s r x = Inr s'" "stores s V r (- mpz_val s x) s'"
      by (rule mpz_neg_stores [OF h, of r x]) (use V Neg in auto)
    from st [OF this] Neg V val show ?thesis by simp
  next
    case (Abs r x)
    obtain s' where "mpz_abs s r x = Inr s'" "stores s V r \<bar>mpz_val s x\<bar> s'"
      by (rule mpz_abs_stores [OF h, of r x]) (use V Abs in auto)
    from st [OF this] Abs V val show ?thesis by simp
  next
    case (Swap x y)
    then show ?thesis using mpz_swap_inv [OF h, of x y] V val by (auto simp: represents_def)
  next
    case (Add r a b)
    then show ?thesis using op [OF addition.integer_op_axioms, of r a b] V ok by simp
  next
    case (Sub r a b)
    then show ?thesis using op [OF subtraction.integer_op_axioms, of r a b] V ok by simp
  next
    case (Mul r a b)
    then show ?thesis using op [OF multiplication.integer_op_axioms, of r a b] V ok by simp
  next
    case (Addmul r a b)
    then show ?thesis using mpz_addmul_stores [OF h, of r a b] V ok val represents_stores [OF rep] by auto
  next
    case (Submul r a b)
    then show ?thesis using mpz_submul_stores [OF h, of r a b] V ok val represents_stores [OF rep] by auto
  next
    case (Add_ui r a v)
    obtain s' where "mpz_add_ui s r a v = Inr s'" "stores s V r (mpz_val s a + int (unat v)) s'"
      by (rule mpz_add_ui_stores [OF h, of r a v]) (use V ok size Add_ui in auto)
    from st [OF this] Add_ui V val show ?thesis by simp
  next
    case (Sub_ui r a v)
    obtain s' where "mpz_sub_ui s r a v = Inr s'" "stores s V r (mpz_val s a - int (unat v)) s'"
      by (rule mpz_sub_ui_stores [OF h, of r a v]) (use V ok size Sub_ui in auto)
    from st [OF this] Sub_ui V val show ?thesis by simp
  next
    case (Mul_si r a v)
    obtain s' where "mpz_mul_si s r a v = Inr s'" "stores s V r (mpz_val s a * v) s'"
      by (rule mpz_mul_si_stores [OF h, of r a v]) (use V ok size Mul_si in \<open>auto simp: is_long_def\<close>)
    from st [OF this] Mul_si V val show ?thesis by simp
  next
    case (Mul_2exp r a v)
    obtain s' where "mpz_mul_2exp s r a v = Inr s'" "stores s V r (mpz_val s a * 2 ^ unat v) s'"
      by (rule mpz_mul_2exp_stores [OF h, of r a v]) (use V ok size Mul_2exp in auto)
    from st [OF this] Mul_2exp V val show ?thesis by simp
  next
    case (Div_qr q r n d mode)
    then show ?thesis
      using mpz_div_qr_value [OF h, of n d "Some q" "Some r" mode] V ok val by (auto simp: divided_def represents_def)
  qed
qed

lemma run_simulation:
  assumes "represents s V E" "\<forall>c \<in> set cs. call_vars c \<subseteq> V" "run_ok cs E"
  shows "\<exists>s'. run_mpz cs s = Inr s' \<and> represents s' V (run_int cs E) \<and> g_top s' = g_top s"
  using assms
proof (induction cs arbitrary: s E)
  case (Cons c cs)
  then obtain s1 where s1: "call_mpz c s = Inr s1" "represents s1 V (call_int c E)" "g_top s1 = g_top s"
    using call_simulation [of s V E c] by auto
  with Cons.IH [OF s1(2)] Cons.prems show ?case by simp
qed simp

end
