(* ===== verification/Mpz_props.thy ===== *)
theory Mpz_props
  imports Mpz_program
begin

text \<open>
  The properties of the integer layer of mini-gmp, with instances on a state that holds
  the integers 7, -2 and twice 0.
\<close>

definition sample_gmp :: gmp where
  "sample_gmp = \<lparr>g_mem = (\<lambda>_. 0)(1 := 7, 2 := 2), g_next = 3, g_block = [1 \<mapsto> 1, 2 \<mapsto> 1],
     g_mpz = (\<lambda>_. \<lparr>mp_alloc = 0, mp_size = 0, mp_d = 0\<rparr>)
       (0 := \<lparr>mp_alloc = 1, mp_size = 1, mp_d = 1\<rparr>, 1 := \<lparr>mp_alloc = 1, mp_size = - 1, mp_d = 2\<rparr>), g_top = 8\<rparr>"

lemma sample_fields:
  "msize sample_gmp x = (if x = 0 then 1 else if x = 1 then - 1 else 0)"
  "mdata sample_gmp x = (if x = 0 then 1 else if x = 1 then 2 else 0)"
  "room sample_gmp x = (if x = 0 \<or> x = 1 then 1 else 0)"
  "abs_size sample_gmp x = (if x = 0 \<or> x = 1 then 1 else 0)"
  by (simp_all add: sample_gmp_def msize_def mdata_def room_def abs_size_def)

lemma sample_inv: "heap_inv sample_gmp {0, 1, 2, 3}"
proof -
  have ow: "owners sample_gmp {0, 1, 2, 3} = {0, 1}" by (auto simp: owners_def sample_fields)
  have b: "g_block sample_gmp p = Some n \<longleftrightarrow> (p = 1 \<or> p = 2) \<and> n = 1" for p n
    by (auto simp: sample_gmp_def)
  have "dom (g_block sample_gmp) = {1, 2}" by (auto simp: b dom_def)
  moreover have "blocks_ok sample_gmp"
    unfolding blocks_ok_def b by (auto simp: sample_gmp_def)
  moreover have "mpz_ok sample_gmp x \<and> x < g_top sample_gmp" if "x \<in> {0, 1, 2, 3}" for x
    using that by (auto simp: mpz_ok_def b sample_fields normal_limbs_def INT_MAX_def) (simp_all add: sample_gmp_def)
  ultimately show ?thesis
    unfolding heap_inv_def ow by (auto simp: inj_on_def sample_fields)
qed

lemma sample_val: "mpz_val sample_gmp 0 = 7" "mpz_val sample_gmp (Suc 0) = - 2" "mpz_val sample_gmp 2 = 0" "mpz_val sample_gmp 3 = 0"
  by (simp_all add: mpz_val_def sample_fields) (simp_all add: sample_gmp_def)


lemma limbs_small: "\<bar>v\<bar> < 2 ^ 64 \<Longrightarrow> int (limbs v) \<le> 1"
  using limbs_le_iff [of v 1] by (simp add: B_def)

lemma sample_fits:
  "\<bar>v\<bar> < 2 ^ 64 \<Longrightarrow> int (limbs v) < INT_MAX" "\<bar>v\<bar> < 2 ^ 64 \<Longrightarrow> \<bar>w\<bar> < 2 ^ 64 \<Longrightarrow> add_fits v w"
  "\<bar>v\<bar> < 2 ^ 64 \<Longrightarrow> \<bar>w\<bar> < 2 ^ 64 \<Longrightarrow> mul_fits v w"
  using limbs_small [of v] limbs_small [of w] by (simp_all add: add_fits_def mul_fits_def INT_MAX_def)



text \<open>
  C7. Division of integers: for a divisor that is not zero, \<open>mpz_div_qr\<close> stores the
  quotient rounded down, up or towards zero as the mode says and the remainder
  \<open>n - d * q\<close>, each only where its pointer is not null, changes no other integer, keeps
  the invariant, and returns whether the division is inexact. Results may be the same
  structures as operands, but quotient and remainder are different.
\<close>

theorem mpz_div_qr_exact:
  assumes "heap_inv s V" "n \<in> V" "d \<in> V" "set_option q \<subseteq> V" "set_option r \<subseteq> V" "q = None \<or> q \<noteq> r"
    and "mpz_val s d \<noteq> 0" "int (limbs (mpz_val s n)) < INT_MAX" "int (limbs (mpz_val s d)) < INT_MAX"
  shows "\<exists>s'. mpz_div_qr s q r n d mode = Inr (\<not> mpz_val s d dvd mpz_val s n, s') \<and> heap_inv s' V \<and>
    (\<forall>x \<in> V. mpz_val s' x =
      (if r = Some x then mpz_val s n - mpz_val s d * div_quot mode (mpz_val s n) (mpz_val s d)
       else if q = Some x then div_quot mode (mpz_val s n) (mpz_val s d) else mpz_val s x))"
  using mpz_div_qr_value [of s V n d q r mode] assms by (auto simp: add_fits_def divided_def div_rem_def)

theorem mpz_div_qr_exact_witness:
  "\<exists>s'. mpz_div_qr sample_gmp (Some 0) (Some 3) 0 1 GMP_DIV_CEIL = Inr (True, s') \<and> mpz_val s' 0 = - 3 \<and> mpz_val s' 3 = 1"
proof -
  have m: "mpz_val sample_gmp (Suc 0) = - 2" by (simp add: sample_val)
  have "\<exists>s'. mpz_div_qr sample_gmp (Some 0) (Some 3) 0 1 GMP_DIV_CEIL = Inr (\<not> mpz_val sample_gmp 1 dvd mpz_val sample_gmp 0, s') \<and>
      heap_inv s' {0, 1, 2, 3} \<and> (\<forall>x \<in> {0, 1, 2, 3}. mpz_val s' x =
      (if Some 3 = Some x then mpz_val sample_gmp 0 - mpz_val sample_gmp 1 * div_quot GMP_DIV_CEIL (mpz_val sample_gmp 0) (mpz_val sample_gmp 1)
       else if Some 0 = Some x then div_quot GMP_DIV_CEIL (mpz_val sample_gmp 0) (mpz_val sample_gmp 1) else mpz_val sample_gmp x))"
    by (rule mpz_div_qr_exact [OF sample_inv]) (simp_all add: sample_val m sample_fits)
  then show ?thesis by (auto simp: sample_val m div_quot_def)
qed

text \<open>
  Division by zero ends the program: whatever the dividend and the results,
  \<open>mpz_div_qr\<close> with a divisor that represents zero aborts with its message.
\<close>

theorem mpz_div_by_zero_aborts:
  assumes "heap_inv s V" "d \<in> V" "mpz_val s d = 0"
  shows "mpz_div_qr s q r n d mode = Inl (Abort ''mpz_div_qr: Divide by zero.'')"
  using assms by (rule mpz_div_qr_by_zero)

theorem mpz_div_by_zero_aborts_witness:
  "mpz_div_qr sample_gmp (Some 0) None 1 2 GMP_DIV_FLOOR = Inl (Abort ''mpz_div_qr: Divide by zero.'')"
  by (rule mpz_div_by_zero_aborts [OF sample_inv]) (simp_all add: sample_val)

text \<open>
  C32. The comparison functions return the sign of the difference of the integers: of two
  structures, of a structure and a signed or an unsigned number, and of absolute values.
\<close>

theorem mpz_comparisons_exact:
  assumes "heap_inv s V" "a \<in> V" "b \<in> V" "- (2 ^ 63) \<le> v" "v < 2 ^ 63"
  shows "mpz_cmp s a b = sgn (mpz_val s a - mpz_val s b) \<and> mpz_cmpabs s a b = sgn (\<bar>mpz_val s a\<bar> - \<bar>mpz_val s b\<bar>) \<and>
    mpz_cmp_si s a v = sgn (mpz_val s a - v) \<and> mpz_cmp_ui s a w = sgn (mpz_val s a - int (unat w)) \<and>
    mpz_cmpabs_ui s a w = sgn (\<bar>mpz_val s a\<bar> - int (unat w)) \<and> mpz_sgn s a = sgn (mpz_val s a)"
proof -
  have c: "GMP_CMP x y = sgn (x - y)" for x y :: int by (simp add: GMP_CMP_def sgn_if)
  show ?thesis
    using mpz_cmp_value [OF assms(1-3)] mpz_cmpabs_value [OF assms(1-3)] mpz_cmp_si_value [OF assms(1,2,4,5)]
      mpz_cmp_ui_value [OF assms(1,2)] mpz_cmpabs_ui_value [OF assms(1,2)] mpz_sgn_value [OF assms(1,2)] by (simp add: c)
qed

theorem mpz_comparisons_exact_witness:
  "mpz_cmp sample_gmp 1 0 = - 1 \<and> mpz_cmpabs sample_gmp 0 1 = 1 \<and> mpz_cmp_si sample_gmp 1 (- 2) = 0"
  using mpz_comparisons_exact [OF sample_inv, of 1 0 "- 2" 0] mpz_comparisons_exact [OF sample_inv, of 0 1 "- 2" 0]
  by (simp add: sample_val)

text \<open>
  C30. Round trip between C numbers and integers: after storing a \<open>long\<close> the structure fits
  a \<open>long\<close> and reading it returns the number, also for the smallest \<open>long\<close>; likewise for
  an \<open>unsigned long\<close>.
\<close>

theorem mpz_set_get_roundtrip:
  assumes "heap_inv s V" "r \<in> V" "- (2 ^ 63) \<le> v" "v < 2 ^ 63"
  shows "(\<exists>s1. mpz_set_si s r v = Inr s1 \<and> mpz_fits_slong_p s1 r \<and> mpz_get_si s1 r = v) \<and>
    (\<exists>s2. mpz_set_ui s r w = Inr s2 \<and> mpz_fits_ulong_p s2 r \<and> mpz_get_ui s2 r = w)"
proof -
  obtain s1 where s1: "mpz_set_si s r v = Inr s1" "stores s V r v s1" by (rule mpz_set_si_stores [OF assms])
  note d = storesD [OF s1(2)]
  have "mpz_fits_slong_p s1 r" using mpz_fits_slong_p_value [OF d(1) assms(2)] d(3) assms by simp
  with mpz_get_si_value [OF d(1) assms(2)] d(3) assms(2) s1(1)
  have "\<exists>s1. mpz_set_si s r v = Inr s1 \<and> mpz_fits_slong_p s1 r \<and> mpz_get_si s1 r = v" by auto
  moreover obtain s2 where s2: "mpz_set_ui s r w = Inr s2" "stores s V r (int (unat w)) s2" by (rule mpz_set_ui_stores [OF assms(1,2)])
  note e = storesD [OF s2(2)]
  have "mpz_fits_ulong_p s2 r" "int (unat (mpz_get_ui s2 r)) = int (unat w)"
    using mpz_fits_ulong_p_value [OF e(1) assms(2)] mpz_get_ui_value [OF e(1) assms(2)] e(3) assms(2) unat_less_B [of w] by simp_all
  with s2(1) have "\<exists>s2. mpz_set_ui s r w = Inr s2 \<and> mpz_fits_ulong_p s2 r \<and> mpz_get_ui s2 r = w"
    by (auto simp: word_unat_eq_iff)
  ultimately show ?thesis by blast
qed

theorem mpz_set_get_roundtrip_witness:
  "\<exists>s1. mpz_set_si sample_gmp 2 (- (2 ^ 63)) = Inr s1 \<and> mpz_get_si s1 2 = - (2 ^ 63)"
  using mpz_set_get_roundtrip [OF sample_inv, of 2 "- (2 ^ 63)" 0] by auto





end
