(* ===== verification/Mpz_div_small.thy ===== *)
theory Mpz_div_small
  imports Mpz_program
begin

text \<open>
  The values of the divisions of integers that do not go through \<open>mpz_div_qr\<close>: by a power of
  two and by a limb, with the three rounding modes.
\<close>

section \<open>Quotient by a power of two\<close>

lemma shifted_block_quotient: "(r :: nat) + B * v' = v * 2 ^ (64 - c) \<Longrightarrow> r < B \<Longrightarrow> c \<le> 64 \<Longrightarrow> v' = v div 2 ^ c"
proof -
  assume a: "r + B * v' = v * 2 ^ (64 - c)" "r < B" "c \<le> 64"
  have "v' = (r + B * v') div B" using a(2) by simp
  also have "\<dots> = v * 2 ^ (64 - c) div (2 ^ c * 2 ^ (64 - c))" using a(1) B_split [OF a(3)] by (simp add: mult.commute)
  finally show "v' = v div 2 ^ c" by simp
qed

text \<open>The limbs of \<open>u\<close> from the \<open>l\<close>th on shifted right by \<open>sh < 64\<close> bits.\<close>

definition shift_down :: "mem \<Rightarrow> nat \<Rightarrow> nat \<Rightarrow> nat \<Rightarrow> nat \<Rightarrow> (mem \<times> int) result" where
  "shift_down m qp up n sh =
     (if sh \<noteq> 0
      then rbind (mpn_rshift m qp up n sh) (\<lambda>(m, _). Inr (m, int n - of_bool (m (qp + (n - 1)) = 0)))
      else Inr (mpn_copyi m qp up n, int n))"

lemma shift_down_value:
  assumes n: "n \<noteq> 0" "sh < 64" "incr_ok qp up n" "B ^ (n - 1) \<le> mpn_val m up n"
  obtains m' k where "shift_down m qp up n sh = Inr (m', int k)" "normal_limbs m' qp k" "k \<le> n"
    "mpn_val m' qp k = mpn_val m up n div 2 ^ sh" "unchanged m m' qp n"
proof (cases "sh = 0")
  case True
  note c = mpn_copyi_limbs [OF n(3), of m]
  then have v: "mpn_val (mpn_copyi m qp up n) qp n = mpn_val m up n" by (intro mpn_val_limbs) simp
  then show ?thesis using True c n by (intro that [of "mpn_copyi m qp up n" n]) (auto simp: shift_down_def intro!: normal_limbsI)
next
  case False
  have "n \<ge> 1" "sh \<ge> 1" using n(1) False by auto
  from mpn_rshift_value [OF this n(2,3)] obtain m1 ret where
    m: "mpn_rshift m qp up n sh = Inr (m1, ret)" "unat ret + B * mpn_val m1 qp n = mpn_val m up n * 2 ^ (64 - sh)"
      "unchanged m m1 qp n" .
  have v: "mpn_val m1 qp n = mpn_val m up n div 2 ^ sh" by (rule shifted_block_quotient [OF m(2) unat_less_B]) (use n(2) in simp)
  have low: "B ^ (n - 2) \<le> mpn_val m up n div 2 ^ sh" if "n \<ge> 2"
  proof -
    have "(2 :: nat) ^ sh \<le> 2 ^ 64" using n(2) by (intro power_increasing) simp_all
    then have "B ^ (n - 2) * 2 ^ sh \<le> B ^ (n - 2) * B" by (intro mult_left_mono) (simp_all add: B_def)
    also have "\<dots> = B ^ (n - 1)" using that by (metis Suc_diff_le Suc_1 diff_Suc_Suc power_Suc2)
    finally show ?thesis using n(4) by (simp add: less_eq_div_iff_mult_less_eq)
  qed
  from top_limb_result [OF v n(1) low] have
    r: "normal_limbs m1 qp (n - of_bool (m1 (qp + (n - 1)) = 0))" "mpn_val m1 qp (n - of_bool (m1 (qp + (n - 1)) = 0)) = mpn_val m up n div 2 ^ sh"
    using n(1) by simp_all
  then show ?thesis using False m n(1) by (intro that [OF _ r(1) _ r(2) m(3)]) (auto simp: shift_down_def of_nat_diff)
qed

lemma operand_incr_shift:
  assumes h: "heap_inv s V" "r \<in> V" "x \<in> V" and n: "int n \<le> room s r" "n + l \<le> abs_size s x"
  shows "incr_ok (mdata s r) (mdata s x + l) n"
proof (cases "x = r \<or> n = 0")
  case False
  then have "block s r \<inter> block s x = {}" using block_disjoint [OF h] by auto
  moreover have "1 \<le> nat (room s x)" "1 \<le> nat (room s r)" "int (n + l) \<le> room s x"
    using False n abs_size_room [OF h(1,3)] by auto
  ultimately show ?thesis using n False by (auto simp: block_def span_disjoint incr_ok_def)
qed (auto simp: incr_ok_def)

lemma high_limbs_value: "l \<le> n \<Longrightarrow> mpn_val m (p + l) (n - l) = mpn_val m p n div B ^ l"
proof -
  assume "l \<le> n"
  then have "mpn_val m p n = mpn_val m p l + B ^ l * mpn_val m (p + l) (n - l)" using mpn_val_append [of m p l "n - l"] by simp
  then show ?thesis using mpn_val_bound [of m p l] B_pos by simp
qed

lemma q_2exp_core:
  assumes h: "heap_inv s V" "q \<in> V" "u \<in> V" and nz: "msize s u \<noteq> 0"
    and l: "l = b div GMP_LIMB_BITS" "sh = b mod GMP_LIMB_BITS" "qn = \<bar>msize s u\<bar> - int l"
  obtains k s1 where "(if qn \<le> 0 then Inr (0, s)
       else rbind (MPZ_REALLOC s q qn) (\<lambda>(qp, s).
              rbind (shift_down (g_mem s) qp (mdata s u + l) (nat qn) sh) (\<lambda>(m, k). Inr (k, s\<lparr>g_mem := m\<rparr>)))) = Inr (k, s1)"
    "stores s V q (\<bar>mpz_val s u\<bar> div 2 ^ b) (set_size s1 q k)"
proof -
  define n U where "n = abs_size s u" and "U = mpn_val (g_mem s) (mdata s u) n"
  have n: "n \<noteq> 0" "\<bar>msize s u\<bar> = int n" "qn = int n - int l" "sh < 64" using nz by (auto simp: n_def abs_size_def l GMP_LIMB_BITS_def)
  have P: "(2 :: nat) ^ b = B ^ l * 2 ^ sh" using power_split [of b] by (simp add: l)
  have "\<bar>mpz_val s u\<bar> div 2 ^ b = int (U div 2 ^ b)" unfolding mpz_val_abs U_def n_def by (simp add: zdiv_int)
  then have U: "\<bar>mpz_val s u\<bar> div 2 ^ b = int (U div B ^ l div 2 ^ sh)" unfolding P by (simp only: div_mult2_eq)
  have low: "B ^ (n - 1) \<le> U" using normal_ge [OF heap_invD(6) [OF h(1,3)]] nz by (simp add: U_def n_def)
  show ?thesis
  proof (cases "n \<le> l")
    case True
    have "U < B ^ l" unfolding U_def by (rule mpn_val_less [OF True])
    then show ?thesis using True U n(3) zero_stores [OF h(1,2)] by (intro that [of 0 s]) simp_all
  next
    case False
    define j where "j = n - l"
    have j: "j \<noteq> 0" "qn = int j" "j + l = n" using False n(3) by (auto simp: j_def)
    have "int j \<le> INT_MAX" using n(2) j heap_invD(3,4) [OF h(1,3)] by simp
    from MPZ_REALLOC_grown [OF h(1,2) this] obtain s1 where
      s1: "MPZ_REALLOC s q (int j) = Inr (mdata s1 q, s1)" and g: "grown s V q (int j) s1" .
    note g' = grownD [OF g]
    have io: "incr_ok (mdata s1 q) (mdata s1 u + l) j"
      by (rule operand_incr_shift [OF g'(1) h(2,3) g'(3)]) (use j in \<open>simp add: g'(5) n_def\<close>)
    have v: "mpn_val (g_mem s1) (mdata s1 u + l) j = U div B ^ l"
      using high_limbs_value [of l n] False g'(7) [OF h(3)] by (simp add: j_def U_def n_def)
    have "B ^ (j - 1) * B ^ l = B ^ (n - 1)" using j by (simp flip: power_add)
    then have "B ^ (j - 1) \<le> U div B ^ l" using low B_pos by (simp add: less_eq_div_iff_mult_less_eq)
    then have lo: "B ^ (j - 1) \<le> mpn_val (g_mem s1) (mdata s1 u + l) j" by (simp add: v)
    obtain m k where m: "shift_down (g_mem s1) (mdata s1 q) (mdata s1 u + l) j sh = Inr (m, int k)"
      "normal_limbs m (mdata s1 q) k" "k \<le> j" "mpn_val m (mdata s1 q) k = mpn_val (g_mem s1) (mdata s1 u + l) j div 2 ^ sh"
      "unchanged (g_mem s1) m (mdata s1 q) j"
      by (rule shift_down_value [OF j(1) n(4) io lo])
    have "result_at s1 q m (int k) (\<bar>mpz_val s u\<bar> div 2 ^ b)"
      using m(2-4) g'(3) by (intro result_atI frame_block [OF m(5) g'(3)]) (simp_all add: U v)
    from grown_stores [OF g write_result [OF g'(1) h(2) this]] show ?thesis
      using s1 m(1) j by (intro that [of "int k" "s1\<lparr>g_mem := m\<rparr>"]) simp_all
  qed
qed

text \<open>The dividend has a remainder when one of the bits that are dropped is set.\<close>

lemma dropped_bits:
  assumes h: "heap_inv s V" "u \<in> V" and nz: "msize s u \<noteq> 0"
    and l: "l = b div GMP_LIMB_BITS" "sh = b mod GMP_LIMB_BITS" "qn = \<bar>msize s u\<bar> - int l"
  shows "(qn \<le> 0 \<or> \<not> mpn_zero_p (g_mem s) (mdata s u) l \<or> g_mem s (mdata s u + l) AND (push_bit sh 1 - 1) \<noteq> 0)
    \<longleftrightarrow> \<bar>mpz_val s u\<bar> mod 2 ^ b \<noteq> 0"
proof -
  define n U where "n = abs_size s u" and "U = mpn_val (g_mem s) (mdata s u) n"
  have n: "n \<noteq> 0" "\<bar>msize s u\<bar> = int n" "qn = int n - int l" "sh < 64" using nz by (auto simp: n_def abs_size_def l GMP_LIMB_BITS_def)
  have P: "(2 :: nat) ^ b = B ^ l * 2 ^ sh" using power_split [of b] by (simp add: l)
  have "\<bar>mpz_val s u\<bar> mod 2 ^ b = int (U mod 2 ^ b)" unfolding mpz_val_abs U_def n_def by (simp add: zmod_int)
  then have U: "\<bar>mpz_val s u\<bar> mod 2 ^ b = int (U mod (B ^ l * 2 ^ sh))" unfolding P .
  have pos: "0 < U" using mpn_val_pos [OF heap_invD(6) [OF h]] nz by (simp add: U_def n_def)
  show ?thesis
  proof (cases "n \<le> l")
    case True
    have "U < B ^ l * 1" using mpn_val_less [OF True] by (simp add: U_def)
    also have "\<dots> \<le> B ^ l * 2 ^ sh" by (intro mult_left_mono) simp_all
    finally have "U mod (B ^ l * 2 ^ sh) = U" by simp
    then show ?thesis using U pos True n(3) by simp
  next
    case False
    define x where "x = g_mem s (mdata s u + l)"
    have "n = l + Suc (n - l - 1)" using False by simp
    then have "U = mpn_val (g_mem s) (mdata s u) l + B ^ l * (unat x + B * mpn_val (g_mem s) (Suc (mdata s u + l)) (n - l - 1))"
      unfolding U_def x_def by (metis mpn_val_append mpn_val.simps(2))
    moreover define L H where "L = mpn_val (g_mem s) (mdata s u) l" and "H = mpn_val (g_mem s) (Suc (mdata s u + l)) (n - l - 1)"
    ultimately have UL: "U = L + B ^ l * (unat x + B * H)" by simp
    have "L < B ^ l" unfolding L_def by (rule mpn_val_bound)
    then have d: "U mod B ^ l = L" "U div B ^ l = unat x + B * H" unfolding UL using B_pos by simp_all
    have "B = 2 ^ (64 - sh) * 2 ^ sh" using B_split [of sh] n(4) by simp
    then have e: "unat x + B * H = unat x + 2 ^ sh * (2 ^ (64 - sh) * H)" by (simp add: mult.commute)
    have "(unat x + B * H) mod 2 ^ sh = unat x mod 2 ^ sh" unfolding e by (rule mod_mult_self2)
    moreover have "U mod (B ^ l * 2 ^ sh) = B ^ l * ((U div B ^ l) mod 2 ^ sh) + U mod B ^ l" by (rule mod_mult2_eq)
    ultimately have r: "U mod (B ^ l * 2 ^ sh) = B ^ l * (unat x mod 2 ^ sh) + L" using d by simp
    have "push_bit sh 1 - 1 = (mask sh :: limb)" by (simp add: mask_eq_exp_minus_1 push_bit_eq_mult)
    then have "x AND (push_bit sh 1 - 1) = take_bit sh x" by (simp only: take_bit_eq_mask)
    then have "unat (x AND (push_bit sh 1 - 1)) = unat x mod 2 ^ sh" by (simp only: unsigned_take_bit_eq) (simp add: take_bit_eq_mod)
    then have "x AND (push_bit sh 1 - 1) \<noteq> 0 \<longleftrightarrow> unat x mod 2 ^ sh \<noteq> 0" by (metis unat_0_iff)
    moreover have "\<bar>mpz_val s u\<bar> mod 2 ^ b \<noteq> 0 \<longleftrightarrow> L \<noteq> 0 \<or> unat x mod 2 ^ sh \<noteq> 0"
      unfolding U r of_nat_eq_0_iff using B_pos by auto
    ultimately show ?thesis using False n(3) unfolding mpn_zero_p_iff x_def [symmetric] L_def [symmetric] by auto
  qed
qed

lemma mpz_div_q_2exp_unfold:
  assumes "msize s u \<noteq> 0" and l: "l = unat bits div GMP_LIMB_BITS" "sh = unat bits mod GMP_LIMB_BITS" "qn = \<bar>msize s u\<bar> - int l"
    and neg: "neg \<longleftrightarrow> msize s u < 0" and adjust: "adjust \<longleftrightarrow> mode = (if neg then GMP_DIV_FLOOR else GMP_DIV_CEIL) \<and>
           (qn \<le> 0 \<or> \<not> mpn_zero_p (g_mem s) (mdata s u) l \<or> g_mem s (mdata s u + l) AND (push_bit sh 1 - 1) \<noteq> 0)"
  shows "mpz_div_q_2exp s q u bits mode =
    rbind (if qn \<le> 0 then Inr (0, s)
           else rbind (MPZ_REALLOC s q qn) (\<lambda>(qp, s).
             rbind (shift_down (g_mem s) qp (mdata s u + l) (nat qn) sh) (\<lambda>(m, k). Inr (k, s\<lparr>g_mem := m\<rparr>)))) (\<lambda>(k, s).
      rbind (if adjust then mpz_add_ui (set_size s q k) q q 1 else Inr (set_size s q k)) (\<lambda>s.
        if neg then mpz_neg s q q else Inr s))"
proof -
  have n: "msize s u > 0 \<longleftrightarrow> \<not> neg" using assms(1) neg by auto
  have q: "0 < qn \<Longrightarrow> int (nat qn) = qn \<and> nat qn - 1 = nat (qn - 1)" by linarith
  show ?thesis
    unfolding mpz_div_q_2exp_def Let_def GMP_ABS_abs l(3) [symmetric] l(1,2) [symmetric] n adjust neg [symmetric] if_not_P if_False if_True
    using assms(1) q by (cases "qn \<le> 0") (simp_all add: shift_down_def rbind_assoc split_beta if_distrib [of "\<lambda>f. rbind f _"] cong: if_cong)
qed

lemma sgn_2exp_quot:
  fixes v :: int
  assumes "adjust \<longleftrightarrow> mode = (if v < 0 then GMP_DIV_FLOOR else GMP_DIV_CEIL) \<and> \<bar>v\<bar> mod 2 ^ b \<noteq> 0"
  shows "div_quot mode v (2 ^ b) = (if v < 0 then - 1 else 1) * (\<bar>v\<bar> div 2 ^ b + of_bool adjust)"
proof -
  have "(2 :: int) ^ b \<noteq> 0" by simp
  from div_rounding(1) [OF this, of "v < 0" v "\<bar>v\<bar> mod 2 ^ b" "\<bar>v\<bar> div 2 ^ b" "adjust \<and> v < 0" mode "adjust \<and> \<not> v < 0"]
  show ?thesis using assms by (auto split: if_splits)
qed

lemma mpz_div_q_2exp_stores:
  assumes h: "heap_inv s V" "q \<in> V" "u \<in> V" and fit: "int (limbs (mpz_val s u)) < INT_MAX"
  obtains s' where "mpz_div_q_2exp s q u bits mode = Inr s'" "stores s V q (div_quot mode (mpz_val s u) (2 ^ unat bits)) s'"
proof (cases "msize s u = 0")
  case True
  then have "div_quot mode (mpz_val s u) (2 ^ unat bits) = 0" by (cases mode) (simp_all add: mpz_val_def div_quot_def)
  then show ?thesis using True zero_stores [OF h(1,2)] by (intro that [of "set_size s q 0"]) (simp_all add: mpz_div_q_2exp_def)
next
  case nz: False
  define b l sh qn neg adjust where "b = unat bits" and "l = b div GMP_LIMB_BITS" and "sh = b mod GMP_LIMB_BITS" and "qn = \<bar>msize s u\<bar> - int l"
    and "neg \<longleftrightarrow> msize s u < 0" and "adjust \<longleftrightarrow> mode = (if neg then GMP_DIV_FLOOR else GMP_DIV_CEIL) \<and>
      (qn \<le> 0 \<or> \<not> mpn_zero_p (g_mem s) (mdata s u) l \<or> g_mem s (mdata s u + l) AND (push_bit sh 1 - 1) \<noteq> 0)"
  define v where "v = mpz_val s u"
  have neg: "neg \<longleftrightarrow> v < 0" using sgn_mpz_val [OF h(1,3)] by (auto simp: neg_def v_def sgn_if split: if_splits)
  have "adjust \<longleftrightarrow> mode = (if v < 0 then GMP_DIV_FLOOR else GMP_DIV_CEIL) \<and> \<bar>v\<bar> mod 2 ^ b \<noteq> 0"
    unfolding adjust_def v_def dropped_bits [OF h(1,3) nz l_def sh_def qn_def] neg [unfolded v_def] by (rule refl)
  note quot = sgn_2exp_quot [OF this]
  obtain k s1 where s1: "(if qn \<le> 0 then Inr (0, s)
       else rbind (MPZ_REALLOC s q qn) (\<lambda>(qp, s).
              rbind (shift_down (g_mem s) qp (mdata s u + l) (nat qn) sh) (\<lambda>(m, k). Inr (k, s\<lparr>g_mem := m\<rparr>)))) = Inr (k, s1)"
    "stores s V q (\<bar>v\<bar> div 2 ^ b) (set_size s1 q k)"
    by (rule q_2exp_core [OF h nz l_def sh_def qn_def, folded v_def])
  note d1 = storesD [OF s1(2)]
  have "0 \<le> \<bar>v\<bar> div 2 ^ b" "\<bar>v\<bar> div 2 ^ b \<le> \<bar>v\<bar> div 1" by (simp add: pos_imp_zdiv_nonneg_iff) (rule zdiv_mono2, simp_all)
  then have "limbs (\<bar>v\<bar> div 2 ^ b) \<le> limbs v" by (intro limbs_abs_le) simp
  then have "\<bar>msize (set_size s1 q k) q\<bar> < INT_MAX" using msize_limbs [OF d1(1) h(2)] d1(3) [OF h(2)] fit by (simp add: v_def)
  note fit1 = this
  obtain s2 where s2: "(if adjust then mpz_add_ui (set_size s1 q k) q q 1 else Inr (set_size s1 q k)) = Inr s2"
    "stores s V q (\<bar>v\<bar> div 2 ^ b + of_bool adjust) s2"
  proof (cases adjust)
    case True
    obtain s2 where "mpz_add_ui (set_size s1 q k) q q 1 = Inr s2" "stores (set_size s1 q k) V q (\<bar>v\<bar> div 2 ^ b + 1) s2"
      by (rule mpz_add_ui_stores [OF d1(1) h(2,2) fit1, of 1]) (simp add: d1(3) [OF h(2)])
    then show ?thesis using True stores_trans [OF s1(2)] that by auto
  next
    case False
    then show ?thesis using s1(2) that by auto
  qed
  note d2 = storesD [OF s2(2)]
  obtain s3 where "(if neg then mpz_neg s2 q q else Inr s2) = Inr s3" "stores s V q (div_quot mode v (2 ^ b)) s3"
  proof (cases neg)
    case True
    obtain s3 where "mpz_neg s2 q q = Inr s3" "stores s2 V q (- mpz_val s2 q) s3" by (rule mpz_neg_stores [OF d2(1) h(2,2)])
    then show ?thesis using True neg d2(3) [OF h(2)] quot stores_trans [OF s2(2)] that by auto
  next
    case False
    then show ?thesis using neg quot s2(2) that by auto
  qed
  then show ?thesis using mpz_div_q_2exp_unfold [OF nz l_def [unfolded b_def] sh_def [unfolded b_def] qn_def neg_def adjust_def, of q] s1(1) s2(1) that
    by (simp add: v_def b_def)
qed

section \<open>Division by a limb\<close>

text \<open>Reallocating one structure and storing the size of another are independent.\<close>

lemma MPZ_REALLOC_set_size_other:
  assumes "x \<noteq> r"
  shows "MPZ_REALLOC (set_size s x k) r n = rbind (MPZ_REALLOC s r n) (\<lambda>(p, s'). Inr (p, set_size s' x k))"
proof (cases "n > mp_alloc (g_mpz s r)")
  case True
  have t: "(f(x := a))(r := b) = (f(r := b))(x := a)" for f :: "nat \<Rightarrow> mpz_struct" and a b
    using assms by (rule fun_upd_twist)
  show ?thesis
  proof (cases "mp_alloc (g_mpz s r) = 0")
    case True
    then show ?thesis using \<open>n > _\<close> assms
      by (simp add: MPZ_REALLOC_def mpz_realloc_def gmp_xalloc_limbs_def set_size_def upd_mpz_def mdata_def msize_def rassert_def Let_def t)
  next
    case False
    then show ?thesis using \<open>n > _\<close> assms
      by (cases "g_block s (mp_d (g_mpz s r))")
        (simp_all add: MPZ_REALLOC_def mpz_realloc_def gmp_xrealloc_limbs_def set_size_def upd_mpz_def mdata_def msize_def rassert_def Let_def t)
  qed
next
  case False
  then show ?thesis using assms by (simp add: MPZ_REALLOC_def set_size_def upd_mpz_def mdata_def)
qed

lemma set_size_commute: "x \<noteq> r \<Longrightarrow> set_size (set_size s x k) r j = set_size (set_size s r j) x k"
  by (simp add: set_size_def upd_mpz_def fun_upd_twist)

lemma scratch_stores:
  assumes h: "heap_inv s V" "x \<in> V" and f: "frame (g_mem s) m {g_next s..}"
  shows "stores s V x (mpz_val s x) (s\<lparr>g_mem := m\<rparr>)"
proof -
  have same: "m a = g_mem s a" if "a \<in> span (mdata s x) (abs_size s x)" for a
    using block_bound [OF h subsetD [OF limbs_in_block [OF h] that]] f by (auto simp: frame_def)
  have v: "mpn_val m (mdata s x) (abs_size s x) = mpn_val (g_mem s) (mdata s x) (abs_size s x)"
    by (rule mpn_val_cong) (use same in simp)
  have "result_at s x m (msize s x) (mpz_val s x)"
    using heap_invD(3) [OF h] frame_mono [OF f, of "block s x \<union> {g_next s..}"] v
      normal_limbs_cong [OF heap_invD(6) [OF h] same] by (simp add: result_at_def mpz_val_def abs_size_def)
  from write_result [OF h this] have "stores s V x (mpz_val s x) (set_size (s\<lparr>g_mem := m\<rparr>) x (msize s x))" .
  moreover have "c_int (msize s x) = msize s x" using heap_invD(3,4) [OF h] by (intro c_int_small) simp
  then have "set_size (s\<lparr>g_mem := m\<rparr>) x (msize s x) = s\<lparr>g_mem := m\<rparr>" by (simp add: set_size_def upd_mpz_def msize_def)
  ultimately show ?thesis by simp
qed

text \<open>The division of the limbs, into the block of \<open>q\<close> when the quotient is wanted.\<close>

lemma quotient_room:
  assumes h: "heap_inv s V" "n \<in> V" "set_option q \<subseteq> V"
  obtains s1 x where "(case q of None \<Rightarrow> Inr (None, s)
      | Some q \<Rightarrow> rbind (MPZ_REALLOC s q \<bar>msize s n\<bar>) (\<lambda>(p, s). Inr (Some (q, p), s))) = Inr (map_option (\<lambda>q. (q, mdata s1 q)) q, s1)"
    "grown s V x \<bar>msize s n\<bar> s1" "x \<in> V" "\<And>y. q = Some y \<Longrightarrow> x = y"
proof (cases q)
  case None
  have "grown s V n \<bar>msize s n\<bar> s" using h heap_invD(3) [OF h(1,2)] by (simp add: grown_def frame_def)
  then show ?thesis using None h(2) by (intro that [of s n]) simp_all
next
  case (Some y)
  have n: "\<bar>msize s n\<bar> \<le> INT_MAX" using heap_invD(3,4) [OF h(1,2)] by simp
  have y: "y \<in> V" using h(3) Some by simp
  from MPZ_REALLOC_grown [OF h(1) y n] obtain s1 where "MPZ_REALLOC s y \<bar>msize s n\<bar> = Inr (mdata s1 y, s1)" "grown s V y \<bar>msize s n\<bar> s1" .
  then show ?thesis using Some y by (intro that [of s1 y]) simp_all
qed

lemma mpn_div_qr_1_result:
  assumes h: "heap_inv s V" "n \<in> V" "set_option q \<subseteq> V" and nz: "msize s n \<noteq> 0" "d \<noteq> 0"
    and room: "\<And>y. q = Some y \<Longrightarrow> \<bar>msize s n\<bar> \<le> room s y"
  obtains m rl where "mpn_div_qr_1 (g_mem s) (g_next s) (map_option (mdata s) q) (mdata s n) (abs_size s n) d = Inr (m, rl)"
    "int (unat rl) = \<bar>mpz_val s n\<bar> mod int (unat d)" "rl < d"
    "quot m (map_option (mdata s) q) (abs_size s n) (nat (\<bar>mpz_val s n\<bar> div int (unat d)))"
    "frame (g_mem s) m ((case q of None \<Rightarrow> {} | Some y \<Rightarrow> block s y) \<union> {g_next s..})"
proof -
  define i where "i = abs_size s n"
  have i: "1 \<le> i" "int i = \<bar>msize s n\<bar>" using nz by (auto simp: i_def abs_size_def)
  have blk: "span (mdata s n) i \<subseteq> block s n" unfolding i_def by (rule limbs_in_block [OF h(1,2)])
  have qb: "span (mdata s y) i \<subseteq> block s y" if "q = Some y" for y
    using room [OF that] i(2) by (auto simp: block_def span_def)
  have lt: "\<And>x a. x \<in> V \<Longrightarrow> a \<in> block s x \<Longrightarrow> a < g_next s" using block_bound [OF h(1)] by blast
  have ap: "apart (map_option (mdata s) q) (mdata s n) i"
  proof (cases q)
    case (Some y)
    show ?thesis
    proof (cases "y = n")
      case False
      then have "block s y \<inter> block s n = {}" using block_disjoint [OF h(1)] h(2,3) Some by simp
      then show ?thesis using qb [OF Some] blk Some by (auto simp: apart_def)
    qed (simp add: apart_def Some)
  qed (simp add: apart_def)
  have dis: "span (g_next s) i \<inter> span (mdata s n) i = {}" "span (g_next s) i \<inter> qspan (map_option (mdata s) q) i = {}"
    using lt [OF h(2)] blk lt qb h(3) by (fastforce simp: span_def qspan_def split: option.splits)+
  obtain m rl Q where m: "mpn_div_qr_1 (g_mem s) (g_next s) (map_option (mdata s) q) (mdata s n) i d = Inr (m, rl)"
    "mpn_val (g_mem s) (mdata s n) i = Q * unat d + unat rl" "unat rl < unat d" "quot m (map_option (mdata s) q) i Q"
    "frame (g_mem s) m (span (g_next s) i \<union> qspan (map_option (mdata s) q) i)"
    by (rule mpn_div_qr_1_value [OF nz(2) i(1) ap dis])
  have N: "\<bar>mpz_val s n\<bar> = int (Q * unat d + unat rl)" using m(2) by (simp add: mpz_val_abs i_def)
  have "(Q * unat d + unat rl) mod unat d = unat rl" "(Q * unat d + unat rl) div unat d = Q" using m(3) by simp_all
  then have QR: "\<bar>mpz_val s n\<bar> mod int (unat d) = int (unat rl)" "\<bar>mpz_val s n\<bar> div int (unat d) = int Q"
    unfolding N by (simp_all only: zmod_int [symmetric] zdiv_int [symmetric])
  show ?thesis
  proof (rule that)
    show "frame (g_mem s) m ((case q of None \<Rightarrow> {} | Some y \<Rightarrow> block s y) \<union> {g_next s..})"
      by (rule frame_mono [OF m(5)]) (use qb in \<open>fastforce simp: qspan_def span_def split: option.splits\<close>)
  qed (use m QR in \<open>simp_all add: i_def word_less_nat_alt\<close>)
qed

text \<open>The remainder and the quotient after rounding.\<close>

lemma limb_rounding:
  fixes v :: int
  assumes R: "int (unat rl) = \<bar>v\<bar> mod int (unat d)" "rl < d" and neg: "neg \<longleftrightarrow> v < 0"
    and up: "up \<longleftrightarrow> rl > 0 \<and> (mode = GMP_DIV_FLOOR \<and> neg \<or> mode = GMP_DIV_CEIL \<and> \<not> neg)"
    and rs: "rs = (if neg then - of_bool (rl > 0) else of_bool (rl > 0) :: int)"
    and rl': "rl' = (if up then d - rl else rl)" and rs': "rs' = (if up then - rs else rs)"
  shows "div_rem mode v (int (unat d)) = rs' * int (unat rl')" "\<bar>rs'\<bar> = of_bool (rl' \<noteq> 0)"
    "div_quot mode v (int (unat d)) = (if neg then - 1 else 1) * (\<bar>v\<bar> div int (unat d) + of_bool up)"
proof -
  have d: "int (unat d) \<noteq> 0" "\<not> int (unat d) < 0" "\<bar>int (unat d)\<bar> = int (unat d)" using R(2) by (auto simp: word_less_nat_alt)
  have z: "rl > 0 \<longleftrightarrow> int (unat rl) \<noteq> 0" by (auto simp: word_less_nat_alt)
  have dr: "int (unat (d - rl)) = int (unat d) - int (unat rl)" "d - rl \<noteq> 0"
    using R(2) by (auto simp: unat_sub word_less_nat_alt of_nat_diff less_imp_le)
  note r = div_rounding [OF d(1), of neg v "int (unat rl)" "\<bar>v\<bar> div int (unat d)" "up \<and> neg" mode "up \<and> \<not> neg"]
  have "div_quot mode v (int (unat d)) = (if neg then - 1 else 1) * (\<bar>v\<bar> div int (unat d)) - of_bool (up \<and> neg) + of_bool (up \<and> \<not> neg)"
    using R(1) neg d up z by (intro r(1)) auto
  then show "div_quot mode v (int (unat d)) = (if neg then - 1 else 1) * (\<bar>v\<bar> div int (unat d) + of_bool up)"
    by (cases neg; cases up) simp_all
  have "rl > 0 \<longleftrightarrow> rl \<noteq> 0" by (simp add: word_neq_0_conv)
  then show "\<bar>rs'\<bar> = of_bool (rl' \<noteq> 0)" using dr(2) up by (cases up; cases neg) (auto simp: rs' rs rl')
  have "div_rem mode v (int (unat d)) = (if v < 0 then - 1 else 1) * int (unat rl) + of_bool (up \<and> neg) * int (unat d) - of_bool (up \<and> \<not> neg) * int (unat d)"
    using R(1) neg d up z by (intro r(2)) auto
  also have "\<dots> = rs' * int (unat rl')"
    using neg z up dr(1) by (cases "up"; cases neg; cases "rl > 0") (simp_all add: rs' rs rl')
  finally show "div_rem mode v (int (unat d)) = rs' * int (unat rl')" .
qed

lemma remainder_stores:
  assumes h: "heap_inv s V" "r \<in> V" and k: "\<bar>rs\<bar> = of_bool (x \<noteq> (0 :: limb))"
  obtains s1 where "MPZ_REALLOC s r 1 = Inr (mdata s1 r, s1)" "grown s V r 1 s1"
    "stores s V r (rs * int (unat x)) (set_size (set_limb s1 (mdata s1 r) x) r rs)"
proof -
  obtain s1 where s1: "MPZ_REALLOC s r 1 = Inr (mdata s1 r, s1)"
    "computed s V r (of_bool (x \<noteq> 0)) (int (unat x)) (s1\<lparr>g_mem := (g_mem s1)(mdata s1 r := x)\<rparr>)" "grown s V r 1 s1"
    by (rule one_limb_computed [OF h refl])
  have "rs = of_bool (x \<noteq> 0) \<or> rs = - of_bool (x \<noteq> 0)" using k by (cases "x = 0") auto
  then have "stores s V r (rs * int (unat x)) (set_size (s1\<lparr>g_mem := (g_mem s1)(mdata s1 r := x)\<rparr>) r rs)"
    using s1(2) by (cases "x = 0") (auto simp: computed_def)
  then show ?thesis using s1 that by (simp add: set_limb_def)
qed

lemma store_remainder_value:
  assumes h: "heap_inv s V" "set_option r \<subseteq> V" and k: "\<bar>rs\<bar> = of_bool (x \<noteq> (0 :: limb))"
  shows "\<exists>s'. store_remainder s r x rs = Inr s' \<and> heap_inv s' V \<and> g_top s' = g_top s \<and>
    (\<forall>y \<in> V. mpz_val s' y = (if r = Some y then rs * int (unat x) else mpz_val s y))"
proof (cases r)
  case None
  then show ?thesis using h by (simp add: store_remainder_def on_some_def)
next
  case (Some z)
  then obtain s1 where "MPZ_REALLOC s z 1 = Inr (mdata s1 z, s1)"
    "stores s V z (rs * int (unat x)) (set_size (set_limb s1 (mdata s1 z) x) z rs)"
    using remainder_stores [OF h(1) _ k, of z] h(2) by auto
  then show ?thesis using Some by (auto simp: store_remainder_def on_some_def stores_def)
qed

text \<open>The size of the quotient is stored after the remainder: the two do not disturb each other.\<close>

lemma store_remainder_set_size:
  assumes "r \<noteq> Some y"
  shows "store_remainder (set_size s y k) r x rs = rbind (store_remainder s r x rs) (\<lambda>s. Inr (set_size s y k))"
proof (cases r)
  case (Some z)
  then have "y \<noteq> z" using assms by simp
  have "set_limb (set_size s y k) p x = set_size (set_limb s p x) y k" for s p by (simp add: set_limb_def set_size_def upd_mpz_def)
  then show ?thesis using Some \<open>y \<noteq> z\<close> set_size_commute [OF \<open>y \<noteq> z\<close>]
    by (simp add: store_remainder_def on_some_def MPZ_REALLOC_set_size_other rbind_assoc split_beta)
qed (simp add: store_remainder_def on_some_def)

lemma store_remainder_keeps_limb:
  assumes h: "heap_inv (set_size s y k) V" "set_option r \<subseteq> V" "y \<in> V" "r \<noteq> Some y" and a: "a \<in> block s y"
    and eq: "store_remainder s r x rs = Inr s'"
  shows "g_mem s' a = g_mem s a"
proof (cases r)
  case None
  then show ?thesis using eq by (simp add: store_remainder_def on_some_def)
next
  case (Some z)
  have z: "z \<in> V" "y \<noteq> z" using h Some by auto
  have "1 \<le> INT_MAX" by (simp add: INT_MAX_def)
  from MPZ_REALLOC_grown [OF h(1) z(1) this] obtain s1 where
    s1: "MPZ_REALLOC (set_size s y k) z 1 = Inr (mdata s1 z, s1)" and g: "grown (set_size s y k) V z 1 s1" .
  from s1 obtain s2 where s2: "MPZ_REALLOC s z 1 = Inr (mdata s1 z, s2)" "s1 = set_size s2 y k"
    unfolding MPZ_REALLOC_set_size_other [OF z(2)] by (cases "MPZ_REALLOC s z 1") auto
  have b: "block s1 y = block s y" using grown_frame(2) [OF g z(2)] by (simp add: block_def room_def mdata_def set_size_def upd_mpz_def)
  have "mdata s1 z \<in> block s1 z" using grownD(3) [OF g] by (simp add: block_def span_def)
  then have ne: "a \<noteq> mdata s1 z" using block_disjoint [OF grownD(1) [OF g] h(3) z] a b by blast
  have "a \<in> block (set_size s y k) y" using a by (simp add: block_def)
  then have "a < g_next (set_size s y k)" using block_bound [OF h(1,3)] by blast
  then have "g_mem s1 a = g_mem s a" using grown_frame(1) [OF g] by (auto simp: frame_def)
  then show ?thesis using eq Some s2 ne by (auto simp: store_remainder_def on_some_def set_limb_def)
qed

text \<open>The quotient in the block of \<open>y\<close>, incremented when it is rounded up.\<close>

lemma quotient_limbs:
  assumes g: "grown s V y (int i) s1" "y \<in> V" and i: "i \<noteq> 0"
    and m: "mpn_val m (mdata s1 y) i = Q" "frame (g_mem s1) m (block s1 y \<union> {g_next s1..})"
    and Q: "up \<Longrightarrow> Q + 1 < B ^ i" "i \<ge> 2 \<Longrightarrow> B ^ (i - 2) \<le> Q"
  obtains m2 k where "round_quotient (s1\<lparr>g_mem := m\<rparr>) up (mdata s1 y) i = Inr (s1\<lparr>g_mem := m2\<rparr>)"
    "k = i - of_bool (m2 (mdata s1 y + (i - 1)) = 0)" "k \<noteq> 0 \<longrightarrow> m2 (mdata s1 y + (k - 1)) \<noteq> 0"
    "computed s V y (int k) (int (Q + of_bool up)) (s1\<lparr>g_mem := m2\<rparr>)"
proof -
  define p where "p = mdata s1 y"
  have room: "int i \<le> room s1 y" by (rule grownD(3) [OF g(1)])
  obtain m2 where m2: "round_quotient (s1\<lparr>g_mem := m\<rparr>) up p i = Inr (s1\<lparr>g_mem := m2\<rparr>)"
    "mpn_val m2 p i = Q + of_bool up" "frame (g_mem s1) m2 (block s1 y \<union> {g_next s1..})"
  proof (cases up)
    case True
    obtain m2 cy where a: "mpn_add_1 m p p i 1 = Inr (m2, cy)" using mpn_add_1_ok [of i] i by fastforce
    note v = mpn_add_1_value [OF a incr_ok_refl]
    have v1: "mpn_val m2 p i + B ^ i * unat cy = Q + 1" using v(1) m(1) by (simp add: p_def)
    have "unat cy = 0"
    proof (rule ccontr)
      assume "unat cy \<noteq> 0"
      then have "B ^ i * 1 \<le> B ^ i * unat cy" by (intro mult_left_mono) simp_all
      then show False using v1 Q(1) [OF True] by linarith
    qed
    then have "cy = 0" by (simp add: unat_eq_0)
    moreover have "frame (g_mem s1) m2 (block s1 y \<union> {g_next s1..})"
      using m(2) frame_block [OF v(2) [unfolded p_def] room, of "{g_next s1..}"] by (auto simp: frame_def)
    ultimately show ?thesis using True a v(1) m(1) by (intro that [of m2]) (simp_all add: p_def round_quotient_def)
  next
    case False
    then show ?thesis using m by (intro that [of m]) (simp_all add: p_def round_quotient_def)
  qed
  have low: "i \<ge> 2 \<Longrightarrow> B ^ (i - 2) \<le> Q + of_bool up" using Q(2) by fastforce
  define k where "k = i - of_bool (m2 (p + (i - 1)) = 0)"
  have pk: "p + i - 1 = p + (i - 1)" using i by simp
  note t = top_limb_result [OF m2(2) i low, unfolded pk, folded k_def]
  have "result_at s1 y m2 (int k) (int (Q + of_bool up))"
    using t m2(3) room by (intro result_atI) (simp_all add: k_def p_def)
  note c = computedI [OF g this]
  have "k \<noteq> 0 \<longrightarrow> m2 (p + (k - 1)) \<noteq> 0"
  proof
    assume k: "k \<noteq> 0"
    then have "p + k - 1 = p + (k - 1)" by simp
    then show "m2 (p + (k - 1)) \<noteq> 0" using t(1) k by (simp only: normal_limbs_def) simp
  qed
  with c m2(1) show ?thesis using k_def unfolding p_def by (intro that [of m2 k])
qed

lemma store_quotient_eq:
  assumes "k = i - of_bool (g_mem s (p + (i - 1)) = 0)" "k \<noteq> 0 \<Longrightarrow> g_mem s (p + (k - 1)) \<noteq> 0"
  shows "store_quotient s q p i neg = Inr (set_size s q (if neg then - int k else int k))"
proof -
  have c: "k = 0 \<or> 0 < g_mem s (p + (k - 1))" using assms(2) by (metis word_neq_0_conv)
  show ?thesis unfolding store_quotient_def Let_def assms(1) [symmetric] rassert_def if_P [OF c] by simp
qed

text \<open>Bounds of the quotient of a number with \<open>i\<close> limbs by a limb.\<close>

lemma limb_quotient_bounds:
  assumes "B ^ (i - 1) \<le> N" "N < B ^ i" "i \<noteq> 0" "(d :: limb) \<noteq> 0"
  shows "N mod unat d \<noteq> 0 \<Longrightarrow> N div unat d + 1 < B ^ i" "i \<ge> 2 \<Longrightarrow> B ^ (i - 2) \<le> N div unat d"
proof -
  have d: "0 < unat d" using assms(4) by (simp add: unat_gt_0)
  have N: "N = N div unat d * unat d + N mod unat d" "N mod unat d < unat d" using d by simp_all
  have "N div unat d * 1 \<le> N div unat d * unat d" using d by (intro mult_left_mono) simp_all
  then show "N mod unat d \<noteq> 0 \<Longrightarrow> N div unat d + 1 < B ^ i" using N(1) assms(2) by linarith
  show "B ^ (i - 2) \<le> N div unat d" if "i \<ge> 2"
    using quotient_lower [OF N _ assms(1), of 1] that unat_less_B [of d] by (simp add: numeral_2_eq_2)
qed

lemma mpz_div_qr_ui_value:
  assumes h: "heap_inv s V" "n \<in> V" "set_option q \<subseteq> V" "set_option r \<subseteq> V" "q = None \<or> q \<noteq> r" and d: "d \<noteq> 0"
  shows "\<exists>s' rl. mpz_div_qr_ui s q r n d mode = Inr (rl, s') \<and> int (unat rl) = \<bar>div_rem mode (mpz_val s n) (int (unat d))\<bar> \<and>
    divided s V q r mode (mpz_val s n) (int (unat d)) s'"
proof (cases "msize s n = 0")
  case True
  then have v: "mpz_val s n = 0" "div_quot mode 0 (int (unat d)) = 0" "div_rem mode 0 (int (unat d)) = 0"
    by (simp add: mpz_val_def, (cases mode; simp add: div_quot_def div_rem_def)+)
  obtain s1 where s1: "on_some q (\<lambda>q. Inr (set_size s q 0)) s = Inr s1" "heap_inv s1 V" "g_top s1 = g_top s"
    "\<And>x. x \<in> V \<Longrightarrow> mpz_val s1 x = (if q = Some x then 0 else mpz_val s x)"
    using h(1,3) zero_stores [OF h(1)] by (cases q) (fastforce simp: on_some_def stores_def)+
  obtain s2 where s2: "on_some r (\<lambda>r. Inr (set_size s1 r 0)) s1 = Inr s2" "heap_inv s2 V" "g_top s2 = g_top s1"
    "\<And>x. x \<in> V \<Longrightarrow> mpz_val s2 x = (if r = Some x then 0 else mpz_val s1 x)"
    using s1(2) h(4) zero_stores [OF s1(2)] by (cases r) (fastforce simp: on_some_def stores_def)+
  have "mpz_div_qr_ui s q r n d mode = Inr (0, s2)" using True s1(1) s2(1) by (simp add: mpz_div_qr_ui_def)
  then show ?thesis using s1 s2 v by (auto simp: divided_def)
next
  case nz: False
  define i v where "i = abs_size s n" and "v = mpz_val s n"
  have i: "i \<noteq> 0" "int i = \<bar>msize s n\<bar>" "nat \<bar>msize s n\<bar> = i" using nz by (auto simp: i_def abs_size_def)
  obtain s1 x where s1: "(case q of None \<Rightarrow> Inr (None, s)
      | Some q \<Rightarrow> rbind (MPZ_REALLOC s q \<bar>msize s n\<bar>) (\<lambda>(p, s). Inr (Some (q, p), s))) = Inr (map_option (\<lambda>q. (q, mdata s1 q)) q, s1)"
    and g: "grown s V x \<bar>msize s n\<bar> s1" "x \<in> V" and x: "\<And>y. q = Some y \<Longrightarrow> x = y"
    by (rule quotient_room [OF h(1-3)]) blast
  note g' = grownD [OF g(1)]
  have same: "msize s1 n = msize s n" "abs_size s1 n = i" "mpz_val s1 n = v" using g'(4,5,8) h(2) by (simp_all add: i_def v_def)
  have room: "\<bar>msize s1 n\<bar> \<le> room s1 y" if "q = Some y" for y using g'(3) x [OF that] same by simp
  have nz1: "msize s1 n \<noteq> 0" using nz same by simp
  obtain m rl where m: "mpn_div_qr_1 (g_mem s1) (g_next s1) (map_option (mdata s1) q) (mdata s1 n) i d = Inr (m, rl)"
    "int (unat rl) = \<bar>v\<bar> mod int (unat d)" "rl < d" "quot m (map_option (mdata s1) q) i (nat (\<bar>v\<bar> div int (unat d)))"
    "frame (g_mem s1) m ((case q of None \<Rightarrow> {} | Some y \<Rightarrow> block s1 y) \<union> {g_next s1..})"
    by (rule mpn_div_qr_1_result [OF g'(1) h(2,3) nz1 d room, unfolded same]) blast+
  define neg up rs rl' rs' where "neg \<longleftrightarrow> msize s n < 0"
    and "up \<longleftrightarrow> rl > 0 \<and> (mode = GMP_DIV_FLOOR \<and> neg \<or> mode = GMP_DIV_CEIL \<and> \<not> neg)"
    and "rs = (if neg then - of_bool (rl > 0) else of_bool (rl > 0) :: int)"
    and "rl' = (if up then d - rl else rl)" and "rs' = (if up then - rs else rs)"
  have ng: "neg \<longleftrightarrow> v < 0" using sgn_mpz_val [OF h(1,2)] by (auto simp: neg_def v_def sgn_if split: if_splits)
  note rd = limb_rounding [OF m(2,3) ng up_def rs_def rl'_def rs'_def]
  have run: "mpz_div_qr_ui s q r n d mode =
      rbind (case q of Some y \<Rightarrow> round_quotient (s1\<lparr>g_mem := m\<rparr>) up (mdata s1 y) i | None \<Rightarrow> Inr (s1\<lparr>g_mem := m\<rparr>)) (\<lambda>s.
      rbind (store_remainder s r rl' rs') (\<lambda>s.
      rbind (case q of Some y \<Rightarrow> store_quotient s y (mdata s1 y) i neg | None \<Rightarrow> Inr s) (\<lambda>s. Inr (rl', s))))"
  proof -
    have p: "map_option snd (map_option (\<lambda>q. (q, mdata s1 q)) q) = map_option (mdata s1) q" by (cases q) simp_all
    have ge: "msize s n \<ge> 0 \<longleftrightarrow> \<not> neg" by (simp add: neg_def not_less)
    show ?thesis
      unfolding mpz_div_qr_ui_def Let_def GMP_ABS_abs ge neg_def [symmetric] using nz s1 m(1,3) p i(3)
      by (cases q) (simp_all add: rassert_def up_def rl'_def rs'_def rs_def)
  qed
  have abs: "int (unat rl') = \<bar>div_rem mode v (int (unat d))\<bar>"
    using rd(2) unfolding rd(1) abs_mult by (cases "rl' = 0") simp_all
  have div: "divided s V q r mode v (int (unat d)) s'"
    if "heap_inv s' V" "g_top s' = g_top s"
      "\<And>z. z \<in> V \<Longrightarrow> mpz_val s' z = (if r = Some z then rs' * int (unat rl') else if q = Some z then (if neg then - 1 else 1) * (\<bar>v\<bar> div int (unat d) + of_bool up) else mpz_val s z)" for s'
    using that by (simp add: divided_def rd(1,3))
  show ?thesis
  proof (cases q)
    case None
    have "stores s1 V x (mpz_val s1 x) (s1\<lparr>g_mem := m\<rparr>)" by (rule scratch_stores [OF g'(1) g(2)]) (use m(5) None in simp)
    note st = storesD [OF this]
    obtain s2 where "store_remainder (s1\<lparr>g_mem := m\<rparr>) r rl' rs' = Inr s2" "heap_inv s2 V" "g_top s2 = g_top s1"
      "\<forall>y \<in> V. mpz_val s2 y = (if r = Some y then rs' * int (unat rl') else mpz_val (s1\<lparr>g_mem := m\<rparr>) y)"
      using store_remainder_value [OF st(1) h(4) rd(2)] st(2) by auto
    then show ?thesis using run None abs st(3,4) g(2) g'(2,8) by (intro exI [of _ s2] exI [of _ rl'] conjI div [unfolded v_def]) (auto simp: v_def)
  next
    case (Some y)
    then have xy: "x = y" and ry: "r \<noteq> Some y" and y: "y \<in> V" using x h(3,5) by auto
    define N where "N = mpn_val (g_mem s1) (mdata s1 n) i"
    have N: "\<bar>v\<bar> = int N" using same by (simp add: mpz_val_abs N_def flip: same(3))
    have Q: "nat (\<bar>v\<bar> div int (unat d)) = N div unat d" "\<bar>v\<bar> div int (unat d) = int (N div unat d)" unfolding N zdiv_int [symmetric] by simp_all
    have "B ^ (i - 1) \<le> N" using normal_ge [OF heap_invD(6) [OF g'(1) h(2)]] i(1) by (simp add: N_def same)
    note bd = limb_quotient_bounds [OF this _ i(1) d]
    have "N < B ^ i" unfolding N_def by (rule mpn_val_bound)
    moreover have "up \<Longrightarrow> N mod unat d \<noteq> 0"
      using m(2) unfolding N zmod_int [symmetric] of_nat_eq_iff up_def by (auto simp: word_less_nat_alt)
    ultimately have up1: "up \<Longrightarrow> N div unat d + 1 < B ^ i" and lo: "i \<ge> 2 \<Longrightarrow> B ^ (i - 2) \<le> N div unat d" using bd by blast+
    have q: "mpn_val m (mdata s1 y) i = N div unat d" "frame (g_mem s1) m (block s1 y \<union> {g_next s1..})"
      using m(4,5) Some Q(1) by (simp_all add: quot_def)
    obtain m2 k where m2: "round_quotient (s1\<lparr>g_mem := m\<rparr>) up (mdata s1 y) i = Inr (s1\<lparr>g_mem := m2\<rparr>)"
      "k = i - of_bool (m2 (mdata s1 y + (i - 1)) = 0)" "k \<noteq> 0 \<longrightarrow> m2 (mdata s1 y + (k - 1)) \<noteq> 0"
      "computed s V y (int k) (int (N div unat d + of_bool up)) (s1\<lparr>g_mem := m2\<rparr>)"
      by (rule quotient_limbs [OF g(1) [unfolded xy, folded i(2)] y i(1) q up1 lo])
    define s2 where "s2 = s1\<lparr>g_mem := m2\<rparr>"
    define j where "j = (if neg then - int k else int k)"
    have "stores s V y ((if neg then - 1 else 1) * (\<bar>v\<bar> div int (unat d) + of_bool up)) (set_size s2 y j)"
      using m2(4) unfolding computed_def Q(2) s2_def j_def by (cases neg) simp_all
    note st = storesD [OF this]
    obtain s3 where s3: "store_remainder (set_size s2 y j) r rl' rs' = Inr s3" "heap_inv s3 V" "g_top s3 = g_top s"
      "\<forall>z \<in> V. mpz_val s3 z = (if r = Some z then rs' * int (unat rl') else mpz_val (set_size s2 y j) z)"
      using store_remainder_value [OF st(1) h(4) rd(2)] st(2) by auto
    from s3(1) obtain s4 where s4: "store_remainder s2 r rl' rs' = Inr s4" "s3 = set_size s4 y j"
      unfolding store_remainder_set_size [OF ry] by (cases "store_remainder s2 r rl' rs'") auto
    have keep: "g_mem s4 (mdata s1 y + l) = m2 (mdata s1 y + l)" if "l < i" for l
    proof -
      have "int i \<le> room s1 y" using g'(3) xy i(2) by simp
      then have "mdata s1 y + l \<in> block s2 y" using that by (auto simp: block_def span_def s2_def)
      from store_remainder_keeps_limb [OF st(1) h(4) y ry this s4(1)] show ?thesis by (simp add: s2_def)
    qed
    have "store_quotient s4 y (mdata s1 y) i neg = Inr (set_size s4 y j)"
      unfolding j_def using m2(2,3) i(1) keep [of "i - 1"] keep [of "k - 1"] by (intro store_quotient_eq) auto
    then have "mpz_div_qr_ui s q r n d mode = Inr (rl', s3)" using run Some m2(1) s4 by (simp add: s2_def)
    then show ?thesis using abs s3 st(3) [OF y] st(4) Some
      by (intro exI [of _ s3] exI [of _ rl'] conjI div [unfolded v_def]) (auto simp: v_def)
  qed
qed

end
