(* ===== verification/Mpz_env.thy ===== *)
theory Mpz_env
  imports Mpz_div_small
begin

text \<open>
  Rules for functions that are programs over integers. \<open>represents s V E\<close> says that the live
  structures \<open>V\<close> of the state \<open>s\<close> hold the integers that \<open>E\<close> gives; \<open>yields\<close> and \<open>returns\<close>
  say that a call succeeds in such a state, with a value in the second case. There is
  one rule for each function that is called, for local structures, and for sequences of calls;
  what a function computes follows from the rules by following its text.
\<close>

section \<open>Outcomes\<close>

definition yields :: "gmp result \<Rightarrow> nat set \<Rightarrow> (nat \<Rightarrow> int) \<Rightarrow> nat \<Rightarrow> bool" where
  "yields f V E t \<longleftrightarrow> (\<exists>s. f = Inr s \<and> represents s V E \<and> g_top s = t)"

definition returns :: "('a \<times> gmp) result \<Rightarrow> 'a \<Rightarrow> nat set \<Rightarrow> (nat \<Rightarrow> int) \<Rightarrow> nat \<Rightarrow> bool" where
  "returns f x V E t \<longleftrightarrow> (\<exists>s. f = Inr (x, s) \<and> represents s V E \<and> g_top s = t)"

lemma yields_Inr: "represents s V E \<Longrightarrow> g_top s = t \<Longrightarrow> yields (Inr s) V E t"
  by (simp add: yields_def)

lemma returns_Inr: "represents s V E \<Longrightarrow> g_top s = t \<Longrightarrow> returns (Inr (x, s)) x V E t"
  by (simp add: returns_def)

lemma yields_bind:
  "yields f V E t \<Longrightarrow> (\<And>s. represents s V E \<Longrightarrow> g_top s = t \<Longrightarrow> yields (g s) V' E' t') \<Longrightarrow> yields (rbind f g) V' E' t'"
  by (auto simp: yields_def)

lemma yields_bind_returns:
  "yields f V E t \<Longrightarrow> (\<And>s. represents s V E \<Longrightarrow> g_top s = t \<Longrightarrow> returns (g s) x V' E' t') \<Longrightarrow> returns (rbind f g) x V' E' t'"
  by (auto simp: yields_def returns_def)

lemma returns_bind:
  "returns f x V E t \<Longrightarrow> (\<And>s. represents s V E \<Longrightarrow> g_top s = t \<Longrightarrow> yields (g (x, s)) V' E' t') \<Longrightarrow> yields (rbind f g) V' E' t'"
  by (auto simp: yields_def returns_def)

lemma returns_bind_returns:
  "returns f x V E t \<Longrightarrow> (\<And>s. represents s V E \<Longrightarrow> g_top s = t \<Longrightarrow> returns (g (x, s)) y V' E' t') \<Longrightarrow> returns (rbind f g) y V' E' t'"
  by (auto simp: returns_def)

lemma represents_cong: "represents s V E \<Longrightarrow> (\<And>x. x \<in> V \<Longrightarrow> E' x = E x) \<Longrightarrow> represents s V E'"
  by (simp add: represents_def)

lemma yields_cong: "yields f V E t \<Longrightarrow> (\<And>x. x \<in> V \<Longrightarrow> E' x = E x) \<Longrightarrow> yields f V E' t"
  by (auto simp: yields_def intro: represents_cong)

lemma returns_cong: "returns f x V E t \<Longrightarrow> (\<And>x. x \<in> V \<Longrightarrow> E' x = E x) \<Longrightarrow> returns f x V E' t"
  by (auto simp: returns_def intro: represents_cong)

section \<open>What the state shows\<close>

lemma rep_inv: "represents s V E \<Longrightarrow> heap_inv s V" "represents s V E \<Longrightarrow> x \<in> V \<Longrightarrow> mpz_val s x = E x"
  by (simp_all add: represents_def)

lemma rep_size:
  assumes "represents s V E" "x \<in> V"
  shows "\<bar>msize s x\<bar> = int (limbs (E x))" "abs_size s x = limbs (E x)" "sgn (msize s x) = sgn (E x)"
    "msize s x = 0 \<longleftrightarrow> E x = 0" "msize s x < 0 \<longleftrightarrow> E x < 0" "msize s x > 0 \<longleftrightarrow> E x > 0" "msize s x \<ge> 0 \<longleftrightarrow> E x \<ge> 0"
proof -
  note h = rep_inv(1) [OF assms(1)] and v = rep_inv(2) [OF assms]
  show "\<bar>msize s x\<bar> = int (limbs (E x))" "abs_size s x = limbs (E x)"
    using msize_limbs [OF h assms(2)] abs_size_limbs [OF h assms(2)] v by simp_all
  show sg: "sgn (msize s x) = sgn (E x)" using sgn_mpz_val [OF h assms(2)] v by simp
  then show "msize s x = 0 \<longleftrightarrow> E x = 0" "msize s x < 0 \<longleftrightarrow> E x < 0" "msize s x > 0 \<longleftrightarrow> E x > 0" "msize s x \<ge> 0 \<longleftrightarrow> E x \<ge> 0"
    by (auto simp: sgn_if split: if_splits)
qed

lemma rep_cmp:
  assumes "represents s V E" "x \<in> V"
  shows "y \<in> V \<Longrightarrow> mpz_cmp s x y = GMP_CMP (E x) (E y)" "y \<in> V \<Longrightarrow> mpz_cmpabs s x y = GMP_CMP \<bar>E x\<bar> \<bar>E y\<bar>"
    "mpz_cmp_ui s x w = GMP_CMP (E x) (int (unat w))" "mpz_cmpabs_ui s x w = GMP_CMP \<bar>E x\<bar> (int (unat w))"
    "mpz_sgn s x = sgn (E x)" "int (unat (mpz_get_ui s x)) = \<bar>E x\<bar> mod int B"
  using assms rep_inv [OF assms(1)] mpz_cmp_value [of s V x y] mpz_cmpabs_value [of s V x y] mpz_cmp_ui_value [of s V x w]
    mpz_cmpabs_ui_value [of s V x w] mpz_sgn_value [of s V x] mpz_get_ui_value [of s V x] by simp_all

text \<open>A positive integer of one limb.\<close>

lemma rep_one_limb:
  assumes "represents s V E" "x \<in> V" "msize s x = 1"
  shows "int (unat (g_mem s (mdata s x))) = E x"
  using assms(3) one_limb_val [of s x] rep_inv(2) [OF assms(1,2)] by (simp add: mpz_get_ui_def)

section \<open>Calls\<close>

lemma yields_stores: "represents s V E \<Longrightarrow> f = Inr s' \<Longrightarrow> stores s V r v s' \<Longrightarrow> yields f V (E(r := v)) (g_top s)"
  using represents_stores by (auto simp: yields_def)

lemma yields_call:
  "represents s V E \<Longrightarrow> call_vars c \<subseteq> V \<Longrightarrow> call_ok c E \<Longrightarrow> yields (call_mpz c s) V (call_int c E) (g_top s)"
  using call_simulation by (fastforce simp: yields_def)

lemma env_set_ui: "represents s V E \<Longrightarrow> r \<in> V \<Longrightarrow> yields (mpz_set_ui s r x) V (E(r := int (unat x))) (g_top s)"
  using mpz_set_ui_stores [OF rep_inv(1), of s V E r x] yields_stores by metis

lemma env_set_si: "represents s V E \<Longrightarrow> r \<in> V \<Longrightarrow> is_long v \<Longrightarrow> yields (mpz_set_si s r v) V (E(r := v)) (g_top s)"
  using yields_call [of s V E "Set_si r v"] by simp

lemma env_set: "represents s V E \<Longrightarrow> r \<in> V \<Longrightarrow> x \<in> V \<Longrightarrow> yields (mpz_set s r x) V (E(r := E x)) (g_top s)"
  using yields_call [of s V E "Assign r x"] by simp

lemma env_neg: "represents s V E \<Longrightarrow> r \<in> V \<Longrightarrow> x \<in> V \<Longrightarrow> yields (mpz_neg s r x) V (E(r := - E x)) (g_top s)"
  using yields_call [of s V E "Neg r x"] by simp

lemma env_abs: "represents s V E \<Longrightarrow> r \<in> V \<Longrightarrow> x \<in> V \<Longrightarrow> yields (mpz_abs s r x) V (E(r := \<bar>E x\<bar>)) (g_top s)"
  using yields_call [of s V E "Abs r x"] by simp

lemma env_swap:
  assumes "represents s V E" "x \<in> V" "y \<in> V"
  shows "represents (mpz_swap s x y) V (E(x := E y, y := E x))" "g_top (mpz_swap s x y) = g_top s"
  using yields_call [OF assms(1), of "Swap x y"] assms by (simp_all add: yields_def)

lemma env_zero: "represents s V E \<Longrightarrow> r \<in> V \<Longrightarrow> represents (set_size s r 0) V (E(r := 0)) \<and> g_top (set_size s r 0) = g_top s"
  using represents_stores zero_stores [OF rep_inv(1)] by blast

lemma env_add: "represents s V E \<Longrightarrow> r \<in> V \<Longrightarrow> a \<in> V \<Longrightarrow> b \<in> V \<Longrightarrow> add_fits (E a) (E b) \<Longrightarrow>
    yields (mpz_add s r a b) V (E(r := E a + E b)) (g_top s)"
  using yields_call [of s V E "Add r a b"] by simp

lemma env_sub: "represents s V E \<Longrightarrow> r \<in> V \<Longrightarrow> a \<in> V \<Longrightarrow> b \<in> V \<Longrightarrow> add_fits (E a) (E b) \<Longrightarrow>
    yields (mpz_sub s r a b) V (E(r := E a - E b)) (g_top s)"
  using yields_call [of s V E "Sub r a b"] by simp

lemma env_mul: "represents s V E \<Longrightarrow> r \<in> V \<Longrightarrow> a \<in> V \<Longrightarrow> b \<in> V \<Longrightarrow> mul_fits (E a) (E b) \<Longrightarrow>
    yields (mpz_mul s r a b) V (E(r := E a * E b)) (g_top s)"
  using yields_call [of s V E "Mul r a b"] by simp

lemma env_add_ui: "represents s V E \<Longrightarrow> r \<in> V \<Longrightarrow> a \<in> V \<Longrightarrow> int (limbs (E a)) < INT_MAX \<Longrightarrow>
    yields (mpz_add_ui s r a v) V (E(r := E a + int (unat v))) (g_top s)"
  using yields_call [of s V E "Add_ui r a v"] by simp

lemma env_sub_ui: "represents s V E \<Longrightarrow> r \<in> V \<Longrightarrow> a \<in> V \<Longrightarrow> int (limbs (E a)) < INT_MAX \<Longrightarrow>
    yields (mpz_sub_ui s r a v) V (E(r := E a - int (unat v))) (g_top s)"
  using yields_call [of s V E "Sub_ui r a v"] by simp

lemma env_mul_ui:
  assumes "represents s V E" "r \<in> V" "a \<in> V" "int (limbs (E a)) < INT_MAX"
  shows "yields (mpz_mul_ui s r a v) V (E(r := E a * int (unat v))) (g_top s)"
proof -
  obtain s' where "mpz_mul_ui s r a v = Inr s'" "stores s V r (mpz_val s a * int (unat v)) s'"
    by (rule mpz_mul_ui_stores [OF rep_inv(1) [OF assms(1)] assms(2,3)]) (use assms rep_size(1) [OF assms(1,3)] in auto)
  then show ?thesis using yields_stores [OF assms(1)] rep_inv(2) [OF assms(1,3)] by auto
qed

lemma env_mul_2exp: "represents s V E \<Longrightarrow> r \<in> V \<Longrightarrow> a \<in> V \<Longrightarrow> int (limbs (E a)) + int (unat v div GMP_LIMB_BITS) < INT_MAX \<Longrightarrow>
    yields (mpz_mul_2exp s r a v) V (E(r := E a * 2 ^ unat v)) (g_top s)"
  using yields_call [of s V E "Mul_2exp r a v"] by simp

lemma env_div_q_2exp:
  assumes "represents s V E" "q \<in> V" "u \<in> V" "int (limbs (E u)) < INT_MAX"
  shows "yields (mpz_div_q_2exp s q u b mode) V (E(q := div_quot mode (E u) (2 ^ unat b))) (g_top s)"
proof -
  obtain s' where "mpz_div_q_2exp s q u b mode = Inr s'" "stores s V q (div_quot mode (mpz_val s u) (2 ^ unat b)) s'"
    by (rule mpz_div_q_2exp_stores [OF rep_inv(1) [OF assms(1)] assms(2,3)]) (use assms rep_inv(2) [OF assms(1,3)] in auto)
  then show ?thesis using yields_stores [OF assms(1)] rep_inv(2) [OF assms(1,3)] by auto
qed

lemma divided_represents:
  "represents s V E \<Longrightarrow> divided s V q r mode n d s' \<Longrightarrow>
   represents s' V (\<lambda>x. if r = Some x then div_rem mode n d else if q = Some x then div_quot mode n d else E x) \<and> g_top s' = g_top s"
  by (auto simp: divided_def represents_def)

lemma env_div_qr:
  assumes "represents s V E" "n \<in> V" "d \<in> V" "set_option q \<subseteq> V" "set_option r \<subseteq> V" "q = None \<or> q \<noteq> r" "E d \<noteq> 0" "add_fits (E n) (E d)"
  shows "returns (mpz_div_qr s q r n d mode) (\<not> E d dvd E n) V
    (\<lambda>x. if r = Some x then div_rem mode (E n) (E d) else if q = Some x then div_quot mode (E n) (E d) else E x) (g_top s)"
proof -
  note v = rep_inv(2) [OF assms(1)]
  obtain s' where "mpz_div_qr s q r n d mode = Inr (\<not> E d dvd E n, s')" "divided s V q r mode (E n) (E d) s'"
    using mpz_div_qr_value [OF rep_inv(1) [OF assms(1)] assms(2-6), of mode] assms(7,8) v [OF assms(2)] v [OF assms(3)] by auto
  then show ?thesis using divided_represents [OF assms(1)] by (auto simp: returns_def)
qed

lemma env_div_qr_ui:
  assumes "represents s V E" "n \<in> V" "set_option q \<subseteq> V" "set_option r \<subseteq> V" "q = None \<or> q \<noteq> r" "d \<noteq> 0"
  shows "\<exists>rl. int (unat rl) = \<bar>div_rem mode (E n) (int (unat d))\<bar> \<and> returns (mpz_div_qr_ui s q r n d mode) rl V
    (\<lambda>x. if r = Some x then div_rem mode (E n) (int (unat d)) else if q = Some x then div_quot mode (E n) (int (unat d)) else E x) (g_top s)"
proof -
  note v = rep_inv(2) [OF assms(1)]
  obtain rl s' where "mpz_div_qr_ui s q r n d mode = Inr (rl, s')" "int (unat rl) = \<bar>div_rem mode (E n) (int (unat d))\<bar>"
    "divided s V q r mode (E n) (int (unat d)) s'"
    using mpz_div_qr_ui_value [OF rep_inv(1) [OF assms(1)] assms(2-6), of mode] v [OF assms(2)] by auto
  then show ?thesis using divided_represents [OF assms(1)] by (auto simp: returns_def)
qed

section \<open>Local structures\<close>

lemma env_init:
  assumes "represents s V E" "t \<notin> V" "t < g_top s"
  shows "represents (mpz_init s t) (insert t V) (E(t := 0))" "g_top (mpz_init s t) = g_top s"
  using mpz_init_inv [OF rep_inv(1) [OF assms(1)] assms(2,3)] assms by (auto simp: represents_def)

lemma env_clear: "represents s (insert t V) E \<Longrightarrow> t \<notin> V \<Longrightarrow> yields (mpz_clear s t) V E (g_top s)"
  using mpz_clear_inv [of s t V] unfolding represents_def yields_def by (metis insertCI)

lemma env_enter:
  "represents s V E \<Longrightarrow> represents (s\<lparr>g_top := Suc (g_top s)\<rparr>) V E" "represents s V E \<Longrightarrow> g_top s \<notin> V"
  using enter_local [of s V] by (auto simp: represents_def)

lemma env_local:
  assumes "represents s V E" "returns (f (s\<lparr>g_top := Suc (g_top s)\<rparr>) (g_top s)) x V E' t"
  shows "returns (with_local s f) x V E' (g_top s)"
proof -
  from assms(2) obtain s' where s': "f (s\<lparr>g_top := Suc (g_top s)\<rparr>) (g_top s) = Inr (x, s')" "represents s' V E'" by (auto simp: returns_def)
  have "heap_inv (s'\<lparr>g_top := g_top s\<rparr>) V"
    by (rule heap_inv_top [OF rep_inv(1) [OF s'(2)]]) (rule heap_invD(1) [OF rep_inv(1) [OF assms(1)]])
  then show ?thesis using s' by (auto simp: returns_def with_local_def represents_def)
qed

text \<open>A function whose result is the state, with a local structure.\<close>

lemma env_local_yields:
  assumes "represents s V E" "yields (f (s\<lparr>g_top := Suc (g_top s)\<rparr>) (g_top s)) V E' t"
  shows "yields (rbind (with_local s (\<lambda>s t. rbind (f s t) (\<lambda>s. Inr ((), s)))) (\<lambda>(_, s). Inr s)) V E' (g_top s)"
proof (rule returns_bind)
  show "returns (with_local s (\<lambda>s t. rbind (f s t) (\<lambda>s. Inr ((), s)))) () V E' (g_top s)"
    by (rule env_local [OF assms(1)], rule yields_bind_returns [OF assms(2)], rule returns_Inr) simp_all
qed (simp add: yields_Inr)

end
