(* ===== verification/Mpz_gcd.thy ===== *)
theory Mpz_gcd
  imports Mpz_env
begin

text \<open>
  Greatest common divisors and least common multiples of \<open>mini-gmp.c\<close>: of two limbs, of an
  integer and a limb, and of two integers, by the binary algorithm. The loops may not end on
  some arguments: they are partial, and a loop that does not end is the error \<open>Diverges\<close>.
  The functions are shown to return, with the exact result.
\<close>

section \<open>Model\<close>

definition loop_result :: "'a option \<Rightarrow> 'a result" where
  "loop_result x = (case x of None \<Rightarrow> Inl Diverges | Some y \<Rightarrow> Inr y)"

text \<open>\<open>while ((v & 1) == 0) v >>= 1\<close>.\<close>

partial_function (option) strip_zeros :: "limb \<Rightarrow> limb option" where
  "strip_zeros v = (if v AND 1 = 0 then strip_zeros (drop_bit 1 v) else Some v)"

partial_function (option) gcd_11_loop :: "limb \<Rightarrow> limb \<Rightarrow> limb option" where
  "gcd_11_loop u v =
     (if u = v then Some u
      else if u > v then Option.bind (strip_zeros (drop_bit 1 (u - v))) (\<lambda>u. gcd_11_loop u v)
      else Option.bind (strip_zeros (drop_bit 1 (v - u))) (\<lambda>v. gcd_11_loop u v))"

definition mpn_gcd_11 :: "limb \<Rightarrow> limb \<Rightarrow> limb result" where
  "mpn_gcd_11 u v =
     rbind (rassert (u OR v > 0)) (\<lambda>_.
       if u = 0 then Inr v else if v = 0 then Inr u
       else rbind (ctz_result (u OR v)) (\<lambda>shift.
         let u = drop_bit shift u; v = drop_bit shift v;
             (u, v) = (if u AND 1 = 0 then (v, u) else (u, v))
         in rbind (loop_result (strip_zeros v)) (\<lambda>v.
            rbind (loop_result (gcd_11_loop u v)) (\<lambda>u. Inr (push_bit shift u)))))"

definition mpz_gcd_ui :: "gmp \<Rightarrow> nat option \<Rightarrow> nat \<Rightarrow> limb \<Rightarrow> (limb \<times> gmp) result" where
  "mpz_gcd_ui s g u v =
     (if v = 0 then rbind (on_some g (\<lambda>g. mpz_abs s g u) s) (\<lambda>s. Inr (v, s))
      else
        let un = GMP_ABS (msize s u) in
        rbind (if un \<noteq> 0
               then rbind (mpn_div_qr_1 (g_mem s) (g_next s) None (mdata s u) (nat un) v) (\<lambda>(m, r).
                    rbind (mpn_gcd_11 r v) (\<lambda>v. Inr (v, s\<lparr>g_mem := m\<rparr>)))
               else Inr (v, s)) (\<lambda>(v, s).
        rbind (on_some g (\<lambda>g. mpz_set_ui s g v) s) (\<lambda>s. Inr (v, s))))"

definition mpz_make_odd :: "gmp \<Rightarrow> nat \<Rightarrow> (64 word \<times> gmp) result" where
  "mpz_make_odd s r =
     rbind (rassert (msize s r > 0)) (\<lambda>_.
     rbind (mpn_common_scan (g_mem s) (g_mem s (mdata s r)) 0 (mdata s r) 0 0) (\<lambda>scan.
     rbind (loop_result scan) (\<lambda>shift.
     rbind (mpz_tdiv_q_2exp s r r shift) (\<lambda>s. Inr (shift, s)))))"

text \<open>The loop \<open>for (;;)\<close> of \<open>mpz_gcd\<close>, and the one call it makes when \<open>tv\<close> has one limb.\<close>

definition gcd_last :: "gmp \<Rightarrow> nat \<Rightarrow> nat \<Rightarrow> nat \<Rightarrow> gmp result" where
  "gcd_last s g tu tv =
     (let vl = g_mem s (mdata s tv)
      in rbind (mpz_tdiv_ui s tu vl) (\<lambda>(ul, s). rbind (mpn_gcd_11 ul vl) (\<lambda>w. mpz_set_ui s g w)))"

partial_function (option) gcd_loop :: "gmp \<Rightarrow> nat \<Rightarrow> nat \<Rightarrow> nat \<Rightarrow> gmp result option" where
  "gcd_loop s g tu tv =
     (case mpz_make_odd s tu of
        Inl e \<Rightarrow> Some (Inl e)
      | Inr (_, s) \<Rightarrow>
          (let c = mpz_cmp s tu tv in
           if c = 0 then Some (Inr (mpz_swap s g tu))
           else
             let s = (if c < 0 then mpz_swap s tu tv else s) in
             if msize s tv = 1 then Some (gcd_last s g tu tv)
             else (case mpz_sub s tu tu tv of Inl e \<Rightarrow> Some (Inl e) | Inr s \<Rightarrow> gcd_loop s g tu tv)))"

definition gcd_odd_parts :: "gmp \<Rightarrow> nat \<Rightarrow> nat \<Rightarrow> nat \<Rightarrow> gmp result" where
  "gcd_odd_parts s g tu tv =
     (let s = (if msize s tu < msize s tv then mpz_swap s tu tv else s)
      in rbind (mpz_tdiv_r s tu tu tv) (\<lambda>s.
         if msize s tu = 0 then Inr (mpz_swap s g tv) else rbind (loop_result (gcd_loop s g tu tv)) (\<lambda>r. r)))"

definition mpz_gcd :: "gmp \<Rightarrow> nat \<Rightarrow> nat \<Rightarrow> nat \<Rightarrow> gmp result" where
  "mpz_gcd s g u v =
     (if msize s u = 0 then mpz_abs s g v
      else if msize s v = 0 then mpz_abs s g u
      else
        rbind (with_local s (\<lambda>s tu. with_local s (\<lambda>s tv.
          let s = mpz_init (mpz_init s tu) tv in
          rbind (mpz_abs s tu u) (\<lambda>s.
          rbind (mpz_make_odd s tu) (\<lambda>(uz, s).
          rbind (mpz_abs s tv v) (\<lambda>s.
          rbind (mpz_make_odd s tv) (\<lambda>(vz, s).
          rbind (gcd_odd_parts s g tu tv) (\<lambda>s.
          rbind (mpz_clear s tu) (\<lambda>s.
          rbind (mpz_clear s tv) (\<lambda>s. Inr (min uz vz, s))))))))))) (\<lambda>(gz, s).
        mpz_mul_2exp s g g gz))"

definition mpz_lcm :: "gmp \<Rightarrow> nat \<Rightarrow> nat \<Rightarrow> nat \<Rightarrow> gmp result" where
  "mpz_lcm s r u v =
     (if msize s u = 0 \<or> msize s v = 0 then Inr (set_size s r 0)
      else
        rbind (with_local s (\<lambda>s g.
          rbind (mpz_gcd (mpz_init s g) g u v) (\<lambda>s.
          rbind (mpz_divexact s g u g) (\<lambda>s.
          rbind (mpz_mul s r g v) (\<lambda>s.
          rbind (mpz_clear s g) (\<lambda>s. Inr ((), s))))))) (\<lambda>(_, s).
        mpz_abs s r r))"

definition mpz_lcm_ui :: "gmp \<Rightarrow> nat \<Rightarrow> nat \<Rightarrow> limb \<Rightarrow> gmp result" where
  "mpz_lcm_ui s r u v =
     (if v = 0 \<or> msize s u = 0 then Inr (set_size s r 0)
      else
        rbind (mpz_gcd_ui s None u v) (\<lambda>(g, s).
        if g = 0 then Inl Div_by_zero
        else rbind (mpz_mul_ui s r u (v div g)) (\<lambda>s. mpz_abs s r r)))"

section \<open>Two limbs\<close>

lemma ctz_value:
  assumes "x \<noteq> (0 :: limb)"
  obtains c where "gmp_ctz x = Some c" "c < 64" "2 ^ c dvd unat x" "odd (unat x div 2 ^ c)"
proof -
  define k where "k = (LEAST i. bit x i)"
  have ex: "\<exists>i. bit x i" using assms by (auto simp: bit_eq_iff)
  have b: "bit x k" unfolding k_def by (rule LeastI_ex [OF ex])
  have low: "\<not> bit x i" if "i < k" for i using that not_less_Least unfolding k_def by blast
  have k: "k < 64" using b bit_imp_le_length [of x k] by simp
  have "x - 2 ^ k = x AND NOT (2 ^ k)" by (rule disjunctive_diff) (use b in \<open>auto simp: bit_exp_iff\<close>)
  moreover have "(x AND NOT (2 ^ k)) + mask k = (x AND NOT (2 ^ k)) OR mask k"
    by (rule disjunctive_add) (use low in \<open>auto simp: bit_simps\<close>)
  moreover have "x - 1 = (x - 2 ^ k) + mask k" by (simp add: mask_eq_exp_minus_1)
  ultimately have x1: "x - 1 = (x AND NOT (2 ^ k)) OR mask k" by simp
  have "- x = NOT (x - 1)" by (simp add: not_eq_complement)
  then have "x AND - x = x AND NOT ((x AND NOT (2 ^ k)) OR mask k)" by (simp only: x1)
  also have "\<dots> = 2 ^ k" by (rule bit_word_eqI) (use b low k in \<open>auto simp: bit_simps\<close>)
  finally have p: "x AND - x = 2 ^ k" .
  have u: "unat (2 ^ k :: limb) = 2 ^ k" using k by (rule unat_pow2_limb)
  then have "(2 ^ k :: limb) \<noteq> 0" by (metis power_not_zero unsigned_0 zero_neq_numeral)
  from gmp_clz_spec [OF this] obtain c where c: "gmp_clz (2 ^ k) = Some c" "2 ^ 63 \<le> unat (2 ^ k :: limb) * 2 ^ c" "unat (2 ^ k :: limb) * 2 ^ c < 2 ^ 64" .
  then have "(2 :: nat) ^ 63 \<le> 2 ^ (k + c)" "(2 :: nat) ^ (k + c) < 2 ^ 64" by (simp_all only: u power_add)
  then have "63 \<le> k + c" "k + c < 64" by (simp_all only: power_increasing_iff power_strict_increasing_iff one_less_numeral_iff semiring_norm)
  then have "gmp_ctz x = Some k" by (simp add: gmp_ctz_def p c(1) GMP_LIMB_BITS_def)
  moreover have "take_bit k x = 0" by (rule bit_word_eqI) (use low in \<open>auto simp: bit_simps\<close>)
  then have "unat x mod 2 ^ k = 0" by (metis take_bit_eq_mod unsigned_0 unsigned_take_bit_eq)
  moreover have "odd (unat x div 2 ^ k)" using b by (simp add: bit_unsigned_iff flip: bit_iff_odd)
  ultimately show ?thesis using k by (intro that) (auto simp: dvd_eq_mod_eq_0)
qed

lemma even_limb: "(v :: limb) AND 1 = 0 \<longleftrightarrow> even (unat v)"
  by (simp add: and_one_eq even_iff_mod_2_eq_zero word_unat_eq_iff unat_mod)

lemma strip_zeros_value:
  "v \<noteq> 0 \<Longrightarrow> \<exists>w k. strip_zeros v = Some w \<and> odd (unat w) \<and> unat v = 2 ^ k * unat w"
proof (induction "unat v" arbitrary: v rule: less_induct)
  case less
  show ?case
  proof (cases "even (unat v)")
    case True
    have d: "unat (drop_bit 1 v) = unat v div 2" using unat_drop_bit [of 1 v] by simp
    have "0 < unat v" using less.prems by (simp add: unat_gt_0)
    then have "unat (drop_bit 1 v) < unat v" "drop_bit 1 v \<noteq> 0" using True d by (auto simp: word_unat_eq_iff)
    then obtain w k where w: "strip_zeros (drop_bit 1 v) = Some w" "odd (unat w)" "unat (drop_bit 1 v) = 2 ^ k * unat w" using less.hyps by blast
    have "unat v = 2 ^ Suc k * unat w" using True d w(3) by auto
    moreover have "strip_zeros v = Some w" using w(1) True by (subst strip_zeros.simps) (simp add: even_limb)
    ultimately show ?thesis using w(2) by blast
  next
    case False
    then show ?thesis by (intro exI [of _ v] exI [of _ 0]) (subst strip_zeros.simps, simp add: even_limb)
  qed
qed

lemma gcd_strip: "odd (b :: nat) \<Longrightarrow> gcd (2 ^ k * a) b = gcd a b"
  by (simp add: gcd_mult_left_left_cancel coprime_commute)

lemma gcd_diff: "(b :: nat) \<le> a \<Longrightarrow> gcd (a - b) b = gcd a b"
  by (metis gcd_diff1_nat)

lemma odd_difference_step:
  assumes "odd (unat a)" "odd (unat b)" "a > (b :: limb)"
  obtains w where "strip_zeros (drop_bit 1 (a - b)) = Some w" "odd (unat w)" "gcd (unat w) (unat b) = gcd (unat a) (unat b)" "unat w < unat a"
proof -
  have lt: "unat b < unat a" using assms(3) by (simp add: word_less_nat_alt)
  have ab: "unat (a - b) = unat a - unat b" using lt by (simp add: unat_sub word_le_nat_alt less_imp_le)
  have "even (unat a - unat b)" "unat a - unat b \<noteq> 0" using assms(1,2) lt by auto
  then obtain j where j: "unat a - unat b = 2 * j" "j \<noteq> 0" by (metis evenE mult_0_right)
  have dj: "unat (drop_bit 1 (a - b)) = j" using unat_drop_bit [of 1 "a - b"] ab j(1) by simp
  then have "drop_bit 1 (a - b) \<noteq> 0" using j(2) by (auto simp: word_unat_eq_iff)
  from strip_zeros_value [OF this] obtain w k where w: "strip_zeros (drop_bit 1 (a - b)) = Some w" "odd (unat w)" "j = 2 ^ k * unat w" using dj by auto
  have "gcd (unat a) (unat b) = gcd (2 ^ Suc k * unat w) (unat b)" using gcd_diff [of "unat b" "unat a"] lt j(1) w(3) by (simp add: mult.assoc)
  also have "\<dots> = gcd (unat w) (unat b)" by (rule gcd_strip [OF assms(2)])
  finally have g: "gcd (unat w) (unat b) = gcd (unat a) (unat b)" by simp
  have "1 * unat w \<le> 2 ^ k * unat w" by (intro mult_right_mono) simp_all
  then have "unat w < unat a" using j w(3) lt by linarith
  then show ?thesis using w g that by blast
qed

lemma gcd_11_loop_value:
  "odd (unat u) \<Longrightarrow> odd (unat v) \<Longrightarrow> \<exists>g. gcd_11_loop u v = Some g \<and> unat g = gcd (unat u) (unat v)"
proof (induction "unat u + unat v" arbitrary: u v rule: less_induct)
  case less
  consider "u = v" | "u > v" | "v > u" by (metis linorder_less_linear)
  then show ?case
  proof cases
    case 1
    then show ?thesis by (subst gcd_11_loop.simps) simp
  next
    case 2
    obtain w where w: "strip_zeros (drop_bit 1 (u - v)) = Some w" "odd (unat w)" "gcd (unat w) (unat v) = gcd (unat u) (unat v)" "unat w < unat u"
      by (rule odd_difference_step [OF less.prems 2])
    then obtain g where "gcd_11_loop w v = Some g" "unat g = gcd (unat w) (unat v)" using less.hyps [of w v] less.prems by auto
    then show ?thesis using 2 w by (subst gcd_11_loop.simps) auto
  next
    case 3
    obtain w where w: "strip_zeros (drop_bit 1 (v - u)) = Some w" "odd (unat w)" "gcd (unat w) (unat u) = gcd (unat v) (unat u)" "unat w < unat v"
      by (rule odd_difference_step [OF less.prems(2,1) 3])
    then obtain g where "gcd_11_loop u w = Some g" "unat g = gcd (unat u) (unat w)" using less.hyps [of u w] less.prems by auto
    then show ?thesis using 3 w by (subst gcd_11_loop.simps) (auto simp: gcd.commute)
  qed
qed

lemma mpn_gcd_11_value:
  assumes "u \<noteq> 0 \<or> v \<noteq> 0"
  obtains g where "mpn_gcd_11 u v = Inr g" "unat g = gcd (unat u) (unat v)"
proof -
  have o: "u OR v > 0" using assms by (auto simp: word_neq_0_conv [symmetric] or_eq_0_iff)
  show ?thesis
  proof (cases "u = 0 \<or> v = 0")
    case True
    then show ?thesis using o that by (cases "u = 0") (auto simp: mpn_gcd_11_def rassert_def)
  next
    case False
    then have "u OR v \<noteq> 0" using o by auto
    from ctz_value [OF this] obtain c where c: "gmp_ctz (u OR v) = Some c" "c < 64" "2 ^ c dvd unat (u OR v)" "odd (unat (u OR v) div 2 ^ c)" .
    define u1 v1 where "u1 = drop_bit c u" and "v1 = drop_bit c v"
    have "unat (take_bit c (u OR v)) = 0" using c(3) by (simp only: unsigned_take_bit_eq) (simp add: take_bit_eq_mod dvd_eq_mod_eq_0)
    then have "take_bit c u OR take_bit c v = 0" by (simp only: unsigned_eq_0_iff take_bit_or)
    then have "take_bit c u = 0" "take_bit c v = 0" by (simp_all add: or_eq_0_iff)
    then have "unat u mod 2 ^ c = 0" "unat v mod 2 ^ c = 0" by (metis take_bit_eq_mod unsigned_0 unsigned_take_bit_eq)+
    then have uv: "unat u = 2 ^ c * unat u1" "unat v = 2 ^ c * unat v1"
      using mult_div_mod_eq [of "2 ^ c" "unat u"] mult_div_mod_eq [of "2 ^ c" "unat v"] by (simp_all add: u1_def v1_def unat_drop_bit)
    then have nz: "u1 \<noteq> 0" "v1 \<noteq> 0" using False by (auto simp: word_unat_eq_iff)
    have "bit (unat (u OR v)) c" using c(4) by (simp add: bit_iff_odd)
    then have "bit u c \<or> bit v c" by (simp add: bit_unsigned_iff bit_or_iff)
    then have odd1: "odd (unat u1) \<or> odd (unat v1)" by (simp add: u1_def v1_def unat_drop_bit bit_unsigned_iff flip: bit_iff_odd)
    define a b where "a = (if u1 AND 1 = 0 then v1 else u1)" and "b = (if u1 AND 1 = 0 then u1 else v1)"
    have ab: "odd (unat a)" "b \<noteq> 0" "gcd (unat a) (unat b) = gcd (unat u1) (unat v1)"
      using odd1 nz by (auto simp: a_def b_def even_limb gcd.commute)
    from strip_zeros_value [OF ab(2)] obtain w k where w: "strip_zeros b = Some w" "odd (unat w)" "unat b = 2 ^ k * unat w" by blast
    from gcd_11_loop_value [OF ab(1) w(2)] obtain g where g: "gcd_11_loop a w = Some g" "unat g = gcd (unat a) (unat w)" by blast
    have "gcd (unat a) (unat w) = gcd (unat u1) (unat v1)"
      using gcd_strip [OF ab(1), of k "unat w"] w(3) ab(3) by (simp add: gcd.commute)
    then have val: "2 ^ c * unat g = gcd (unat u) (unat v)" unfolding uv g(2) by (simp add: gcd_mult_distrib_nat)
    have "gcd (unat u) (unat v) \<le> unat u" using False by (intro gcd_le1_nat) (simp add: unat_eq_0)
    then have "2 ^ c * unat g < B" using val unat_less_B [of u] by simp
    then have "unat (push_bit c g) = gcd (unat u) (unat v)" using val by (simp add: unat_push_bit mult.commute)
    moreover have "mpn_gcd_11 u v = Inr (push_bit c g)"
      using False o c(1) w(1) g(1) by (simp add: mpn_gcd_11_def rassert_def ctz_result_def loop_result_def a_def b_def u1_def v1_def Let_def split: if_splits)
    ultimately show ?thesis by (intro that)
  qed
qed

section \<open>The odd part of an integer\<close>

lemma common_scan_value:
  "mpn_val m (p + i) n \<noteq> 0 \<Longrightarrow>
   \<exists>j c. common_scan_loop m (m (p + i)) i p 0 0 = Some (of_nat (64 * j + c)) \<and> j < i + n \<and> c < 64 \<and> i \<le> j \<and>
     (\<exists>x. odd x \<and> mpn_val m (p + i) n = 2 ^ (64 * (j - i) + c) * x)"
proof (induction n arbitrary: i)
  case (Suc n)
  show ?case
  proof (cases "m (p + i) = 0")
    case True
    then have v: "mpn_val m (p + i) (Suc n) = B * mpn_val m (p + Suc i) n" by simp
    then have "mpn_val m (p + Suc i) n \<noteq> 0" using Suc.prems by simp
    from Suc.IH [OF this] obtain j c x where
      jc: "common_scan_loop m (m (p + Suc i)) (Suc i) p 0 0 = Some (of_nat (64 * j + c))" "j < Suc i + n" "c < 64" "Suc i \<le> j"
      "odd x" "mpn_val m (p + Suc i) n = 2 ^ (64 * (j - Suc i) + c) * x" by blast
    have "64 * (j - i) + c = 64 + (64 * (j - Suc i) + c)" using jc(4) by simp
    then have "mpn_val m (p + i) (Suc n) = 2 ^ (64 * (j - i) + c) * x" unfolding v jc(6) by (simp add: B_def power_add)
    moreover have "common_scan_loop m (m (p + i)) i p 0 0 = Some (of_nat (64 * j + c))"
      using jc(1) True by (subst common_scan_loop.simps) simp
    ultimately show ?thesis using jc by (intro exI [of _ j] exI [of _ c] conjI exI [of _ x]) simp_all
  next
    case False
    from ctz_value [OF this] obtain c where c: "gmp_ctz (m (p + i)) = Some c" "c < 64" "2 ^ c dvd unat (m (p + i))" "odd (unat (m (p + i)) div 2 ^ c)" .
    define y H where "y = unat (m (p + i)) div 2 ^ c" and "H = mpn_val m (Suc (p + i)) n"
    have "unat (m (p + i)) = 2 ^ c * y" using c(3) by (simp add: y_def)
    moreover have "64 - c = Suc (63 - c)" using c(2) by simp
    then have B: "B = 2 ^ c * (2 * 2 ^ (63 - c))" using B_split [of c] c(2) by (simp only: power_Suc mult.commute less_imp_le)
    ultimately have "mpn_val m (p + i) (Suc n) = 2 ^ c * (y + 2 * 2 ^ (63 - c) * H)" by (simp add: H_def algebra_simps)
    moreover have "odd (y + 2 * 2 ^ (63 - c) * H)" using c(4) by (simp add: y_def)
    moreover have "common_scan_loop m (m (p + i)) i p 0 0 = Some (of_nat (64 * i + c))"
      using False c(1) by (subst common_scan_loop.simps) (simp add: GMP_LIMB_BITS_def mult.commute)
    ultimately show ?thesis using c(2) by (intro exI [of _ i] exI [of _ c]) auto
  qed
qed simp

lemma mpz_make_odd_value:
  assumes rep: "represents s V E" "r \<in> V" and r: "0 < E r" "int (limbs (E r)) < INT_MAX"
  obtains w x where "returns (mpz_make_odd s r) w V (E(r := x)) (g_top s)" "E r = 2 ^ unat w * x" "odd x" "0 < x"
proof -
  define n where "n = limbs (E r)"
  have h: "heap_inv s V" by (rule rep_inv(1) [OF rep(1)])
  have v: "E r = int (mpn_val (g_mem s) (mdata s r) n)"
    using mpz_val_abs [of s r] rep_inv(2) [OF rep] r(1) rep_size(2) [OF rep] by (simp add: n_def)
  then have nz: "mpn_val (g_mem s) (mdata s r + 0) n \<noteq> 0" using r(1) by simp
  from common_scan_value [OF nz] obtain j c x where jc: "common_scan_loop (g_mem s) (g_mem s (mdata s r)) 0 (mdata s r) 0 0 = Some (of_nat (64 * j + c))"
    "j < n" "c < 64" "odd x" "mpn_val (g_mem s) (mdata s r) n = 2 ^ (64 * j + c) * x" by auto
  have "64 * j + c < 2 ^ 64" using jc(2,3) r(2) by (simp add: n_def INT_MAX_def)
  then have w: "unat (of_nat (64 * j + c) :: 64 word) = 64 * j + c" by (simp only: unat_of_nat) simp
  define k where "k = 64 * j + c"
  have Er: "E r = 2 ^ k * int x" using v jc(5) by (simp add: k_def)
  have "div_quot GMP_DIV_TRUNC (E r) (2 ^ k) = int x" using r(1) by (simp add: div_quot_def Er sgn_mult zero_less_mult_iff)
  with env_div_q_2exp [OF rep rep(2) r(2), of "of_nat k" GMP_DIV_TRUNC] w
  have y: "yields (mpz_tdiv_q_2exp s r r (of_nat k)) V (E(r := int x)) (g_top s)" by (simp add: k_def mpz_tdiv_q_2exp_def)
  have "msize s r > 0" using rep_size(6) [OF rep] r(1) by simp
  then have "mpz_make_odd s r = rbind (mpz_tdiv_q_2exp s r r (of_nat k)) (\<lambda>s. Inr (of_nat k, s))"
    using jc(1) by (simp add: mpz_make_odd_def rassert_def mpn_common_scan_def loop_result_def k_def)
  then have "returns (mpz_make_odd s r) (of_nat k) V (E(r := int x)) (g_top s)"
    using y by (auto intro: yields_bind_returns returns_Inr)
  then show ?thesis using w Er jc(4) r(1) by (intro that) (auto simp: k_def zero_less_mult_iff)
qed

section \<open>Two integers\<close>

lemma trunc_nonneg:
  "0 \<le> n \<Longrightarrow> 0 < d \<Longrightarrow> div_quot GMP_DIV_TRUNC n d = n div d" "0 \<le> n \<Longrightarrow> 0 < d \<Longrightarrow> div_rem GMP_DIV_TRUNC n d = n mod d"
  by (cases "n = 0"; simp add: div_quot_def div_rem_def minus_mult_div_eq_mod)+

lemma int_gcd_unat: "int (unat a) = x \<Longrightarrow> int (unat b) = y \<Longrightarrow> int (gcd (unat a) (unat b)) = gcd x y"
  by (auto simp: gcd_int_int_eq)

lemma gcd_last_value:
  assumes rep: "represents s V E" "g \<in> V" "tu \<in> V" "tv \<in> V" and tv: "msize s tv = 1" and tu: "0 \<le> E tu"
  shows "yields (gcd_last s g tu tv) V (E(g := gcd (E tu) (E tv))) (g_top s)"
proof -
  define vl where "vl = g_mem s (mdata s tv)"
  have v: "int (unat vl) = E tv" unfolding vl_def by (rule rep_one_limb [OF rep(1,4) tv])
  have pos: "0 < E tv" using rep_size(6) [OF rep(1,4)] tv by simp
  then have nz: "vl \<noteq> 0" using v by auto
  from env_div_qr_ui [OF rep(1,3), of None None vl GMP_DIV_TRUNC] nz obtain rl where
    rl: "int (unat rl) = \<bar>div_rem GMP_DIV_TRUNC (E tu) (E tv)\<bar>" "returns (mpz_tdiv_ui s tu vl) rl V E (g_top s)"
    by (auto simp: v mpz_tdiv_ui_def)
  then have r: "int (unat rl) = E tu mod E tv" using trunc_nonneg(2) [OF tu pos] pos by simp
  obtain w where w: "mpn_gcd_11 rl vl = Inr w" "unat w = gcd (unat rl) (unat vl)" by (rule mpn_gcd_11_value [of rl vl]) (use nz in auto)
  have "int (unat w) = gcd (E tu) (E tv)" using int_gcd_unat [OF r v] w(2) by (simp add: gcd.commute gcd_red_int [symmetric])
  then have "yields (mpz_set_ui s' g w) V (E(g := gcd (E tu) (E tv))) (g_top s)" if "represents s' V E" "g_top s' = g_top s" for s'
    using env_set_ui [OF that(1) rep(2), of w] that(2) by simp
  then show ?thesis
    unfolding gcd_last_def Let_def vl_def [symmetric] by (intro returns_bind [OF rl(2)]) (simp add: w(1))
qed

lemma odd_gcd_step:
  fixes a b :: int
  assumes "odd b"
  shows "gcd (2 ^ k * a) b = gcd a b" "gcd (a - b) b = gcd a b"
  using assms by (simp_all add: gcd_mult_left_left_cancel coprime_commute gcd_diff1)

text \<open>What the loop and the part before it leave: the result in \<open>g\<close>, other structures as they were.\<close>

definition gcd_outcome :: "gmp result \<Rightarrow> nat set \<Rightarrow> nat \<Rightarrow> nat \<Rightarrow> nat \<Rightarrow> (nat \<Rightarrow> int) \<Rightarrow> int \<Rightarrow> nat \<Rightarrow> bool" where
  "gcd_outcome r V g tu tv E v t \<longleftrightarrow> (\<exists>E'. yields r V E' t \<and> E' g = v \<and> (\<forall>x. x \<noteq> g \<longrightarrow> x \<noteq> tu \<longrightarrow> x \<noteq> tv \<longrightarrow> E' x = E x))"

lemma gcd_outcomeI: "yields r V E' t \<Longrightarrow> E' g = v \<Longrightarrow> (\<And>x. x \<noteq> g \<Longrightarrow> x \<noteq> tu \<Longrightarrow> x \<noteq> tv \<Longrightarrow> E' x = E x) \<Longrightarrow> gcd_outcome r V g tu tv E v t"
  by (auto simp: gcd_outcome_def)

lemma gcd_outcome_mono: "gcd_outcome r V g tu tv E v t \<Longrightarrow> (\<And>x. x \<noteq> g \<Longrightarrow> x \<noteq> tu \<Longrightarrow> x \<noteq> tv \<Longrightarrow> E x = E' x) \<Longrightarrow> gcd_outcome r V g tu tv E' v t"
  by (auto simp: gcd_outcome_def)

lemma gcd_loop_value:
  assumes "represents s V E" "g \<in> V" "tu \<in> V" "tv \<in> V" "tu \<noteq> tv" "g \<noteq> tu" "g \<noteq> tv"
    "0 < E tu" "0 < E tv" "odd (E tv)" "add_fits (E tu) (E tv)"
  shows "\<exists>r. gcd_loop s g tu tv = Some r \<and> gcd_outcome r V g tu tv E (gcd (E tu) (E tv)) (g_top s)"
  using assms
proof (induction "nat (E tu + E tv)" arbitrary: s E rule: less_induct)
  case less
  note rep = less.prems(1) and V = less.prems(2-4) and ne = less.prems(5-7)
  have fit: "int (limbs (E tu)) < INT_MAX" "int (limbs (E tv)) < INT_MAX" using less.prems(11) by (simp_all add: add_fits_def)
  obtain w x where w: "returns (mpz_make_odd s tu) w V (E(tu := x)) (g_top s)" "E tu = 2 ^ unat w * x" "odd x" "0 < x"
    by (rule mpz_make_odd_value [OF rep V(2) less.prems(8) fit(1)])
  then obtain s1 where s1: "mpz_make_odd s tu = Inr (w, s1)" "represents s1 V (E(tu := x))" "g_top s1 = g_top s" by (auto simp: returns_def)
  have G: "gcd (E tu) (E tv) = gcd x (E tv)" using odd_gcd_step(1) [OF less.prems(10)] w(2) by simp
  have "1 * x \<le> 2 ^ unat w * x" using w(4) by (intro mult_right_mono) simp_all
  then have xle: "x \<le> E tu" using w(2) by simp
  have c: "mpz_cmp s1 tu tv = GMP_CMP x (E tv)" using rep_cmp(1) [OF s1(2) V(2,3)] ne by simp
  show ?case
  proof (cases "x = E tv")
    case True
    have "gcd_loop s g tu tv = Some (Inr (mpz_swap s1 g tu))"
      using True c s1(1) by (subst gcd_loop.simps) (simp add: GMP_CMP_iff)
    moreover have "gcd_outcome (Inr (mpz_swap s1 g tu)) V g tu tv E (gcd (E tu) (E tv)) (g_top s)"
      using env_swap(2) [OF s1(2) V(1,2)] s1(3) True G ne w(4)
      by (intro gcd_outcomeI [OF yields_Inr [OF env_swap(1) [OF s1(2) V(1,2)]]]) auto
    ultimately show ?thesis by blast
  next
    case False
    define a b where "a = max x (E tv)" and "b = min x (E tv)"
    define s2 where "s2 = (if mpz_cmp s1 tu tv < 0 then mpz_swap s1 tu tv else s1)"
    have s2: "represents s2 V (E(tu := a, tv := b))" "g_top s2 = g_top s"
      using env_swap [OF s1(2) V(2,3)] s1(2,3) ne c unfolding s2_def a_def b_def
      by (auto simp: GMP_CMP_iff min_def max_def fun_upd_def elim!: represents_cong split: if_splits)
    have ab: "b < a" "0 < b" "odd a" "odd b" "gcd a b = gcd (E tu) (E tv)" "a + b \<le> E tu + E tv" "a \<le> max (E tu) (E tv)"
      using False w(3,4) less.prems(9,10) xle G by (auto simp: a_def b_def min_def max_def gcd.commute)
    have step: "gcd_loop s g tu tv = (if msize s2 tv = 1 then Some (gcd_last s2 g tu tv)
        else (case mpz_sub s2 tu tu tv of Inl e \<Rightarrow> Some (Inl e) | Inr s \<Rightarrow> gcd_loop s g tu tv))"
      using False c s1(1) by (subst gcd_loop.simps) (simp add: GMP_CMP_iff s2_def Let_def)
    show ?thesis
    proof (cases "msize s2 tv = 1")
      case True
      from gcd_last_value [OF s2(1) V True] have "yields (gcd_last s2 g tu tv) V (E(tu := a, tv := b, g := gcd a b)) (g_top s)"
        using ne ab s2(2) by (simp add: fun_upd_twist)
      then have "gcd_outcome (gcd_last s2 g tu tv) V g tu tv E (gcd (E tu) (E tv)) (g_top s)" using ab(5) by (elim gcd_outcomeI) auto
      then show ?thesis using step True by auto
    next
      case False
      have "limbs a \<le> max (limbs (E tu)) (limbs (E tv))" "limbs b \<le> limbs a" "limbs (a - b) \<le> limbs a"
        using ab less.prems(8,9) limbs_abs_le [of a "E tu"] limbs_abs_le [of a "E tv"] by (auto simp: max_def intro!: limbs_abs_le split: if_splits)
      then have fits: "add_fits a b" "add_fits (a - b) b" using fit by (auto simp: add_fits_def)
      have "yields (mpz_sub s2 tu tu tv) V (E(tu := a - b, tv := b)) (g_top s)"
        using env_sub [OF s2(1) V(2,2,3)] ne fits(1) s2(2) by (simp add: fun_upd_twist)
      then obtain s3 where s3: "mpz_sub s2 tu tu tv = Inr s3" "represents s3 V (E(tu := a - b, tv := b))" "g_top s3 = g_top s" by (auto simp: yields_def)
      define E3 where "E3 = E(tu := a - b, tv := b)"
      have "\<exists>r. gcd_loop s3 g tu tv = Some r \<and> gcd_outcome r V g tu tv E3 (gcd (E3 tu) (E3 tv)) (g_top s3)"
        by (rule less.hyps) (use s3 V ne ab fits in \<open>simp_all add: E3_def\<close>)
      then obtain r where r: "gcd_loop s3 g tu tv = Some r" "gcd_outcome r V g tu tv E3 (gcd (a - b) b) (g_top s)"
        using ne s3(3) by (auto simp: E3_def)
      then have "gcd_outcome r V g tu tv E (gcd (E tu) (E tv)) (g_top s)"
        using odd_gcd_step(2) [OF ab(4)] ab(5) by (auto simp: E3_def elim!: gcd_outcome_mono)
      then show ?thesis using step False s3(1) r(1) by auto
    qed
  qed
qed

lemma yieldsE: "yields f V E t \<Longrightarrow> (\<And>s. f = Inr s \<Longrightarrow> represents s V E \<Longrightarrow> g_top s = t \<Longrightarrow> P) \<Longrightarrow> P"
  by (auto simp: yields_def)

lemma returnsE: "returns f x V E t \<Longrightarrow> (\<And>s. f = Inr (x, s) \<Longrightarrow> represents s V E \<Longrightarrow> g_top s = t \<Longrightarrow> P) \<Longrightarrow> P"
  by (auto simp: returns_def)

lemma env_tdiv_r:
  assumes "represents s V E" "r \<in> V" "n \<in> V" "d \<in> V" "E d \<noteq> 0" "add_fits (E n) (E d)"
  shows "yields (mpz_tdiv_r s r n d) V (E(r := div_rem GMP_DIV_TRUNC (E n) (E d))) (g_top s)"
  unfolding mpz_tdiv_r_def
proof (rule returns_bind)
  show "returns (mpz_div_qr s None (Some r) n d GMP_DIV_TRUNC) (\<not> E d dvd E n) V (E(r := div_rem GMP_DIV_TRUNC (E n) (E d))) (g_top s)"
    by (rule returns_cong [OF env_div_qr [OF assms(1,3,4)]]) (use assms in auto)
qed (simp add: yields_Inr)

lemma env_divexact:
  assumes "represents s V E" "q \<in> V" "n \<in> V" "d \<in> V" "E d \<noteq> 0" "add_fits (E n) (E d)" "E d dvd E n"
  shows "yields (mpz_divexact s q n d) V (E(q := E n div E d)) (g_top s)"
  unfolding mpz_divexact_def
proof (rule returns_bind)
  have "div_quot GMP_DIV_TRUNC (E n) (E d) = E n div E d"
    using assms(5,7) by (auto simp: div_quot_def abs_mult sgn_mult elim!: dvdE) (auto simp: sgn_if)
  then show "returns (mpz_div_qr s (Some q) None n d GMP_DIV_TRUNC) (\<not> E d dvd E n) V (E(q := E n div E d)) (g_top s)"
    by (intro returns_cong [OF env_div_qr [OF assms(1,3,4)]]) (use assms in auto)
qed (use assms(7) in \<open>simp add: rassert_def yields_Inr\<close>)

lemma gcd_odd_parts_value:
  assumes rep: "represents s V E" "g \<in> V" "tu \<in> V" "tv \<in> V" and ne: "tu \<noteq> tv" "g \<noteq> tu" "g \<noteq> tv"
    and pos: "0 < E tu" "0 < E tv" "odd (E tu)" "odd (E tv)" and fit: "add_fits (E tu) (E tv)"
  shows "gcd_outcome (gcd_odd_parts s g tu tv) V g tu tv E (gcd (E tu) (E tv)) (g_top s)"
proof -
  define sw where "sw \<longleftrightarrow> msize s tu < msize s tv"
  define a b s1 where "a = (if sw then E tv else E tu)" and "b = (if sw then E tu else E tv)"
    and "s1 = (if sw then mpz_swap s tu tv else s)"
  have ab: "0 < a" "0 < b" "odd b" "gcd a b = gcd (E tu) (E tv)" "add_fits a b"
    using pos fit by (auto simp: a_def b_def gcd.commute add_fits_def)
  have s1: "represents s1 V (E(tu := a, tv := b))" "g_top s1 = g_top s"
    using env_swap [OF rep(1,3,4)] rep(1) ne(1) by (auto simp: s1_def a_def b_def fun_upd_def elim!: represents_cong)
  let ?E = "E(tu := a mod b, tv := b)"
  have "yields (mpz_tdiv_r s1 tu tu tv) V ?E (g_top s)"
    using env_tdiv_r [OF s1(1) rep(3,3,4)] trunc_nonneg(2) [of a b] ab ne s1(2) by (simp add: fun_upd_twist)
  then obtain s2 where s2: "mpz_tdiv_r s1 tu tu tv = Inr s2" "represents s2 V ?E" "g_top s2 = g_top s" by (rule yieldsE)
  have run: "gcd_odd_parts s g tu tv = (if msize s2 tu = 0 then Inr (mpz_swap s2 g tv) else rbind (loop_result (gcd_loop s2 g tu tv)) (\<lambda>r. r))"
    using s2(1) by (simp add: gcd_odd_parts_def s1_def sw_def)
  have z: "msize s2 tu = 0 \<longleftrightarrow> a mod b = 0" using rep_size(4) [OF s2(2) rep(3)] ne by simp
  show ?thesis
  proof (cases "a mod b = 0")
    case True
    then have "gcd a b = b" using ab(2) by (simp add: gcd_proj2_iff dvd_eq_mod_eq_0)
    then show ?thesis unfolding run using True z ne ab s2(3) env_swap(2) [OF s2(2) rep(2,4)]
      by (simp) (intro gcd_outcomeI [OF yields_Inr [OF env_swap(1) [OF s2(2) rep(2,4)]]], auto)
  next
    case False
    then have m: "0 < a mod b" "a mod b < b" using pos_mod_bound [OF ab(2), of a] pos_mod_sign [OF ab(2), of a] by linarith+
    then have "limbs (a mod b) \<le> limbs b" by (intro limbs_abs_le) simp
    then have f: "add_fits (a mod b) b" using ab(5) by (auto simp: add_fits_def)
    from gcd_loop_value [OF s2(2) rep(2-4) ne] m ab f ne obtain r where
      r: "gcd_loop s2 g tu tv = Some r" "gcd_outcome r V g tu tv ?E (gcd (a mod b) b) (g_top s2)" by auto
    have "gcd (a mod b) b = gcd (E tu) (E tv)" using ab(4) by (metis gcd.commute gcd_red_int)
    then show ?thesis unfolding run using r s2(3) False z by (auto simp: loop_result_def elim!: gcd_outcome_mono)
  qed
qed

lemma gcd_odd_parts_eq:
  fixes x y :: int
  assumes "odd x" "odd y"
  shows "gcd (2 ^ a * x) (2 ^ b * y) = gcd x y * 2 ^ min a b"
proof -
  have *: "gcd (2 ^ a * x) (2 ^ b * y) = gcd x y * 2 ^ a" if "a \<le> b" "odd x" for a b and x y :: int
  proof -
    have "(2 :: int) ^ b = 2 ^ a * 2 ^ (b - a)" using that(1) by (simp flip: power_add)
    then have "gcd (2 ^ a * x) (2 ^ b * y) = 2 ^ a * gcd x (2 ^ (b - a) * y)" by (simp add: mult.assoc gcd_mult_distrib_int [symmetric])
    also have "gcd x (2 ^ (b - a) * y) = gcd x y" using odd_gcd_step(1) [OF that(2), of "b - a" y] by (simp add: gcd.commute)
    finally show ?thesis by simp
  qed
  show ?thesis
  proof (cases "a \<le> b")
    case True
    then show ?thesis using * [OF True assms(1)] by (simp add: min_def)
  next
    case False
    then show ?thesis using * [of b a y x] assms(2) by (simp add: min_def gcd.commute)
  qed
qed

lemma limbs_shift: "a \<noteq> 0 \<Longrightarrow> limbs a + k div GMP_LIMB_BITS \<le> limbs (a * 2 ^ k)"
proof -
  assume a: "a \<noteq> 0"
  have l0: "limbs a \<noteq> 0" using a limbs_le_iff [of a 0] by auto
  define j where "j = limbs a - 1 + k div GMP_LIMB_BITS"
  have "\<not> limbs a \<le> limbs a - 1" using l0 by simp
  then have "int B ^ (limbs a - 1) \<le> \<bar>a\<bar>" by (simp only: limbs_le_iff not_less)
  moreover have "int B ^ (k div GMP_LIMB_BITS) * 1 \<le> int (B ^ (k div GMP_LIMB_BITS) * 2 ^ (k mod GMP_LIMB_BITS))"
    by (simp add: B_def)
  then have "int B ^ (k div GMP_LIMB_BITS) \<le> 2 ^ k" using power_split [of k] by (metis mult.right_neutral of_nat_numeral of_nat_power)
  ultimately have "int B ^ j \<le> \<bar>a\<bar> * 2 ^ k" unfolding j_def power_add using int_B_gt_1 by (intro mult_mono) simp_all
  then have "\<not> limbs (a * 2 ^ k) \<le> j" by (simp add: limbs_le_iff abs_mult)
  then show ?thesis using l0 by (simp add: j_def)
qed

text \<open>The two local structures hold the odd parts, and the result is moved to \<open>g\<close>.\<close>

lemma mpz_gcd_locals:
  assumes rep: "represents s V E" "g \<in> V" "u \<in> V" "v \<in> V" and nz: "E u \<noteq> 0" "E v \<noteq> 0" and fit: "add_fits (E u) (E v)"
    and t: "tu \<notin> V" "tv \<notin> V" "tu \<noteq> tv" "tu < g_top s" "tv < g_top s"
  shows "\<exists>uz vz x y s'. rbind (mpz_abs (mpz_init (mpz_init s tu) tv) tu u) (\<lambda>s.
          rbind (mpz_make_odd s tu) (\<lambda>(uz, s).
          rbind (mpz_abs s tv v) (\<lambda>s.
          rbind (mpz_make_odd s tv) (\<lambda>(vz, s).
          rbind (gcd_odd_parts s g tu tv) (\<lambda>s.
          rbind (mpz_clear s tu) (\<lambda>s.
          rbind (mpz_clear s tv) (\<lambda>s. Inr (min uz vz, s)))))))) = Inr (min uz vz, s') \<and> represents s' V (E(g := gcd x y)) \<and>
      \<bar>E u\<bar> = 2 ^ unat uz * x \<and> \<bar>E v\<bar> = 2 ^ unat vz * y \<and> odd x \<and> odd y"
proof -
  let ?V = "insert tv (insert tu V)"
  have V: "g \<in> ?V" "u \<in> ?V" "v \<in> ?V" "tu \<in> ?V" "tv \<in> ?V" and ne: "g \<noteq> tu" "g \<noteq> tv" "v \<noteq> tu" "v \<noteq> tv" "u \<noteq> tu" "u \<noteq> tv"
    using rep t by auto
  have fit': "int (limbs (E u)) < INT_MAX" "int (limbs (E v)) < INT_MAX" using fit by (simp_all add: add_fits_def)
  have i1: "represents (mpz_init s tu) (insert tu V) (E(tu := 0))" "g_top (mpz_init s tu) = g_top s" by (rule env_init [OF rep(1) t(1,4)])+
  have i2: "represents (mpz_init (mpz_init s tu) tv) ?V (E(tu := 0, tv := 0))"
    using env_init(1) [OF i1(1), of tv] t i1(2) by simp
  obtain s1 where s1: "mpz_abs (mpz_init (mpz_init s tu) tv) tu u = Inr s1" "represents s1 ?V (E(tu := \<bar>E u\<bar>, tv := 0))"
    using env_abs [OF i2 V(4,2)] ne t(3) by (elim yieldsE) (simp add: fun_upd_twist)
  obtain uz x where x: "returns (mpz_make_odd s1 tu) uz ?V ((E(tu := \<bar>E u\<bar>, tv := 0))(tu := x)) (g_top s1)" "\<bar>E u\<bar> = 2 ^ unat uz * x" "odd x" "0 < x"
    by (rule mpz_make_odd_value [OF s1(2) V(4)]) (use nz fit' t(3) in auto)
  then obtain s2 where s2: "mpz_make_odd s1 tu = Inr (uz, s2)" "represents s2 ?V (E(tu := x, tv := 0))" 
    using t(3) by (elim returnsE) (simp add: fun_upd_twist)
  obtain s3 where s3: "mpz_abs s2 tv v = Inr s3" "represents s3 ?V (E(tu := x, tv := \<bar>E v\<bar>))"
    using env_abs [OF s2(2) V(5,3)] ne by (elim yieldsE) simp
  obtain vz y where y: "returns (mpz_make_odd s3 tv) vz ?V (E(tu := x, tv := y)) (g_top s3)" "\<bar>E v\<bar> = 2 ^ unat vz * y" "odd y" "0 < y"
    using mpz_make_odd_value [OF s3(2) V(5)] nz fit' by (auto simp: fun_upd_upd)
  then obtain s4 where s4: "mpz_make_odd s3 tv = Inr (vz, s4)" "represents s4 ?V (E(tu := x, tv := y))" by (elim returnsE)
  have "1 * x \<le> 2 ^ unat uz * x" "1 * y \<le> 2 ^ unat vz * y" using x(4) y(4) by (auto intro!: mult_right_mono)
  then have "limbs x \<le> limbs (E u)" "limbs y \<le> limbs (E v)" using x(2,4) y(2,4) by (auto intro!: limbs_abs_le)
  then have "add_fits x y" using fit by (auto simp: add_fits_def)
  then have "gcd_outcome (gcd_odd_parts s4 g tu tv) ?V g tu tv (E(tu := x, tv := y)) (gcd x y) (g_top s4)"
    using gcd_odd_parts_value [OF s4(2) V(1,4,5) t(3) ne(1,2)] x y t(3) by simp
  then obtain E5 s5 where s5: "gcd_odd_parts s4 g tu tv = Inr s5" "represents s5 ?V E5" "E5 g = gcd x y"
    "\<And>z. z \<noteq> g \<Longrightarrow> z \<noteq> tu \<Longrightarrow> z \<noteq> tv \<Longrightarrow> E5 z = E z"
    unfolding gcd_outcome_def by (auto elim: yieldsE)
  have "represents s5 (insert tu (insert tv V)) E5" using s5(2) by (simp add: insert_commute)
  then obtain s6 where s6: "mpz_clear s5 tu = Inr s6" "represents s6 (insert tv V) E5" using env_clear t by (fastforce elim: yieldsE)
  then obtain s7 where s7: "mpz_clear s6 tv = Inr s7" "represents s7 V E5" using env_clear t by (fastforce elim: yieldsE)
  have "represents s7 V (E(g := gcd x y))" by (rule represents_cong [OF s7(2)]) (use s5(3,4) t(1,2) in \<open>metis fun_upd_apply\<close>)
  then show ?thesis
    using s1 s2 s3 s4 s5 s6 s7 x y by (intro exI [of _ uz] exI [of _ vz] exI [of _ x] exI [of _ y] exI [of _ s7]) simp
qed

lemma leave_locals:
  assumes "represents s V E" "represents s' V E'"
  shows "represents (s'\<lparr>g_top := g_top s\<rparr>) V E'"
  using heap_inv_top [OF rep_inv(1) [OF assms(2)], of "g_top s"] heap_invD(1) [OF rep_inv(1) [OF assms(1)]] assms(2)
  by (simp add: represents_def)

lemma mpz_gcd_value:
  assumes rep: "represents s V E" "g \<in> V" "u \<in> V" "v \<in> V" and fit: "add_fits (E u) (E v)"
  shows "yields (mpz_gcd s g u v) V (E(g := gcd (E u) (E v))) (g_top s)"
proof -
  note z = rep_size(4) [OF rep(1,3)] rep_size(4) [OF rep(1,4)]
  consider "E u = 0" | "E u \<noteq> 0" "E v = 0" | "E u \<noteq> 0" "E v \<noteq> 0" by blast
  then show ?thesis
  proof cases
    case 1
    then show ?thesis using env_abs [OF rep(1,2,4)] z by (simp add: mpz_gcd_def)
  next
    case 2
    then show ?thesis using env_abs [OF rep(1-3)] z by (simp add: mpz_gcd_def)
  next
    case 3
    define tu s0 s00 where "tu = g_top s" and "s0 = s\<lparr>g_top := Suc tu\<rparr>" and "s00 = s0\<lparr>g_top := Suc (Suc tu)\<rparr>"
    have r0: "represents s0 V E" "tu \<notin> V" using env_enter [OF rep(1)] by (simp_all add: s0_def tu_def)
    have r00: "represents s00 V E" "Suc tu \<notin> V" using env_enter [OF r0(1)] by (simp_all add: s00_def s0_def)
    from mpz_gcd_locals [OF r00(1) rep(2-4) 3 fit r0(2) r00(2)] obtain uz vz x y s' where
      run: "rbind (mpz_abs (mpz_init (mpz_init s00 tu) (Suc tu)) tu u) (\<lambda>s.
          rbind (mpz_make_odd s tu) (\<lambda>(uz, s).
          rbind (mpz_abs s (Suc tu) v) (\<lambda>s.
          rbind (mpz_make_odd s (Suc tu)) (\<lambda>(vz, s).
          rbind (gcd_odd_parts s g tu (Suc tu)) (\<lambda>s.
          rbind (mpz_clear s tu) (\<lambda>s.
          rbind (mpz_clear s (Suc tu)) (\<lambda>s. Inr (min uz vz, s)))))))) = Inr (min uz vz, s')"
      and s': "represents s' V (E(g := gcd x y))"
      and xy: "\<bar>E u\<bar> = 2 ^ unat uz * x" "\<bar>E v\<bar> = 2 ^ unat vz * y" "odd x" "odd y" by (auto simp: s00_def)
    define s'' where "s'' = s'\<lparr>g_top := g_top s\<rparr>"
    have s'': "represents s'' V (E(g := gcd x y))" unfolding s''_def by (rule leave_locals [OF rep(1) s'])
    have "gcd (E u) (E v) = gcd \<bar>E u\<bar> \<bar>E v\<bar>" by simp
    also have "\<dots> = gcd x y * 2 ^ unat (min uz vz)"
      unfolding xy using gcd_odd_parts_eq [OF xy(3,4)] by (simp add: min_def word_le_nat_alt)
    finally have G: "gcd (E u) (E v) = gcd x y * 2 ^ unat (min uz vz)" .
    have "\<bar>gcd (E u) (E v)\<bar> \<le> \<bar>E u\<bar>" using zdvd_imp_le [of "gcd (E u) (E v)" "\<bar>E u\<bar>"] 3(1) by simp
    then have "limbs (gcd (E u) (E v)) \<le> limbs (E u)" by (rule limbs_abs_le)
    moreover have "limbs (gcd x y) + unat (min uz vz) div GMP_LIMB_BITS \<le> limbs (gcd (E u) (E v))"
      unfolding G using xy(3) by (intro limbs_shift) auto
    ultimately have fits: "int (limbs (gcd x y)) + int (unat (min uz vz) div GMP_LIMB_BITS) < INT_MAX"
      using fit by (simp add: add_fits_def)
    have "mpz_gcd s g u v = mpz_mul_2exp s'' g g (min uz vz)"
      using 3 z run by (simp add: mpz_gcd_def with_local_def Let_def s0_def s00_def tu_def s''_def)
    then show ?thesis using env_mul_2exp [OF s'' rep(2,2), of "min uz vz"] fits G by (simp add: s''_def)
  qed
qed


lemma abs_div_le: "d dvd n \<Longrightarrow> d \<noteq> 0 \<Longrightarrow> \<bar>n div d\<bar> \<le> \<bar>n :: int\<bar>"
  using mult_right_mono [of 1 "\<bar>d\<bar>" "\<bar>n div d\<bar>"] by (simp flip: abs_mult)

lemma mpz_lcm_value:
  assumes rep: "represents s V E" "r \<in> V" "u \<in> V" "v \<in> V" and fit: "add_fits (E u) (E v)" "mul_fits (E u) (E v)"
  shows "yields (mpz_lcm s r u v) V (E(r := lcm (E u) (E v))) (g_top s)"
proof (cases "E u = 0 \<or> E v = 0")
  case True
  then show ?thesis
    using env_zero [OF rep(1,2)] rep_size(4) [OF rep(1,3)] rep_size(4) [OF rep(1,4)] by (auto simp: mpz_lcm_def intro: yields_Inr)
next
  case False
  define s0 g where "s0 = s\<lparr>g_top := Suc (g_top s)\<rparr>" and "g = g_top s"
  let ?W = "insert g V" and ?g = "gcd (E u) (E v)"
  have r0: "represents s0 V E" "g \<notin> V" "g < g_top s0" using env_enter [OF rep(1)] by (simp_all add: s0_def g_def)
  then have W: "g \<in> ?W" "u \<in> ?W" "v \<in> ?W" "r \<in> ?W" and ne: "u \<noteq> g" "v \<noteq> g" "r \<noteq> g" using rep by auto
  have r1: "represents (mpz_init s0 g) ?W (E(g := 0))" by (rule env_init [OF r0])
  have g: "?g \<noteq> 0" "?g dvd E u" "\<bar>?g\<bar> \<le> \<bar>E u\<bar>" using False zdvd_imp_le [of ?g "\<bar>E u\<bar>"] by auto
  have fg: "add_fits (E u) ?g" using fit(1) limbs_abs_le [OF g(3)] by (simp add: add_fits_def)
  have "\<bar>E u div ?g\<bar> \<le> \<bar>E u\<bar>" by (rule abs_div_le [OF g(2,1)])
  then have fm: "mul_fits (E u div ?g) (E v)" using fit(2) limbs_abs_le [of "E u div ?g" "E u"] by (simp add: mul_fits_def)
  have lcm: "\<bar>E u div ?g * E v\<bar> = lcm (E u) (E v)" by (simp add: lcm_gcd dvd_div_mult)
  obtain s1 where s1: "mpz_gcd (mpz_init s0 g) g u v = Inr s1" "represents s1 ?W (E(g := ?g))"
    using mpz_gcd_value [OF r1 W(1-3)] fit(1) ne by (auto elim: yieldsE)
  obtain s2 where s2: "mpz_divexact s1 g u g = Inr s2" "represents s2 ?W (E(g := E u div ?g))"
    using env_divexact [OF s1(2) W(1,2,1)] g fg ne by (auto elim: yieldsE)
  obtain s3 where s3: "mpz_mul s2 r g v = Inr s3" "represents s3 ?W (E(g := E u div ?g, r := E u div ?g * E v))"
    using env_mul [OF s2(2) W(4,1,3)] fm ne by (auto elim: yieldsE)
  obtain s4 where s4: "mpz_clear s3 g = Inr s4" "represents s4 V (E(g := E u div ?g, r := E u div ?g * E v))"
    using env_clear [OF s3(2) r0(2)] by (auto elim: yieldsE)
  have s5: "represents (s4\<lparr>g_top := g_top s\<rparr>) V (E(r := E u div ?g * E v))"
    by (rule leave_locals [OF rep(1)], rule represents_cong [OF s4(2)]) (use r0(2) in auto)
  have "mpz_lcm s r u v = mpz_abs (s4\<lparr>g_top := g_top s\<rparr>) r r"
    using False s1(1) s2(1) s3(1) s4(1) rep_size(4) [OF rep(1,3)] rep_size(4) [OF rep(1,4)]
    by (simp add: mpz_lcm_def with_local_def s0_def g_def)
  then show ?thesis using env_abs [OF s5 rep(2,2)] lcm by simp
qed

lemma env_remainder_ui:
  assumes rep: "represents s V E" "u \<in> V" and nz: "E u \<noteq> 0" "v \<noteq> 0"
  obtains m w where "mpn_div_qr_1 (g_mem s) (g_next s) None (mdata s u) (abs_size s u) v = Inr (m, w)"
    "int (unat w) = \<bar>E u\<bar> mod int (unat v)" "represents (s\<lparr>g_mem := m\<rparr>) V E"
proof -
  note h = rep_inv(1) [OF rep(1)]
  obtain m w where m: "mpn_div_qr_1 (g_mem s) (g_next s) None (mdata s u) (abs_size s u) v = Inr (m, w)"
    "int (unat w) = \<bar>E u\<bar> mod int (unat v)" "frame (g_mem s) m {g_next s..}"
    by (rule mpn_div_qr_1_result [OF h rep(2), of None v]) (use nz rep_size(4) [OF rep] rep_inv(2) [OF rep] in auto)
  have "represents (s\<lparr>g_mem := m\<rparr>) V (E(u := E u))"
    using represents_stores [OF rep(1) scratch_stores [OF h rep(2) m(3)]] rep_inv(2) [OF rep] by simp
  then show ?thesis using that m by simp
qed

lemma mpz_gcd_ui_value:
  assumes rep: "represents s V E" "u \<in> V" "set_option g \<subseteq> V"
  obtains s' x where "mpz_gcd_ui s g u v = Inr (x, s')" "g_top s' = g_top s"
    "represents s' V (case g of None \<Rightarrow> E | Some y \<Rightarrow> E(y := gcd (E u) (int (unat v))))"
    "v \<noteq> 0 \<longrightarrow> int (unat x) = gcd (E u) (int (unat v))" "v = 0 \<longrightarrow> x = 0"
proof (cases "v = 0")
  case True
  show ?thesis
  proof (cases g)
    case None
    then show ?thesis using True rep by (intro that [of 0 s]) (auto simp: mpz_gcd_ui_def on_some_def)
  next
    case (Some y)
    then obtain s' where "mpz_abs s y u = Inr s'" "represents s' V (E(y := \<bar>E u\<bar>))" "g_top s' = g_top s"
      using env_abs [OF rep(1) _ rep(2), of y] rep(3) by (auto elim: yieldsE)
    then show ?thesis using True Some by (intro that [of 0 s']) (auto simp: mpz_gcd_ui_def on_some_def)
  qed
next
  case False
  obtain s1 x where s1: "(if GMP_ABS (msize s u) \<noteq> 0
         then rbind (mpn_div_qr_1 (g_mem s) (g_next s) None (mdata s u) (nat (GMP_ABS (msize s u))) v) (\<lambda>(m, r).
              rbind (mpn_gcd_11 r v) (\<lambda>v. Inr (v, s\<lparr>g_mem := m\<rparr>)))
         else Inr (v, s)) = Inr (x, s1)" "represents s1 V E" "g_top s1 = g_top s" and x: "int (unat x) = gcd (E u) (int (unat v))"
  proof (cases "E u = 0")
    case True
    then show ?thesis using that [of v s] rep rep_size(4) [OF rep(1,2)] by (simp add: GMP_ABS_abs)
  next
    case nz: False
    then obtain m w where m: "mpn_div_qr_1 (g_mem s) (g_next s) None (mdata s u) (abs_size s u) v = Inr (m, w)"
      "int (unat w) = \<bar>E u\<bar> mod int (unat v)" "represents (s\<lparr>g_mem := m\<rparr>) V E"
      using env_remainder_ui [OF rep(1,2) _ False] by blast
    obtain c where c: "mpn_gcd_11 w v = Inr c" "unat c = gcd (unat w) (unat v)" by (rule mpn_gcd_11_value [of w v]) (use False in auto)
    have "int (unat c) = gcd (\<bar>E u\<bar> mod int (unat v)) (int (unat v))" unfolding c(2) m(2) [symmetric] by (simp only: gcd_int_int_eq)
    also have "\<dots> = gcd \<bar>E u\<bar> (int (unat v))" by (metis gcd.commute gcd_red_int)
    finally have "int (unat c) = gcd (E u) (int (unat v))" by simp
    then show ?thesis using that [of c "s\<lparr>g_mem := m\<rparr>"] m c nz rep_size(4) [OF rep(1,2)] by (simp add: GMP_ABS_abs abs_size_def)
  qed
  show ?thesis
  proof (cases g)
    case None
    then show ?thesis using False s1 x by (intro that [of x s1]) (auto simp: mpz_gcd_ui_def on_some_def Let_def)
  next
    case (Some y)
    then obtain s' where "mpz_set_ui s1 y x = Inr s'" "represents s' V (E(y := int (unat x)))" "g_top s' = g_top s1"
      using env_set_ui [OF s1(2), of y] rep(3) by (auto elim: yieldsE)
    then show ?thesis using False Some s1 x by (intro that [of x s']) (auto simp: mpz_gcd_ui_def on_some_def Let_def)
  qed
qed

lemma mpz_lcm_ui_value:
  assumes rep: "represents s V E" "r \<in> V" "u \<in> V" and fit: "int (limbs (E u)) < INT_MAX"
  shows "yields (mpz_lcm_ui s r u v) V (E(r := lcm (E u) (int (unat v)))) (g_top s)"
proof (cases "v = 0 \<or> E u = 0")
  case True
  then show ?thesis using env_zero [OF rep(1,2)] rep_size(4) [OF rep(1,3)] by (auto simp: mpz_lcm_ui_def intro: yields_Inr)
next
  case False
  obtain s' x where s': "mpz_gcd_ui s None u v = Inr (x, s')" "g_top s' = g_top s" "represents s' V E"
    and x: "int (unat x) = gcd (E u) (int (unat v))"
    by (rule mpz_gcd_ui_value [OF rep(1,3), of None v]) (use False in auto)
  have x0: "x \<noteq> 0" using x False by auto
  have "int (unat (v div x)) = int (unat v) div gcd (E u) (int (unat v))" unfolding x [symmetric] unat_div by (rule zdiv_int)
  then have l: "\<bar>E u * int (unat (v div x))\<bar> = lcm (E u) (int (unat v))" by (simp add: lcm_gcd div_mult_swap)
  obtain s2 where s2: "mpz_mul_ui s' r u (v div x) = Inr s2" "represents s2 V (E(r := E u * int (unat (v div x))))" "g_top s2 = g_top s'"
    using env_mul_ui [OF s'(3) rep(2,3) fit] by (auto elim: yieldsE)
  have "mpz_lcm_ui s r u v = mpz_abs s2 r r" using False s' s2 x0 rep_size(4) [OF rep(1,3)] by (simp add: mpz_lcm_ui_def)
  then show ?thesis using env_abs [OF s2(2) rep(2,2)] l s2(3) s'(2) by simp
qed

end
