(* ===== verification/Mpz_pow.thy ===== *)
theory Mpz_pow
  imports Mpz_gcd
begin

text \<open>
  Powers, factorials and binomial coefficients of \<open>mini-gmp.c\<close>: binary exponentiation from
  the highest bit of the exponent, and products of consecutive numbers.
\<close>

section \<open>Model\<close>

definition GMP_ULONG_HIGHBIT :: "64 word" where
  "GMP_ULONG_HIGHBIT = push_bit 63 1"

lemma halve_bit: "drop_bit 1 (w :: 64 word) \<noteq> 0 \<Longrightarrow> unat (drop_bit 1 w) < unat w"
proof -
  assume "drop_bit 1 w \<noteq> 0"
  then have "w \<noteq> 0" by auto
  then have "unat w div 2 < unat w" by (simp add: unat_gt_0)
  then show "unat (drop_bit 1 w) < unat w" unfolding unat_drop_bit_eq by (simp add: drop_bit_eq_div)
qed

text \<open>The loop \<open>do ... while (bit > 0)\<close> of \<open>mpz_pow_ui\<close>.\<close>

function pow_loop :: "gmp \<Rightarrow> nat \<Rightarrow> nat \<Rightarrow> 64 word \<Rightarrow> 64 word \<Rightarrow> gmp result" where
  "pow_loop s tr b e w =
     rbind (mpz_mul s tr tr tr) (\<lambda>s.
     rbind (if e AND w \<noteq> 0 then mpz_mul s tr tr b else Inr s) (\<lambda>s.
     if drop_bit 1 w > 0 then pow_loop s tr b e (drop_bit 1 w) else Inr s))"
  by pat_completeness auto
termination
  by (relation "measure (\<lambda>(s, tr, b, e, w). unat w)") (auto simp: word_gt_0 intro: halve_bit [simplified])

declare pow_loop.simps [simp del]

definition mpz_pow_ui :: "gmp \<Rightarrow> nat \<Rightarrow> nat \<Rightarrow> 64 word \<Rightarrow> gmp result" where
  "mpz_pow_ui s r b e =
     rbind (with_local s (\<lambda>s tr.
       rbind (mpz_init_set_ui s tr 1) (\<lambda>s.
       rbind (pow_loop s tr b e GMP_ULONG_HIGHBIT) (\<lambda>s.
       rbind (mpz_clear (mpz_swap s r tr) tr) (\<lambda>s. Inr ((), s)))))) (\<lambda>(_, s). Inr s)"

text \<open>\<open>while (n > 2) mpz_mul_ui (x, x, --n)\<close>.\<close>

function fac_loop :: "gmp \<Rightarrow> nat \<Rightarrow> 64 word \<Rightarrow> gmp result" where
  "fac_loop s x n = (if n > 2 then rbind (mpz_mul_ui s x x (n - 1)) (\<lambda>s. fac_loop s x (n - 1)) else Inr s)"
  by pat_completeness auto
termination
  by (relation "measure (\<lambda>(s, x, n). unat n)") (auto simp: word_less_nat_alt unat_sub_if')

declare fac_loop.simps [simp del]

definition mpz_fac_ui :: "gmp \<Rightarrow> nat \<Rightarrow> 64 word \<Rightarrow> gmp result" where
  "mpz_fac_ui s x n = rbind (mpz_set_ui s x (n + of_bool (n = 0))) (\<lambda>s. fac_loop s x n)"

text \<open>\<open>for (; k > 0; k--) mpz_mul_ui (r, r, n--)\<close>.\<close>

function falling_loop :: "gmp \<Rightarrow> nat \<Rightarrow> 64 word \<Rightarrow> 64 word \<Rightarrow> gmp result" where
  "falling_loop s r n k = (if k > 0 then rbind (mpz_mul_ui s r r n) (\<lambda>s. falling_loop s r (n - 1) (k - 1)) else Inr s)"
  by pat_completeness auto
termination
  by (relation "measure (\<lambda>(s, r, n, k). unat k)") (auto simp: word_less_nat_alt unat_sub_if')

declare falling_loop.simps [simp del]

definition mpz_bin_uiui :: "gmp \<Rightarrow> nat \<Rightarrow> 64 word \<Rightarrow> 64 word \<Rightarrow> gmp result" where
  "mpz_bin_uiui s r n k =
     rbind (mpz_set_ui s r (of_bool (k \<le> n))) (\<lambda>s.
     let k = (if k > drop_bit 1 n then (if k \<le> n then n - k else 0) else k) in
     rbind (with_local s (\<lambda>s t.
       rbind (mpz_fac_ui (mpz_init s t) t k) (\<lambda>s.
       rbind (falling_loop s r n k) (\<lambda>s.
       rbind (mpz_divexact s r r t) (\<lambda>s.
       rbind (mpz_clear s t) (\<lambda>s. Inr ((), s))))))) (\<lambda>(_, s). Inr s))"

section \<open>Powers\<close>

lemma limbs_mult_ge: "a \<noteq> 0 \<Longrightarrow> b \<noteq> 0 \<Longrightarrow> limbs a + limbs b \<le> Suc (limbs (a * b))"
proof -
  assume nz: "a \<noteq> 0" "b \<noteq> 0"
  have l: "int B ^ (limbs c - 1) \<le> \<bar>c\<bar>" if "c \<noteq> 0" for c
  proof -
    have "limbs c \<noteq> 0" using that limbs_le_iff [of c 0] by auto
    then have "\<not> limbs c \<le> limbs c - 1" by simp
    then show ?thesis by (simp add: limbs_le_iff)
  qed
  have "int B ^ (limbs a - 1 + (limbs b - 1)) \<le> \<bar>a * b\<bar>"
    unfolding abs_mult power_add using l [OF nz(1)] l [OF nz(2)] by (intro mult_mono) auto
  then have "\<not> limbs (a * b) \<le> limbs a - 1 + (limbs b - 1)" by (simp add: limbs_le_iff not_less)
  then show ?thesis by simp
qed

lemma pow_fits:
  assumes "i + j \<le> n" "int (limbs (b ^ n)) < INT_MAX"
  shows "mul_fits (b ^ i) (b ^ j)"
proof (cases "b = 0")
  case True
  have "limbs (0 ^ k) \<le> 1" for k using limbs_le_iff [of "0 ^ k" 1] by (cases k) (auto simp: B_def)
  from this [of i] this [of j] show ?thesis by (simp add: mul_fits_def True INT_MAX_def)
next
  case False
  then have "\<bar>b\<bar> ^ (i + j) \<le> \<bar>b\<bar> ^ n" using assms(1) by (intro power_increasing) auto
  then have "limbs (b ^ (i + j)) \<le> limbs (b ^ n)" by (intro limbs_abs_le) (simp add: power_abs)
  moreover have "limbs (b ^ i) + limbs (b ^ j) \<le> Suc (limbs (b ^ (i + j)))"
    unfolding power_add by (rule limbs_mult_ge) (use False in auto)
  ultimately show ?thesis using assms(2) by (simp add: mul_fits_def)
qed

lemma and_bit: "(e :: 64 word) AND push_bit i 1 \<noteq> 0 \<longleftrightarrow> odd (unat e div 2 ^ i)"
proof -
  have "e AND push_bit i 1 \<noteq> 0 \<longleftrightarrow> bit e i" by (simp add: and_exp_eq_0_iff_not_bit push_bit_eq_mult)
  also have "\<dots> \<longleftrightarrow> bit (unat e) i" by (simp add: bit_unsigned_iff)
  finally show ?thesis by (simp only: bit_iff_odd)
qed

lemma pow_step:
  fixes e :: "64 word"
  assumes rep: "represents s V E" "tr \<in> V" "b \<in> V" "tr \<noteq> b" and i: "i < 64" and E: "E tr = E b ^ (unat e div 2 ^ Suc i)"
    and fit: "int (limbs (E b ^ unat e)) < INT_MAX"
  shows "yields (rbind (mpz_mul s tr tr tr) (\<lambda>s. if e AND push_bit i 1 \<noteq> 0 then mpz_mul s tr tr b else Inr s)) V
    (E(tr := E b ^ (unat e div 2 ^ i))) (g_top s)"
proof -
  define k where "k = unat e div 2 ^ Suc i"
  have n: "unat e div 2 ^ i = 2 * k + of_bool (odd (unat e div 2 ^ i))"
  proof -
    have "unat e div 2 ^ Suc i = unat e div 2 ^ i div 2" by (simp only: power_Suc mult.commute [of 2] div_mult2_eq)
    then show ?thesis unfolding k_def by (cases "odd (unat e div 2 ^ i)") (simp_all only: odd_two_times_div_two_succ of_bool_eq even_two_times_div_two add_0_right simp_thms)
  qed
  have le: "unat e div 2 ^ i \<le> unat e" by (rule div_le_dividend)
  have sq: "E tr * E tr = E b ^ (2 * k)" by (simp add: E k_def mult_2 power_add)
  have "mul_fits (E tr) (E tr)" unfolding E k_def [symmetric] by (rule pow_fits [OF _ fit]) (use n le in linarith)
  from env_mul [OF rep(1,2,2,2) this] show ?thesis
  proof (rule yields_bind, goal_cases)
    case (1 s')
    show ?case
    proof (cases "e AND push_bit i 1 \<noteq> 0")
      case True
      then have k: "unat e div 2 ^ i = 2 * k + 1" using n and_bit [of e i] by simp
      have "mul_fits (E b ^ (2 * k)) (E b ^ 1)" by (rule pow_fits [OF _ fit]) (use k le in linarith)
      then show ?thesis using env_mul [OF 1(1) rep(2,2,3)] True rep(4) k 1(2) by (simp add: sq mult.commute)
    next
      case False
      then have "unat e div 2 ^ i = 2 * k" using n and_bit [of e i] by simp
      then show ?thesis using yields_Inr [OF 1] False by (simp add: sq)
    qed
  qed
qed

lemma rbind_return [simp]: "rbind m Inr = m"
  by (cases m) simp_all

lemma pow_loop_value:
  assumes "represents s V E" "tr \<in> V" "b \<in> V" "tr \<noteq> b" "i < 64" "E tr = E b ^ (unat e div 2 ^ Suc i)" "int (limbs (E b ^ unat e)) < INT_MAX"
  shows "yields (pow_loop s tr b e (push_bit i 1)) V (E(tr := E b ^ unat e)) (g_top s)"
  using assms
proof (induction i arbitrary: s E)
  case (0 s E)
  then obtain s' where "rbind (mpz_mul s tr tr tr) (\<lambda>s. if e AND push_bit 0 1 \<noteq> 0 then mpz_mul s tr tr b else Inr s) = Inr s'"
    "represents s' V (E(tr := E b ^ unat e))" "g_top s' = g_top s"
    using pow_step [OF 0] by (auto elim: yieldsE)
  then show ?case by (subst pow_loop.simps) (simp add: yields_def)
next
  case (Suc i)
  then obtain s' where s': "rbind (mpz_mul s tr tr tr) (\<lambda>s. if e AND push_bit (Suc i) 1 \<noteq> 0 then mpz_mul s tr tr b else Inr s) = Inr s'"
    "represents s' V (E(tr := E b ^ (unat e div 2 ^ Suc i)))" "g_top s' = g_top s"
    using pow_step [OF Suc.prems] by (auto elim: yieldsE)
  have h: "drop_bit 1 (push_bit (Suc i) (1 :: 64 word)) = push_bit i 1"
    using Suc.prems(5) by (intro bit_word_eqI) (auto simp: bit_simps)
  have nz: "push_bit i (1 :: 64 word) \<noteq> 0" using Suc.prems(5) by (simp add: push_bit_eq_mult exp_eq_zero_iff)
  have "pow_loop s tr b e (push_bit (Suc i) 1) = pow_loop s' tr b e (push_bit i 1)"
    using s'(1) h nz by (subst pow_loop.simps) (simp add: rbind_assoc [symmetric] word_gt_0)
  moreover have "yields (pow_loop s' tr b e (push_bit i 1)) V (E(tr := E b ^ unat e)) (g_top s')"
    using Suc.IH [OF s'(2)] Suc.prems unfolding fun_upd_upd by (simp add: fun_upd_def del: push_bit_of_1 power_Suc)
  ultimately show ?case using s'(3) by (simp only:)
qed

lemma mpz_pow_ui_value:
  assumes rep: "represents s V E" "r \<in> V" "b \<in> V" and fit: "int (limbs (E b ^ unat e)) < INT_MAX"
  shows "yields (mpz_pow_ui s r b e) V (E(r := E b ^ unat e)) (g_top s)"
proof -
  define s0 tr where "s0 = s\<lparr>g_top := Suc (g_top s)\<rparr>" and "tr = g_top s"
  let ?W = "insert tr V" and ?p = "E b ^ unat e"
  have r0: "represents s0 V E" "tr \<notin> V" "tr < g_top s0" using env_enter [OF rep(1)] by (simp_all add: s0_def tr_def)
  then have W: "tr \<in> ?W" "r \<in> ?W" "b \<in> ?W" and ne: "tr \<noteq> r" "tr \<noteq> b" using rep by auto
  obtain s1 where s1: "mpz_init_set_ui s0 tr 1 = Inr s1" "represents s1 ?W (E(tr := 1))"
    using env_set_ui [OF env_init(1) [OF r0] W(1), of 1] by (auto simp: mpz_init_set_ui_def elim: yieldsE)
  have "unat e div 2 ^ Suc 63 = 0" using unat_less_B [of e] by (intro div_less) (simp add: B_def)
  then obtain s2 where s2: "pow_loop s1 tr b e GMP_ULONG_HIGHBIT = Inr s2" "represents s2 ?W (E(tr := ?p))"
    using pow_loop_value [OF s1(2) W(1,3) ne(2), of 63 e] fit ne by (auto simp: GMP_ULONG_HIGHBIT_def elim: yieldsE)
  have s3: "represents (mpz_swap s2 r tr) ?W (E(tr := E r, r := ?p))"
    using env_swap(1) [OF s2(2) W(2,1)] ne by (simp add: fun_upd_twist)
  then obtain s4 where s4: "mpz_clear (mpz_swap s2 r tr) tr = Inr s4" "represents s4 V (E(tr := E r, r := ?p))"
    using env_clear [OF s3 r0(2)] by (auto elim: yieldsE)
  have "represents (s4\<lparr>g_top := g_top s\<rparr>) V (E(r := ?p))"
    by (rule leave_locals [OF rep(1)], rule represents_cong [OF s4(2)]) (use r0(2) in auto)
  moreover have "mpz_pow_ui s r b e = Inr (s4\<lparr>g_top := g_top s\<rparr>)"
    using s1(1) s2(1) s4(1) by (simp add: mpz_pow_ui_def with_local_def s0_def tr_def)
  ultimately show ?thesis by (simp add: yields_def)
qed

section \<open>Factorials and binomial coefficients\<close>

lemma limbs_factor: "a * f = (c :: int) \<Longrightarrow> f \<noteq> 0 \<Longrightarrow> limbs a \<le> limbs c"
  using mult_left_mono [of 1 "\<bar>f\<bar>" "\<bar>a\<bar>"] by (intro limbs_abs_le) (auto simp: abs_mult)

lemma fac_loop_value:
  assumes "represents s V E" "x \<in> V" "E x * fact (unat n - 1) = N" "int (limbs N) < INT_MAX"
  shows "yields (fac_loop s x n) V (E(x := N)) (g_top s)"
  using assms
proof (induction "unat n" arbitrary: s E n rule: less_induct)
  case less
  show ?case
  proof (cases "n > 2")
    case True
    then have n: "2 < unat n" "unat (n - 1) = unat n - 1" by (auto simp: word_less_nat_alt unat_sub_if')
    have f: "int (limbs (E x)) < INT_MAX" using limbs_factor [OF less.prems(3)] less.prems(4) by simp
    obtain s' where s': "mpz_mul_ui s x x (n - 1) = Inr s'" "represents s' V (E(x := E x * int (unat n - 1)))" "g_top s' = g_top s"
      using env_mul_ui [OF less.prems(1,2,2) f, of "n - 1"] n(2) by (auto elim: yieldsE)
    have "fact (unat n - 1) = int (unat n - 1) * fact (unat n - 1 - 1)" using n(1) by (simp add: fact_reduce)
    then have "E x * int (unat n - 1) * fact (unat (n - 1) - 1) = N" using less.prems(3) n by (simp add: mult.assoc)
    then have "yields (fac_loop s' x (n - 1)) V ((E(x := E x * int (unat n - 1)))(x := N)) (g_top s')"
      using n by (intro less.hyps [OF _ s'(2) less.prems(2) _ less.prems(4)]) auto
    then show ?thesis using True s' by (subst fac_loop.simps) simp
  next
    case False
    then have "unat n \<le> 2" by (simp add: word_less_nat_alt)
    then have "unat n - 1 = 0 \<or> unat n - 1 = 1" by auto
    then have "fact (unat n - 1) = (1 :: int)" by auto
    then have "E x = N" using less.prems(3) by simp
    then have "represents s V (E(x := N))" using less.prems(1) by auto
    then show ?thesis using False by (subst fac_loop.simps) (simp add: yields_def)
  qed
qed

lemma mpz_fac_ui_value:
  assumes rep: "represents s V E" "x \<in> V" and fit: "int (limbs (fact (unat n))) < INT_MAX"
  shows "yields (mpz_fac_ui s x n) V (E(x := fact (unat n))) (g_top s)"
proof -
  obtain s' where s': "mpz_set_ui s x (n + of_bool (n = 0)) = Inr s'" "represents s' V (E(x := int (unat (n + of_bool (n = 0)))))" "g_top s' = g_top s"
    using env_set_ui [OF rep] by (auto elim: yieldsE)
  have "int (unat (n + of_bool (n = 0))) * fact (unat n - 1) = fact (unat n)"
    by (cases "n = 0") (simp_all add: fact_reduce [of "unat n"] unat_gt_0)
  then have "yields (fac_loop s' x n) V ((E(x := int (unat (n + of_bool (n = 0)))))(x := fact (unat n))) (g_top s')"
    by (intro fac_loop_value [OF s'(2) rep(2) _ fit]) simp
  then show ?thesis using s' by (simp add: mpz_fac_ui_def)
qed

lemma falling_loop_value:
  assumes "represents s V E" "r \<in> V" "unat k \<le> unat n" "E r * fact (unat n) = N * fact (unat n - unat k)" "int (limbs N) < INT_MAX"
  shows "yields (falling_loop s r n k) V (E(r := N)) (g_top s)"
  using assms
proof (induction "unat k" arbitrary: s E n k)
  case 0
  then have k: "k = 0" "E r = N" by (auto simp: unat_eq_0)
  then have "represents s V (E(r := N))" using 0(2) by auto
  then show ?case using k by (subst falling_loop.simps) (simp add: yields_def)
next
  case (Suc j)
  then have k: "k > 0" "unat (k - 1) = j" "unat (n - 1) = unat n - 1" "1 \<le> unat n" by (auto simp: word_less_nat_alt unat_sub_if')
  have le: "unat n - unat k \<le> unat n" by simp
  then obtain c where "fact (unat n) = (fact (unat n - unat k) :: int) * c" using fact_dvd [OF le] by (elim dvdE)
  then have "E r * c = N" "c \<noteq> 0" using Suc.prems(4) by auto
  then have f: "int (limbs (E r)) < INT_MAX" using limbs_factor [of "E r" c N] Suc.prems(5) by simp
  obtain s' where s': "mpz_mul_ui s r r n = Inr s'" "represents s' V (E(r := E r * int (unat n)))" "g_top s' = g_top s"
    using env_mul_ui [OF Suc.prems(1,2,2) f] by (auto elim: yieldsE)
  have "fact (unat n) = int (unat n) * fact (unat n - 1)" using k(4) by (simp add: fact_reduce)
  then have "E r * int (unat n) * fact (unat (n - 1)) = N * fact (unat (n - 1) - unat (k - 1))"
    using Suc.prems(4) Suc.hyps(2) k by (simp add: mult.assoc)
  then have "yields (falling_loop s' r (n - 1) (k - 1)) V ((E(r := E r * int (unat n)))(r := N)) (g_top s')"
    using Suc.prems(3) Suc.hyps(2) k by (intro Suc.hyps(1) [OF _ s'(2) Suc.prems(2) _ _ Suc.prems(5)]) auto
  then show ?case using k(1) s' by (subst falling_loop.simps) simp
qed

lemma falling_choose:
  assumes "k' = (if k \<le> n then min k (n - k) else 0)"
  shows "int (of_bool (k \<le> n)) * fact n = int (n choose k) * fact k' * fact (n - k')"
proof (cases "k \<le> n")
  case True
  then have "k' = k \<or> k' = n - k" using assms by (auto simp: min_def)
  then have c: "n choose k = n choose k'" and "k' \<le> n" using binomial_symmetric [OF True] True by auto
  then have "int (fact k' * fact (n - k') * (n choose k')) = int (fact n)" by (simp only: binomial_fact_lemma)
  then have "fact k' * fact (n - k') * int (n choose k') = fact n" by (simp only: of_nat_mult of_nat_fact)
  then show ?thesis using True c by (simp add: mult_ac)
qed simp

lemma choose_fits:
  assumes k': "k' = (if k \<le> n then min k (n - k) else 0)" and fit: "int (limbs (int (n choose k) * fact (min k (n - k)))) < INT_MAX"
  shows "int (limbs (int (n choose k) * fact k')) < INT_MAX" "int (limbs (fact k')) < INT_MAX"
proof -
  show f: "int (limbs (int (n choose k) * fact k')) < INT_MAX" using fit k' by (cases "k \<le> n") (simp_all add: INT_MAX_def)
  show "int (limbs (fact k')) < INT_MAX"
  proof (cases "k \<le> n")
    case True
    then have "limbs (fact k') \<le> limbs (int (n choose k) * fact k')" by (intro limbs_factor [of _ "int (n choose k)"]) simp_all
    then show ?thesis using f by simp
  next
    case False
    then have "fact k' = (1 :: int)" using k' by simp
    then show ?thesis using limbs_le_iff [of 1 1] by (simp add: INT_MAX_def B_def)
  qed
qed

lemma mpz_bin_uiui_value:
  assumes rep: "represents s V E" "r \<in> V"
    and fit: "int (limbs (int (unat n choose unat k) * fact (min (unat k) (unat n - unat k)))) < INT_MAX"
  shows "yields (mpz_bin_uiui s r n k) V (E(r := int (unat n choose unat k))) (g_top s)"
proof -
  define k' where "k' = (if k > drop_bit 1 n then if k \<le> n then n - k else 0 else k)"
  define C F where "C = int (unat n choose unat k)" and "F = (fact (unat k') :: int)"
  have half: "k > drop_bit 1 n \<longleftrightarrow> unat n div 2 < unat k" unfolding word_less_nat_alt unat_drop_bit_eq by (simp add: drop_bit_eq_div)
  have k': "unat k' = (if unat k \<le> unat n then min (unat k) (unat n - unat k) else 0)"
    unfolding k'_def half by (auto simp: word_le_nat_alt unat_sub_if' min_def)
  have N: "int (of_bool (k \<le> n)) * fact (unat n) = C * F * fact (unat n - unat k')"
    using falling_choose [OF k'] by (simp add: C_def F_def word_le_nat_alt)
  note fC = choose_fits [OF k' fit, folded C_def F_def]
  obtain s1 where s1: "mpz_set_ui s r (of_bool (k \<le> n)) = Inr s1" "represents s1 V (E(r := int (of_bool (k \<le> n))))" "g_top s1 = g_top s"
    using env_set_ui [OF rep, of "of_bool (k \<le> n)"] by (auto elim: yieldsE split: if_splits simp: of_bool_def)
  define s2 t where "s2 = s1\<lparr>g_top := Suc (g_top s1)\<rparr>" and "t = g_top s1"
  let ?W = "insert t V"
  have r2: "represents s2 V (E(r := int (of_bool (k \<le> n))))" "t \<notin> V" "t < g_top s2" using env_enter [OF s1(2)] by (simp_all add: s2_def t_def)
  then have W: "t \<in> ?W" "r \<in> ?W" and ne: "r \<noteq> t" using rep by auto
  obtain s3 where s3: "mpz_fac_ui (mpz_init s2 t) t k' = Inr s3" "represents s3 ?W (E(r := int (of_bool (k \<le> n)), t := F))"
    using mpz_fac_ui_value [OF env_init(1) [OF r2] W(1), of k'] fC by (auto simp: F_def elim: yieldsE)
  have "unat k' \<le> unat n" using k' by auto
  then obtain s4 where s4: "falling_loop s3 r n k' = Inr s4" "represents s4 ?W (E(t := F, r := C * F))"
    using falling_loop_value [OF s3(2) W(2), of k' n "C * F"] N fC ne by (auto simp: fun_upd_twist elim: yieldsE)
  have "F \<noteq> 0" by (simp add: F_def)
  then obtain s5 where s5: "mpz_divexact s4 r r t = Inr s5" "represents s5 ?W (E(t := F, r := C))"
    using env_divexact [OF s4(2) W(2,2,1)] fC ne by (auto simp: add_fits_def elim: yieldsE)
  obtain s6 where s6: "mpz_clear s5 t = Inr s6" "represents s6 V (E(t := F, r := C))" using env_clear [OF s5(2) r2(2)] by (auto elim: yieldsE)
  have "represents (s6\<lparr>g_top := g_top s1\<rparr>) V (E(r := C))"
    by (rule leave_locals [OF s1(2)], rule represents_cong [OF s6(2)]) (use r2(2) in auto)
  moreover have "mpz_bin_uiui s r n k = Inr (s6\<lparr>g_top := g_top s1\<rparr>)"
    unfolding mpz_bin_uiui_def Let_def k'_def [symmetric]
    using s1(1) s3(1) s4(1) s5(1) s6(1) by (simp add: with_local_def s2_def t_def)
  ultimately show ?thesis using s1(3) by (simp add: yields_def C_def)
qed

end
