(* ===== verification/Mpz_num_props.thy ===== *)
theory Mpz_num_props
  imports Mpz_props Mpz_pow
begin

text \<open>
  The properties of the number-theoretic functions of mini-gmp, with instances on the sample
  state of \<open>Mpz_props\<close>.
\<close>

lemma represents_self: "heap_inv s V \<Longrightarrow> represents s V (mpz_val s)"
  by (simp add: represents_def)

lemma yields_values:
  assumes "yields f V (E(r := v)) t"
  shows "\<exists>s'. f = Inr s' \<and> heap_inv s' V \<and> (\<forall>x \<in> V. mpz_val s' x = (if x = r then v else E x))"
  using assms by (auto simp: yields_def represents_def)

text \<open>
  C12. Greatest common divisor and least common multiple: for all live structures, also when
  the result is one of the operands and when an operand is zero or negative, \<open>mpz_gcd\<close> and
  \<open>mpz_lcm\<close> return (the loop of the binary algorithm ends), store the divisor and the multiple
  that are not negative, change no other integer, and free their temporaries.
\<close>

theorem mpz_gcd_lcm_exact:
  assumes "heap_inv s V" "r \<in> V" "u \<in> V" "v \<in> V" "int (limbs (mpz_val s u)) < INT_MAX" "int (limbs (mpz_val s v)) < INT_MAX"
  shows "(\<exists>s'. mpz_gcd s r u v = Inr s' \<and> heap_inv s' V \<and>
      (\<forall>x \<in> V. mpz_val s' x = (if x = r then gcd (mpz_val s u) (mpz_val s v) else mpz_val s x))) \<and>
    (int (limbs (mpz_val s u)) + int (limbs (mpz_val s v)) \<le> INT_MAX \<longrightarrow> (\<exists>s'. mpz_lcm s r u v = Inr s' \<and> heap_inv s' V \<and>
      (\<forall>x \<in> V. mpz_val s' x = (if x = r then lcm (mpz_val s u) (mpz_val s v) else mpz_val s x))))"
  using yields_values [OF mpz_gcd_value [OF represents_self [OF assms(1)] assms(2-4)]]
    yields_values [OF mpz_lcm_value [OF represents_self [OF assms(1)] assms(2-4)]] assms(5,6)
  by (simp add: add_fits_def mul_fits_def)

theorem mpz_gcd_lcm_exact_witness:
  "(\<exists>s'. mpz_gcd sample_gmp 0 0 1 = Inr s' \<and> mpz_val s' 0 = 1) \<and> (\<exists>s'. mpz_lcm sample_gmp 2 0 1 = Inr s' \<and> mpz_val s' 2 = 14)"
proof -
  have m: "mpz_val sample_gmp (Suc 0) = - 2" by (simp add: sample_val)
  have v: "gcd (7 :: int) (- 2) = 1" "lcm (7 :: int) (- 2) = 14" by code_simp+
  have f: "int (limbs 7) < INT_MAX" "int (limbs (- 2)) < INT_MAX" "int (limbs 7) + int (limbs (- 2)) \<le> INT_MAX"
    using limbs_small [of 7] limbs_small [of "- 2"] by (simp_all add: INT_MAX_def)
  show ?thesis
    using mpz_gcd_lcm_exact [OF sample_inv, of 0 0 1] mpz_gcd_lcm_exact [OF sample_inv, of 2 0 1] v f
    by (auto simp: sample_val m)
qed

text \<open>
  C13. Powers: \<open>mpz_pow_ui\<close> stores the power of the base, also when the result is the base
  itself and when base or exponent are zero, changes no other integer and frees its
  temporary, for every exponent of 64 bits for which the power has less than \<open>INT_MAX\<close> limbs.
\<close>

theorem mpz_pow_ui_exact:
  assumes "heap_inv s V" "r \<in> V" "b \<in> V" "int (limbs (mpz_val s b ^ unat e)) < INT_MAX"
  shows "\<exists>s'. mpz_pow_ui s r b e = Inr s' \<and> heap_inv s' V \<and>
    (\<forall>x \<in> V. mpz_val s' x = (if x = r then mpz_val s b ^ unat e else mpz_val s x))"
  by (rule yields_values [OF mpz_pow_ui_value [OF represents_self [OF assms(1)] assms(2-4)]])

theorem mpz_pow_ui_exact_witness:
  "\<exists>s'. mpz_pow_ui sample_gmp 1 1 9 = Inr s' \<and> mpz_val s' 1 = - 512"
proof -
  have v: "mpz_val sample_gmp 1 ^ unat (9 :: 64 word) = - 512" by (simp add: sample_val)
  have "int (limbs (- 512)) < INT_MAX" using limbs_small [of "- 512"] by (simp add: INT_MAX_def)
  then show ?thesis using mpz_pow_ui_exact [OF sample_inv, of 1 1 9] v by auto
qed

text \<open>
  C14. Factorials and binomial coefficients: \<open>mpz_fac_ui\<close> stores the factorial and
  \<open>mpz_bin_uiui\<close> the binomial coefficient, which is zero for \<open>k > n\<close>, whichever half of the
  range \<open>k\<close> is in. The division by the factorial is exact, the loops end, and no other integer
  changes.
\<close>

theorem mpz_fac_bin_exact:
  assumes "heap_inv s V" "r \<in> V"
  shows "(int (limbs (fact (unat n))) < INT_MAX \<longrightarrow> (\<exists>s'. mpz_fac_ui s r n = Inr s' \<and> heap_inv s' V \<and>
      (\<forall>x \<in> V. mpz_val s' x = (if x = r then fact (unat n) else mpz_val s x)))) \<and>
    (int (limbs (int (unat n choose unat k) * fact (min (unat k) (unat n - unat k)))) < INT_MAX \<longrightarrow>
      (\<exists>s'. mpz_bin_uiui s r n k = Inr s' \<and> heap_inv s' V \<and>
      (\<forall>x \<in> V. mpz_val s' x = (if x = r then int (unat n choose unat k) else mpz_val s x))))"
  using yields_values [OF mpz_fac_ui_value [OF represents_self [OF assms(1)] assms(2)]]
    yields_values [OF mpz_bin_uiui_value [OF represents_self [OF assms(1)] assms(2)]] by blast

theorem mpz_fac_bin_exact_witness:
  "(\<exists>s'. mpz_fac_ui sample_gmp 2 6 = Inr s' \<and> mpz_val s' 2 = 720) \<and>
   (\<exists>s'. mpz_bin_uiui sample_gmp 0 6 4 = Inr s' \<and> mpz_val s' 0 = 15)"
proof -
  have u: "unat (6 :: 64 word) = 6" "unat (4 :: 64 word) = 4" "min 4 (6 - 4) = (2 :: nat)" by simp_all
  have v: "fact 6 = (720 :: int)" "int (6 choose 4) = 15" "fact 2 = (2 :: int)" by code_simp+
  have f: "int (limbs 720) < INT_MAX" "int (limbs (15 * 2)) < INT_MAX"
    using limbs_small [of 720] limbs_small [of 30] by (simp_all add: INT_MAX_def)
  show ?thesis
    using mpz_fac_bin_exact [OF sample_inv, of 2 6 4] mpz_fac_bin_exact [OF sample_inv, of 0 6 4] f unfolding u v by auto
qed

end
