(* ===== verification/Uint64gmp.thy ===== *)
theory Uint64gmp
  imports Mpn_bits
begin

text \<open>
  The 64-bit primitives of \<open>src/examples/multiprecision/overlays/uint64gmp.h\<close>, on which the
  C code extracted from the WhyML library runs. The structures they return are pairs of
  their two fields. A division by zero and a shift by the width of the type are errors.
  The value of each primitive is exact: products, the division of two words by one
  normalised word with half-word digits, sums and differences with carry, and shifts.
\<close>

section \<open>Model\<close>

definition ll_B :: limb where
  "ll_B = push_bit 32 1"

definition ll_lowpart :: "limb \<Rightarrow> limb" where
  "ll_lowpart t = t AND (ll_B - 1)"

definition ll_highpart :: "limb \<Rightarrow> limb" where
  "ll_highpart t = drop_bit 32 t"

definition umul_ppmm :: "limb \<Rightarrow> limb \<Rightarrow> limb \<times> limb" where
  "umul_ppmm u v =
     (let ul = (ucast (ll_lowpart u) :: 32 word); uh = (ucast (ll_highpart u) :: 32 word);
          vl = (ucast (ll_lowpart v) :: 32 word); vh = (ucast (ll_highpart v) :: 32 word);
          x0 = ucast ul * ucast vl; x1 = ucast ul * ucast vh;
          x2 = ucast uh * ucast vl; x3 = ucast uh * ucast vh;
          x1 = x1 + ll_highpart x0;
          x1 = x1 + x2;
          x3 = (if x1 < x2 then x3 + ll_B else x3)
      in (x3 + ll_highpart x1, push_bit 32 x1 + ll_lowpart x0))"

text \<open>One of the two half-word digits of the quotient: the estimate and its corrections.\<close>

definition udiv_digit :: "limb \<Rightarrow> limb \<Rightarrow> limb \<Rightarrow> limb \<times> limb" where
  "udiv_digit d r h =
     (let d1 = ll_highpart d; d0 = ll_lowpart d;
          q = r div d1; r = r - q * d1;
          m = q * d0;
          r = r * ll_B OR h;
          (q, r) = (if r < m
                    then (let q = q - 1; r = r + d
                          in if r \<ge> d then (if r < m then (q - 1, r + d) else (q, r)) else (q, r))
                    else (q, r))
      in (q, r - m))"

definition udiv_qrnnd_c :: "limb \<Rightarrow> limb \<Rightarrow> limb \<Rightarrow> (limb \<times> limb) result" where
  "udiv_qrnnd_c n1 n0 d =
     (if ll_highpart d = 0 then Inl Div_by_zero
      else (case udiv_digit d n1 (ll_highpart n0) of (q1, r1) \<Rightarrow>
            case udiv_digit d r1 (ll_lowpart n0) of (q0, r0) \<Rightarrow> Inr (q1 * ll_B OR q0, r0)))"

text \<open>The result of \<open>mul64_double\<close> has the low word first.\<close>

definition mul64_double :: "limb \<Rightarrow> limb \<Rightarrow> limb \<times> limb" where
  "mul64_double x y = (case umul_ppmm x y of (f1, f0) \<Rightarrow> (f0, f1))"

definition div64_2by1 :: "limb \<Rightarrow> limb \<Rightarrow> limb \<Rightarrow> limb result" where
  "div64_2by1 ul uh d = rbind (udiv_qrnnd_c uh ul d) (\<lambda>(q, r). Inr q)"

definition add64_with_carry :: "limb \<Rightarrow> limb \<Rightarrow> limb \<Rightarrow> limb \<times> limb" where
  "add64_with_carry x y c =
     (let r = x + y + c in (r, if r = x then c else of_bool (r < x)))"

definition sub64_with_borrow :: "limb \<Rightarrow> limb \<Rightarrow> limb \<Rightarrow> limb \<times> limb" where
  "sub64_with_borrow x y b =
     (let r = x - y - b in (r, if r > x then 1 else if r = x then b else 0))"

definition add64_3 :: "limb \<Rightarrow> limb \<Rightarrow> limb \<Rightarrow> limb \<times> limb" where
  "add64_3 x y z =
     (let r = x + y; c1 = of_bool (r < y); r = r + z; c2 = of_bool (r < z) in (r, c1 + c2))"

definition lsld64 :: "limb \<Rightarrow> limb \<Rightarrow> (limb \<times> limb) result" where
  "lsld64 x cnt =
     (if 0 < unat cnt \<and> unat cnt < 64 then Inr (push_bit (unat cnt) x, drop_bit (unat (64 - cnt)) x)
      else Inl Bad_shift)"

section \<open>Products and sums\<close>

lemma ll_eqs: "ll_B = GMP_HLIMB_BIT" "ll_lowpart t = t AND GMP_LLIMB_MASK" "ll_highpart t = drop_bit (GMP_LIMB_BITS div 2) t"
  by (simp_all add: ll_B_def ll_lowpart_def ll_highpart_def GMP_HLIMB_BIT_def GMP_LLIMB_MASK_def GMP_LIMB_BITS_def)

lemma umul_ppmm_eq: "umul_ppmm u v = gmp_umul_ppmm u v"
  unfolding umul_ppmm_def gmp_umul_ppmm_def ll_eqs by (simp add: GMP_LIMB_BITS_def)

lemma mul64_double_value: "mul64_double x y = (f0, f1) \<Longrightarrow> unat f1 * B + unat f0 = unat x * unat y"
  using gmp_umul_ppmm_value [of x y f1 f0] by (auto simp: mul64_double_def umul_ppmm_eq split: prod.splits)

lemma add64_with_carry_value:
  assumes "add64_with_carry x y c = (f0, f1)" "unat c \<le> 1"
  shows "unat f0 + B * unat f1 = unat x + unat y + unat c"
proof -
  have r: "f0 = x + y + c" "f1 = (if f0 = x then c else of_bool (f0 < x))" using assms(1) by (auto simp: add64_with_carry_def Let_def)
  have b: "unat x < B" "unat y < B" by (rule unat_less_B)+
  have v: "unat f0 = (unat x + unat y + unat c) mod B" unfolding r(1) by (simp add: unat_add_limb mod_add_left_eq)
  show ?thesis
  proof (cases "unat x + unat y + unat c < B")
    case True
    then have "unat f0 = unat x + unat y + unat c" using v by simp
    moreover from this have "unat f1 = 0"
      unfolding r(2) by (auto simp: word_less_nat_alt word_unat_eq_iff)
    ultimately show ?thesis by simp
  next
    case False
    have "unat x + unat y + unat c < 2 * B" using b assms(2) by linarith
    then have f: "unat f0 + B = unat x + unat y + unat c" using v False mod_B_cases by simp
    then have "unat f1 = 1" using b assms(2) unfolding r(2) by (auto simp: word_less_nat_alt word_unat_eq_iff)
    with f show ?thesis by simp
  qed
qed

lemma unat_sub_limb: "unat (a - b :: limb) = (if unat b \<le> unat a then unat a - unat b else unat a + B - unat b)"
  by (simp add: unat_sub_if' B_def)

lemma sub64_with_borrow_value:
  assumes "sub64_with_borrow x y b = (f0, f1)" "unat b \<le> 1"
  shows "unat f0 + unat y + unat b = unat x + B * unat f1"
proof -
  have r: "f0 = x - y - b" "f1 = (if f0 > x then 1 else if f0 = x then b else 0)" using assms(1) by (auto simp: sub64_with_borrow_def Let_def)
  have l: "unat x < B" "unat y < B" by (rule unat_less_B)+
  have v: "int (unat f0) = int (unat x) - int (unat y) - int (unat b) + (if unat y + unat b \<le> unat x then 0 else int B)"
    using l assms(2) unfolding r(1) by (auto simp: unat_sub_limb split: if_splits)
  show ?thesis
  proof (cases "unat y + unat b \<le> unat x")
    case True
    then have "unat f0 + unat y + unat b = unat x" using v by simp
    moreover from this have "unat f1 = 0" unfolding r(2) by (auto simp: word_less_nat_alt word_unat_eq_iff)
    ultimately show ?thesis by simp
  next
    case False
    then have f: "unat f0 + unat y + unat b = unat x + B" using v by simp
    then have "unat f1 = 1" using l assms(2) unfolding r(2) by (auto simp: word_less_nat_alt word_unat_eq_iff)
    with f show ?thesis by simp
  qed
qed

lemma carry_value: "unat (x + y :: limb) + B * of_bool (x + y < y) = unat x + unat y"
proof -
  have b: "unat x < B" "unat y < B" by (rule unat_less_B)+
  then show ?thesis using mod_B_cases [of "unat x + unat y"] by (auto simp: word_less_nat_alt unat_add_limb)
qed

lemma add64_3_value:
  assumes "add64_3 x y z = (f0, f1)"
  shows "unat f0 + B * unat f1 = unat x + unat y + unat z"
proof -
  define c1 c2 :: bool where "c1 = (x + y < y)" and "c2 = (x + y + z < z)"
  have r: "f0 = x + y + z" "f1 = of_bool c1 + of_bool c2" using assms by (auto simp: add64_3_def Let_def c1_def c2_def)
  have "unat f1 = of_bool c1 + of_bool c2" unfolding r(2) by simp
  then show ?thesis using carry_value [of x y] carry_value [of "x + y" z] by (simp add: r(1) c1_def c2_def algebra_simps)
qed

lemma lsld64_value:
  assumes "0 < unat cnt" "unat cnt < 64"
  shows "\<exists>f0 f1. lsld64 x cnt = Inr (f0, f1) \<and> unat f1 * B + unat f0 = unat x * 2 ^ unat cnt"
proof -
  define k where "k = unat cnt"
  have k: "0 < k" "k < 64" using assms by (simp_all add: k_def)
  have c: "unat (64 - cnt) = 64 - k" using assms by (simp add: unat_sub_if' k_def)
  have hi: "unat (drop_bit (64 - k) x) = unat x div 2 ^ (64 - k)"
    by (simp only: unat_drop_bit_eq) (simp add: drop_bit_eq_div)
  have lo: "unat (push_bit k x) = unat x * 2 ^ k mod B"
    by (simp only: unsigned_push_bit_eq) (simp add: take_bit_eq_mod push_bit_eq_mult B_def)
  have e: "B = 2 ^ (64 - k) * 2 ^ k" using k by (simp add: B_def flip: power_add)
  have "unat x * 2 ^ k div B = unat x div 2 ^ (64 - k)" unfolding e by simp
  then have "unat (drop_bit (64 - k) x) * B + unat (push_bit k x) = unat x * 2 ^ k"
    using hi lo div_mult_mod_eq [of "unat x * 2 ^ k" B] by simp
  then show ?thesis using k by (simp add: lsld64_def c k_def)
qed


section \<open>Division\<close>

text \<open>The estimate of a digit from the high half of a normalised divisor is at most two too large.\<close>

lemma digit_estimate:
  fixes D R H b :: int
  assumes "0 < b" "b * b \<le> 2 * D" "D < b * b" "0 \<le> R" "R < D" "0 \<le> H" "H < b" "even b" "4 \<le> b"
  defines "T \<equiv> R mod (D div b) * b + H" and "M \<equiv> R div (D div b) * (D mod b)"
  shows "T - M = R * b + H - R div (D div b) * D" "T < D" "T < b * b" "M < b * b" "M \<le> 2 * D" "0 \<le> M" "0 \<le> T"
proof -
  define D1 D0 Q S where "D1 = D div b" and "D0 = D mod b" and "Q = R div D1" and "S = R mod D1"
  have D: "D = D1 * b + D0" "0 \<le> D0" "D0 < b" using assms(1) by (simp_all add: D1_def D0_def)
  have D1: "b \<le> 2 * D1"
  proof -
    obtain c where c: "b = 2 * c" using assms(8) by (auto elim: evenE)
    have "c * b \<le> D" using assms(2) c by simp
    then have "c \<le> D1" unfolding D1_def using assms(1) by (metis nonzero_mult_div_cancel_right order_less_irrefl zdiv_mono1)
    then show ?thesis using c by simp
  qed
  then have pos: "0 < D1" using assms(1) by simp
  have R: "R = Q * D1 + S" "0 \<le> S" "S < D1" "0 \<le> Q" using pos assms(4) by (simp_all add: Q_def S_def pos_imp_zdiv_nonneg_iff)
  have TM: "T = S * b + H" "M = Q * D0" by (simp_all add: T_def M_def S_def Q_def D1_def D0_def)
  show "T - M = R * b + H - R div (D div b) * D"
    unfolding TM D1_def [symmetric] Q_def [symmetric] by (simp add: R(1) D(1) algebra_simps)
  have "(S + 1) * b \<le> D1 * b" using R(3) assms(1) by (intro mult_right_mono) simp_all
  then show T: "T < D" using TM(1) D assms(7) by (simp add: algebra_simps)
  then show "T < b * b" using assms(3) by simp
  have "Q \<le> b + 1"
  proof (rule ccontr)
    assume "\<not> Q \<le> b + 1"
    then have "(b + 2) * D1 \<le> Q * D1" using pos by (intro mult_right_mono) simp_all
    then have "b * D1 + 2 * D1 \<le> R" using R(1,2) by (simp add: algebra_simps)
    then show False using D assms(5) D1 by (simp add: algebra_simps)
  qed
  then have "Q * D0 \<le> (b + 1) * (b - 1)" using D(2,3) R(4) by (intro mult_mono) simp_all
  then show "M < b * b" unfolding TM(2) by (simp add: algebra_simps)
  then show "M \<le> 2 * D" using assms(2) by simp
  show "0 \<le> M" "0 \<le> T" unfolding TM using D(2) R(2,4) assms(1,6) by simp_all
qed

lemma unat_ll: "unat (ll_highpart x) = unat x div 2 ^ 32" "unat (ll_lowpart x) = unat x mod 2 ^ 32"
  by (simp_all add: ll_eqs GMP_LIMB_BITS_def unat_drop_32 unat_and_LLIMB_MASK)

lemma unat_join: "unat x < 2 ^ 32 \<Longrightarrow> unat y < 2 ^ 32 \<Longrightarrow> unat (x * ll_B OR y :: limb) = unat x * 2 ^ 32 + unat y"
proof -
  assume a: "unat x < 2 ^ 32" "unat y < 2 ^ 32"
  have "x * ll_B = push_bit 32 x" by (simp add: ll_B_def push_bit_eq_mult)
  moreover have "unat (push_bit 32 x) = unat x * 2 ^ 32" using a(1) by (simp add: unat_push_32)
  ultimately show ?thesis using push_bit_or [of y 32 x] a(2) by simp
qed

lemma word_of_int_eq: "0 \<le> v \<Longrightarrow> v < int B \<Longrightarrow> int (unat (word_of_int v :: limb)) = v"
  by (simp add: B_def unsigned_of_int take_bit_int_eq_self)

lemma word_of_int_unat: "word_of_int (int (unat x)) = (x :: limb)"
  by (metis of_nat_unat word_of_int_uint)

text \<open>The corrections in words compute the exact quotient and remainder, given the estimate.\<close>

lemma digit_corrections:
  fixes q t m d :: limb
  defines "T \<equiv> int (unat t)" and "M \<equiv> int (unat m)" and "D \<equiv> int (unat d)"
  assumes "T < D" "M \<le> 2 * D"
    "(q', r') = (let (q, t) = (if t < m
                    then (let q = q - 1; t = t + d
                          in if t \<ge> d then (if t < m then (q - 1, t + d) else (q, t)) else (q, t))
                    else (q, t)) in (q, t - m))"
  shows "\<exists>k :: int. q' = q - word_of_int k \<and> int (unat r') = T + k * D - M \<and> int (unat r') < D \<and> 0 \<le> k"
proof -
  have B: "T < int B" "M < int B" "D < int B" using unat_less_B by (simp_all add: T_def M_def D_def)
  have nn: "0 \<le> T" "0 \<le> M" "0 \<le> D" by (simp_all add: T_def M_def D_def)
  have w: "t = word_of_int T" "m = word_of_int M" "d = word_of_int D" by (simp_all only: T_def M_def D_def word_of_int_unat)
  have lt: "t < m \<longleftrightarrow> T < M" by (simp add: word_less_nat_alt T_def M_def)
  have val: "int (unat r) = v" if "r = word_of_int v" "0 \<le> v" "v < D" for r :: limb and v
    using that B(3) word_of_int_eq by simp
  have td: "int (unat (t + d)) = (if T + D < int B then T + D else T + D - int B)"
    using mod_B_cases [of "unat t + unat d"] B by (auto simp: unat_add_limb T_def D_def)
  have "t + d \<ge> d \<longleftrightarrow> D \<le> int (unat (t + d))" "t + d < m \<longleftrightarrow> int (unat (t + d)) < M"
    by (simp_all add: word_le_nat_alt word_less_nat_alt D_def M_def)
  then have ge: "t + d \<ge> d \<longleftrightarrow> T + D < int B" and lt2: "T + D < int B \<Longrightarrow> t + d < m \<longleftrightarrow> T + D < M"
    unfolding td using B nn by auto
  consider "M \<le> T" | "T < M" "M \<le> T + D" | "T + D < M" by linarith
  then show ?thesis
  proof cases
    case 1
    then have "q' = q" "r' = t - m" using assms(6) lt by simp_all
    moreover have "int (unat (t - m)) = T - M" by (rule val) (use 1 assms(4) nn w in simp_all)
    ultimately show ?thesis using 1 assms(4) nn by (intro exI [of _ 0]) simp
  next
    case 2
    then have "q' = q - 1" "r' = t + d - m" using assms(6) lt ge lt2 by (auto simp: Let_def split: if_splits)
    moreover have "int (unat (t + d - m)) = T + D - M" by (rule val) (use 2 w in simp_all)
    ultimately show ?thesis using 2 by (intro exI [of _ 1]) simp
  next
    case 3
    then have "T + D < int B" "T < M" using B nn by simp_all
    then have "q' = q - 1 - 1" "r' = t + d + d - m" using assms(6) lt ge lt2 3 by (auto simp: Let_def split: if_splits)
    moreover have "int (unat (t + d + d - m)) = T + 2 * D - M" by (rule val) (use 3 assms(5) nn w in simp_all)
    ultimately show ?thesis using 3 by (intro exI [of _ 2]) simp
  qed
qed

lemma udiv_digit_value:
  assumes "unat d \<ge> 2 ^ 63" "r < d" "unat h < 2 ^ 32" "udiv_digit d r h = (q, r')"
  shows "unat q * unat d + unat r' = unat r * 2 ^ 32 + unat h" "unat r' < unat d" "unat q < 2 ^ 32"
proof -
  define b D R H where "b = (2 ^ 32 :: int)" and "D = int (unat d)" and "R = int (unat r)" and "H = int (unat h)"
  have bounds: "0 < b" "b * b \<le> 2 * D" "D < b * b" "0 \<le> R" "R < D" "0 \<le> H" "H < b" "even b" "4 \<le> b"
    using assms(1-3) unat_less_64 [of d] by (simp_all add: b_def D_def R_def H_def word_less_nat_alt)
  note est = digit_estimate [OF bounds]
  define d1 q0 t m where "d1 = ll_highpart d" and "q0 = r div d1" and "t = (r - q0 * d1) * ll_B OR h" and "m = q0 * ll_lowpart d"
  have d1: "int (unat d1) = D div b" "unat d1 < 2 ^ 32" "0 < unat d1"
    using assms(1) unat_less_64 [of d] by (simp_all add: d1_def unat_ll D_def b_def zdiv_int less_mult_imp_div_less div_greater_zero_iff)
  have q0: "int (unat q0) = R div (D div b)" by (simp add: q0_def unat_div zdiv_int d1(1) R_def)
  have rem: "r - q0 * d1 = r mod d1" unfolding q0_def by (rule minus_div_mult_eq_mod)
  have "unat (r mod d1) < 2 ^ 32" using d1(2,3) by (simp add: unat_mod less_trans [OF mod_less_divisor])
  from unat_join [OF this assms(3)] have t: "int (unat t) = R mod (D div b) * b + H"
    by (simp add: t_def rem unat_mod zmod_int d1(1) R_def b_def H_def)
  have prod: "int (unat q0 * (unat d mod 2 ^ 32)) = R div (D div b) * (D mod b)"
    using q0 by (simp add: D_def b_def zmod_int)
  then have "int (unat q0 * (unat d mod 2 ^ 32)) < int B" using est(4) by (simp add: b_def B_def)
  then have "unat q0 * (unat d mod 2 ^ 32) < B" by (simp only: of_nat_less_iff)
  then have "unat m = unat q0 * (unat d mod 2 ^ 32)" by (simp add: m_def unat_mult_limb unat_ll)
  then have m: "int (unat m) = R div (D div b) * (D mod b)" using prod by simp
  have "(q, r') = (let (q, t) = (if t < m
                    then (let q = q0 - 1; t = t + d
                          in if t \<ge> d then (if t < m then (q - 1, t + d) else (q, t)) else (q, t))
                    else (q0, t)) in (q, t - m))"
    using assms(4) unfolding udiv_digit_def t_def m_def q0_def d1_def by (simp add: Let_def)
  from digit_corrections [OF _ _ this] est(2,5) t m obtain k where
    k: "q = q0 - word_of_int k" "int (unat r') = int (unat t) + k * D - int (unat m)" "int (unat r') < D" "0 \<le> k"
    by (auto simp: D_def)
  define Q where "Q = R div (D div b) - k"
  have val: "Q * D + int (unat r') = R * b + H" using k(2) est(1) t m by (simp add: Q_def algebra_simps)
  have "0 < (Q + 1) * D" using val k(3) bounds(1,4,6) by (simp add: algebra_simps) (smt (verit) mult_nonneg_nonneg)
  then have Q0: "0 \<le> Q" using bounds(4,5) by (simp add: zero_less_mult_iff)
  have "Q * D < b * D"
  proof -
    have "(R + 1) * b \<le> D * b" using bounds(1,5) by (intro mult_right_mono) simp_all
    then show ?thesis using val bounds(7) by (simp add: algebra_simps)
  qed
  then have Qb: "Q < b" using bounds(4,5) by simp
  have "q = word_of_int Q" using k(1) q0 word_of_int_unat [of q0] by (simp add: Q_def)
  then have q: "int (unat q) = Q" using word_of_int_eq [of Q] Q0 Qb by (simp add: b_def B_def)
  show "unat r' < unat d" using k(3) by (simp add: D_def)
  show "unat q < 2 ^ 32" using Qb q by (simp add: b_def)
  have "int (unat q * unat d + unat r') = int (unat r * 2 ^ 32 + unat h)" using val q by (simp add: D_def R_def H_def b_def)
  then show "unat q * unat d + unat r' = unat r * 2 ^ 32 + unat h" by (simp only: of_nat_eq_iff)
qed

lemma udiv_qrnnd_c_value:
  assumes "unat d \<ge> 2 ^ 63" "n1 < d"
  obtains q r where "udiv_qrnnd_c n1 n0 d = Inr (q, r)" "unat n1 * B + unat n0 = unat q * unat d + unat r" "unat r < unat d"
proof -
  obtain q1 r1 where 1: "udiv_digit d n1 (ll_highpart n0) = (q1, r1)" by force
  obtain q0 r0 where 0: "udiv_digit d r1 (ll_lowpart n0) = (q0, r0)" by force
  have h: "unat (ll_highpart n0) < 2 ^ 32" "unat (ll_lowpart n0) < 2 ^ 32"
    using unat_less_64 [of n0] by (simp_all add: unat_ll less_mult_imp_div_less)
  note v1 = udiv_digit_value [OF assms h(1) 1]
  have "r1 < d" using v1(2) by (simp add: word_less_nat_alt)
  note v0 = udiv_digit_value [OF assms(1) this h(2) 0]
  have nz: "ll_highpart d \<noteq> 0" using assms(1) by (auto simp: word_unat_eq_iff unat_ll)
  have q: "unat (q1 * ll_B OR q0) = unat q1 * 2 ^ 32 + unat q0" by (rule unat_join [OF v1(3) v0(3)])
  have n0: "unat n0 = unat (ll_highpart n0) * 2 ^ 32 + unat (ll_lowpart n0)" by (simp add: unat_ll)
  have "unat n1 * B + unat n0 = (unat n1 * 2 ^ 32 + unat (ll_highpart n0)) * 2 ^ 32 + unat (ll_lowpart n0)"
    unfolding n0 by (simp add: B_def)
  also have "\<dots> = unat q1 * unat d * 2 ^ 32 + (unat r1 * 2 ^ 32 + unat (ll_lowpart n0))"
    unfolding v1(1) [symmetric] by (simp add: algebra_simps)
  also have "\<dots> = unat (q1 * ll_B OR q0) * unat d + unat r0" unfolding v0(1) [symmetric] q by (simp add: algebra_simps)
  finally show ?thesis using that [of "q1 * ll_B OR q0" r0] 1 0 nz v0(2) by (simp add: udiv_qrnnd_c_def)
qed

section \<open>Properties\<close>

text \<open>C16. Two words divided by one: for a normalised divisor larger than the high word, the
  division with half-word digits of \<open>div64_2by1\<close> returns the exact quotient, although each digit
  is estimated from the high half of the divisor alone.\<close>

theorem div64_2by1_exact:
  assumes "unat d \<ge> 2 ^ 63" "uh < d"
  shows "\<exists>q. div64_2by1 ul uh d = Inr q \<and> unat q = (unat uh * B + unat ul) div unat d"
proof -
  obtain q r where *: "udiv_qrnnd_c uh ul d = Inr (q, r)" "unat uh * B + unat ul = unat q * unat d + unat r" "unat r < unat d"
    by (rule udiv_qrnnd_c_value [OF assms])
  from *(3) have "(unat q * unat d + unat r) div unat d = unat q" by simp
  then show ?thesis unfolding *(2) by (simp add: div64_2by1_def *(1))
qed

theorem div64_2by1_exact_witness:
  "div64_2by1 5 (2 ^ 63 - 1) (2 ^ 63 + 12345) = Inr (2 ^ 64 - 24692 :: limb)
   \<and> unat (2 ^ 64 - 24692 :: limb) = (unat (2 ^ 63 - 1 :: limb) * B + unat (5 :: limb)) div unat (2 ^ 63 + 12345 :: limb)"
proof -
  have "unat (2 ^ 63 + 12345 :: limb) \<ge> 2 ^ 63" "(2 ^ 63 - 1 :: limb) < 2 ^ 63 + 12345" by simp_all
  from div64_2by1_exact [OF this, of 5] obtain q where
    q: "div64_2by1 5 (2 ^ 63 - 1) (2 ^ 63 + 12345) = Inr q"
       "unat q = (unat (2 ^ 63 - 1 :: limb) * B + unat (5 :: limb)) div unat (2 ^ 63 + 12345 :: limb)" by blast
  moreover have "div64_2by1 5 (2 ^ 63 - 1) (2 ^ 63 + 12345) = Inr (2 ^ 64 - 24692 :: limb)" by code_simp
  ultimately show ?thesis by simp
qed

text \<open>C36. The primitives with a second result word lose nothing: the two words that
  \<open>mul64_double\<close>, \<open>add64_with_carry\<close>, \<open>sub64_with_borrow\<close>, \<open>add64_3\<close> and \<open>lsld64\<close> return
  are exactly the double-word value of the operation (for a difference, the borrow is its sign).\<close>

theorem uint64_results_exact:
  assumes "unat c \<le> 1" "0 < unat cnt" "unat cnt < 64"
  shows "(case mul64_double x y of (l, h) \<Rightarrow> unat h * B + unat l = unat x * unat y)
    \<and> (case add64_with_carry x y c of (l, h) \<Rightarrow> unat l + B * unat h = unat x + unat y + unat c)
    \<and> (case sub64_with_borrow x y c of (l, h) \<Rightarrow> unat l + unat y + unat c = unat x + B * unat h)
    \<and> (case add64_3 x y z of (l, h) \<Rightarrow> unat l + B * unat h = unat x + unat y + unat z)
    \<and> (\<exists>l h. lsld64 x cnt = Inr (l, h) \<and> unat h * B + unat l = unat x * 2 ^ unat cnt)"
  using mul64_double_value add64_with_carry_value [OF _ assms(1)] sub64_with_borrow_value [OF _ assms(1)]
    add64_3_value lsld64_value [OF assms(2,3)] by (auto split: prod.splits)

theorem uint64_results_exact_witness:
  "(case add64_with_carry (2 ^ 64 - 1) 5 1 of (l, h) \<Rightarrow> unat l + B * unat h = unat (2 ^ 64 - 1 :: limb) + unat (5 :: limb) + unat (1 :: limb))
   \<and> add64_with_carry (2 ^ 64 - 1) 5 1 = (5, 1)"
proof -
  have "unat (1 :: limb) \<le> 1" "0 < unat (7 :: limb)" "unat (7 :: limb) < 64" by simp_all
  from uint64_results_exact [OF this, where x = "2 ^ 64 - 1" and y = 5 and z = 0]
  have "case add64_with_carry (2 ^ 64 - 1) 5 1 of (l, h) \<Rightarrow> unat l + B * unat h = unat (2 ^ 64 - 1 :: limb) + unat (5 :: limb) + unat (1 :: limb)"
    by (elim conjE)
  moreover have "add64_with_carry (2 ^ 64 - 1) 5 1 = (5, 1)" by code_simp
  ultimately show ?thesis by blast
qed

end
