(* ===== verification/Cpulimit.thy ===== *)
theory Cpulimit
  imports Server_state
begin

text \<open>
  The program \<open>why3cpulimit\<close> of \<open>src/src/server/cpulimit-unix.c\<close>: it starts a command under
  a limit on CPU time and on memory, waits for it, and ends the way the command ended. One
  run of the model is one process: \<open>fork\<close> answers with the process identifier in the
  parent and with zero in the child. Resource limits are state, so that a \<open>setrlimit\<close> that
  the kernel refuses has no effect; the answers of the other system calls, the formatting
  of the time and the text of an error are fields of the state.
\<close>

section \<open>State\<close>

text \<open>
  An answer of \<open>waitpid\<close>: a process and its status, an error, or the interruption by the
  signal of the alarm, whose handler has then run.
\<close>

datatype wait_answer = Wait_status int wait_status | Wait_error | Wait_alarm

datatype cpu_effect = C_alarm "32 word" | C_kill int int

record cpu =
  c_wallclock :: int
  c_showtime :: bool
  c_hidetime :: bool
  c_handler :: bool
  c_armed :: bool
  c_limits :: "resource \<Rightarrow> 64 word \<times> 64 word"
  c_stderr :: string
  c_out :: "cpu_effect list"
  c_fork :: int
  c_wait :: "wait_answer list"
  c_lethal :: "int \<Rightarrow> bool"
  c_times :: "int \<times> int"
  c_exec_error :: "string option"
  c_strerror :: string

text \<open>A process goes on, or it ends: by its exit code, by a signal, or as another program.\<close>

datatype ending = Exits int | Dies int | Becomes string "string list"

datatype 'a cstep = Goes 'a cpu | Ends ending cpu | Wrong c_error

type_synonym 'a cm = "cpu \<Rightarrow> 'a cstep"

definition cbind :: "'a cm \<Rightarrow> ('a \<Rightarrow> 'b cm) \<Rightarrow> 'b cm" where
  "cbind m f = (\<lambda>s. case m s of Goes x s' \<Rightarrow> f x s' | Ends e s' \<Rightarrow> Ends e s' | Wrong e \<Rightarrow> Wrong e)"

definition cret :: "'a \<Rightarrow> 'a cm" where
  "cret x = Goes x"

definition cmod :: "(cpu \<Rightarrow> cpu) \<Rightarrow> unit cm" where
  "cmod f = (\<lambda>s. Goes () (f s))"

definition cwhen :: "bool \<Rightarrow> unit cm \<Rightarrow> unit cm" where
  "cwhen b m = (if b then m else cret ())"

definition clift :: "'a result \<Rightarrow> 'a cm" where
  "clift r = (\<lambda>s. case r of Inl e \<Rightarrow> Wrong e | Inr x \<Rightarrow> Goes x s)"

definition cexit :: "int \<Rightarrow> 'a cm" where
  "cexit n = Ends (Exits n)"

definition cprint :: "string \<Rightarrow> unit cm" where
  "cprint t = cmod (\<lambda>s. s\<lparr>c_stderr := c_stderr s @ t\<rparr>)"

section \<open>System calls\<close>

definition SIGALRM :: int where "SIGALRM = 14"
definition SIGTERM :: int where "SIGTERM = 15"
definition SIGKILL :: int where "SIGKILL = 9"

text \<open>\<open>atol\<close>, undefined when the number is not a \<open>long\<close>; the type \<open>long\<close> has 64 bits.\<close>

definition c_long :: "int \<Rightarrow> int result" where
  "c_long v = (if - (2 ^ 63) \<le> v \<and> v < 2 ^ 63 then Inr v else Inl Int_overflow)"

definition atol :: "string \<Rightarrow> int result" where
  "atol s = c_long (number_value s)"

text \<open>\<open>getrlimit\<close>, a change of the soft limit, and \<open>setrlimit\<close>, whose failure is not examined.\<close>

definition set_soft_limit :: "resource \<Rightarrow> 64 word \<Rightarrow> unit cm" where
  "set_soft_limit res cur =
     cmod (\<lambda>s. let hard = snd (c_limits s res)
               in if cur \<le> hard then s\<lparr>c_limits := (c_limits s)(res := (cur, hard))\<rparr> else s)"

text \<open>
  \<open>waitpid\<close>. An interruption is possible only once the alarm is set, and a status is
  the one of the process that is waited for.
\<close>

definition wallclock_timelimit_reached :: "unit cm" where
  "wallclock_timelimit_reached = (\<lambda>s.
     cprint (''Why3cpulimit: wallclock timelimit '' @ fmt_d (c_wallclock s)
             @ '' reached, killing command'' @ [CHR 0x0A]) s)"

definition sys_waitpid :: "int \<Rightarrow> wait_status option \<Rightarrow> (int \<times> wait_status option) cm" where
  "sys_waitpid pid status = (\<lambda>s.
     case c_wait s of
       [] \<Rightarrow> Wrong Blocked
     | Wait_status p st # ws \<Rightarrow>
         if p = pid then Goes (p, Some st) (s\<lparr>c_wait := ws\<rparr>) else Wrong Blocked
     | Wait_error # ws \<Rightarrow> Goes (-1, status) (s\<lparr>c_wait := ws\<rparr>)
     | Wait_alarm # ws \<Rightarrow>
         if c_handler s \<and> c_armed s
         then cbind wallclock_timelimit_reached (\<lambda>_. cret (-1, status)) (s\<lparr>c_wait := ws, c_armed := False\<rparr>)
         else Wrong Blocked)"

text \<open>A signal of the process to itself: handled, deadly, or without effect.\<close>

definition kill_self :: "int \<Rightarrow> unit cm" where
  "kill_self sig = (\<lambda>s.
     if sig = SIGALRM \<and> c_handler s then wallclock_timelimit_reached s
     else if c_lethal s sig then Ends (Dies sig) s
     else Goes () s)"

definition kill_child :: "int \<Rightarrow> int \<Rightarrow> unit cm" where
  "kill_child pid sig = cmod (\<lambda>s. s\<lparr>c_out := c_out s @ [C_kill pid sig]\<rparr>)"

definition sys_alarm :: "32 word \<Rightarrow> unit cm" where
  "sys_alarm secs = cmod (\<lambda>s. s\<lparr>c_armed := (secs \<noteq> 0), c_out := c_out s @ [C_alarm secs]\<rparr>)"

definition perror :: "string \<Rightarrow> unit cm" where
  "perror t = (\<lambda>s. cprint (t @ '': '' @ c_strerror s @ [CHR 0x0A]) s)"

definition sys_execvp :: "string \<Rightarrow> string list \<Rightarrow> unit cm" where
  "sys_execvp file argv = (\<lambda>s. case c_exec_error s of None \<Rightarrow> Ends (Becomes file argv) s | Some _ \<Rightarrow> Goes () s)"

section \<open>Program\<close>

definition show_time :: "(int \<Rightarrow> int \<Rightarrow> string) \<Rightarrow> unit cm" where
  "show_time fmt_f = (\<lambda>s.
     cwhen (c_showtime s)
       (cprint (''why3cpulimit time : '' @ fmt_f (fst (c_times s)) (snd (c_times s)) @ '' s'' @ [CHR 0x0A])) s)"

definition usage :: "string \<Rightarrow> 'a cm" where
  "usage argv0 =
     cbind (cprint (''usage: '' @ argv0 @ '' <time limit in seconds> <virtual memory limit in MiB>'' @ [CHR 0x0A]
             @ ''          <show/hide cpu time: -s|-h> <command> <args>...'' @ [CHR 0x0A, CHR 0x0A]
             @ ''Zero sets no limit (keeps the actual limit)'' @ [CHR 0x0A])) (\<lambda>_. cexit 1)"

text \<open>The wallclock limit of the parent: a \<open>long\<close>, cut to an \<open>int\<close>, passed as unsigned.\<close>

definition set_wallclock :: "int \<Rightarrow> unit cm" where
  "set_wallclock time_limit =
     cbind (cmod (\<lambda>s. s\<lparr>c_handler := True\<rparr>)) (\<lambda>_.
     cbind (clift (rbind (c_long (2 * time_limit)) (\<lambda>t. c_long (t + 60)))) (\<lambda>limit.
     cbind (cmod (\<lambda>s. s\<lparr>c_wallclock := c_int limit\<rparr>)) (\<lambda>_.
     sys_alarm (word_of_int (c_int limit)))))"

text \<open>The branch of the parent: \<open>pid\<close> is positive. It falls through when no signal ends it.\<close>

definition wait_for_child :: "(int \<Rightarrow> int \<Rightarrow> string) \<Rightarrow> int \<Rightarrow> int \<Rightarrow> unit cm" where
  "wait_for_child fmt_f time_limit pid =
     cbind (cwhen (time_limit \<noteq> 0) (set_wallclock time_limit)) (\<lambda>_.
     cbind (sys_waitpid pid None) (\<lambda>(p, status).
     cbind (if p \<le> 0
            then cbind (kill_child pid SIGKILL) (\<lambda>_.
                 cbind (sys_waitpid pid status) (\<lambda>(p, status).
                 cbind (cwhen (p \<le> 0)
                   (cbind (perror ''why3cpulimit waitpid'') (\<lambda>_. kill_self SIGTERM))) (\<lambda>_.
                 cret status)))
            else cret status) (\<lambda>status.
     cbind (show_time fmt_f) (\<lambda>_.
     cbind (clift (case status of None \<Rightarrow> Inl Uninit_read | Some st \<Rightarrow> Inr st)) (\<lambda>st.
     cbind (case st of Exit_status n \<Rightarrow> cexit n | Signaled n \<Rightarrow> kill_self n | Other_status \<Rightarrow> cret ()) (\<lambda>_.
     cbind (cprint (''why3cpulimit: child exited neither normally nor because of a signal'' @ [CHR 0x0A])) (\<lambda>_.
     kill_self SIGTERM)))))))"

definition set_limits :: "int \<Rightarrow> int \<Rightarrow> unit cm" where
  "set_limits time_limit mem_limit =
     cbind (cwhen (time_limit > 0) (set_soft_limit RLIMIT_CPU (word_of_int time_limit))) (\<lambda>_.
     cbind (if mem_limit > 0
            then cbind (clift (rbind (c_long (mem_limit * 1024)) (\<lambda>m. c_long (m * 1024)))) (\<lambda>m.
                 set_soft_limit RLIMIT_AS (word_of_int m))
            else cret ()) (\<lambda>_.
     cwhen (time_limit > 0 \<or> mem_limit > 0) (set_soft_limit RLIMIT_CORE 0)))"

text \<open>The three parts of \<open>main\<close>: the fork, the limits and the command, the arguments.\<close>

definition fork_if_requested :: "(int \<Rightarrow> int \<Rightarrow> string) \<Rightarrow> int \<Rightarrow> unit cm" where
  "fork_if_requested fmt_f time_limit = (\<lambda>s.
     cwhen (c_showtime s \<or> time_limit \<noteq> 0)
       (cbind (\<lambda>s. Goes (c_fork s) s) (\<lambda>pid.
        cbind (cwhen (pid = -1) (cbind (perror ''fork'') (\<lambda>_. cexit 1))) (\<lambda>_.
        cwhen (pid > 0) (wait_for_child fmt_f time_limit pid)))) s)"

definition execute_command :: "string list \<Rightarrow> unit cm" where
  "execute_command argv =
     cbind (sys_execvp (argv ! 4) (drop 4 argv)) (\<lambda>_.
     cbind (\<lambda>s. cprint (argv ! 0 @ '': exec of '' @ [CHR 0x27] @ argv ! 4 @ [CHR 0x27] @ '' failed (''
              @ (case c_exec_error s of Some e \<Rightarrow> e | None \<Rightarrow> []) @ '')'' @ [CHR 0x0A]) s) (\<lambda>_.
     cexit 1))"

definition cpulimit_main :: "(int \<Rightarrow> int \<Rightarrow> string) \<Rightarrow> string list \<Rightarrow> unit cm" where
  "cpulimit_main fmt_f argv =
     (if length argv < 5 then usage (argv ! 0)
      else
        cbind (cmod (\<lambda>s. s\<lparr>c_showtime := strcmp0 ''-s'' (argv ! 3), c_hidetime := strcmp0 ''-h'' (argv ! 3)\<rparr>)) (\<lambda>_.
        cbind (\<lambda>s. cwhen (\<not> (c_showtime s \<or> c_hidetime s)) (usage (argv ! 0)) s) (\<lambda>_.
        cbind (clift (atol (argv ! 1))) (\<lambda>time_limit.
        cbind (cwhen (time_limit < 0) (usage (argv ! 0))) (\<lambda>_.
        cbind (clift (atol (argv ! 2))) (\<lambda>mem_limit.
        cbind (cwhen (mem_limit < 0) (usage (argv ! 0))) (\<lambda>_.
        cbind (fork_if_requested fmt_f time_limit) (\<lambda>_.
        cbind (set_limits time_limit mem_limit) (\<lambda>_.
        execute_command argv)))))))))"

section \<open>Rules for steps\<close>

text \<open>
  From a state in \<open>P\<close> a step that goes on has its result and state in \<open>Q\<close>, one that ends the
  process has its ending and state in \<open>E\<close>.
\<close>

definition steps :: "(cpu \<Rightarrow> bool) \<Rightarrow> 'a cm \<Rightarrow> ('a \<Rightarrow> cpu \<Rightarrow> bool) \<Rightarrow> (ending \<Rightarrow> cpu \<Rightarrow> bool) \<Rightarrow> bool" where
  "steps P m Q E \<longleftrightarrow> (\<forall>s. P s \<longrightarrow> (case m s of Goes x s' \<Rightarrow> Q x s' | Ends e s' \<Rightarrow> E e s' | Wrong _ \<Rightarrow> True))"

lemma steps_bind: "steps P m R E \<Longrightarrow> (\<And>x. steps (R x) (f x) Q E) \<Longrightarrow> steps P (cbind m f) Q E"
  unfolding steps_def cbind_def by (fastforce split: cstep.splits)

lemma steps_mod: "(\<And>s. P s \<Longrightarrow> Q () (f s)) \<Longrightarrow> steps P (cmod f) Q E"
  by (simp add: steps_def cmod_def)

lemma steps_lift: "(\<And>s x. r = Inr x \<Longrightarrow> P s \<Longrightarrow> Q x s) \<Longrightarrow> steps P (clift r) Q E"
  by (simp add: steps_def clift_def split: sum.splits)

lemma steps_Ends: "steps P m Q E \<Longrightarrow> P s \<Longrightarrow> m s = Ends e s' \<Longrightarrow> E e s'"
  by (force simp: steps_def)

lemma steps_weaken: "steps P m Q E \<Longrightarrow> (\<And>s. P' s \<Longrightarrow> P s) \<Longrightarrow> (\<And>x s. Q x s \<Longrightarrow> Q' x s) \<Longrightarrow> (\<And>e s. E e s \<Longrightarrow> E' e s) \<Longrightarrow> steps P' m Q' E'"
  unfolding steps_def by (fastforce split: cstep.splits)

text \<open>The steps of the parent keep the limits and do not run the command.\<close>

definition no_exec :: "ending \<Rightarrow> bool" where
  "no_exec e \<longleftrightarrow> (\<forall>f a. e \<noteq> Becomes f a)"

abbreviation limited :: "(resource \<Rightarrow> 64 word \<times> 64 word) \<Rightarrow> cpu \<Rightarrow> bool" where
  "limited L s \<equiv> c_limits s = L"

definition keeps_limits :: "'a cm \<Rightarrow> bool" where
  "keeps_limits m \<longleftrightarrow> (\<forall>L. steps (limited L) m (\<lambda>_. limited L) (\<lambda>e _. no_exec e))"

named_theorems keeps

lemma unchanged_bind [keeps]: "keeps_limits m \<Longrightarrow> (\<And>x. keeps_limits (f x)) \<Longrightarrow> keeps_limits (cbind m f)"
  unfolding keeps_limits_def by (blast intro: steps_bind)

lemma unchanged_basic [keeps]:
  "keeps_limits (cret x)" "keeps_limits (cprint t)" "keeps_limits (cexit n)" "keeps_limits (clift r)"
  "keeps_limits (usage a)" "keeps_limits (perror a)" "keeps_limits wallclock_timelimit_reached"
  "keeps_limits (kill_self n)" "keeps_limits (kill_child p n)" "keeps_limits (sys_alarm w)" "keeps_limits (show_time fmt_f)"
  by (auto simp: keeps_limits_def steps_def cret_def cprint_def cexit_def clift_def usage_def perror_def cmod_def cbind_def kill_child_def
      wallclock_timelimit_reached_def kill_self_def sys_alarm_def show_time_def cwhen_def no_exec_def split: sum.splits)

lemma keeps_when [keeps]: "keeps_limits m \<Longrightarrow> keeps_limits (cwhen b m)"
  by (auto simp: cwhen_def keeps)

lemma keeps_waitpid [keeps]: "keeps_limits (sys_waitpid p st)"
  by (auto simp: keeps_limits_def steps_def sys_waitpid_def wallclock_timelimit_reached_def cprint_def cmod_def cbind_def cret_def
      split: list.splits wait_answer.splits)

lemma keeps_set_wallclock [keeps]: "keeps_limits (set_wallclock t)"
proof -
  have "keeps_limits (cmod (\<lambda>s. s\<lparr>c_handler := True\<rparr>))" "keeps_limits (cmod (\<lambda>s. s\<lparr>c_wallclock := w\<rparr>))" for w
    by (auto simp: keeps_limits_def steps_def cmod_def)
  then show ?thesis unfolding set_wallclock_def by (intro keeps)
qed

lemma keeps_cases [keeps]:
  "keeps_limits m \<Longrightarrow> keeps_limits m' \<Longrightarrow> keeps_limits (if b then m else m')"
  "(\<And>x y. keeps_limits (f x y)) \<Longrightarrow> keeps_limits (case p of (x, y) \<Rightarrow> f x y)"
  "(\<And>n. keeps_limits (g n)) \<Longrightarrow> (\<And>n. keeps_limits (h n)) \<Longrightarrow> keeps_limits m
   \<Longrightarrow> keeps_limits (case st of Exit_status n \<Rightarrow> g n | Signaled n \<Rightarrow> h n | Other_status \<Rightarrow> m)"
  by (simp_all split: prod.splits wait_status.splits)

lemma wait_for_child_keeps [keeps]: "keeps_limits (wait_for_child fmt_f t pid)"
  unfolding wait_for_child_def by (intro keeps)

text \<open>The limits that the command runs under, against the ones the program was started with.\<close>

definition limits_set :: "int \<Rightarrow> int \<Rightarrow> (resource \<Rightarrow> 64 word \<times> 64 word) \<Rightarrow> (resource \<Rightarrow> 64 word \<times> 64 word) \<Rightarrow> bool" where
  "limits_set t m L L' \<longleftrightarrow>
     (if t > 0 then uint (fst (L' RLIMIT_CPU)) \<le> t else L' RLIMIT_CPU = L RLIMIT_CPU)
     \<and> (if m > 0 then uint (fst (L' RLIMIT_AS)) \<le> m * 2 ^ 20 else L' RLIMIT_AS = L RLIMIT_AS)
     \<and> (if t > 0 \<or> m > 0 then fst (L' RLIMIT_CORE) = 0 else L' RLIMIT_CORE = L RLIMIT_CORE)
     \<and> (\<forall>r. snd (L' r) = snd (L r))"

definition soft_below_hard :: "(resource \<Rightarrow> 64 word \<times> 64 word) \<Rightarrow> bool" where
  "soft_below_hard L \<longleftrightarrow> (\<forall>r. fst (L r) \<le> snd (L r))"

definition soften :: "resource \<Rightarrow> 64 word \<Rightarrow> (resource \<Rightarrow> 64 word \<times> 64 word) \<Rightarrow> (resource \<Rightarrow> 64 word \<times> 64 word)" where
  "soften r w L = (if w \<le> snd (L r) then L(r := (w, snd (L r))) else L)"

lemma set_soft_limit_eq: "set_soft_limit r w s = Goes () (s\<lparr>c_limits := soften r w (c_limits s)\<rparr>)"
  by (simp add: set_soft_limit_def cmod_def soften_def Let_def)

lemma soften_limits [simp]:
  "snd (soften r w L r') = snd (L r')" "r' \<noteq> r \<Longrightarrow> soften r w L r' = L r'"
  "soft_below_hard L \<Longrightarrow> fst (soften r w L r) \<le> w" "soft_below_hard L \<Longrightarrow> soft_below_hard (soften r w L)"
  by (auto simp: soften_def soft_below_hard_def not_le intro: order.trans [OF _ less_imp_le])

lemma uint_le: "(x :: 64 word) \<le> word_of_int v \<Longrightarrow> 0 \<le> v \<Longrightarrow> v < 2 ^ 63 \<Longrightarrow> uint x \<le> v"
  by (simp add: word_le_def uint_word_of_int_eq take_bit_int_eq_self)

lemma set_limits_steps:
  assumes "soft_below_hard L" "t < 2 ^ 63"
  shows "steps (limited L) (set_limits t m) (\<lambda>_ s. limits_set t m L (c_limits s)) E"
proof -
  define L1 where "L1 = (if t > 0 then soften RLIMIT_CPU (word_of_int t) L else L)"
  define L2 where "L2 = (if m > 0 then soften RLIMIT_AS (word_of_int (m * 2 ^ 20)) L1 else L1)"
  define L3 where "L3 = (if t > 0 \<or> m > 0 then soften RLIMIT_CORE 0 L2 else L2)"
  have 1: "soft_below_hard L1" "if t > 0 then fst (L1 RLIMIT_CPU) \<le> word_of_int t else L1 RLIMIT_CPU = L RLIMIT_CPU"
    "r \<noteq> RLIMIT_CPU \<Longrightarrow> L1 r = L r" "snd (L1 r) = snd (L r)" for r
    using assms(1) by (auto simp: L1_def)
  have 2: "soft_below_hard L2" "if m > 0 then fst (L2 RLIMIT_AS) \<le> word_of_int (m * 2 ^ 20) else L2 RLIMIT_AS = L1 RLIMIT_AS"
    "r \<noteq> RLIMIT_AS \<Longrightarrow> L2 r = L1 r" "snd (L2 r) = snd (L1 r)" for r
    using 1(1) by (auto simp: L2_def)
  have 3: "if t > 0 \<or> m > 0 then fst (L3 RLIMIT_CORE) = 0 else L3 RLIMIT_CORE = L2 RLIMIT_CORE"
    "r \<noteq> RLIMIT_CORE \<Longrightarrow> L3 r = L2 r" "snd (L3 r) = snd (L2 r)" for r
    using soften_limits(3) [OF 2(1), of RLIMIT_CORE 0] by (auto simp: L3_def)
  have fits: "m * 2 ^ 20 < 2 ^ 63 \<Longrightarrow> limits_set t m L L3"
    using 1 2 3 assms(2) uint_le [of _ t] uint_le [of _ "m * 2 ^ 20"] by (auto simp: limits_set_def split: if_splits)
  have "set_limits t m s = (if m > 0 \<and> \<not> m * 2 ^ 20 < 2 ^ 63 then Wrong Int_overflow else Goes () (s\<lparr>c_limits := L3\<rparr>))"
    if "c_limits s = L" for s
    using that unfolding set_limits_def L1_def L2_def L3_def
    by (auto simp: cbind_def cwhen_def cret_def clift_def set_soft_limit_eq rbind_def c_long_def mult.commute)
  with fits show ?thesis by (auto simp: steps_def limits_set_def L2_def L1_def L3_def)
qed

lemma atol_range: "atol a = Inr v \<Longrightarrow> v < 2 ^ 63"
  by (simp add: atol_def c_long_def split: if_splits)

definition runs_limited :: "string list \<Rightarrow> (resource \<Rightarrow> 64 word \<times> 64 word) \<Rightarrow> ending \<Rightarrow> cpu \<Rightarrow> bool" where
  "runs_limited argv L e s \<longleftrightarrow>
     (\<forall>file cargs. e = Becomes file cargs \<longrightarrow>
       file = argv ! 4 \<and> cargs = drop 4 argv
       \<and> (\<exists>t m. atol (argv ! 1) = Inr t \<and> atol (argv ! 2) = Inr m \<and> 0 \<le> t \<and> 0 \<le> m \<and> limits_set t m L (c_limits s)))"

lemma keeps_runs_limited: "keeps_limits m \<Longrightarrow> steps (limited L) m (\<lambda>_. limited L) (runs_limited argv L)"
  unfolding keeps_limits_def by (rule steps_weaken [of "limited L" m "\<lambda>_. limited L" "\<lambda>e _. no_exec e"])
    (auto simp: no_exec_def runs_limited_def)

lemma keeps_fork [keeps]: "keeps_limits (\<lambda>s. Goes (c_fork s) s)"
  by (simp add: keeps_limits_def steps_def)

lemma keeps_fork_if_requested [keeps]: "keeps_limits (fork_if_requested fmt_f t)"
proof -
  have "keeps_limits (cwhen b (cbind (\<lambda>s. Goes (c_fork s) s) (\<lambda>pid.
        cbind (cwhen (pid = -1) (cbind (perror ''fork'') (\<lambda>_. cexit 1))) (\<lambda>_.
        cwhen (pid > 0) (wait_for_child fmt_f t pid)))))" for b by (intro keeps)
  then show ?thesis by (simp add: keeps_limits_def steps_def fork_if_requested_def)
qed

lemma guard_runs_limited:
  "steps (limited L) (cwhen b (usage a)) (\<lambda>_ s. limited L s \<and> \<not> b) (runs_limited argv L)"
  by (auto simp: steps_def usage_def cprint_def cbind_def cmod_def cexit_def runs_limited_def cwhen_def cret_def)

lemma execute_command_runs_limited:
  assumes "atol (argv ! 1) = Inr t" "atol (argv ! 2) = Inr m" "0 \<le> t" "0 \<le> m"
  shows "steps (\<lambda>s. limits_set t m L (c_limits s)) (execute_command argv) (\<lambda>_ _. False) (runs_limited argv L)"
  using assms by (auto simp: steps_def execute_command_def sys_execvp_def runs_limited_def cbind_def cexit_def cprint_def cmod_def
      split: option.splits)

lemma steps_pre: "(p \<Longrightarrow> steps P m Q E) \<Longrightarrow> steps (\<lambda>s. P s \<and> p) m Q E"
  by (auto simp: steps_def)

lemma cpulimit_main_runs_limited:
  assumes "soft_below_hard L"
  shows "steps (limited L) (cpulimit_main fmt_f argv) (\<lambda>_ _. False) (runs_limited argv L)"
proof -
  have run: "steps (limited L) (cbind (fork_if_requested fmt_f t) (\<lambda>_. cbind (set_limits t m) (\<lambda>_. execute_command argv)))
      (\<lambda>_ _. False) (runs_limited argv L)"
    if "atol (argv ! 1) = Inr t" "atol (argv ! 2) = Inr m" "\<not> t < 0" "\<not> m < 0" for t m
    using that by (intro steps_bind [OF keeps_runs_limited [OF keeps_fork_if_requested]]
      steps_bind [OF set_limits_steps [OF assms atol_range]] execute_command_runs_limited) simp_all
  have mem: "steps (limited L) (cbind (clift (atol (argv ! 2))) (\<lambda>m. cbind (cwhen (m < 0) (usage (argv ! 0))) (\<lambda>_.
      cbind (fork_if_requested fmt_f t) (\<lambda>_. cbind (set_limits t m) (\<lambda>_. execute_command argv)))))
      (\<lambda>_ _. False) (runs_limited argv L)"
    if "atol (argv ! 1) = Inr t" "\<not> t < 0" for t
    by (rule steps_bind [OF steps_lift [where Q = "\<lambda>m s. limited L s \<and> atol (argv ! 2) = Inr m"]])
      (auto intro!: steps_pre steps_bind [OF guard_runs_limited] run that)
  have time: "steps (limited L) (cbind (clift (atol (argv ! 1))) (\<lambda>t. cbind (cwhen (t < 0) (usage (argv ! 0))) (\<lambda>_.
      cbind (clift (atol (argv ! 2))) (\<lambda>m. cbind (cwhen (m < 0) (usage (argv ! 0))) (\<lambda>_.
      cbind (fork_if_requested fmt_f t) (\<lambda>_. cbind (set_limits t m) (\<lambda>_. execute_command argv)))))))
      (\<lambda>_ _. False) (runs_limited argv L)"
    by (rule steps_bind [OF steps_lift [where Q = "\<lambda>t s. limited L s \<and> atol (argv ! 1) = Inr t"]])
      (auto intro!: steps_pre steps_bind [OF guard_runs_limited] mem)
  have flag: "steps (limited L) (\<lambda>s. cwhen (\<not> (c_showtime s \<or> c_hidetime s)) (usage (argv ! 0)) s) (\<lambda>_. limited L) (runs_limited argv L)"
    using guard_runs_limited [of L _ "argv ! 0" argv] by (fastforce simp: steps_def split: cstep.splits)
  show ?thesis
  proof (cases "length argv < 5")
    case True
    then show ?thesis using guard_runs_limited [of L True "argv ! 0" argv] by (simp add: cpulimit_main_def cwhen_def)
  next
    case False
    then show ?thesis unfolding cpulimit_main_def
      by (simp only: if_False) (intro steps_bind [OF steps_mod [where Q = "\<lambda>_. limited L"]] steps_bind [OF flag] time, simp)
  qed
qed

section \<open>The parent\<close>

definition accepts :: "string list \<Rightarrow> int \<Rightarrow> int \<Rightarrow> bool" where
  "accepts argv t m \<longleftrightarrow>
     5 \<le> length argv \<and> argv ! 3 \<in> {''-s'', ''-h''} \<and> atol (argv ! 1) = Inr t \<and> atol (argv ! 2) = Inr m \<and> 0 \<le> t \<and> 0 \<le> m"

lemmas cpu_unfold = cbind_def cmod_def cwhen_def cret_def clift_def cexit_def cprint_def

lemma cpulimit_main_accepted:
  assumes "accepts argv t m"
  shows "cpulimit_main fmt_f argv s =
     cbind (fork_if_requested fmt_f t) (\<lambda>_. cbind (set_limits t m) (\<lambda>_. execute_command argv))
       (s\<lparr>c_showtime := (''-s'' = argv ! 3), c_hidetime := (''-h'' = argv ! 3)\<rparr>)"
  using assms by (auto simp: cpulimit_main_def accepts_def cpu_unfold strcmp0_def)

lemma fork_if_requested_parent:
  assumes "c_showtime s \<or> t \<noteq> 0" "0 < c_fork s"
  shows "fork_if_requested fmt_f t s = wait_for_child fmt_f t (c_fork s) s"
  using assms by (auto simp: fork_if_requested_def cpu_unfold)

text \<open>The state of the parent when it starts to wait.\<close>

definition watching :: "int \<Rightarrow> cpu \<Rightarrow> cpu" where
  "watching t s =
     (if t = 0 then s
      else s\<lparr>c_handler := True, c_wallclock := c_int (2 * t + 60), c_armed := (word_of_int (c_int (2 * t + 60)) \<noteq> (0 :: 32 word)),
             c_out := c_out s @ [C_alarm (word_of_int (c_int (2 * t + 60)))]\<rparr>)"

lemma set_wallclock_eq:
  assumes "0 \<le> t" "2 * t + 60 < 2 ^ 63"
  shows "cwhen (t \<noteq> 0) (set_wallclock t) s = Goes () (watching t s)"
  using assms by (simp add: cpu_unfold set_wallclock_def watching_def sys_alarm_def rbind_def c_long_def)

text \<open>What the parent does with a status.\<close>

definition relay :: "wait_status \<Rightarrow> unit cm" where
  "relay st =
     cbind (case st of Exit_status n \<Rightarrow> cexit n | Signaled n \<Rightarrow> kill_self n | Other_status \<Rightarrow> cret ()) (\<lambda>_.
     cbind (cprint (''why3cpulimit: child exited neither normally nor because of a signal'' @ [CHR 0x0A])) (\<lambda>_.
     kill_self SIGTERM))"


lemma cbind_simps:
  "cbind (cret x) f = f x" "cbind (clift (Inr x)) f = f x" "m s = Goes x s' \<Longrightarrow> cbind m f s = f x s'"
  by (simp_all add: cbind_def cret_def clift_def fun_eq_iff)

lemma wait_for_child_status:
  assumes "0 \<le> t" "2 * t + 60 < 2 ^ 63" "0 < pid" "c_wait s = Wait_status pid st # ws"
  shows "wait_for_child fmt_f t pid s = cbind (show_time fmt_f) (\<lambda>_. relay st) (watching t s\<lparr>c_wait := ws\<rparr>)"
proof -
  have "sys_waitpid pid None (watching t s) = Goes (pid, Some st) (watching t s\<lparr>c_wait := ws\<rparr>)"
    using assms(4) by (simp add: sys_waitpid_def watching_def)
  then show ?thesis
    unfolding wait_for_child_def cbind_simps(3) [OF set_wallclock_eq [OF assms(1,2)]] relay_def
    using assms(3) by (simp add: cbind_simps)
qed


lemma show_time_goes: "\<exists>s'. show_time fmt_f s = Goes () s' \<and> c_out s' = c_out s \<and> c_limits s' = c_limits s \<and> c_lethal s' = c_lethal s \<and> c_handler s' = c_handler s"
  by (simp add: show_time_def cpu_unfold)

lemma relay_ends:
  "relay (Exit_status n) s = Ends (Exits n) s"
  "c_lethal s n \<Longrightarrow> n \<noteq> SIGALRM \<Longrightarrow> relay (Signaled n) s = Ends (Dies n) s"
  by (simp_all add: relay_def cpu_unfold kill_self_def)

definition ending_of :: "wait_status \<Rightarrow> ending option" where
  "ending_of st = (case st of Exit_status n \<Rightarrow> Some (Exits n) | Signaled n \<Rightarrow> Some (Dies n) | Other_status \<Rightarrow> None)"

lemma relay_ending_of:
  assumes "ending_of st = Some e" "\<And>n. st = Signaled n \<Longrightarrow> c_lethal s n \<and> n \<noteq> SIGALRM"
  shows "\<exists>s'. cbind (show_time fmt_f) (\<lambda>_. relay st) s = Ends e s' \<and> c_out s' = c_out s \<and> c_limits s' = c_limits s"
proof -
  obtain s' where s': "show_time fmt_f s = Goes () s'" "c_out s' = c_out s" "c_limits s' = c_limits s" "c_lethal s' = c_lethal s"
    using show_time_goes by blast
  then have "relay st s' = Ends e s'" using assms relay_ends by (auto simp: ending_of_def split: wait_status.splits)
  then show ?thesis using s' by (auto simp: cbind_def)
qed

lemma cpulimit_main_parent:
  assumes "accepts argv t m" "argv ! 3 = ''-s'' \<or> t \<noteq> 0" "0 < c_fork s"
    "wait_for_child fmt_f t (c_fork s) (s\<lparr>c_showtime := (''-s'' = argv ! 3), c_hidetime := (''-h'' = argv ! 3)\<rparr>) = Ends e s'"
  shows "cpulimit_main fmt_f argv s = Ends e s'"
  using assms fork_if_requested_parent [of "s\<lparr>c_showtime := (''-s'' = argv ! 3), c_hidetime := (''-h'' = argv ! 3)\<rparr>" t fmt_f]
  by (auto simp: cpulimit_main_accepted cbind_def)

section \<open>Properties\<close>

text \<open>C15. Whenever \<open>why3cpulimit\<close> becomes the command, it is the command of its arguments, and
  the command runs under the requested limits: CPU seconds at most the time limit, address
  space at most the memory limit in MiB, no core file; a limit of zero and the hard limits
  are left alone. This holds although \<open>setrlimit\<close> may fail unnoticed, for soft limits that
  start below the hard ones.\<close>

theorem cpulimit_enforces_limits:
  assumes "soft_below_hard (c_limits s)" "cpulimit_main fmt_f argv s = Ends (Becomes file cargs) s'"
  shows "file = argv ! 4 \<and> cargs = drop 4 argv
    \<and> (\<exists>t m. atol (argv ! 1) = Inr t \<and> atol (argv ! 2) = Inr m \<and> 0 \<le> t \<and> 0 \<le> m \<and> limits_set t m (c_limits s) (c_limits s'))"
  using steps_Ends [OF cpulimit_main_runs_limited [OF assms(1)] refl assms(2)] by (simp add: runs_limited_def)

definition example_cpu :: cpu where
  "example_cpu = \<lparr>c_wallclock = 60, c_showtime = False, c_hidetime = False, c_handler = False, c_armed = False,
     c_limits = (\<lambda>_. (2 ^ 64 - 1, 2 ^ 64 - 1)), c_stderr = [], c_out = [], c_fork = 0, c_wait = [],
     c_lethal = (\<lambda>_. True), c_times = (0, 100), c_exec_error = None, c_strerror = []\<rparr>"

theorem cpulimit_enforces_limits_witness:
  "\<exists>s'. cpulimit_main (\<lambda>_ _. []) [''why3cpulimit'', ''5'', ''100'', ''-h'', ''prover'', ''goal''] example_cpu
     = Ends (Becomes ''prover'' [''prover'', ''goal'']) s' \<and> limits_set 5 100 (c_limits example_cpu) (c_limits s')"
proof -
  let ?argv = "[''why3cpulimit'', ''5'', ''100'', ''-h'', ''prover'', ''goal'']"
  have a: "atol ''5'' = Inr 5" "atol ''100'' = Inr 100" by code_simp+
  have "accepts ?argv 5 100" using a by (simp add: accepts_def)
  then have "\<exists>s'. cpulimit_main (\<lambda>_ _. []) ?argv example_cpu = Ends (Becomes ''prover'' [''prover'', ''goal'']) s'"
    by (simp add: cpulimit_main_accepted fork_if_requested_def set_limits_def execute_command_def sys_execvp_def
        cpu_unfold set_soft_limit_eq rbind_def c_long_def example_cpu_def)
  then obtain s' where s': "cpulimit_main (\<lambda>_ _. []) ?argv example_cpu = Ends (Becomes ''prover'' [''prover'', ''goal'']) s'" by blast
  have "soft_below_hard (c_limits example_cpu)" by (simp add: soft_below_hard_def example_cpu_def)
  from cpulimit_enforces_limits [OF this s'] show ?thesis using s' a by auto
qed

text \<open>C33. The parent ends the way its child ended: with the child's exit code, or by the signal
  that killed it, for a signal that is deadly to the parent too and is not the alarm.\<close>

theorem cpulimit_relays_ending:
  assumes "accepts argv t m" "2 * t + 60 < 2 ^ 63" "argv ! 3 = ''-s'' \<or> t \<noteq> 0" "0 < c_fork s"
    "c_wait s = Wait_status (c_fork s) st # ws" "ending_of st = Some e"
    "\<And>n. st = Signaled n \<Longrightarrow> c_lethal s n \<and> n \<noteq> SIGALRM"
  shows "\<exists>s'. cpulimit_main fmt_f argv s = Ends e s' \<and> c_limits s' = c_limits s"
proof -
  let ?s = "s\<lparr>c_showtime := (''-s'' = argv ! 3), c_hidetime := (''-h'' = argv ! 3)\<rparr>"
  have "0 \<le> t" using assms(1) by (simp add: accepts_def)
  from wait_for_child_status [OF this assms(2,4), of ?s st ws fmt_f] assms(5)
  have w: "wait_for_child fmt_f t (c_fork s) ?s = cbind (show_time fmt_f) (\<lambda>_. relay st) (watching t ?s\<lparr>c_wait := ws\<rparr>)" by simp
  have k: "c_limits (watching t ?s) = c_limits s" "c_lethal (watching t ?s) = c_lethal s" by (simp_all add: watching_def)
  have "\<exists>s'. cbind (show_time fmt_f) (\<lambda>_. relay st) (watching t ?s\<lparr>c_wait := ws\<rparr>) = Ends e s'
     \<and> c_out s' = c_out (watching t ?s\<lparr>c_wait := ws\<rparr>) \<and> c_limits s' = c_limits (watching t ?s\<lparr>c_wait := ws\<rparr>)"
    by (rule relay_ending_of [OF assms(6)]) (use assms(7) k in simp)
  then show ?thesis using cpulimit_main_parent [OF assms(1,3,4)] w k by auto
qed

theorem cpulimit_relays_ending_witness:
  "\<exists>s'. cpulimit_main (\<lambda>_ _. []) [''why3cpulimit'', ''5'', ''0'', ''-s'', ''prover'']
          (example_cpu\<lparr>c_fork := 42, c_wait := [Wait_status 42 (Signaled 11)]\<rparr>) = Ends (Dies 11) s'"
proof -
  have "accepts [''why3cpulimit'', ''5'', ''0'', ''-s'', ''prover''] 5 0"
    unfolding accepts_def by (intro conjI) (simp | code_simp)+
  from cpulimit_relays_ending [OF this, of "example_cpu\<lparr>c_fork := 42, c_wait := [Wait_status 42 (Signaled 11)]\<rparr>" "Signaled 11" "[]" "Dies 11"]
  show ?thesis by (auto simp: ending_of_def example_cpu_def SIGALRM_def)
qed




end
