(* ===== verification/Mt19937.thy ===== *)
theory Mt19937
  imports Complex_Main Prelude
begin

unbundle bit_operations_syntax

text \<open>
  The pseudorandom generator of \<open>src/examples/multiprecision/random/mt19937-64.c\<close>, which the
  tests of the library draw their operands from. The two static variables are a record; the
  array has 312 words in every state. A loop that runs over the array is a fold over its
  indices. The functions that return a \<open>double\<close> in a half-open and in an open interval are
  modelled in the rationals: every operation of theirs on 53 bits is exact.
\<close>

section \<open>Model\<close>

type_synonym u64 = "64 word"

definition NN :: nat where "NN = 312"
definition MM :: nat where "MM = 156"
definition MATRIX_A :: u64 where "MATRIX_A = 0xB5026F5AA96619E9"
definition UM :: u64 where "UM = 0xFFFFFFFF80000000"
definition LM :: u64 where "LM = 0x7FFFFFFF"

record mt_state =
  mt :: "u64 list"
  mti :: nat

definition mt_start :: mt_state where
  "mt_start = \<lparr>mt = replicate NN 0, mti = NN + 1\<rparr>"

definition seed_step :: "nat \<Rightarrow> u64 list \<Rightarrow> u64 list" where
  "seed_step i m = m[i := 6364136223846793005 * (m ! (i - 1) XOR drop_bit 62 (m ! (i - 1))) + of_nat i]"

definition init_genrand64 :: "u64 \<Rightarrow> mt_state \<Rightarrow> mt_state" where
  "init_genrand64 seed s = \<lparr>mt = fold seed_step [1..<NN] ((mt s)[0 := seed]), mti = NN\<rparr>"

text \<open>The two loops of \<open>init_by_array64\<close>, with the counter \<open>k\<close> and the indices as numbers.\<close>

definition wrap_index :: "nat \<Rightarrow> u64 list \<Rightarrow> nat \<times> u64 list" where
  "wrap_index i m = (if i \<ge> NN then (1, m[0 := m ! (NN - 1)]) else (i, m))"




definition mag01 :: "u64 \<Rightarrow> u64" where
  "mag01 b = (if b = 0 then 0 else MATRIX_A)"

definition twist :: "u64 \<Rightarrow> u64 \<Rightarrow> u64" where
  "twist u v = (let x = (u AND UM) OR (v AND LM) in drop_bit 1 x XOR mag01 (x AND 1))"

text \<open>The generation of 312 words at one time.\<close>

definition refill :: "u64 list \<Rightarrow> u64 list" where
  "refill m =
     (let m = fold (\<lambda>i m. m[i := m ! (i + MM) XOR twist (m ! i) (m ! (i + 1))]) [0..<NN - MM] m;
          m = fold (\<lambda>i m. m[i := m ! (i + MM - NN) XOR twist (m ! i) (m ! (i + 1))]) [NN - MM..<NN - 1] m
      in m[NN - 1 := m ! (MM - 1) XOR twist (m ! (NN - 1)) (m ! 0)])"

definition temper :: "u64 \<Rightarrow> u64" where
  "temper x =
     (let x = x XOR (drop_bit 29 x AND 0x5555555555555555);
          x = x XOR (push_bit 17 x AND 0x71D67FFFEDA60000);
          x = x XOR (push_bit 37 x AND 0xFFF7EEE000000000)
      in x XOR drop_bit 43 x)"

definition genrand64_int64 :: "mt_state \<Rightarrow> u64 \<times> mt_state" where
  "genrand64_int64 s =
     (let s = (if mti s \<ge> NN
               then (let s = (if mti s = NN + 1 then init_genrand64 5489 s else s)
                     in s\<lparr>mt := refill (mt s), mti := 0\<rparr>)
               else s)
      in (temper (mt s ! mti s), s\<lparr>mti := mti s + 1\<rparr>))"

definition genrand64_int63 :: "mt_state \<Rightarrow> int \<times> mt_state" where
  "genrand64_int63 s = (case genrand64_int64 s of (x, s) \<Rightarrow> (sint (drop_bit 1 x), s))"

definition genrand64_real2 :: "mt_state \<Rightarrow> rat \<times> mt_state" where
  "genrand64_real2 s = (case genrand64_int64 s of (x, s) \<Rightarrow> (of_nat (unat (drop_bit 11 x)) * (1 / 9007199254740992), s))"

definition genrand64_real3 :: "mt_state \<Rightarrow> rat \<times> mt_state" where
  "genrand64_real3 s =
     (case genrand64_int64 s of (x, s) \<Rightarrow> ((of_nat (unat (drop_bit 12 x)) + 1 / 2) * (1 / 4503599627370496), s))"

section \<open>Specification\<close>

text \<open>The sequence of the seed, and the linear recurrence that continues 312 words.\<close>

fun seed_seq :: "u64 \<Rightarrow> nat \<Rightarrow> u64" where
  "seed_seq seed 0 = seed"
| "seed_seq seed (Suc n) = 6364136223846793005 * (seed_seq seed n XOR drop_bit 62 (seed_seq seed n)) + of_nat (Suc n)"

fun mt_seq :: "(nat \<Rightarrow> u64) \<Rightarrow> nat \<Rightarrow> u64" where
  "mt_seq x n =
     (if n < 312 then x n else mt_seq x (n - 156) XOR twist (mt_seq x (n - 312)) (mt_seq x (n - 311)))"

declare mt_seq.simps [simp del]

fun outputs :: "nat \<Rightarrow> mt_state \<Rightarrow> u64 list" where
  "outputs 0 s = []"
| "outputs (Suc n) s = (case genrand64_int64 s of (x, s') \<Rightarrow> x # outputs n s')"

section \<open>The generated sequence\<close>

lemma mt_seq_step: "mt_seq x (n + 312) = mt_seq x (n + 156) XOR twist (mt_seq x n) (mt_seq x (n + 1))"
  by (subst mt_seq.simps) (simp add: add.commute)

lemma mt_seq_init: "n < 312 \<Longrightarrow> mt_seq x n = x n"
  by (subst mt_seq.simps) simp

text \<open>An array whose first \<open>k\<close> words are already those of the next block.\<close>

definition partly_refilled :: "(nat \<Rightarrow> u64) \<Rightarrow> nat \<Rightarrow> u64 list \<Rightarrow> bool" where
  "partly_refilled S k m \<longleftrightarrow> length m = 312 \<and> (\<forall>i < 312. m ! i = (if i < k then S (i + 312) else S i))"

lemma partly_refilled_update:
  "partly_refilled S k m \<Longrightarrow> k < 312 \<Longrightarrow> v = S (k + 312) \<Longrightarrow> partly_refilled S (Suc k) (m[k := v])"
  by (auto simp: partly_refilled_def nth_list_update less_Suc_eq)

lemma partly_refilled_fold:
  assumes "partly_refilled S a m" "a \<le> b" "b \<le> 312"
    "\<And>k m. partly_refilled S k m \<Longrightarrow> a \<le> k \<Longrightarrow> k < b \<Longrightarrow> f k m = m[k := S (k + 312)]"
  shows "partly_refilled S b (fold f [a..<b] m)"
proof -
  have "partly_refilled S (a + n) (fold f [a..<a + n] m)" if "a + n \<le> b" for n
    using that by (induction n) (auto simp: assms(1) assms(4) assms(3) intro!: partly_refilled_update less_le_trans [OF _ assms(3)])
  from this [of "b - a"] assms(2) show ?thesis by simp
qed

lemma refill_next_block:
  assumes rec: "\<And>n. S (n + 312) = S (n + 156) XOR twist (S n) (S (n + 1))" and m: "length m = 312" "\<And>i. i < 312 \<Longrightarrow> m ! i = S i"
  shows "length (refill m) = 312" "i < 312 \<Longrightarrow> refill m ! i = S (i + 312)"
proof -
  define f where "f = (\<lambda>i (m :: u64 list). m[i := m ! (i + MM) XOR twist (m ! i) (m ! (i + 1))])"
  define g where "g = (\<lambda>i (m :: u64 list). m[i := m ! (i + MM - NN) XOR twist (m ! i) (m ! (i + 1))])"
  define m1 where "m1 = fold f [0..<156] m"
  define m2 where "m2 = fold g [156..<311] m1"
  have "partly_refilled S 0 m" using m by (simp add: partly_refilled_def)
  then have 1: "partly_refilled S 156 m1" unfolding m1_def
    by (rule partly_refilled_fold) (auto simp: f_def partly_refilled_def MM_def rec)
  then have 2: "partly_refilled S 311 m2" unfolding m2_def
    by (rule partly_refilled_fold) (auto simp: g_def partly_refilled_def MM_def NN_def rec add.commute)
  have "partly_refilled S (Suc 311) (m2[311 := m2 ! 155 XOR twist (m2 ! 311) (m2 ! 0)])"
    by (rule partly_refilled_update [OF 2]) (use 2 rec [of 311] in \<open>simp_all add: partly_refilled_def\<close>)
  moreover have "refill m = m2[311 := m2 ! 155 XOR twist (m2 ! 311) (m2 ! 0)]"
  proof -
    have c: "NN - MM = 156" "NN - 1 = 311" "MM - 1 = 155" by (simp_all add: NN_def MM_def)
    show ?thesis unfolding refill_def m2_def m1_def f_def g_def Let_def c by (rule refl)
  qed
  ultimately have "partly_refilled S 312 (refill m)" by simp
  then show "length (refill m) = 312" "i < 312 \<Longrightarrow> refill m ! i = S (i + 312)" by (simp_all add: partly_refilled_def)
qed

text \<open>After \<open>n\<close> outputs: the array is a block of the sequence, the index the place in it.\<close>

definition generated :: "(nat \<Rightarrow> u64) \<Rightarrow> nat \<Rightarrow> mt_state \<Rightarrow> bool" where
  "generated S n s \<longleftrightarrow>
     length (mt s) = 312 \<and> mti s \<le> 312 \<and> (\<exists>b. n + 312 = 312 * b + mti s \<and> (\<forall>i < 312. mt s ! i = S (312 * b + i)))"

lemma genrand64_int64_generated:
  assumes rec: "\<And>n. S (n + 312) = S (n + 156) XOR twist (S n) (S (n + 1))" and g: "generated S n s"
  shows "\<exists>s'. genrand64_int64 s = (temper (S (n + 312)), s') \<and> generated S (n + 1) s'"
proof -
  obtain b where b: "n + 312 = 312 * b + mti s" "\<And>i. i < 312 \<Longrightarrow> mt s ! i = S (312 * b + i)" "length (mt s) = 312" "mti s \<le> 312"
    using g by (auto simp: generated_def)
  show ?thesis
  proof (cases "mti s = 312")
    case True
    have "\<And>n. S (312 * b + (n + 312)) = S (312 * b + (n + 156)) XOR twist (S (312 * b + n)) (S (312 * b + (n + 1)))"
      using rec [of "312 * b + _"] by (simp add: add.assoc)
    from refill_next_block [of "\<lambda>i. S (312 * b + i)", OF this b(3,2)]
    have r: "length (refill (mt s)) = 312" "\<And>i. i < 312 \<Longrightarrow> refill (mt s) ! i = S (312 * b + (i + 312))" by blast+
    have "n + 312 = 312 * b + 312" using b(1) True by simp
    then have "genrand64_int64 s = (temper (S (n + 312)), s\<lparr>mt := refill (mt s), mti := 1\<rparr>)"
      using True r(2) [of 0] by (simp add: genrand64_int64_def NN_def)
    moreover have "generated S (n + 1) (s\<lparr>mt := refill (mt s), mti := 1\<rparr>)"
      unfolding generated_def using r b(1) True by (auto intro!: exI [of _ "b + 1"] simp: algebra_simps)
    ultimately show ?thesis by blast
  next
    case False
    then have "mti s < 312" using b(4) by simp
    then have "genrand64_int64 s = (temper (S (n + 312)), s\<lparr>mti := mti s + 1\<rparr>)"
      using b(1,2) by (simp add: genrand64_int64_def NN_def)
    moreover have "generated S (n + 1) (s\<lparr>mti := mti s + 1\<rparr>)"
      unfolding generated_def using b \<open>mti s < 312\<close> by auto
    ultimately show ?thesis by blast
  qed
qed

lemma outputs_generated:
  assumes rec: "\<And>n. S (n + 312) = S (n + 156) XOR twist (S n) (S (n + 1))"
  shows "generated S n s \<Longrightarrow> outputs k s = map (\<lambda>i. temper (S (i + 312))) [n..<n + k]"
proof (induction k arbitrary: n s)
  case (Suc k)
  from genrand64_int64_generated [OF rec Suc.prems] obtain s' where
    s': "genrand64_int64 s = (temper (S (n + 312)), s')" "generated S (n + 1) s'" by blast
  have "[n..<n + Suc k] = n # [n + 1..<n + 1 + k]" by (simp add: upt_conv_Cons)
  then show ?case using Suc.IH [OF s'(2)] s'(1) by simp
qed simp

section \<open>Initialisation\<close>

lemma seed_fold:
  assumes "length m = 312" "n < 312"
  shows "length (fold seed_step [1..<Suc n] (m[0 := seed])) = 312
    \<and> (\<forall>i \<le> n. fold seed_step [1..<Suc n] (m[0 := seed]) ! i = seed_seq seed i)"
  using assms(2)
proof (induction n)
  case 0
  then show ?case using assms(1) by simp
next
  case (Suc n)
  have "fold seed_step [1..<Suc (Suc n)] (m[0 := seed]) = seed_step (Suc n) (fold seed_step [1..<Suc n] (m[0 := seed]))"
    by (subst upt_Suc_append) simp_all
  moreover have "length m' = 312 \<and> (\<forall>i \<le> n. m' ! i = seed_seq seed i) \<Longrightarrow>
      length (seed_step (Suc n) m') = 312 \<and> (\<forall>i \<le> Suc n. seed_step (Suc n) m' ! i = seed_seq seed i)" for m'
    using Suc.prems by (auto simp: seed_step_def nth_list_update le_Suc_eq)
  ultimately show ?case using Suc by (simp del: upt_Suc)
qed

lemma init_genrand64_seed:
  assumes "length (mt s) = 312"
  shows "length (mt (init_genrand64 seed s)) = 312" "i < 312 \<Longrightarrow> mt (init_genrand64 seed s) ! i = seed_seq seed i" "mti (init_genrand64 seed s) = 312"
proof -
  have n: "NN = Suc 311" by (simp add: NN_def)
  have "mt (init_genrand64 seed s) = fold seed_step [1..<Suc 311] ((mt s)[0 := seed])"
    unfolding init_genrand64_def n by (simp only: mt_state.simps)
  with seed_fold [OF assms, of 311 seed]
  show "length (mt (init_genrand64 seed s)) = 312" "i < 312 \<Longrightarrow> mt (init_genrand64 seed s) ! i = seed_seq seed i" by auto
  show "mti (init_genrand64 seed s) = 312" unfolding init_genrand64_def by (simp only: mt_state.simps NN_def)
qed


text \<open>The index of both loops stays inside of the array, after its first word.\<close>

lemma wrap_index_range: "wrap_index i m = (i', m') \<Longrightarrow> 0 < i \<Longrightarrow> 0 < i' \<and> i' < NN"
  by (auto simp: wrap_index_def NN_def split: if_splits)



section \<open>Tempering\<close>

text \<open>A word is determined by its exclusive or with a masked shift of itself, bit by bit.\<close>

lemma shift_right_xor_inj:
  fixes x y c :: u64
  assumes "x XOR (drop_bit n x AND c) = y XOR (drop_bit n y AND c)" "0 < n"
  shows "x = y"
proof (rule bit_eqI)
  have eq: "(bit x i \<noteq> (bit x (n + i) \<and> bit c i)) = (bit y i \<noteq> (bit y (n + i) \<and> bit c i))" for i
    using arg_cong [OF assms(1), of "\<lambda>w. bit w i"] by (simp add: bit_simps)
  show "bit x i = bit y i" for i
  proof (induction "64 - i" arbitrary: i rule: less_induct)
    case less
    show ?case
    proof (cases "i < 64")
      case True
      then have "bit x (n + i) = bit y (n + i)" using assms(2) by (intro less) simp
      then show ?thesis using eq [of i] by blast
    next
      case False
      then show ?thesis by (simp add: bit_word.rep_eq)
    qed
  qed
qed

lemma shift_left_xor_inj:
  fixes x y c :: u64
  assumes "x XOR (push_bit n x AND c) = y XOR (push_bit n y AND c)" "0 < n"
  shows "x = y"
proof (rule bit_eqI)
  have eq: "(bit x i \<noteq> (n \<le> i \<and> bit x (i - n) \<and> bit c i)) = (bit y i \<noteq> (n \<le> i \<and> bit y (i - n) \<and> bit c i))" if "i < 64" for i
    using arg_cong [OF assms(1), of "\<lambda>w. bit w i"] that by (auto simp: bit_simps)
  show "bit x i = bit y i" if "possible_bit TYPE(u64) i" for i
    using that
  proof (induction i rule: less_induct)
    case (less i)
    then have "n \<le> i \<Longrightarrow> bit x (i - n) = bit y (i - n)" using assms(2) by (intro less) simp_all
    then show ?case using eq [of i] less.prems by auto
  qed
qed

lemma temper_inj: "inj temper"
proof (rule injI)
  fix x y assume e: "temper x = temper y"
  define f1 f2 f3 where "f1 = (\<lambda>x :: u64. x XOR (drop_bit 29 x AND 0x5555555555555555))"
    and "f2 = (\<lambda>x :: u64. x XOR (push_bit 17 x AND 0x71D67FFFEDA60000))"
    and "f3 = (\<lambda>x :: u64. x XOR (push_bit 37 x AND 0xFFF7EEE000000000))"
  have t: "temper z = f3 (f2 (f1 z)) XOR (drop_bit 43 (f3 (f2 (f1 z))) AND - 1)" for z
    by (simp add: temper_def Let_def f1_def f2_def f3_def)
  have "f3 (f2 (f1 x)) = f3 (f2 (f1 y))" using e unfolding t by (rule shift_right_xor_inj) simp
  then have "f2 (f1 x) = f2 (f1 y)" unfolding f3_def by (rule shift_left_xor_inj) simp
  then have "f1 x = f1 y" unfolding f2_def by (rule shift_left_xor_inj) simp
  then show "x = y" unfolding f1_def by (rule shift_right_xor_inj) simp
qed

section \<open>Properties\<close>

text \<open>C17. The numbers that the generator returns after it has been seeded are the tempered terms
  of the linear recurrence of the Mersenne twister, in order and for any number of calls:
  the regeneration of the array in place, in three pieces, gives exactly the next 312 terms.\<close>

theorem genrand64_int64_sequence:
  "outputs k (init_genrand64 seed mt_start) = map (\<lambda>i. temper (mt_seq (seed_seq seed) (i + 312))) [0..<k]"
proof -
  let ?s = "init_genrand64 seed mt_start"
  have l: "length (mt mt_start) = 312" by (simp add: mt_start_def NN_def)
  note s = init_genrand64_seed [OF l, where seed = seed]
  have "generated (mt_seq (seed_seq seed)) 0 ?s"
    unfolding generated_def using s by (auto intro!: exI [of _ 0] simp: mt_seq_init)
  from outputs_generated [OF mt_seq_step this, of k] show ?thesis by simp
qed

text \<open>Called before any seeding, the generator behaves as if seeded with 5489.\<close>

theorem genrand64_int64_default_seed:
  "outputs k mt_start = outputs k (init_genrand64 5489 mt_start)"
proof (cases k)
  case (Suc n)
  have "length (mt mt_start) = 312" by (simp add: mt_start_def NN_def)
  from init_genrand64_seed(3) [OF this, of 5489] have "mti (init_genrand64 5489 mt_start) = NN" by (simp add: NN_def)
  then have "genrand64_int64 mt_start = genrand64_int64 (init_genrand64 5489 mt_start)"
    by (simp add: genrand64_int64_def mt_start_def)
  then show ?thesis using Suc by simp
qed simp

text \<open>C37. Tempering loses nothing: it is a bijection of the 64-bit words, so that the output
  determines the state word it was read from.\<close>

theorem temper_bijective: "bij temper"
  by (simp add: bij_def temper_inj finite_UNIV_inj_surj)



text \<open>C39. The ranges that the comments of the derived functions give: a nonnegative 63-bit integer,
  a number in the half-open and one in the open unit interval.\<close>

theorem genrand64_ranges:
  "0 \<le> fst (genrand64_int63 s) \<and> fst (genrand64_int63 s) < 2 ^ 63
   \<and> 0 \<le> fst (genrand64_real2 s) \<and> fst (genrand64_real2 s) < 1
   \<and> 0 < fst (genrand64_real3 s) \<and> fst (genrand64_real3 s) < 1"
proof -
  obtain x s' where g: "genrand64_int64 s = (x, s')" by force
  have d: "unat (drop_bit n x) = unat x div 2 ^ n" for n by (simp only: unat_drop_bit_eq) (simp add: drop_bit_eq_div)
  have x: "unat x < 2 ^ 64" using unsigned_less [of x] by simp
  have b: "unat (drop_bit n x) < 2 ^ (64 - n)" if "n \<le> 64" for n
    unfolding d using x that by (simp add: less_mult_imp_div_less flip: power_add)
  have "int (unat (drop_bit 1 x)) < int (2 ^ 63)" using b [of 1] by (simp only: of_nat_less_iff) simp
  then have "uint (drop_bit 1 x) < 2 ^ 63" by (simp only: of_nat_unat of_nat_power of_nat_numeral)
  moreover have "- (2 ^ 63) \<le> uint (drop_bit 1 x)" by (rule order_trans [OF _ uint_ge_0]) simp
  ultimately have s1: "sint (drop_bit 1 x) = uint (drop_bit 1 x)"
    using signed_take_bit_int_eq_self [of 63 "uint (drop_bit 1 x)"] by (simp add: sint_uint)
  define k l where "k = unat (drop_bit 11 x)" and "l = unat (drop_bit 12 x)"
  have "k < 2 ^ 53" "Suc l \<le> 2 ^ 52" using b [of 11] b [of 12] by (simp_all add: k_def l_def)
  then have kl: "rat_of_nat k < rat_of_nat (2 ^ 53)" "rat_of_nat (Suc l) \<le> rat_of_nat (2 ^ 52)"
    by (simp_all only: of_nat_less_iff of_nat_le_iff)
  have "0 \<le> fst (genrand64_int63 s) \<and> fst (genrand64_int63 s) < 2 ^ 63"
    using \<open>uint (drop_bit 1 x) < 2 ^ 63\<close> s1 by (simp add: genrand64_int63_def g)
  moreover have "0 \<le> fst (genrand64_real2 s) \<and> fst (genrand64_real2 s) < 1"
    using kl(1) unfolding genrand64_real2_def g prod.case k_def [symmetric] by simp
  moreover have "0 < fst (genrand64_real3 s) \<and> fst (genrand64_real3 s) < 1"
    using kl(2) unfolding genrand64_real3_def g prod.case l_def [symmetric] by (simp add: add_pos_nonneg add_nonneg_pos)
  ultimately show ?thesis by blast
qed

end
