(* ===== verification/Spec2Isabelle.thy ===== *)
theory Spec2Isabelle
  imports Container_props Mpn_props Server_props Mpn_div_props Mpz_num_props Uint64gmp Cpulimit Mt19937
begin

text \<open>
  Verification of the C programs of the Why3 repository: the prover server of
  \<open>src/src/server\<close> and the arbitrary-precision arithmetic library mini-gmp of
  \<open>src/examples/multiprecision/mini-gmp\<close>.

  \<^bold>\<open>The programs.\<close> The server runs provers for its clients. Clients connect to a socket and
  send lines: \<open>run\<close> and \<open>runstdin\<close> start a process with limits on time and memory,
  \<open>interrupt\<close> cancels, \<open>parallel\<close> sets the number of processes that run at once. The loop
  of \<open>main\<close> in \<open>server-unix.c\<close> starts queued requests while slots are free, waits with
  \<open>poll\<close>, and handles terminated processes, new clients, and clients that can be read from
  or written to. It uses an array list with keys (clients, processes), a ring queue
  (requests, pending messages), read and write buffers, the parser of requests, options
  and a log. mini-gmp has three layers: operations on limbs of 64 bits, natural numbers
  as arrays of limbs (\<open>mpn\<close>), and integers as structures that own such an array (\<open>mpz\<close>).

  \<^bold>\<open>Conventions.\<close> Theory \<open>Prelude\<close> has the result type \<open>c_error + 'a\<close>: failed assertions,
  null and freed pointers, reads outside an array or before it is written, overlapping
  \<open>memcpy\<close>, signed overflow, \<open>abort\<close> and \<open>exit\<close> are values. Arrays are lists of optional
  cells; \<open>unsigned\<close> and \<open>size_t\<close> are words of 32 and 64 bits, \<open>int\<close> is an integer with its
  range checked where the code can leave it. Server code is a function on the record
  \<open>server\<close> that ends normally, by \<open>exit\<close>, or in an error. System calls answer from
  sequences in the state, and a result that the documentation of the call excludes counts
  as none; what the server does to the outside is recorded in order. The memory of
  mini-gmp is a function from addresses to limbs, and the heap of the \<open>mpz\<close> layer records
  the allocated blocks, so that aliasing of operands, leaks and double frees are visible.

  \<^bold>\<open>Theories of the server.\<close>
  \<^item> \<open>Arraylist\<close> (\<open>arraylist.c\<close>): model, and a locale for keyed stores that it interprets:
    lookup after insertion and removal.
  \<^item> \<open>Ringqueue\<close> (\<open>queue.c\<close>): model with 32-bit indices, and a locale for queues; the array
    with its wrap-around refines a list up to a capacity of \<open>2 ^ 31\<close>.
  \<^item> \<open>Readbuf\<close>, \<open>Writebuf\<close> (\<open>readbuf.c\<close>, \<open>writebuf.c\<close>): the unread bytes, and the stream of
    bytes still to be written, with a locale for output streams.
  \<^item> \<open>Cstring\<close>, \<open>Request\<close> (\<open>request.c\<close>): strings and numbers of the C library; the parser of
    requests against a grammar of fields; the queue of requests.
  \<^item> \<open>Options\<close> (\<open>options.c\<close>, \<open>logging.c\<close>), \<open>Proc\<close> (\<open>proc.c\<close>).
  \<^item> \<open>Server_state\<close>, \<open>Server_unix\<close>, \<open>Server_main\<close> (\<open>server-unix.c\<close>): state and sequencing,
    every function of the file, and the loops of \<open>main\<close> with their termination.
  \<^item> \<open>Server_inv\<close>, \<open>Server_jobs\<close>, \<open>Server_input\<close>, \<open>Server_clients\<close>, \<open>Server_safety\<close>,
    \<open>Server_loop\<close>, \<open>Server_init\<close>: an invariant of the state and a potential that bounds the
    memory of the queues, and for each function that it keeps both and does not fail; the
    initialisation establishes them.
  \<^item> \<open>Container_props\<close>, \<open>Server_props\<close>: the properties.

  \<^bold>\<open>Theories of mini-gmp.\<close>
  \<^item> \<open>Limb\<close>, \<open>Limb_div\<close>, \<open>Limb_inv\<close>: products and quotients of double limbs and the
    reciprocals of one and two limbs; their values are exact although all arithmetic
    wraps around.
  \<^item> \<open>Mpn\<close>, \<open>Mpn_arith\<close>, \<open>Mpn_bits\<close>: addition, subtraction, multiplication, shifts and
    comparison of limb arrays, with their values and the addresses they write.
  \<^item> \<open>Mpn_div\<close>, \<open>Mpn_div_value\<close>, \<open>Mpn_div_two\<close>, \<open>Mpn_div_pi1\<close>, \<open>Mpn_div_qr\<close>: division by one,
    two and more limbs.
  \<^item> \<open>Mpz\<close>, \<open>Mpz_arith\<close>, \<open>Mpz_div\<close>: structures, allocation, assignment, comparison, sums,
    products and divisions of integers.
  \<^item> \<open>Mpz_heap\<close>: the invariant of the heap. \<open>Mpz_value\<close>, \<open>Mpz_set\<close>, \<open>Mpz_mul\<close>, \<open>Mpz_ops\<close>,
    \<open>Mpz_shift\<close>, \<open>Mpz_div_value\<close>: each function stores the integer it is meant to store,
    for all choices of aliased operands, and keeps the invariant. \<open>Mpz_program\<close>:
    sequences of calls.
  \<^item> \<open>Mpn_props\<close>, \<open>Mpn_div_props\<close>, \<open>Mpz_props\<close>: the properties.

  \<^bold>\<open>Number theory of mini-gmp.\<close> \<open>Mpz_div_small\<close>: division by a limb and by a power of
  two. \<open>Mpz_env\<close>: rules that compose calls into functions with local structures.
  \<open>Mpz_gcd\<close>: greatest common divisors and least common multiples. \<open>Mpz_pow\<close>:
  powers, factorials and binomial coefficients. \<open>Mpz_num_props\<close>: their properties.

  \<^bold>\<open>Further programs.\<close> \<open>Uint64gmp\<close> models the double-limb primitives of
  \<open>overlays/uint64gmp.h\<close>, \<open>Cpulimit\<close> the program \<open>cpulimit-unix.c\<close> that the server starts
  for each prover (limits, the parent that waits, the wall clock), and \<open>Mt19937\<close> the random
  numbers of \<open>random/mt19937-64.c\<close>.

  \<^bold>\<open>Bounds.\<close> Recursion of the model follows the loops of the code and is shown to end; no
  fuel is used. The endless loop of \<open>main\<close> is run for any number of turns. Results
  on the \<open>mpz\<close> layer assume that sizes stay below \<open>INT_MAX\<close> limbs, as the fields of the
  structure require; safety of the server assumes less than \<open>2 ^ 28\<close> bytes of input, which
  bounds the queues and the buffers.

  \<^bold>\<open>Not modelled.\<close>
  \<^item> \<open>server-win.c\<close> and \<open>cpulimit-win.c\<close>: they consist of calls of the Windows API
    (completion ports, job objects, overlapped pipes), whose behaviour is not in the
    sources.
  \<^item> The functions of mini-gmp on strings, on \<open>double\<close>, the extended greatest common
    divisor, modular powers, roots, primality and bits; functions over a structure that
    only borrows its limbs (\<open>mpz_ui_pow_ui\<close>, \<open>mpz_powm_ui\<close>, \<open>mpn_sqrtrem\<close>).
  \<^item> \<open>free_request\<close>, \<open>free_process\<close> and \<open>free_readbuf\<close>, which only free memory; the memory
    of the server other than its clients is not tracked.
\<close>

end
